(* ===== verification/Prelude.thy ===== *)
theory Prelude
  imports "HOL-Library.Word"
begin

unbundle bit_operations_syntax

text \<open>
  What the components of the native runtime share: the machine types, byte memories as total
  functions from 64-bit addresses (the abstract contents of a guest address space), the
  arithmetic of masks and shifts on addresses, and small facts on lists and natural numbers.
  The collections \<open>view_simps\<close> and \<open>frame_simps\<close> gather, for each component, the equations that
  say what an operation does to the contents and which fields it leaves as they were.
\<close>

type_synonym u8 = "8 word"
type_synonym u32 = "32 word"
type_synonym u64 = "64 word"

text \<open>A guest memory as its client sees it: a byte at each of the \<open>2 ^ 64\<close> addresses.\<close>

type_synonym memory = "u64 \<Rightarrow> u8"

named_theorems view_simps \<open>what an operation does to the bytes a memory holds\<close>
named_theorems frame_simps \<open>fields an operation leaves as they were\<close>

section \<open>Byte memories\<close>

text \<open>Bytes written one after another from an address on; the address goes on in 64 bits.\<close>

fun upd_bytes :: "memory \<Rightarrow> u64 \<Rightarrow> u8 list \<Rightarrow> memory" where
  "upd_bytes f a [] = f"
| "upd_bytes f a (b # bs) = upd_bytes (f(a := b)) (a + 1) bs"

definition read_bytes :: "memory \<Rightarrow> u64 \<Rightarrow> nat \<Rightarrow> u8 list" where
  "read_bytes f a n = map (\<lambda>i. f (a + of_nat i)) [0..<n]"

text \<open>Address and byte pairs written in order.\<close>

fun upd_pairs :: "memory \<Rightarrow> (u64 \<times> u8) list \<Rightarrow> memory" where
  "upd_pairs f [] = f"
| "upd_pairs f (p # ps) = upd_pairs (f(fst p := snd p)) ps"

lemma upd_bytes_append:
  "upd_bytes f a (bs @ cs) = upd_bytes (upd_bytes f a bs) (a + of_nat (length bs)) cs"
  by (induction bs arbitrary: f a) (auto simp: algebra_simps)

lemma upd_pairs_append: "upd_pairs f (ps @ qs) = upd_pairs (upd_pairs f ps) qs"
  by (induction ps arbitrary: f) auto

lemma read_bytes_length [simp]: "length (read_bytes f a n) = n"
  by (simp add: read_bytes_def)

lemma read_bytes_0 [simp]: "read_bytes f a 0 = []"
  by (simp add: read_bytes_def)

lemma read_bytes_nth [simp]: "i < n \<Longrightarrow> read_bytes f a n ! i = f (a + of_nat i)"
  by (simp add: read_bytes_def)

lemma read_bytes_add:
  "read_bytes f a (m + n) = read_bytes f a m @ read_bytes f (a + of_nat m) n"
  by (rule nth_equalityI) (auto simp: nth_append algebra_simps)

text \<open>
  Up to the size of the address space no byte is written twice, and what a byte is afterwards
  is read off its distance from the start.
\<close>

lemma unat_diff_Suc: "(x::u64) \<noteq> a \<Longrightarrow> unat (x - (a + 1)) = unat (x - a) - 1"
proof -
  assume "x \<noteq> a"
  then have "x - a \<noteq> 0" by simp
  then have "unat (x - a - 1) = unat (x - a) - 1" by (rule unat_minus_one)
  then show ?thesis by (simp add: diff_diff_eq)
qed

lemma upd_bytes_outside:
  assumes "length bs \<le> unat (x - a)"
  shows "upd_bytes f a bs x = f x"
  using assms
proof (induction bs arbitrary: f a)
  case Nil
  then show ?case by simp
next
  case (Cons b bs)
  then have ne: "x \<noteq> a" by auto
  then have "unat (x - (a + 1)) = unat (x - a) - 1"
    by (rule unat_diff_Suc)
  then have "length bs \<le> unat (x - (a + 1))"
    using Cons.prems by simp
  then show ?case using Cons.IH ne by simp
qed

lemma upd_bytes_inside:
  assumes "unat (x - a) < length bs" "length bs \<le> 2 ^ 64"
  shows "upd_bytes f a bs x = bs ! unat (x - a)"
  using assms
proof (induction bs arbitrary: f a)
  case Nil
  then show ?case by simp
next
  case (Cons b bs)
  show ?case
  proof (cases "x = a")
    case True
    have "length bs \<le> unat (a - (a + 1))"
      using Cons.prems(2) by (simp add: unsigned_minus_1_eq_mask mask_eq_exp_minus_1)
    then show ?thesis using True by (simp add: upd_bytes_outside)
  next
    case False
    then have u: "unat (x - (a + 1)) = unat (x - a) - 1" by (rule unat_diff_Suc)
    have pos: "0 < unat (x - a)" using False by (simp add: unat_gt_0)
    show ?thesis using Cons.IH [of "a + 1"] Cons.prems u pos by (simp add: nth_Cons')
  qed
qed

lemma upd_bytes_apply:
  "length bs \<le> 2 ^ 64 \<Longrightarrow>
   upd_bytes f a bs x = (if unat (x - a) < length bs then bs ! unat (x - a) else f x)"
  by (simp add: upd_bytes_inside upd_bytes_outside)

lemma upd_bytes_eqI:
  assumes "length bs \<le> 2 ^ 64"
    and "\<And>x. g x = (if unat (x - a) < length bs then bs ! unat (x - a) else f x)"
  shows "g = upd_bytes f a bs"
  using assms by (auto simp: upd_bytes_apply)

lemma upd_bytes_pairs:
  "upd_bytes f a bs = upd_pairs f (map (\<lambda>i. (a + of_nat i, bs ! i)) [0..<length bs])"
proof (induction bs arbitrary: f a)
  case Nil
  then show ?case by simp
next
  case (Cons b bs)
  have "map (\<lambda>i. (a + of_nat i, (b # bs) ! i)) [0..<length (b # bs)] =
      (a, b) # map (\<lambda>i. (a + 1 + of_nat i, bs ! i)) [0..<length bs]"
    by (rule nth_equalityI) (auto simp: nth_Cons' of_nat_diff simp del: upt_Suc)
  then show ?case by (simp only: upd_bytes.simps upd_pairs.simps Cons.IH fst_conv snd_conv)
qed

text \<open>How many of \<open>n\<close> bytes, from an offset on, are in a part of some size.\<close>

lemma part_count:
  assumes "c = (if s - off < n then s - off else n)" "off < (s::nat)"
  shows "off + c \<le> s" "c \<le> n" "0 < n \<Longrightarrow> 0 < c"
  using assms by auto

lemma part_div:
  assumes "r < (c::nat)"
  shows "(c * q + r) div c = q" "(c * q + r) mod c = r"
  using assms by simp_all

section \<open>Lists\<close>

lemma distinct_concat_disjoint:
  assumes "\<And>i. i < n \<Longrightarrow> distinct (f i)" "\<And>i j. i < n \<Longrightarrow> j < n \<Longrightarrow> i \<noteq> j \<Longrightarrow> set (f i) \<inter> set (f j) = {}"
  shows "distinct (concat (map f [0..<n]))"
  using assms
proof (induction n)
  case (Suc n)
  have "distinct (concat (map f [0..<n]))" by (rule Suc.IH) (use Suc.prems in auto)
  moreover have "x \<notin> set (f n)" if "i < n" "x \<in> set (f i)" for i x
    using Suc.prems(2) [of i n] that by auto
  ultimately show ?case using Suc.prems(1) [of n] by auto
qed simp

lemma sorted_wrt_last: "sorted_wrt R xs \<Longrightarrow> x \<in> set xs \<Longrightarrow> x = last xs \<or> R x (last xs)"
  by (cases xs rule: rev_cases) (auto simp: sorted_wrt_append)

lemma sorted_wrt_hd: "sorted_wrt R xs \<Longrightarrow> x \<in> set xs \<Longrightarrow> x = hd xs \<or> R (hd xs) x"
  by (cases xs) auto

section \<open>Options\<close>

lemma option_Some_eqI: "(\<And>y. x = Some y \<longleftrightarrow> x' = Some y) \<Longrightarrow> x = x'"
  by (cases x; cases x') auto

section \<open>Masks and shifts of addresses\<close>

lemma unat64_less: "unat (a::u64) < 2 ^ 64"
proof -
  have "unat a < 2 ^ LENGTH(64)" by (rule unsigned_less)
  then show ?thesis by simp
qed

lemma unat_and_mask64: "unat ((a::u64) AND mask n) = unat a mod 2 ^ n"
  by (simp only: take_bit_eq_mask [symmetric] unsigned_take_bit_eq) (simp add: take_bit_eq_mod)

lemma upd_pairs_lookup:
  "distinct (map fst ps) \<Longrightarrow> upd_pairs f ps a = (case map_of ps a of None \<Rightarrow> f a | Some v \<Rightarrow> v)"
proof (induction ps arbitrary: f)
  case (Cons p ps)
  have "map_of ps (fst p) = None" using Cons.prems by (simp add: map_of_eq_None_iff)
  then show ?case using Cons by (auto split: option.split)
qed simp

text \<open>The cells of the log, written to what the memory was, make it what it is.\<close>

end
