(* ===== verification/PagedMemory.thy ===== *)
theory PagedMemory
  imports Prelude
begin

unbundle bit_operations_syntax

text \<open>
  The guest address space of \<open>native/paged_memory.h\<close>, class \<open>PagedMemory\<close>: pages of 4096 bytes
  found through a table of four levels, the chunks that pages come out of, and the journal of
  what a step wrote. Nodes and pages live in an explicit store, so that aliasing is visible: a
  node is a number, a page is the number of its chunk and its place in it, and an entry of a node
  is a \<open>void *\<close> that is null, a node or a page. A word of 8 bytes, which the code loads, stores or
  exchanges at once, is its bytes in memory order, so that nothing depends on the byte order of
  the host. What the system answers to a request for memory is the parameter \<open>host\<close>: whether the
  n-th request, for a chunk or a node, succeeds; a failed one is the \<open>std::bad_alloc\<close> of the code. The vectors of the
  class (\<open>chunks\<close>, \<open>unused\<close> and \<open>stepWrites\<close>) are lists, which are taken to grow.
  This theory holds the definitions; the proofs about them are in the theories named after it.
\<close>

section \<open>Constants and state\<close>

definition pageBits :: nat where [simp]: "pageBits = 12"
definition pageSize :: nat where [simp]: "pageSize = 4096"
definition wordSize :: nat where [simp]: "wordSize = 8"
definition levelBits :: nat where [simp]: "levelBits = 13"
definition levels :: nat where [simp]: "levels = 4"
definition fanout :: nat where [simp]: "fanout = 8192"
definition chunkPages :: nat where [simp]: "chunkPages = 256"
definition stepLimit :: nat where "stepLimit = 2 ^ 22"

text \<open>A page is \<open>chunks[c] + pageSize * k\<close>, here \<open>PageAt c k\<close>.\<close>

datatype page_ptr = PageAt (page_chunk: nat) (page_place: nat)

datatype void_ptr = Null | ToNode nat | ToPage page_ptr

text \<open>Whether the system grants the n-th request for memory.\<close>

type_synonym host = "nat \<Rightarrow> bool"

text \<open>
  \<open>entries n i\<close> is entry \<open>i\<close> of node \<open>n\<close>; the root is node 0. \<open>unused\<close> has the back of the vector
  at its head. \<open>asked\<close> counts the requests for memory made so far.
\<close>

record paged =
  entries :: "nat \<Rightarrow> nat \<Rightarrow> void_ptr"
  nodes :: nat
  chunks :: nat
  unused :: "page_ptr list"
  chunkUsed :: nat
  page_bytes :: "page_ptr \<Rightarrow> nat \<Rightarrow> u8"
  asked :: nat
  stepOpen :: bool
  stepWrites :: "(u64 \<times> u8) list"
  stepOverflowed :: bool

text \<open>The default constructor: a root of null entries, no chunk, and no step.\<close>

definition new_memory :: paged where
  "new_memory = \<lparr>entries = (\<lambda>_ _. Null), nodes = 1, chunks = 0, unused = [], chunkUsed = chunkPages,
     page_bytes = (\<lambda>_ _. 0), asked = 0, stepOpen = False, stepWrites = [], stepOverflowed = False\<rparr>"

definition indexAt :: "u64 \<Rightarrow> nat \<Rightarrow> nat" where
  "indexAt address level =
     unat (drop_bit (pageBits + (levels - 1 - level) * levelBits) address AND of_nat (fanout - 1))"

section \<open>Chunks, pages and nodes\<close>

text \<open>A new chunk is zeros, as \<open>mmap\<close> gives it, or \<open>memset\<close> makes it on Windows.\<close>

definition newChunk :: "host \<Rightarrow> paged \<Rightarrow> nat option \<times> paged" where
  "newChunk h m =
     (let m' = m\<lparr>asked := Suc (asked m)\<rparr>
      in if h (asked m)
         then (Some (chunks m), m'\<lparr>page_bytes := (\<lambda>p. if page_chunk p = chunks m then (\<lambda>_. 0) else page_bytes m p)\<rparr>)
         else (None, m'))"

definition newPage :: "host \<Rightarrow> paged \<Rightarrow> page_ptr option \<times> paged" where
  "newPage h m =
     (case unused m of
        page # rest \<Rightarrow> (Some page, m\<lparr>unused := rest\<rparr>)
      | [] \<Rightarrow>
          (case (if chunkUsed m = chunkPages
                 then (case newChunk h m of
                         (None, m') \<Rightarrow> (False, m')
                       | (Some _, m') \<Rightarrow> (True, m'\<lparr>chunks := Suc (chunks m'), chunkUsed := 0\<rparr>))
                 else (True, m)) of
             (False, m') \<Rightarrow> (None, m')
           | (True, m') \<Rightarrow> (Some (PageAt (chunks m' - 1) (chunkUsed m')), m'\<lparr>chunkUsed := Suc (chunkUsed m')\<rparr>)))"

definition unusedPage :: "page_ptr \<Rightarrow> paged \<Rightarrow> paged" where
  "unusedPage page m = m\<lparr>unused := page # unused m\<rparr>"

text \<open>\<open>new Node\<close>: every entry is null.\<close>

definition newNode :: "host \<Rightarrow> paged \<Rightarrow> nat option \<times> paged" where
  "newNode h m =
     (let m' = m\<lparr>asked := Suc (asked m)\<rparr>
      in if h (asked m)
         then (Some (nodes m), m'\<lparr>nodes := Suc (nodes m), entries := (entries m)(nodes m := (\<lambda>_. Null))\<rparr>)
         else (None, m'))"

definition set_entry :: "nat \<Rightarrow> nat \<Rightarrow> void_ptr \<Rightarrow> paged \<Rightarrow> paged" where
  "set_entry n i v m = m\<lparr>entries := (entries m)(n := (entries m n)(i := v))\<rparr>"

text \<open>
  \<open>compare_exchange_strong\<close> on an entry: whether it had what was expected, what it had, and the
  memory after it.
\<close>

definition exchange_entry ::
  "nat \<Rightarrow> nat \<Rightarrow> void_ptr \<Rightarrow> void_ptr \<Rightarrow> paged \<Rightarrow> bool \<times> void_ptr \<times> paged" where
  "exchange_entry n i expected desired m =
     (if entries m n i = expected then (True, expected, set_entry n i desired m)
      else (False, entries m n i, m))"

section \<open>Finding and making the page of an address\<close>

text \<open>
  An entry as what the code casts it to: nothing if it is null, or of the other kind, which the
  level that it is on rules out. In the walk down the table, \<open>k\<close> is how many levels are left below
  the node, so that the level of the loop is \<open>levels - 1 - k\<close>.
\<close>

fun as_node :: "void_ptr \<Rightarrow> nat option" where
  "as_node (ToNode n) = Some n"
| "as_node _ = None"

fun as_page :: "void_ptr \<Rightarrow> page_ptr option" where
  "as_page (ToPage p) = Some p"
| "as_page _ = None"

fun find_from :: "paged \<Rightarrow> u64 \<Rightarrow> nat \<Rightarrow> nat \<Rightarrow> page_ptr option" where
  "find_from m address 0 n = as_page (entries m n (indexAt address (levels - 1)))"
| "find_from m address (Suc k) n =
     (case as_node (entries m n (indexAt address (levels - 1 - Suc k))) of
        None \<Rightarrow> None
      | Some c \<Rightarrow> find_from m address k c)"

definition find_page :: "paged \<Rightarrow> u64 \<Rightarrow> page_ptr option" where
  "find_page m address = find_from m address (levels - 1) 0"

fun ensure_from :: "host \<Rightarrow> u64 \<Rightarrow> nat \<Rightarrow> nat \<Rightarrow> paged \<Rightarrow> page_ptr option \<times> paged" where
  "ensure_from h address 0 n m =
     (let i = indexAt address (levels - 1)
      in case entries m n i of
           Null \<Rightarrow>
             (case newPage h m of
                (None, m1) \<Rightarrow> (None, m1)
              | (Some made, m1) \<Rightarrow>
                  (case exchange_entry n i Null (ToPage made) m1 of
                     (True, _, m2) \<Rightarrow> (Some made, m2)
                   | (False, ToPage p, m2) \<Rightarrow> (Some p, unusedPage made m2)
                   | (False, _, m2) \<Rightarrow> (None, m2)))
         | ToPage p \<Rightarrow> (Some p, m)
         | ToNode _ \<Rightarrow> (None, m))"
| "ensure_from h address (Suc k) n m =
     (let i = indexAt address (levels - 1 - Suc k)
      in case entries m n i of
           Null \<Rightarrow>
             (case newNode h m of
                (None, m1) \<Rightarrow> (None, m1)
              | (Some made, m1) \<Rightarrow>
                  (case exchange_entry n i Null (ToNode made) m1 of
                     (True, _, m2) \<Rightarrow> ensure_from h address k made m2
                   | (False, ToNode c, m2) \<Rightarrow> ensure_from h address k c m2
                   | (False, _, m2) \<Rightarrow> (None, m2)))
         | ToNode c \<Rightarrow> ensure_from h address k c m
         | ToPage _ \<Rightarrow> (None, m))"

definition ensure :: "host \<Rightarrow> u64 \<Rightarrow> paged \<Rightarrow> page_ptr option \<times> paged" where
  "ensure h address m = ensure_from h address (levels - 1) 0 m"

section \<open>Words\<close>

text \<open>Where in its page the word of an address is, and where in the word the address is.\<close>

definition wordAt :: "u64 \<Rightarrow> nat" where
  "wordAt address = unat (address AND of_nat (pageSize - wordSize))"

definition word_offset :: "u64 \<Rightarrow> nat" where
  "word_offset address = unat (address AND of_nat (wordSize - 1))"

definition load_word :: "paged \<Rightarrow> page_ptr \<Rightarrow> nat \<Rightarrow> u8 list" where
  "load_word m p at = map (\<lambda>i. page_bytes m p (at + i)) [0..<wordSize]"

definition put_bytes :: "page_ptr \<Rightarrow> nat \<Rightarrow> u8 list \<Rightarrow> paged \<Rightarrow> paged" where
  "put_bytes p at bs m =
     m\<lparr>page_bytes := (page_bytes m)(p := (\<lambda>o'. if at \<le> o' \<and> o' < at + length bs then bs ! (o' - at)
                                              else page_bytes m p o'))\<rparr>"

text \<open>\<open>std::memcpy\<close> of some bytes into a word that was read.\<close>

definition splice :: "u8 list \<Rightarrow> nat \<Rightarrow> u8 list \<Rightarrow> u8 list" where
  "splice word offset bs = take offset word @ bs @ drop (offset + length bs) word"

definition loadWord :: "paged \<Rightarrow> u64 \<Rightarrow> u8 list" where
  "loadWord m address =
     (case find_page m address of
        None \<Rightarrow> replicate wordSize 0
      | Some p \<Rightarrow> load_word m p (wordAt address))"

text \<open>
  With the page in hand: the whole word is stored, and a part of it exchanged for the word with
  that part replaced. Alone, the exchange finds the word it read; what other threads do between
  the two is the subject of the theory of concurrent stores.
\<close>

definition store_on_page :: "page_ptr \<Rightarrow> u64 \<Rightarrow> u8 list \<Rightarrow> paged \<Rightarrow> paged" where
  "store_on_page p address bs m =
     (if length bs = wordSize then put_bytes p (wordAt address) bs m
      else put_bytes p (wordAt address)
             (splice (load_word m p (wordAt address)) (word_offset address) bs) m)"

text \<open>Whether it went well (no \<open>bad_alloc\<close>), and the memory after it.\<close>

definition storeInWord :: "host \<Rightarrow> u64 \<Rightarrow> u8 list \<Rightarrow> paged \<Rightarrow> bool \<times> paged" where
  "storeInWord h address bs m =
     (if list_all (\<lambda>b. b = 0) bs
      then (case find_page m address of
              None \<Rightarrow> (True, m)
            | Some p \<Rightarrow> (True, store_on_page p address bs m))
      else (case ensure h address m of
              (None, m') \<Rightarrow> (False, m')
            | (Some p, m') \<Rightarrow> (True, store_on_page p address bs m')))"

section \<open>Accesses of any size\<close>

text \<open>
  The loops of \<open>load\<close> and \<open>store\<close>: \<open>address\<close> is \<open>address + done\<close> of the code, and what is left is
  \<open>size - done\<close>.
\<close>

function load :: "paged \<Rightarrow> u64 \<Rightarrow> nat \<Rightarrow> u8 list" where
  "load m address sz =
     (if sz = 0 then []
      else let offset = word_offset address;
               count = (if wordSize - offset < sz then wordSize - offset else sz)
           in take count (drop offset (loadWord m address)) @ load m (address + of_nat count) (sz - count))"
  by pat_completeness auto

lemma unat_and_mask_less: "unat (x AND of_nat (2 ^ n - 1) :: u64) < 2 ^ n"
  using unat_and_mask64 [of x n] by (simp add: mask_eq_exp_minus_1 of_nat_diff)

lemma word_offset_less [simp]: "word_offset a < 8"
  using unat_and_mask_less [of a 3] by (simp add: word_offset_def)

lemma count_pos: "0 < sz \<Longrightarrow> 0 < (if wordSize - word_offset a < sz then wordSize - word_offset a else sz)"
  using word_offset_less [of a] by simp

termination load
  by (relation "measure (\<lambda>(m, address, sz). sz)") (use count_pos in auto)

function store :: "host \<Rightarrow> u64 \<Rightarrow> u8 list \<Rightarrow> paged \<Rightarrow> bool \<times> paged" where
  "store h address bs m =
     (if bs = [] then (True, m)
      else let offset = word_offset address;
               count = (if wordSize - offset < length bs then wordSize - offset else length bs)
           in case storeInWord h address (take count bs) m of
                (False, m') \<Rightarrow> (False, m')
              | (True, m') \<Rightarrow> store h (address + of_nat count) (drop count bs) m')"
  by pat_completeness auto
termination store
  by (relation "measure (\<lambda>(h, address, bs, m). length bs)") (use count_pos in auto)

declare load.simps [simp del] store.simps [simp del]

definition read_byte :: "paged \<Rightarrow> u64 \<Rightarrow> u8" where
  "read_byte m address = load m address 1 ! 0"

definition readRange :: "paged \<Rightarrow> u64 \<Rightarrow> nat \<Rightarrow> u8 list" where
  "readRange m address sz = load m address sz"

section \<open>The journal of a step\<close>

text \<open>\<open>stepWrites\<close> has the first write at its head.\<close>

definition beginStep :: "paged \<Rightarrow> paged" where
  "beginStep m = m\<lparr>stepWrites := [], stepOverflowed := False, stepOpen := True\<rparr>"

definition endStep :: "paged \<Rightarrow> paged" where
  "endStep m = m\<lparr>stepOpen := False, stepWrites := [], stepOverflowed := False\<rparr>"

definition stepActive :: "paged \<Rightarrow> bool" where
  "stepActive m = stepOpen m"

definition noteStep :: "u64 \<Rightarrow> nat \<Rightarrow> paged \<Rightarrow> paged" where
  "noteStep address sz m =
     (if \<not> stepActive m then m
      else if stepOverflowed m then m
      else if stepLimit \<le> length (stepWrites m) then m\<lparr>stepOverflowed := True, stepWrites := []\<rparr>
      else m\<lparr>stepWrites := stepWrites m @ [(address, of_nat sz)]\<rparr>)"

text \<open>\<open>std::sort\<close>, and \<open>std::unique\<close> with \<open>erase\<close>, on what \<open>addresses\<close> had and what was written.\<close>

definition write_addresses :: "u64 \<times> u8 \<Rightarrow> u64 list" where
  "write_addresses w = map (\<lambda>i. fst w + of_nat i) [0..<unat (snd w)]"

definition stepAddresses :: "paged \<Rightarrow> u64 list \<Rightarrow> u64 list option" where
  "stepAddresses m addresses =
     (if stepOverflowed m \<or> \<not> stepOpen m then None
      else Some (remdups_adj (sort (addresses @ concat (map write_addresses (stepWrites m))))))"

section \<open>Writing in bulk\<close>

text \<open>
  \<open>writeAll\<close>: the addresses and values as pairs. \<open>run_from\<close> is its inner loop, that looks how many
  of the pairs that follow go on in the same word.
\<close>

fun run_from :: "u64 \<Rightarrow> nat \<Rightarrow> nat \<Rightarrow> u64 list \<Rightarrow> nat" where
  "run_from at room run [] = run"
| "run_from at room run (x # xs) =
     (if run \<noteq> room \<and> x = at + of_nat run then run_from at room (Suc run) xs else run)"

lemma run_from_ge: "run \<le> run_from at room run xs"
  by (induction xs arbitrary: run) (auto intro: Suc_leD)

function writeAll :: "host \<Rightarrow> (u64 \<times> u8) list \<Rightarrow> paged \<Rightarrow> bool \<times> paged" where
  "writeAll h [] m = (True, m)"
| "writeAll h (p # ps) m =
     (let at = fst p;
          room = wordSize - word_offset at;
          run = run_from at room 1 (map fst ps)
      in case storeInWord h at (map snd (take run (p # ps))) m of
           (False, m') \<Rightarrow> (False, m')
         | (True, m') \<Rightarrow> writeAll h (drop run (p # ps)) (noteStep at run m'))"
  by pat_completeness auto
termination writeAll
proof (relation "measure (\<lambda>(h, ps, m). length ps)", goal_cases)
  case (2 h p ps m at room run)
  then show ?case using run_from_ge [of 1 at room "map fst ps"] by simp
qed simp

declare writeAll.simps(2) [simp del]

text \<open>
  \<open>fill\<close>: \<open>bs\<close> is what is left of the bytes, \<open>done\<close> how many there were before it. The test that a
  part is all zeros is the one of the code: the first byte is 0, and each is the one before it.
\<close>

definition is_zero :: "u8 list \<Rightarrow> bool" where
  "is_zero bs \<longleftrightarrow> hd bs = 0 \<and> take (length bs - 1) bs = take (length bs - 1) (tl bs)"

definition page_offset :: "u64 \<Rightarrow> nat" where
  "page_offset address = unat (address AND of_nat (pageSize - 1))"

lemma page_offset_less [simp]: "page_offset a < 4096"
  using unat_and_mask_less [of a 12] by (simp add: page_offset_def)

function fill_from :: "host \<Rightarrow> u64 \<Rightarrow> nat \<Rightarrow> u8 list \<Rightarrow> paged \<Rightarrow> bool \<times> paged" where
  "fill_from h address done' bs m =
     (if bs = [] then (True, m)
      else let at = address + of_nat done'
           in if at < address then (True, m)
              else let offset = page_offset at;
                       count = (if pageSize - offset < length bs then pageSize - offset else length bs);
                       from' = take count bs;
                       made = (if is_zero from' then (True, find_page m at, m)
                               else case ensure h at m of
                                      (None, m') \<Rightarrow> (False, None, m')
                                    | (Some p, m') \<Rightarrow> (True, Some p, m'))
                   in case made of
                        (False, _, m') \<Rightarrow> (False, m')
                      | (True, None, m') \<Rightarrow> fill_from h address (done' + count) (drop count bs) m'
                      | (True, Some p, m') \<Rightarrow>
                          fill_from h address (done' + count) (drop count bs) (put_bytes p offset from' m'))"
  by pat_completeness auto
termination fill_from
  by (relation "measure (\<lambda>(h, address, done', bs, m). length bs)") (use page_offset_less in \<open>auto split: if_splits\<close>)

declare fill_from.simps [simp del]

definition fill :: "host \<Rightarrow> u64 \<Rightarrow> u8 list \<Rightarrow> paged \<Rightarrow> bool \<times> paged" where
  "fill h address bs m = fill_from h address 0 bs m"

section \<open>Each page there is\<close>

text \<open>
  \<open>visit\<close> as the calls of its action, in order. The actions that the code visits with change bytes
  of the memory visited and none of its entries, so that what is visited doesn't depend on them.
\<close>

fun visit :: "paged \<Rightarrow> nat \<Rightarrow> nat \<Rightarrow> u64 \<Rightarrow> (u64 \<times> page_ptr) list" where
  "visit m 0 n prefix =
     concat (map (\<lambda>i. case as_page (entries m n i) of
         None \<Rightarrow> []
       | Some p \<Rightarrow> [(prefix OR push_bit pageBits (of_nat i), p)]) [0..<fanout])"
| "visit m (Suc k) n prefix =
     concat (map (\<lambda>i. case as_node (entries m n i) of
         None \<Rightarrow> []
       | Some c \<Rightarrow> visit m k c (prefix OR push_bit (pageBits + Suc k * levelBits) (of_nat i))) [0..<fanout])"

definition forEachPage :: "paged \<Rightarrow> (u64 \<times> page_ptr) list" where
  "forEachPage m = visit m (levels - 1) 0 0"

text \<open>The nodes that \<open>clear\<close> deletes, in order.\<close>

fun clear_from :: "paged \<Rightarrow> nat \<Rightarrow> nat \<Rightarrow> nat list" where
  "clear_from m 0 n = []"
| "clear_from m (Suc k) n =
     concat (map (\<lambda>i. case as_node (entries m n i) of
         None \<Rightarrow> []
       | Some c \<Rightarrow> clear_from m k c @ [c]) [0..<fanout])"

text \<open>The destructor: the nodes that it deletes, and the chunks that it frees.\<close>

definition destroy :: "paged \<Rightarrow> nat list \<times> nat list" where
  "destroy m = (clear_from m (levels - 1) 0, [0..<chunks m])"

fun copy_pages :: "host \<Rightarrow> paged \<Rightarrow> (u64 \<times> page_ptr) list \<Rightarrow> paged \<Rightarrow> bool \<times> paged" where
  "copy_pages h other [] m = (True, m)"
| "copy_pages h other (w # ws) m =
     (case ensure h (fst w) m of
        (None, m') \<Rightarrow> (False, m')
      | (Some to', m') \<Rightarrow>
          copy_pages h other ws
            (foldl (\<lambda>m offset. put_bytes to' offset (load_word other (snd w) offset) m) m'
               (map (\<lambda>k. k * wordSize) [0..<pageSize div wordSize])))"

definition copyFrom :: "host \<Rightarrow> paged \<Rightarrow> paged \<Rightarrow> bool \<times> paged" where
  "copyFrom h other m = copy_pages h other (forEachPage other) m"

section \<open>Zeros in a range\<close>

text \<open>
  The loop of \<open>zeroInPage\<close> from word to word. A store of zeros makes no page, and so doesn't fail.
\<close>

function zero_words :: "host \<Rightarrow> page_ptr \<Rightarrow> u64 \<Rightarrow> u64 \<Rightarrow> paged \<Rightarrow> paged" where
  "zero_words h page upper at m =
     (let wordEnd = at OR of_nat (wordSize - 1);
          end' = (if wordEnd < upper then wordEnd else upper);
          count = unat (end' - at) + 1;
          zeros = replicate count 0;
          m' = (if take count (drop (word_offset at) (load_word m page (wordAt at))) \<noteq> zeros
                then noteStep at count (snd (storeInWord h at zeros m)) else m)
      in if end' = upper then m' else zero_words h page upper (end' + 1) m')"
  by pat_completeness auto

lemma word_next:
  assumes "at \<le> w" "w < (upper::u64)"
  shows "unat (w + 1) = unat w + 1" "unat upper - unat (w + 1) < unat upper - unat at"
proof -
  have "unat w + 1 < 2 ^ 64" using assms(2) unat64_less [of upper] by (simp add: word_less_nat_alt)
  then show u: "unat (w + 1) = unat w + 1" by (simp add: unat_word_ariths)
  show "unat upper - unat (w + 1) < unat upper - unat at"
    using assms unfolding u by (simp add: word_less_nat_alt word_le_nat_alt)
qed

termination zero_words
proof (relation "measure (\<lambda>(h, page, upper, at, m). unat upper - unat at)", goal_cases)
  case (2 h page upper at m wordEnd end')
  then have "end' = wordEnd" "wordEnd < upper" by (auto split: if_splits)
  then show ?case using word_next(2) [of at wordEnd upper] le_word_or2 [of at 7] 2 by simp
qed simp

declare zero_words.simps [simp del]

definition zeroInPage :: "host \<Rightarrow> u64 \<Rightarrow> u64 \<Rightarrow> u64 \<Rightarrow> page_ptr \<Rightarrow> paged \<Rightarrow> paged" where
  "zeroInPage h first last' base page m =
     (let lower = (if base < first then first else base);
          upper = (if last' < base + of_nat (pageSize - 1) then last' else base + of_nat (pageSize - 1))
      in if last' < base \<or> base + of_nat (pageSize - 1) < first then m
         else zero_words h page upper lower m)"

text \<open>
  The loop from page to page, of at most \<open>fuel\<close> rounds: it ends before \<open>zeroRange\<close> runs out of
  them (None), as the range has fewer than \<open>2 ^ 16\<close> pages after its first.
\<close>

definition page_base :: "u64 \<Rightarrow> u64" where
  "page_base address = address AND NOT (of_nat (pageSize - 1))"

fun zero_pages :: "host \<Rightarrow> u64 \<Rightarrow> u64 \<Rightarrow> nat \<Rightarrow> u64 \<Rightarrow> paged \<Rightarrow> paged option" where
  "zero_pages h first last' 0 base m = None"
| "zero_pages h first last' (Suc fuel) base m =
     (let m' = (case find_page m base of None \<Rightarrow> m | Some page \<Rightarrow> zeroInPage h first last' base page m)
      in if page_base last' \<le> base then Some m'
         else zero_pages h first last' fuel (base + of_nat pageSize) m')"

definition zeroRange :: "host \<Rightarrow> u64 \<Rightarrow> u64 \<Rightarrow> paged \<Rightarrow> paged option" where
  "zeroRange h first last' m =
     (if last' < first then Some m
      else if drop_bit pageBits last' - drop_bit pageBits first < 2 ^ 16
      then zero_pages h first last' (2 ^ 16) (page_base first) m
      else Some (foldl (\<lambda>m w. zeroInPage h first last' (fst w) (snd w) m) m (forEachPage m)))"

section \<open>Giving memory back to the system\<close>

text \<open>
  \<open>madvise\<close> with \<open>MADV_DONTNEED\<close>: what is private to the process and not of a file reads as zeros
  afterwards. \<open>samePages\<close> is whether the pages of the system have the size of those here.
\<close>

definition dont_need :: "page_ptr \<Rightarrow> paged \<Rightarrow> paged" where
  "dont_need p m = m\<lparr>page_bytes := (page_bytes m)(p := (\<lambda>o'. if o' < pageSize then 0 else page_bytes m p o'))\<rparr>"

definition trim_page :: "u64 \<Rightarrow> u64 \<Rightarrow> paged \<Rightarrow> u64 \<times> page_ptr \<Rightarrow> paged" where
  "trim_page start last' m w =
     (let address = fst w; end' = address + of_nat (pageSize - 1)
      in if address < start \<or> last' < end' \<or> end' < address then m
         else if list_all (\<lambda>k. load_word m (snd w) (k * wordSize) = replicate wordSize 0) [0..<pageSize div wordSize]
         then dont_need (snd w) m else m)"

definition trim :: "bool \<Rightarrow> u64 \<Rightarrow> u64 \<Rightarrow> paged \<Rightarrow> paged" where
  "trim samePages first last' m =
     (if \<not> samePages \<or> last' < first then m
      else let start = page_base (first + of_nat (pageSize - 1))
           in if start < first then m else foldl (trim_page start last') m (forEachPage m))"

end
