(* ===== verification/PagedTable.thy ===== *)
theory PagedTable
  imports PagedMemory
begin

unbundle bit_operations_syntax

text \<open>
  The table of a \<^typ>\<open>paged\<close> memory: its well-formedness invariant, that \<^const>\<open>newNode\<close>,
  \<^const>\<open>newPage\<close>, \<^const>\<open>exchange_entry\<close> and \<^const>\<open>ensure\<close> keep it, that a page once there stays,
  and that two addresses share a page only if they are on the same page of the address space.
\<close>

section \<open>The indices of an address\<close>

text \<open>The number of the page of an address, and the place of the address in it.\<close>

definition pageNumber :: "u64 \<Rightarrow> nat" where
  "pageNumber a = unat a div 4096"

definition pageOffset :: "u64 \<Rightarrow> nat" where
  "pageOffset a = unat a mod 4096"

lemma pageOffset_less [simp]: "pageOffset a < 4096"
  by (simp add: pageOffset_def)

lemma page_address: "unat a = 4096 * pageNumber a + pageOffset a"
  by (simp add: pageNumber_def pageOffset_def)

lemma indexAt_alt: "indexAt a l = unat a div 2 ^ (12 + (3 - l) * 13) mod 8192"
proof -
  have m: "(of_nat (8192 - 1) :: u64) = mask 13" by (simp add: mask_eq_exp_minus_1)
  show ?thesis
    by (simp only: indexAt_def pageBits_def levels_def levelBits_def fanout_def m unat_and_mask64
        unat_drop_bit_eq) (simp add: drop_bit_eq_div)
qed

lemma indexAt_less [simp]: "indexAt a l < 8192"
  by (simp add: indexAt_alt)

lemma pageNumber_less: "pageNumber a < 2 ^ 52"
proof -
  have "unat a < 2 ^ 52 * 4096" using unat64_less [of a] by simp
  then show ?thesis unfolding pageNumber_def by (rule less_mult_imp_div_less)
qed

lemma indexAt_digits:
  "indexAt a 0 = pageNumber a div 2 ^ 39 mod 8192" "indexAt a (Suc 0) = pageNumber a div 2 ^ 26 mod 8192"
  "indexAt a 2 = pageNumber a div 2 ^ 13 mod 8192" "indexAt a 3 = pageNumber a mod 8192"
  by (simp_all add: indexAt_alt pageNumber_def div_mult2_eq [symmetric])

text \<open>The number of a page written in base 8192: its four digits are the four indices.\<close>

lemma digits_13: "(n::nat) div 2 ^ k = (n div 2 ^ (k + 13)) * 8192 + n div 2 ^ k mod 8192"
proof -
  have "n div 2 ^ k div 8192 = n div 2 ^ (k + 13)"
    by (simp add: div_mult2_eq power_add flip: div_mult2_eq)
  then show ?thesis by (metis div_mult_mod_eq)
qed

lemma pageNumber_indices:
  "pageNumber a = ((indexAt a 0 * 8192 + indexAt a 1) * 8192 + indexAt a 2) * 8192 + indexAt a 3"
proof -
  define n where "n = pageNumber a"
  have "n div 2 ^ 39 < 8192"
    using pageNumber_less [of a] by (intro less_mult_imp_div_less) (simp add: n_def)
  then have i0: "n div 2 ^ (26 + 13) = indexAt a 0" by (simp add: indexAt_digits n_def)
  have i1: "n div 2 ^ (13 + 13) = indexAt a 0 * 8192 + indexAt a 1"
    using digits_13 [of n 26] unfolding i0 [symmetric] by (simp add: indexAt_digits n_def)
  have i2: "n div 2 ^ (0 + 13) = (indexAt a 0 * 8192 + indexAt a 1) * 8192 + indexAt a 2"
    using digits_13 [of n 13] unfolding i1 [symmetric] by (simp add: indexAt_digits n_def)
  show ?thesis
    using digits_13 [of n 0] unfolding i2 [symmetric] by (simp add: indexAt_digits n_def)
qed

definition indices :: "u64 \<Rightarrow> nat list" where
  "indices a = map (indexAt a) [0..<4]"

lemma upt4: "[0..<4] = [0, Suc 0, 2, 3]"
  by (simp add: upt_rec numeral_eq_Suc)

lemma indices_eq_iff: "indices a = indices b \<longleftrightarrow> pageNumber a = pageNumber b"
proof
  assume "indices a = indices b"
  then have "indexAt a 0 = indexAt b 0" "indexAt a 1 = indexAt b 1" "indexAt a 2 = indexAt b 2"
    "indexAt a 3 = indexAt b 3"
    by (simp_all add: indices_def upt4)
  then show "pageNumber a = pageNumber b" by (simp only: pageNumber_indices)
next
  assume "pageNumber a = pageNumber b"
  then show "indices a = indices b" by (simp add: indices_def upt4 indexAt_digits)
qed

lemma same_page_index: "pageNumber a = pageNumber b \<Longrightarrow> l < 4 \<Longrightarrow> indexAt a l = indexAt b l"
  using indices_eq_iff [of a b] by (simp add: indices_def)

section \<open>The invariant\<close>

text \<open>
  A page that has been given out: of a chunk that is there, before the next one to give.
\<close>

definition given :: "paged \<Rightarrow> page_ptr \<Rightarrow> bool" where
  "given m p \<longleftrightarrow> page_chunk p < chunks m \<and> page_place p < chunkPages \<and>
     (Suc (page_chunk p) = chunks m \<longrightarrow> page_place p < chunkUsed m)"

definition zero_page :: "paged \<Rightarrow> page_ptr \<Rightarrow> bool" where
  "zero_page m p \<longleftrightarrow> (\<forall>o'. page_bytes m p o' = 0)"

text \<open>
  \<open>path n\<close> is the indices from the root to node \<open>n\<close>. An entry that is a node is one level further
  down with one index more, so that no node has two parents; pages are on the last level.
\<close>

definition nodes_ok :: "(nat \<Rightarrow> nat list) \<Rightarrow> paged \<Rightarrow> bool" where
  "nodes_ok path m \<longleftrightarrow> path 0 = [] \<and> 0 < nodes m \<and>
     (\<forall>n i c. entries m n i = ToNode c \<longrightarrow>
        n < nodes m \<and> i < fanout \<and> c < nodes m \<and> length (path n) + 1 < levels \<and> path c = path n @ [i]) \<and>
     (\<forall>n i p. entries m n i = ToPage p \<longrightarrow> n < nodes m \<and> i < fanout \<and> length (path n) + 1 = levels)"

text \<open>
  Each page is the entry of at most one node, has been given out, and isn't among the unused ones;
  what is unused, or was never given out, is zeros.
\<close>

definition pages_ok :: "paged \<Rightarrow> bool" where
  "pages_ok m \<longleftrightarrow>
     (\<forall>n i n' i' p. entries m n i = ToPage p \<and> entries m n' i' = ToPage p \<longrightarrow> n = n' \<and> i = i') \<and>
     (\<forall>n i p. entries m n i = ToPage p \<longrightarrow> given m p \<and> p \<notin> set (unused m)) \<and>
     distinct (unused m) \<and> (\<forall>p \<in> set (unused m). given m p \<and> zero_page m p) \<and>
     chunkUsed m \<le> chunkPages \<and> (chunks m = 0 \<longrightarrow> chunkUsed m = chunkPages) \<and>
     (\<forall>k. chunkUsed m \<le> k \<and> k < chunkPages \<longrightarrow> zero_page m (PageAt (chunks m - 1) k))"

definition paged_inv :: "paged \<Rightarrow> bool" where
  "paged_inv m \<longleftrightarrow> (\<exists>path. nodes_ok path m) \<and> pages_ok m"

lemma new_memory_nodes_ok: "nodes_ok (\<lambda>_. []) new_memory"
  by (simp add: nodes_ok_def new_memory_def)

lemma new_memory_pages_ok: "pages_ok new_memory"
  by (auto simp: pages_ok_def new_memory_def)

lemma paged_inv_new: "paged_inv new_memory"
  using new_memory_nodes_ok new_memory_pages_ok by (auto simp: paged_inv_def)

lemma new_memory_find: "find_page new_memory a = None"
  by (simp add: find_page_def new_memory_def numeral_eq_Suc)

lemma nodes_ok_ToNode:
  "nodes_ok path m \<Longrightarrow> entries m n i = ToNode c \<Longrightarrow>
   n < nodes m \<and> i < 8192 \<and> c < nodes m \<and> length (path n) < 3 \<and> path c = path n @ [i]"
  unfolding nodes_ok_def by (simp add: less_diff_conv)

lemma nodes_ok_ToPage:
  assumes "nodes_ok path m" "entries m n i = ToPage p"
  shows "n < nodes m \<and> i < 8192 \<and> length (path n) = 3"
proof -
  have "n < nodes m \<and> i < fanout \<and> length (path n) + 1 = levels"
    using assms unfolding nodes_ok_def by blast
  then show ?thesis by simp
qed

lemma nodes_ok_root: "nodes_ok path m \<Longrightarrow> path 0 = [] \<and> 0 < nodes m"
  unfolding nodes_ok_def by simp

lemma as_node_Some [simp]: "as_node v = Some c \<longleftrightarrow> v = ToNode c"
  by (cases v) auto

lemma as_page_Some [simp]: "as_page v = Some p \<longleftrightarrow> v = ToPage p"
  by (cases v) auto

section \<open>The node an address leads to\<close>

fun node_at :: "paged \<Rightarrow> u64 \<Rightarrow> nat \<Rightarrow> nat option" where
  "node_at m a 0 = Some 0"
| "node_at m a (Suc l) =
     (case node_at m a l of None \<Rightarrow> None | Some n \<Rightarrow> as_node (entries m n (indexAt a l)))"

lemma node_at_Suc:
  "node_at m a (Suc l) = Some c \<longleftrightarrow> (\<exists>n. node_at m a l = Some n \<and> entries m n (indexAt a l) = ToNode c)"
  by (auto split: option.splits)

lemma node_at_path:
  "nodes_ok path m \<Longrightarrow> node_at m a l = Some n \<Longrightarrow> path n = map (indexAt a) [0..<l] \<and> n < nodes m"
proof (induction l arbitrary: n)
  case 0
  then show ?case using nodes_ok_root by auto
next
  case (Suc l)
  then obtain n' where "node_at m a l = Some n'" "entries m n' (indexAt a l) = ToNode n"
    unfolding node_at_Suc by blast
  then show ?case using Suc.IH Suc.prems(1) nodes_ok_ToNode by fastforce
qed

lemma find_from_Suc:
  "find_from m a (Suc k) n = Some p \<longleftrightarrow>
   (\<exists>c. entries m n (indexAt a (3 - Suc k)) = ToNode c \<and> find_from m a k c = Some p)"
  by (auto split: option.splits)

lemma find_from_entries:
  assumes "entries m' = entries m"
  shows "find_from m' a k n = find_from m a k n"
  by (induction k arbitrary: n) (simp_all add: assms split: option.splits)

lemma find_page_entries: "entries m' = entries m \<Longrightarrow> find_page m' a = find_page m a"
  unfolding find_page_def by (rule find_from_entries)

lemma find_page_node_at:
  assumes "k < 4"
  shows "find_page m a = Some p \<longleftrightarrow> (\<exists>n. node_at m a (3 - k) = Some n \<and> find_from m a k n = Some p)"
  using assms
proof (induction "3 - k" arbitrary: k)
  case 0
  then have "k = 3" by simp
  then show ?case by (simp add: find_page_def)
next
  case (Suc l)
  then have k: "l = 3 - Suc k" "Suc k < 4" "3 - k = Suc (3 - Suc k)" by auto
  have "find_page m a = Some p \<longleftrightarrow>
      (\<exists>n. node_at m a (3 - Suc k) = Some n \<and> find_from m a (Suc k) n = Some p)"
    by (rule Suc.hyps(1) [OF k(1,2)])
  then show ?case unfolding k(3) node_at_Suc find_from_Suc by blast
qed

text \<open>A page is found exactly if the entry of its node on the last level holds it.\<close>

lemma find_page_iff:
  "find_page m a = Some p \<longleftrightarrow> (\<exists>n. node_at m a 3 = Some n \<and> entries m n (indexAt a 3) = ToPage p)"
  using find_page_node_at [of 0 m a p] by simp

lemma find_from_node_at:
  "node_at m a (3 - k) = Some n \<Longrightarrow> k < 4 \<Longrightarrow> find_page m a = find_from m a k n"
  by (rule option_Some_eqI) (auto simp: find_page_node_at [of k])

lemma node_at_same_page: "pageNumber a = pageNumber b \<Longrightarrow> l \<le> 4 \<Longrightarrow> node_at m a l = node_at m b l"
  using same_page_index [of a b] by (induction l) (auto split: option.splits)

lemma find_page_same_page: "pageNumber a = pageNumber b \<Longrightarrow> find_page m a = find_page m b"
  using same_page_index [of a b 3] node_at_same_page [of a b 3 m]
  by (intro option_Some_eqI) (simp add: find_page_iff)

text \<open>Two addresses have the same page only if they are on the same page of the address space.\<close>

lemma find_page_inj:
  assumes "nodes_ok path m" "pages_ok m" "find_page m a = Some p" "find_page m b = Some p"
  shows "pageNumber a = pageNumber b"
proof -
  from assms(3,4) obtain n n' where n: "node_at m a 3 = Some n" "entries m n (indexAt a 3) = ToPage p"
      and n': "node_at m b 3 = Some n'" "entries m n' (indexAt b 3) = ToPage p"
    unfolding find_page_iff by blast
  with assms(2) have eq: "n = n'" "indexAt a 3 = indexAt b 3" unfolding pages_ok_def by blast+
  have "map (indexAt a) [0..<3] = map (indexAt b) [0..<3]"
    using node_at_path [OF assms(1) n(1)] node_at_path [OF assms(1) n'(1)] eq(1) by simp
  then have "indices a = indices b"
    using eq(2) by (simp add: indices_def upt4 upt_rec numeral_eq_Suc)
  then show ?thesis by (simp add: indices_eq_iff)
qed

section \<open>What the pieces of \<open>ensure\<close> do\<close>

lemma nodes_okI:
  assumes "path 0 = []" "0 < nodes m"
    and "\<And>n i c. entries m n i = ToNode c \<Longrightarrow>
      n < nodes m \<and> i < 8192 \<and> c < nodes m \<and> length (path n) < 3 \<and> path c = path n @ [i]"
    and "\<And>n i p. entries m n i = ToPage p \<Longrightarrow> n < nodes m \<and> i < 8192 \<and> length (path n) = 3"
  shows "nodes_ok path m"
  unfolding nodes_ok_def fanout_def levels_def
proof (intro conjI allI impI)
  fix n i c
  assume "entries m n i = ToNode c"
  from assms(3) [OF this] show "n < nodes m" "i < 8192" "c < nodes m" "length (path n) + 1 < 4"
    "path c = path n @ [i]" by auto
next
  fix n i p
  assume "entries m n i = ToPage p"
  from assms(4) [OF this] show "n < nodes m" "i < 8192" "length (path n) + 1 = 4" by auto
qed (rule assms)+

text \<open>A node that no entry holds, as a new one.\<close>

definition fresh_node :: "paged \<Rightarrow> nat \<Rightarrow> bool" where
  "fresh_node m c \<longleftrightarrow> 0 < c \<and> c < nodes m \<and> (\<forall>n i. entries m n i \<noteq> ToNode c) \<and> (\<forall>i. entries m c i = Null)"

text \<open>A page that no entry holds, that isn't unused, and that is zeros, as a new one.\<close>

definition fresh_page :: "paged \<Rightarrow> page_ptr \<Rightarrow> bool" where
  "fresh_page m p \<longleftrightarrow> given m p \<and> p \<notin> set (unused m) \<and> (\<forall>n i. entries m n i \<noteq> ToPage p) \<and> zero_page m p"

lemma newNode_frame:
  assumes "newNode h m = (r, m')"
  shows "page_bytes m' = page_bytes m" "chunks m' = chunks m" "unused m' = unused m"
    "chunkUsed m' = chunkUsed m" "stepOpen m' = stepOpen m" "stepWrites m' = stepWrites m"
    "stepOverflowed m' = stepOverflowed m"
    "n < nodes m \<Longrightarrow> entries m' n = entries m n" "nodes m \<le> nodes m'"
  using assms by (auto simp: newNode_def Let_def split: if_splits)

lemma newNode_entries:
  assumes "newNode h m = (r, m')" "nodes_ok path m"
  shows "entries m' = entries m"
proof (intro ext)
  fix n i
  have "entries m (nodes m) i = Null"
    using assms(2) nodes_ok_ToNode nodes_ok_ToPage by (cases "entries m (nodes m) i") fastforce+
  then show "entries m' n i = entries m n i"
    using assms(1) by (auto simp: newNode_def Let_def split: if_splits)
qed

lemma newNode_ok:
  assumes "newNode h m = (r, m')" "nodes_ok path m"
  shows "nodes_ok path m'"
proof (rule nodes_okI)
  note old = nodes_ok_ToNode [OF assms(2)] nodes_ok_ToPage [OF assms(2)]
    and ent = newNode_entries [OF assms] and le = newNode_frame(9) [OF assms(1)]
  show "path 0 = []" "0 < nodes m'" using nodes_ok_root [OF assms(2)] le by auto
  show "n < nodes m' \<and> i < 8192 \<and> c < nodes m' \<and> length (path n) < 3 \<and> path c = path n @ [i]"
    if "entries m' n i = ToNode c" for n i c
    using old(1) [of n i c] that le by (simp add: ent)
  show "n < nodes m' \<and> i < 8192 \<and> length (path n) = 3" if "entries m' n i = ToPage p" for n i p
    using old(2) [of n i p] that le by (simp add: ent)
qed

lemma newNode_fresh:
  assumes "newNode h m = (Some c, m')" "nodes_ok path m"
  shows "fresh_node m' c" "c = nodes m" "nodes m' = Suc c"
proof -
  from assms(1) show c: "c = nodes m" "nodes m' = Suc c"
    by (auto simp: newNode_def Let_def split: if_splits)
  have "entries m n i \<noteq> ToNode c" for n i
    using nodes_ok_ToNode [OF assms(2)] c by blast
  moreover have "entries m' c i = Null" for i
    using assms(1) by (auto simp: newNode_def Let_def split: if_splits)
  ultimately show "fresh_node m' c"
    using newNode_entries [OF assms] nodes_ok_root [OF assms(2)] c by (simp add: fresh_node_def)
qed

lemma newNode_granted: "h (asked m) \<Longrightarrow> \<exists>c m'. newNode h m = (Some c, m')"
  by (simp add: newNode_def Let_def)

lemma pages_okD:
  assumes "pages_ok m"
  shows "entries m n i = ToPage p \<Longrightarrow> entries m n' i' = ToPage p \<Longrightarrow> n = n' \<and> i = i'"
    "entries m n i = ToPage p \<Longrightarrow> given m p \<and> p \<notin> set (unused m)"
    "distinct (unused m)" "p \<in> set (unused m) \<Longrightarrow> given m p \<and> zero_page m p"
    "chunkUsed m \<le> 256" "chunks m = 0 \<Longrightarrow> chunkUsed m = 256"
    "chunkUsed m \<le> k \<Longrightarrow> k < 256 \<Longrightarrow> zero_page m (PageAt (chunks m - 1) k)"
  using assms unfolding pages_ok_def chunkPages_def by blast+

lemma pages_okI:
  assumes "\<And>n i n' i' p. entries m n i = ToPage p \<Longrightarrow> entries m n' i' = ToPage p \<Longrightarrow> n = n' \<and> i = i'"
    "\<And>n i p. entries m n i = ToPage p \<Longrightarrow> given m p \<and> p \<notin> set (unused m)"
    "distinct (unused m)" "\<And>p. p \<in> set (unused m) \<Longrightarrow> given m p \<and> zero_page m p"
    "chunkUsed m \<le> 256" "chunks m = 0 \<Longrightarrow> chunkUsed m = 256"
    "\<And>k. chunkUsed m \<le> k \<Longrightarrow> k < 256 \<Longrightarrow> zero_page m (PageAt (chunks m - 1) k)"
  shows "pages_ok m"
  unfolding pages_ok_def chunkPages_def using assms by blast

text \<open>\<^const>\<open>newPage\<close> has three ways to go: an unused page, the next of the last chunk, or a new chunk.\<close>

lemma newPage_cases:
  assumes "newPage h m = (r, m')"
  obtains (unused) p rest where "unused m = p # rest" "r = Some p" "m' = m\<lparr>unused := rest\<rparr>"
  | (next_page) "unused m = []" "chunkUsed m \<noteq> 256" "r = Some (PageAt (chunks m - 1) (chunkUsed m))"
      "m' = m\<lparr>chunkUsed := Suc (chunkUsed m)\<rparr>"
  | (refused) "unused m = []" "chunkUsed m = 256" "\<not> h (asked m)" "r = None" "m' = m\<lparr>asked := Suc (asked m)\<rparr>"
  | (chunk) "unused m = []" "chunkUsed m = 256" "h (asked m)" "r = Some (PageAt (chunks m) 0)"
      "m' = m\<lparr>asked := Suc (asked m), page_bytes := (\<lambda>p. if page_chunk p = chunks m then (\<lambda>_. 0) else page_bytes m p),
             chunks := Suc (chunks m), chunkUsed := 1\<rparr>"
proof (cases "unused m")
  case (Cons p rest)
  then show ?thesis using assms unused by (auto simp: newPage_def)
next
  case none: Nil
  show ?thesis
  proof (cases "chunkUsed m = 256")
    case False
    then show ?thesis using assms next_page none by (auto simp: newPage_def)
  next
    case True
    then show ?thesis
      using assms refused chunk none by (cases "h (asked m)") (auto simp: newPage_def newChunk_def Let_def)
  qed
qed

lemma newPage_frame:
  assumes "newPage h m = (r, m')"
  shows "entries m' = entries m" "nodes m' = nodes m" "stepOpen m' = stepOpen m"
    "stepWrites m' = stepWrites m" "stepOverflowed m' = stepOverflowed m"
  using assms by (auto elim: newPage_cases)

lemma newPage_given:
  assumes "newPage h m = (r, m')" "given m p"
  shows "given m' p \<and> page_bytes m' p = page_bytes m p"
  using assms(1)
proof (cases rule: newPage_cases)
  case chunk
  then show ?thesis using assms(2) by (auto simp: given_def)
qed (use assms(2) in \<open>auto simp: given_def\<close>)

lemma newPage_ok:
  assumes "newPage h m = (r, m')" "pages_ok m"
  shows "pages_ok m'"
proof (rule pages_okI)
  note ok = pages_okD [OF assms(2)] and fr = newPage_frame(1) [OF assms(1)]
  have sub: "set (unused m') \<subseteq> set (unused m)" and dist: "distinct (unused m')"
    using assms(1) ok(3) by (auto elim: newPage_cases)
  show "n = n' \<and> i = i'" if "entries m' n i = ToPage p" "entries m' n' i' = ToPage p" for n i n' i' p
    using that ok(1) by (simp add: fr)
  show "given m' p \<and> p \<notin> set (unused m')" if "entries m' n i = ToPage p" for n i p
    using that ok(2) [of n i p] newPage_given [OF assms(1), of p] sub by (auto simp: fr)
  show "distinct (unused m')" by (rule dist)
  show "given m' p \<and> zero_page m' p" if "p \<in> set (unused m')" for p
    using that sub ok(4) [of p] newPage_given [OF assms(1), of p] by (auto simp: zero_page_def)
  show "chunkUsed m' \<le> 256" "chunks m' = 0 \<Longrightarrow> chunkUsed m' = 256"
    using assms(1) ok(5,6) by (auto elim!: newPage_cases)
  show "zero_page m' (PageAt (chunks m' - 1) k)" if "chunkUsed m' \<le> k" "k < 256" for k
    using assms(1) that ok(7) [of k] by (auto elim!: newPage_cases simp: zero_page_def)
qed

lemma newPage_fresh:
  assumes "newPage h m = (Some p, m')" "pages_ok m"
  shows "fresh_page m' p"
  using assms(1)
proof (cases rule: newPage_cases)
  case (unused q rest)
  have "entries m n i \<noteq> ToPage q" for n i
    using pages_okD(2) [OF assms(2), of n i q] unused(1) by auto
  then show ?thesis
    using unused pages_okD(3,4) [OF assms(2)] by (auto simp: fresh_page_def given_def zero_page_def)
next
  case next_page
  have "chunks m \<noteq> 0" using next_page(2) pages_okD(6) [OF assms(2)] by blast
  moreover have "entries m n i \<noteq> ToPage (PageAt (chunks m - 1) (chunkUsed m))" for n i
    using pages_okD(2) [OF assms(2), of n i] next_page \<open>chunks m \<noteq> 0\<close> by (auto simp: given_def)
  ultimately show ?thesis
    using next_page pages_okD(5,7) [OF assms(2)] by (auto simp: fresh_page_def given_def zero_page_def)
next
  case chunk
  have "entries m n i \<noteq> ToPage (PageAt (chunks m) 0)" for n i
    using pages_okD(2) [OF assms(2), of n i] by (auto simp: given_def)
  then show ?thesis using chunk by (auto simp: fresh_page_def given_def zero_page_def)
qed simp

lemma newPage_nodes_ok: "newPage h m = (r, m') \<Longrightarrow> nodes_ok path m \<Longrightarrow> nodes_ok path m'"
  using newPage_frame by (simp add: nodes_ok_def)

lemma newPage_granted: "h (asked m) \<Longrightarrow> newPage h m = (r, m') \<Longrightarrow> r \<noteq> None"
  by (auto elim!: newPage_cases)

section \<open>Tables that grow\<close>

text \<open>Entries are only ever filled in, and pages that were given out keep their bytes.\<close>

definition grows :: "paged \<Rightarrow> paged \<Rightarrow> bool" where
  "grows m m' \<longleftrightarrow> (\<forall>n i. entries m n i \<noteq> Null \<longrightarrow> entries m' n i = entries m n i) \<and>
     (\<forall>p. given m p \<longrightarrow> given m' p \<and> page_bytes m' p = page_bytes m p)"

definition same_step :: "paged \<Rightarrow> paged \<Rightarrow> bool" where
  "same_step m m' \<longleftrightarrow> stepOpen m' = stepOpen m \<and> stepWrites m' = stepWrites m \<and>
     stepOverflowed m' = stepOverflowed m"

lemma grows_refl [simp]: "grows m m"
  by (simp add: grows_def)

lemma same_step_refl [simp]: "same_step m m"
  by (simp add: same_step_def)

lemma grows_trans: "grows m m1 \<Longrightarrow> grows m1 m2 \<Longrightarrow> grows m m2"
  unfolding grows_def by metis

lemma same_step_trans: "same_step m m1 \<Longrightarrow> same_step m1 m2 \<Longrightarrow> same_step m m2"
  by (simp add: same_step_def)

lemma grows_node_at: "grows m m' \<Longrightarrow> node_at m a l = Some n \<Longrightarrow> node_at m' a l = Some n"
  by (induction l arbitrary: n) (fastforce simp: grows_def split: option.splits)+

lemma grows_find: "grows m m' \<Longrightarrow> find_page m a = Some p \<Longrightarrow> find_page m' a = Some p"
  unfolding find_page_iff using grows_node_at by (fastforce simp: grows_def)

lemma newNode_grows:
  "newNode h m = (r, m') \<Longrightarrow> nodes_ok path m \<Longrightarrow> grows m m' \<and> same_step m m'"
  using newNode_frame newNode_entries by (simp add: grows_def same_step_def given_def)

lemma newPage_grows: "newPage h m = (r, m') \<Longrightarrow> grows m m' \<and> same_step m m'"
  using newPage_frame newPage_given by (simp add: grows_def same_step_def)

lemma set_entry_simps [simp]:
  "entries (set_entry n i v m) = (entries m)(n := (entries m n)(i := v))"
  "nodes (set_entry n i v m) = nodes m" "chunks (set_entry n i v m) = chunks m"
  "unused (set_entry n i v m) = unused m" "chunkUsed (set_entry n i v m) = chunkUsed m"
  "page_bytes (set_entry n i v m) = page_bytes m" "stepOpen (set_entry n i v m) = stepOpen m"
  "stepWrites (set_entry n i v m) = stepWrites m" "stepOverflowed (set_entry n i v m) = stepOverflowed m"
  by (simp_all add: set_entry_def)

lemma set_entry_grows: "entries m n i = Null \<Longrightarrow> grows m (set_entry n i v m) \<and> same_step m (set_entry n i v m)"
  by (simp add: grows_def same_step_def given_def)

section \<open>Putting a node or a page in an empty entry\<close>

lemma set_node_ok:
  assumes "nodes_ok path m" "fresh_node m c" "entries m n i = Null" "n < nodes m" "i < 8192"
    "length (path n) < 3" "n \<noteq> c"
  shows "nodes_ok (path(c := path n @ [i])) (set_entry n i (ToNode c) m)"
proof (rule nodes_okI)
  note c = assms(2) [unfolded fresh_node_def]
  show "(path(c := path n @ [i])) 0 = []" "0 < nodes (set_entry n i (ToNode c) m)"
    using nodes_ok_root [OF assms(1)] c by auto
  show "x < nodes (set_entry n i (ToNode c) m) \<and> j < 8192 \<and> y < nodes (set_entry n i (ToNode c) m) \<and>
      length ((path(c := path n @ [i])) x) < 3 \<and>
      (path(c := path n @ [i])) y = (path(c := path n @ [i])) x @ [j]"
    if e: "entries (set_entry n i (ToNode c) m) x j = ToNode y" for x j y
  proof (cases "x = n \<and> j = i")
    case True
    then show ?thesis using e assms c by auto
  next
    case False
    then have old: "entries m x j = ToNode y" using e by (auto split: if_splits)
    then have "x \<noteq> c" "y \<noteq> c" using c by auto
    then show ?thesis using nodes_ok_ToNode [OF assms(1) old] by simp
  qed
  show "x < nodes (set_entry n i (ToNode c) m) \<and> j < 8192 \<and> length ((path(c := path n @ [i])) x) = 3"
    if e: "entries (set_entry n i (ToNode c) m) x j = ToPage p" for x j p
  proof -
    from e have old: "entries m x j = ToPage p" by (auto split: if_splits)
    then have "x \<noteq> c" using c by auto
    then show ?thesis using nodes_ok_ToPage [OF assms(1) old] by simp
  qed
qed

lemma set_node_pages_ok:
  assumes "pages_ok m" "entries m n i = Null"
  shows "pages_ok (set_entry n i (ToNode c) m)"
proof -
  have e: "entries (set_entry n i (ToNode c) m) x j = ToPage p \<Longrightarrow> entries m x j = ToPage p" for x j p
    by (auto split: if_splits)
  have z: "zero_page (set_entry n i (ToNode c) m) = zero_page m" "given (set_entry n i (ToNode c) m) = given m"
    by (auto simp: zero_page_def given_def)
  show ?thesis
  proof (rule pages_okI)
    show "x = x' \<and> j = j'" if "entries (set_entry n i (ToNode c) m) x j = ToPage q"
      "entries (set_entry n i (ToNode c) m) x' j' = ToPage q" for x j x' j' q
      by (rule pages_okD(1) [OF assms(1) e [OF that(1)] e [OF that(2)]])
    show "given (set_entry n i (ToNode c) m) q \<and> q \<notin> set (unused (set_entry n i (ToNode c) m))"
      if "entries (set_entry n i (ToNode c) m) x j = ToPage q" for x j q
      using pages_okD(2) [OF assms(1) e [OF that]] by (simp add: z)
  qed (use pages_okD [OF assms(1)] in \<open>simp_all add: z\<close>)
qed

lemma set_node_find:
  assumes "fresh_node m c" "entries m n i = Null" "n \<noteq> c"
  shows "find_page (set_entry n i (ToNode c) m) a = find_page m a"
proof (rule option_Some_eqI)
  fix p
  let ?m = "set_entry n i (ToNode c) m"
  note c = assms(1) [unfolded fresh_node_def]
  have at: "x = c \<or> node_at m a l = Some x" if "node_at ?m a l = Some x" for l x
    using that
  proof (induction l arbitrary: x)
    case 0
    then show ?case by simp
  next
    case (Suc l)
    then obtain y where y: "node_at ?m a l = Some y" "entries ?m y (indexAt a l) = ToNode x"
      unfolding node_at_Suc by blast
    show ?case
    proof (cases "y = n \<and> indexAt a l = i")
      case True
      then show ?thesis using y by simp
    next
      case False
      then have "entries m y (indexAt a l) = ToNode x" using y(2) by (auto split: if_splits)
      moreover from this have "y \<noteq> c" using c by auto
      ultimately show ?thesis using Suc.IH [OF y(1)] by (auto simp: node_at_Suc)
    qed
  qed
  show "find_page ?m a = Some p \<longleftrightarrow> find_page m a = Some p"
  proof
    assume "find_page ?m a = Some p"
    then obtain x where x: "node_at ?m a 3 = Some x" "entries ?m x (indexAt a 3) = ToPage p"
      unfolding find_page_iff by blast
    then have "entries m x (indexAt a 3) = ToPage p" by (auto split: if_splits)
    moreover from this have "x \<noteq> c" using c by auto
    ultimately show "find_page m a = Some p" using at [OF x(1)] by (auto simp: find_page_iff)
  qed (use grows_find set_entry_grows [OF assms(2)] in blast)
qed

lemma set_page_ok:
  assumes "nodes_ok path m" "pages_ok m" "fresh_page m p" "entries m n i = Null" "n < nodes m" "i < 8192"
    "length (path n) = 3"
  shows "nodes_ok path (set_entry n i (ToPage p) m) \<and> pages_ok (set_entry n i (ToPage p) m)"
proof
  note p = assms(3) [unfolded fresh_page_def]
  let ?m = "set_entry n i (ToPage p) m"
  have z: "zero_page ?m = zero_page m" "given ?m = given m"
    by (auto simp: zero_page_def given_def)
  show "nodes_ok path ?m"
  proof (rule nodes_okI)
    show "x < nodes ?m \<and> j < 8192 \<and> c < nodes ?m \<and> length (path x) < 3 \<and> path c = path x @ [j]"
      if "entries ?m x j = ToNode c" for x j c
      using that nodes_ok_ToNode [OF assms(1), of x j c] by (auto split: if_splits)
    show "x < nodes ?m \<and> j < 8192 \<and> length (path x) = 3" if "entries ?m x j = ToPage q" for x j q
      using that nodes_ok_ToPage [OF assms(1), of x j q] assms(5-7) by (auto split: if_splits)
  qed (use nodes_ok_root [OF assms(1)] in simp_all)
  show "pages_ok ?m"
  proof (rule pages_okI)
    show "x = x' \<and> j = j'" if "entries ?m x j = ToPage q" "entries ?m x' j' = ToPage q" for x j x' j' q
      using that p pages_okD(1) [OF assms(2), of x j q x' j'] by (auto split: if_splits)
    show "given ?m q \<and> q \<notin> set (unused ?m)" if "entries ?m x j = ToPage q" for x j q
      using that p pages_okD(2) [OF assms(2), of x j q] by (auto simp: z split: if_splits)
  qed (use pages_okD [OF assms(2)] in \<open>simp_all add: z\<close>)
qed

lemma set_page_node_at:
  assumes "entries m n i = Null"
  shows "node_at (set_entry n i (ToPage p) m) a l = node_at m a l"
proof (induction l)
  case (Suc l)
  then show ?case using assms by (auto split: option.splits)
qed simp

lemma set_page_find:
  assumes "entries m n i = Null"
  shows "find_page (set_entry n i (ToPage p) m) a =
    (if node_at m a 3 = Some n \<and> indexAt a 3 = i then Some p else find_page m a)"
  by (rule option_Some_eqI) (auto simp: find_page_iff set_page_node_at [OF assms] assms)

section \<open>\<open>ensure\<close>\<close>

text \<open>
  What \<^const>\<open>ensure\<close> promises: the table stays well formed and only grows, the address has the
  page returned (none if memory ran out), every other page of the address space is as it was, and a
  page that is new is zeros.
\<close>

definition ensured :: "u64 \<Rightarrow> paged \<Rightarrow> page_ptr option \<Rightarrow> paged \<Rightarrow> bool" where
  "ensured a m r m' \<longleftrightarrow> paged_inv m' \<and> grows m m' \<and> same_step m m' \<and> find_page m' a = r \<and>
     (\<forall>b. pageNumber b \<noteq> pageNumber a \<longrightarrow> find_page m' b = find_page m b) \<and>
     (\<forall>p. find_page m a = None \<and> r = Some p \<longrightarrow> zero_page m' p)"

lemma ensuredI_find:
  assumes "paged_inv m'" "grows m m'" "same_step m m'" "\<And>b. find_page m' b = find_page m b"
    "r = find_page m a"
  shows "ensured a m r m'"
  using assms by (auto simp: ensured_def)

lemma ensured_trans:
  assumes "ensured a m1 r m'" "grows m m1" "same_step m m1" "\<And>b. find_page m1 b = find_page m b"
  shows "ensured a m r m'"
  using assms grows_trans same_step_trans unfolding ensured_def by metis

lemma node_at_other:
  assumes "nodes_ok path m" "node_at m a 3 = Some n" "node_at m b 3 = Some n" "indexAt b 3 = indexAt a 3"
  shows "pageNumber b = pageNumber a"
proof -
  have "map (indexAt b) [0..<3] = map (indexAt a) [0..<3]"
    using node_at_path [OF assms(1,2)] node_at_path [OF assms(1,3)] by simp
  then have "indices b = indices a"
    using assms(4) by (simp add: indices_def upt4 upt_rec numeral_eq_Suc)
  then show ?thesis by (simp add: indices_eq_iff)
qed

lemma exchange_null:
  "entries m n i = Null \<Longrightarrow> exchange_entry n i Null v m = (True, Null, set_entry n i v m)"
  by (simp add: exchange_entry_def)

lemma ensure_page_level:
  assumes ok: "nodes_ok path m" "pages_ok m" and at: "node_at m a 3 = Some n"
    and run: "ensure_from h a 0 n m = (r, m')"
  shows "ensured a m r m' \<and> ((\<forall>i. h i) \<longrightarrow> r \<noteq> None)"
proof (cases "entries m n (indexAt a 3)")
  case Null
  note none = Null
  obtain q m1 where new: "newPage h m = (q, m1)" by fastforce
  note ok1 = newPage_nodes_ok [OF new ok(1)] newPage_ok [OF new ok(2)] and fr = newPage_frame [OF new]
    and gr = newPage_grows [OF new]
  have find1: "find_page m1 b = find_page m b" for b
    by (rule find_page_entries [OF fr(1)])
  have none_a: "find_page m a = None" using at none find_page_iff [of m a] by (cases "find_page m a") auto
  show ?thesis
  proof (cases q)
    case None
    then have "r = None" "m' = m1" "\<not> h (asked m)" using run none new newPage_granted by auto
    then show ?thesis
      using ok1 gr find1 none_a by (auto intro!: ensuredI_find simp: paged_inv_def)
  next
    case (Some p)
    have e: "entries m1 n (indexAt a 3) = Null" using none fr(1) by simp
    then have res: "r = Some p" "m' = set_entry n (indexAt a 3) (ToPage p) m1"
      using run none new Some by (auto simp: exchange_null)
    have at1: "node_at m1 a 3 = Some n" using gr at grows_node_at by blast
    have ok': "nodes_ok path m' \<and> pages_ok m'"
      using set_page_ok [OF ok1 newPage_fresh [OF new [unfolded Some] ok(2)] e] node_at_path [OF ok1(1) at1] res(2)
      by simp
    have find': "find_page m' b = (if node_at m1 b 3 = Some n \<and> indexAt b 3 = indexAt a 3 then Some p
        else find_page m b)" for b
      using set_page_find [OF e] find1 res(2) by simp
    have "ensured a m r m'"
      unfolding ensured_def
    proof (intro conjI allI impI)
      show "paged_inv m'" using ok' by (auto simp: paged_inv_def)
      show "grows m m'" "same_step m m'"
        using gr set_entry_grows [OF e] grows_trans same_step_trans res(2) by blast+
      show "find_page m' a = r" using find' [of a] at1 res(1) by simp
      show "find_page m' b = find_page m b" if "pageNumber b \<noteq> pageNumber a" for b
        using that find' [of b] node_at_other [OF ok1(1) at1, of b] by auto
      show "zero_page m' q" if "find_page m a = None \<and> r = Some q" for q
        using that newPage_fresh [OF new [unfolded Some] ok(2)] res by (simp add: fresh_page_def zero_page_def)
    qed
    then show ?thesis using res(1) by simp
  qed
next
  case (ToPage p)
  then have "find_page m a = Some p" "r = Some p" "m' = m" using at find_page_iff run by auto
  then show ?thesis using ok by (intro conjI ensuredI_find) (auto simp: paged_inv_def)
next
  case (ToNode c)
  then show ?thesis using nodes_ok_ToNode [OF ok(1) ToNode] node_at_path [OF ok(1) at] by simp
qed

lemma ensure_from_ok:
  assumes "nodes_ok path m" "pages_ok m" "node_at m a (3 - k) = Some n" "k < 4"
    "ensure_from h a k n m = (r, m')"
  shows "ensured a m r m' \<and> ((\<forall>i. h i) \<longrightarrow> r \<noteq> None)"
  using assms
proof (induction k arbitrary: n m path)
  case 0
  then show ?case using ensure_page_level by simp
next
  case (Suc k)
  let ?i = "indexAt a (3 - Suc k)"
  have lev: "3 - k = Suc (3 - Suc k)" "3 - Suc k < 3" "k < 4" using Suc.prems(4) by auto
  note at = node_at_path [OF Suc.prems(1,3)]
  show ?case
  proof (cases "entries m n ?i")
    case (ToNode c)
    then have "node_at m a (3 - k) = Some c" using Suc.prems(3) lev(1) by (auto simp: node_at_Suc)
    then show ?thesis using Suc.IH [OF Suc.prems(1,2) _ lev(3)] Suc.prems(5) ToNode by simp
  next
    case (ToPage p)
    then show ?thesis using nodes_ok_ToPage [OF Suc.prems(1) ToPage] at by simp
  next
    case Null
    obtain q m1 where new: "newNode h m = (q, m1)" by fastforce
    note ok1 = newNode_ok [OF new Suc.prems(1)] and ent = newNode_entries [OF new Suc.prems(1)]
      and gr = newNode_grows [OF new Suc.prems(1)]
    have pages1: "pages_ok m1"
      using Suc.prems(2) ent newNode_frame [OF new] by (simp add: pages_ok_def given_def zero_page_def)
    note find1 = find_page_entries [OF ent]
    show ?thesis
    proof (cases q)
      case None
      have "find_from m a (Suc k) n = None" using Null by simp
      then have "find_page m a = None" using find_from_node_at [OF Suc.prems(3,4)] by simp
      moreover have "r = None" "m' = m1" using Suc.prems(5) Null new None by auto
      moreover have "\<not> h (asked m)" using new None newNode_granted by fastforce
      ultimately show ?thesis
        using ok1 pages1 gr find1 by (intro conjI ensuredI_find) (auto simp: paged_inv_def)
    next
      case (Some c)
      note fresh = newNode_fresh [OF new [unfolded Some] Suc.prems(1)]
      define m2 where "m2 = set_entry n ?i (ToNode c) m1"
      have e: "entries m1 n ?i = Null" and nc: "n \<noteq> c" using Null ent fresh(2) at by auto
      have "nodes_ok (path(c := path n @ [?i])) m2"
        unfolding m2_def
        using set_node_ok [OF ok1 fresh(1) e] at fresh lev(2) nc by simp
      moreover have "pages_ok m2" unfolding m2_def by (rule set_node_pages_ok [OF pages1 e])
      moreover have "node_at m2 a (3 - Suc k) = Some n"
        using grows_node_at [OF conjunct1 [OF gr] Suc.prems(3)]
          grows_node_at [OF conjunct1 [OF set_entry_grows [OF e]]] by (simp add: m2_def)
      then have "node_at m2 a (3 - k) = Some c" unfolding lev(1) node_at_Suc by (auto simp: m2_def)
      moreover have "ensure_from h a k c m2 = (r, m')"
        using Suc.prems(5) Null new Some e by (simp add: exchange_null m2_def)
      ultimately have sub: "ensured a m2 r m' \<and> ((\<forall>i. h i) \<longrightarrow> r \<noteq> None)" using Suc.IH lev(3) by blast
      moreover have "grows m m2 \<and> same_step m m2"
        unfolding m2_def using gr set_entry_grows [OF e] grows_trans same_step_trans by blast
      moreover have "find_page m2 b = find_page m b" for b
        unfolding m2_def using set_node_find [OF fresh(1) e nc] find1 by simp
      ultimately show ?thesis using ensured_trans by blast
    qed
  qed
qed

lemma ensure_ok:
  assumes "paged_inv m" "ensure h a m = (r, m')"
  shows "ensured a m r m' \<and> ((\<forall>i. h i) \<longrightarrow> r \<noteq> None)"
proof -
  obtain path where "nodes_ok path m" "pages_ok m" using assms(1) by (auto simp: paged_inv_def)
  then show ?thesis
    using ensure_from_ok [of path m a 3 0 h r m'] assms(2) by (simp add: ensure_def)
qed

end
