(* ===== verification/Bytes.thy ===== *)
theory Bytes
  imports Prelude
begin

unbundle bit_operations_syntax

text \<open>
  Values of 64 bits as bytes, as \<open>native/bap_jit.cpp\<close> takes them apart and puts them together:
  \<open>putWord\<close> and \<open>getWord\<close>, the loops of \<open>bap_jit_memory_load_bytes\<close>,
  \<open>bap_jit_memory_store_bytes\<close> and \<open>StoreLog::note\<close> for either byte order, and the \<open>bswap\<close> that
  compiled code uses where the order isn't the host's.
\<close>

text \<open>How far byte \<open>index\<close> of \<open>size\<close> in memory is from the least significant bit.\<close>

definition byte_shift :: "bool \<Rightarrow> nat \<Rightarrow> nat \<Rightarrow> nat" where
  "byte_shift bigEndian sz index = (if bigEndian then sz - 1 - index else index) * 8"

definition value_bytes :: "bool \<Rightarrow> nat \<Rightarrow> u64 \<Rightarrow> u8 list" where
  "value_bytes bigEndian sz v = map (\<lambda>i. ucast (drop_bit (byte_shift bigEndian sz i) v)) [0..<sz]"

definition bytes_value :: "bool \<Rightarrow> u8 list \<Rightarrow> u64" where
  "bytes_value bigEndian bs =
     foldl (OR) 0 (map (\<lambda>i. push_bit (byte_shift bigEndian (length bs) i) (ucast (bs ! i))) [0..<length bs])"

definition putWord :: "u64 \<Rightarrow> u8 list" where
  "putWord v = map (\<lambda>byte. ucast (drop_bit (8 * byte) v)) [0..<8]"

definition getWord :: "u8 list \<Rightarrow> u64" where
  "getWord bs = foldl (OR) 0 (map (\<lambda>byte. push_bit (8 * byte) (ucast (bs ! byte))) [0..<8])"

text \<open>The intrinsic that reverses the bytes of a value of \<open>sz\<close> bytes.\<close>

definition bswap :: "nat \<Rightarrow> u64 \<Rightarrow> u64" where
  "bswap sz v = bytes_value True (value_bytes False sz v)"

section \<open>Bits\<close>

lemma length_value_bytes [simp]: "length (value_bytes big n v) = n"
  by (simp add: value_bytes_def)

lemma bit_foldl_or:
  "bit (foldl (OR) (z::u64) xs) j \<longleftrightarrow> bit z j \<or> (\<exists>x \<in> set xs. bit x j)"
  by (induction xs arbitrary: z) (auto simp: bit_or_iff)

lemma bit_value_byte: "i < n \<Longrightarrow> bit (value_bytes big n v ! i) j \<longleftrightarrow> j < 8 \<and> bit v (byte_shift big n i + j)"
  by (auto simp: value_bytes_def bit_ucast_iff bit_drop_bit_eq)

lemma bit_bytes_value:
  "bit (bytes_value big bs) j \<longleftrightarrow> j < 64 \<and>
   (\<exists>i < length bs. byte_shift big (length bs) i \<le> j \<and> bit (bs ! i) (j - byte_shift big (length bs) i))"
  unfolding bytes_value_def bit_foldl_or
  by (auto simp: bit_push_bit_iff bit_ucast_iff dest: bit_imp_le_length)

text \<open>Each bit below \<open>8 * n\<close> is in one byte.\<close>

lemma byte_of_bit:
  assumes "j < 8 * n"
  obtains i where "i < n" "byte_shift big n i \<le> j" "j - byte_shift big n i < 8"
proof (cases big)
  case True
  have "n - 1 - (n - 1 - j div 8) = j div 8" using assms by auto
  then show ?thesis using assms by (intro that [of "n - 1 - j div 8"]) (auto simp: byte_shift_def True minus_div_mult_eq_mod)
next
  case False
  show ?thesis using assms by (intro that [of "j div 8"]) (auto simp: byte_shift_def False minus_div_mult_eq_mod)
qed

lemma byte_shift_inj:
  "i < n \<Longrightarrow> i' < n \<Longrightarrow> byte_shift big n i \<le> j \<Longrightarrow> j < byte_shift big n i + 8 \<Longrightarrow>
   byte_shift big n i' \<le> j \<Longrightarrow> j < byte_shift big n i' + 8 \<Longrightarrow> i = i'"
  by (auto simp: byte_shift_def split: if_splits)

lemma byte_shift_bound: "i < n \<Longrightarrow> byte_shift big n i + 8 \<le> 8 * n"
  by (auto simp: byte_shift_def)

section \<open>Round trips\<close>

lemma bytes_value_of_value: "n \<le> 8 \<Longrightarrow> bytes_value big (value_bytes big n v) = take_bit (8 * n) v"
proof (rule bit_word_eqI)
  fix j
  assume n: "n \<le> 8" and j: "j < LENGTH(64)"
  show "bit (bytes_value big (value_bytes big n v)) j \<longleftrightarrow> bit (take_bit (8 * n) v) j"
  proof
    assume "bit (take_bit (8 * n) v) j"
    then have b: "j < 8 * n" "bit v j" by (simp_all add: bit_take_bit_iff)
    then obtain i where "i < n" "byte_shift big n i \<le> j" "j - byte_shift big n i < 8" using byte_of_bit by blast
    then show "bit (bytes_value big (value_bytes big n v)) j"
      using b(2) j unfolding bit_bytes_value by (auto simp: bit_value_byte intro!: exI [of _ i])
  next
    assume "bit (bytes_value big (value_bytes big n v)) j"
    then obtain i where i: "i < n" "byte_shift big n i \<le> j" "bit (value_bytes big n v ! i) (j - byte_shift big n i)"
      unfolding bit_bytes_value by auto
    then show "bit (take_bit (8 * n) v) j"
      using byte_shift_bound [OF i(1), of big] by (auto simp: bit_value_byte bit_take_bit_iff)
  qed
qed

lemma value_bytes_of_bytes: "length bs \<le> 8 \<Longrightarrow> value_bytes big (length bs) (bytes_value big bs) = bs"
proof (rule nth_equalityI)
  fix i
  assume len: "length bs \<le> 8" and "i < length (value_bytes big (length bs) (bytes_value big bs))"
  then have i: "i < length bs" by simp
  show "value_bytes big (length bs) (bytes_value big bs) ! i = bs ! i"
  proof (rule bit_word_eqI)
    fix j
    assume "j < LENGTH(8)"
    then have j: "j < 8" by simp
    let ?s = "byte_shift big (length bs)"
    have s: "?s i + j < 64" using byte_shift_bound [OF i, of big] len j by simp
    have "bit (value_bytes big (length bs) (bytes_value big bs) ! i) j \<longleftrightarrow>
        (\<exists>k < length bs. ?s k \<le> ?s i + j \<and> bit (bs ! k) (?s i + j - ?s k))"
      using i j s by (simp add: bit_value_byte bit_bytes_value)
    also have "\<dots> \<longleftrightarrow> bit (bs ! i) j"
    proof
      assume "\<exists>k < length bs. ?s k \<le> ?s i + j \<and> bit (bs ! k) (?s i + j - ?s k)"
      then obtain k where k: "k < length bs" "?s k \<le> ?s i + j" "bit (bs ! k) (?s i + j - ?s k)" by blast
      then have "?s i + j - ?s k < 8" using bit_imp_le_length [OF k(3)] by simp
      then have "k = i" using byte_shift_inj [of k "length bs" i big "?s i + j"] k i j by simp
      then show "bit (bs ! i) j" using k(3) by simp
    qed (use i in \<open>auto intro!: exI [of _ i]\<close>)
    finally show "bit (value_bytes big (length bs) (bytes_value big bs) ! i) j \<longleftrightarrow> bit (bs ! i) j" .
  qed
qed simp

text \<open>A value in the other order is the value with its bytes reversed.\<close>

lemma value_bytes_rev: "value_bytes (\<not> big) n v = rev (value_bytes big n v)"
  by (rule nth_equalityI) (auto simp: value_bytes_def rev_nth byte_shift_def)

lemma bytes_value_rev: "bytes_value (\<not> big) (rev bs) = bytes_value big bs"
proof (rule bit_word_eqI)
  fix j
  show "bit (bytes_value (\<not> big) (rev bs)) j \<longleftrightarrow> bit (bytes_value big bs) j"
  proof -
    have sh: "byte_shift (\<not> big) n (n - 1 - i) = byte_shift big n i" if "i < n" for i n
      using that by (auto simp: byte_shift_def)
    have ex: "(\<exists>i < length bs. P i (rev bs ! i)) \<longleftrightarrow> (\<exists>i < length bs. P (length bs - 1 - i) (bs ! i))" for P
    proof
      assume "\<exists>i < length bs. P i (rev bs ! i)"
      then obtain i where "i < length bs" "P i (rev bs ! i)" by blast
      then show "\<exists>i < length bs. P (length bs - 1 - i) (bs ! i)"
        by (intro exI [of _ "length bs - 1 - i"]) (auto simp: rev_nth)
    next
      assume "\<exists>i < length bs. P (length bs - 1 - i) (bs ! i)"
      then obtain i where "i < length bs" "P (length bs - 1 - i) (bs ! i)" by blast
      then show "\<exists>i < length bs. P i (rev bs ! i)"
        by (intro exI [of _ "length bs - 1 - i"]) (auto simp: rev_nth)
    qed
    show ?thesis
      unfolding bit_bytes_value length_rev
      using ex [of "\<lambda>i b. byte_shift (\<not> big) (length bs) i \<le> j \<and> bit b (j - byte_shift (\<not> big) (length bs) i)"] sh
      by (metis (no_types, lifting))
  qed
qed

lemma bswap_bytes: "length bs \<le> 8 \<Longrightarrow> bswap (length bs) (bytes_value big bs) = bytes_value (\<not> big) bs"
proof (cases big)
  case True
  assume len: "length bs \<le> 8"
  have "value_bytes False (length bs) (bytes_value True bs) = rev bs"
    using value_bytes_rev [of True "length bs"] value_bytes_of_bytes [OF len, of True] by simp
  then show ?thesis using bytes_value_rev [of False bs] True by (simp add: bswap_def)
next
  case False
  assume "length bs \<le> 8"
  then show ?thesis using False value_bytes_of_bytes [of bs False] by (simp add: bswap_def)
qed

lemma putWord_bytes: "putWord v = value_bytes False 8 v"
  by (simp add: putWord_def value_bytes_def byte_shift_def mult.commute)

lemma getWord_bytes: "length bs = 8 \<Longrightarrow> getWord bs = bytes_value False bs"
  by (simp add: getWord_def bytes_value_def byte_shift_def mult.commute)

lemma getWord_putWord: "getWord (putWord v) = v"
proof -
  have "getWord (putWord v) = take_bit (8 * 8) v"
    using bytes_value_of_value [of 8 False v] by (simp add: putWord_bytes getWord_bytes)
  then show ?thesis by (simp add: take_bit_word_eq_self)
qed

lemma putWord_getWord: "length bs = 8 \<Longrightarrow> putWord (getWord bs) = bs"
  using value_bytes_of_bytes [of bs False] by (simp add: putWord_bytes getWord_bytes)

end
