(* ===== verification/Interfaces.thy ===== *)
theory Interfaces
  imports Bytes
begin

text \<open>
  What clients of the memories and of the log of stores rely on, as locales: a memory is bytes that
  reads read and writes write; a log holds the last byte noted at each address. The facts that follow
  are proved once here, and hold of each component that is shown to have the laws.
\<close>

section \<open>Memories\<close>

locale guest_memory =
  fixes inv :: "'s \<Rightarrow> bool"
    and bytes :: "'s \<Rightarrow> memory"
    and reads :: "'s \<Rightarrow> u64 \<Rightarrow> nat \<Rightarrow> u8 list"
    and writes :: "u64 \<Rightarrow> u8 list \<Rightarrow> 's \<Rightarrow> 's \<Rightarrow> bool"
  assumes reads_bytes: "inv s \<Longrightarrow> reads s a n = read_bytes (bytes s) a n"
    and writes_bytes: "inv s \<Longrightarrow> writes a bs s s' \<Longrightarrow> inv s' \<and> bytes s' = upd_bytes (bytes s) a bs"
begin

lemma read_after_write:
  assumes "inv s" "writes a bs s s'" "length bs \<le> 2 ^ 64"
  shows "reads s' a (length bs) = bs"
proof (rule nth_equalityI)
  have s': "inv s'" "bytes s' = upd_bytes (bytes s) a bs" using writes_bytes [OF assms(1,2)] by simp_all
  then show "length (reads s' a (length bs)) = length bs" by (simp add: reads_bytes)
  fix i
  assume "i < length (reads s' a (length bs))"
  then have i: "i < length bs" using s' by (simp add: reads_bytes)
  then have "unat (of_nat i :: u64) = i" using assms(3) by (simp add: unat_of_nat take_bit_eq_mod)
  then show "reads s' a (length bs) ! i = bs ! i"
    using i s' assms(3) by (simp add: reads_bytes upd_bytes_apply)
qed

lemma read_apart:
  assumes "inv s" "writes a bs s s'" "\<And>i. i < n \<Longrightarrow> length bs \<le> unat (b + of_nat i - a)"
  shows "reads s' b n = reads s b n"
proof -
  have s': "inv s'" "bytes s' = upd_bytes (bytes s) a bs" using writes_bytes [OF assms(1,2)] by simp_all
  show ?thesis
    unfolding reads_bytes [OF s'(1)] reads_bytes [OF assms(1)] s'(2) read_bytes_def
    using assms(3) by (auto simp: upd_bytes_outside)
qed

lemma write_over:
  assumes "inv s" "writes a bs s s1" "writes a bs' s1 s2" "length bs' = length bs" "length bs \<le> 2 ^ 64"
  shows "bytes s2 = upd_bytes (bytes s) a bs'"
proof
  fix x
  have "inv s1" "bytes s1 = upd_bytes (bytes s) a bs" using writes_bytes [OF assms(1,2)] by simp_all
  then have "bytes s2 = upd_bytes (upd_bytes (bytes s) a bs) a bs'" using writes_bytes [OF _ assms(3)] by simp
  then show "bytes s2 x = upd_bytes (bytes s) a bs' x" using assms(4,5) by (simp add: upd_bytes_apply)
qed

text \<open>Writes to places that have no byte in common, in either order.\<close>

lemma writes_commute:
  assumes "inv s" "writes a bs s s1" "writes b cs s1 s2" "writes b cs s t1" "writes a bs t1 t2"
    "length bs \<le> 2 ^ 64" "length cs \<le> 2 ^ 64"
    "\<And>x. \<not> (unat (x - a) < length bs \<and> unat (x - b) < length cs)"
  shows "bytes s2 = bytes t2"
proof
  fix x
  have "inv s1" "bytes s1 = upd_bytes (bytes s) a bs" using writes_bytes [OF assms(1,2)] by simp_all
  then have 2: "bytes s2 = upd_bytes (upd_bytes (bytes s) a bs) b cs" using writes_bytes [OF _ assms(3)] by simp
  have "inv t1" "bytes t1 = upd_bytes (bytes s) b cs" using writes_bytes [OF assms(1,4)] by simp_all
  then have t: "bytes t2 = upd_bytes (upd_bytes (bytes s) b cs) a bs" using writes_bytes [OF _ assms(5)] by simp
  show "bytes s2 x = bytes t2 x" unfolding 2 t using assms(6,7) assms(8) [of x] by (auto simp: upd_bytes_apply)
qed

end

section \<open>Logs of stores\<close>

locale change_log =
  fixes ok :: "'l \<Rightarrow> bool"
    and lookup :: "'l \<Rightarrow> u64 \<Rightarrow> u8 option"
    and noting :: "u64 \<Rightarrow> nat \<Rightarrow> bool \<Rightarrow> u64 \<Rightarrow> 'l \<Rightarrow> 'l"
    and cells :: "'l \<Rightarrow> (u64 \<times> u8) list"
    and none :: "'l"
  assumes none_ok: "ok none" "lookup none = Map.empty"
    and noting_ok: "ok l \<Longrightarrow> sz \<le> 8 \<Longrightarrow> ok (noting a sz big v l)"
    and noting_lookup: "ok l \<Longrightarrow> sz \<le> 8 \<Longrightarrow> lookup (noting a sz big v l) =
      (\<lambda>x. if unat (x - a) < sz then Some (value_bytes big sz v ! unat (x - a)) else lookup l x)"
    and cells_lookup: "ok l \<Longrightarrow> (a, b) \<in> set (cells l) \<longleftrightarrow> lookup l a = Some b"
    and cells_distinct: "ok l \<Longrightarrow> distinct (map fst (cells l))"
begin

text \<open>A log agrees with a memory and the one it started as: what isn't in it is as it was.\<close>

definition agrees :: "memory \<Rightarrow> 'l \<Rightarrow> memory \<Rightarrow> bool" where
  "agrees f l g \<longleftrightarrow> (\<forall>a. g a = (case lookup l a of None \<Rightarrow> f a | Some v \<Rightarrow> v))"

lemma agrees_none: "agrees f none f"
  by (simp add: agrees_def none_ok)

lemma agrees_store:
  assumes "ok l" "sz \<le> 8" "agrees f l g"
  shows "agrees f (noting a sz big v l) (upd_bytes g a (value_bytes big sz v))"
  using assms by (simp add: agrees_def noting_lookup upd_bytes_apply)

lemma agrees_cells:
  assumes "ok l" "agrees f l g"
  shows "g = upd_pairs f (cells l)"
proof
  fix a
  have "map_of (cells l) a = lookup l a"
    using cells_lookup [OF assms(1)] cells_distinct [OF assms(1)]
    by (metis map_of_eq_Some_iff not_None_eq)
  then show "g a = upd_pairs f (cells l) a"
    using assms(2) upd_pairs_lookup [OF cells_distinct [OF assms(1)]] by (simp add: agrees_def)
qed

end

end
