(* ===== verification/PagedAccess.thy ===== *)
theory PagedAccess
  imports PagedTable Interfaces
begin

unbundle bit_operations_syntax

text \<open>
  Loads and stores of a \<^typ>\<open>paged\<close> memory, by the word and of any size: a memory is a total map
  from addresses to bytes (\<open>view\<close>), 0 where nothing was written, which loads read and stores
  update, whether or not a page has to be made on the way.
\<close>

section \<open>The bytes of a memory\<close>

definition view :: "paged \<Rightarrow> memory" where
  "view m a = (case find_page m a of None \<Rightarrow> 0 | Some p \<Rightarrow> page_bytes m p (pageOffset a))"

lemma view_new [simp]: "view new_memory = (\<lambda>_. 0)"
  by (simp add: view_def new_memory_find fun_eq_iff)

lemma word_offset_alt: "word_offset a = unat a mod 8"
  using unat_and_mask64 [of a 3] by (simp add: word_offset_def mask_eq_exp_minus_1)

lemma pageOffset_alt: "pageOffset a = unat (a AND 4095)"
  using unat_and_mask64 [of a 12] by (simp add: pageOffset_def mask_eq_exp_minus_1)

lemma wordAt_offset: "wordAt a + word_offset a = pageOffset a"
proof -
  have "(a AND 4088) AND (a AND 7) = a AND (4088 AND 7)" "(a AND 4088) OR (a AND 7) = a AND (4088 OR 7)"
    by (simp_all only: and.assoc and.left_commute and.left_idem bit.conj_disj_distrib)
  then have sum: "(a AND 4088) + (a AND 7) = a AND 4095"
    using word_plus_and_or [of "a AND 4088" "a AND 7"] by simp
  have "unat (a AND 4088) \<le> unat (4088::u64)" "unat (a AND 7) \<le> unat (7::u64)"
    by (simp_all only: word_le_nat_alt [symmetric] word_and_le1)
  then have "unat ((a AND 4088) + (a AND 7)) = unat (a AND 4088) + unat (a AND 7)"
    by (intro unat_plus_simple [THEN iffD1]) (simp add: word_le_nat_alt unat_word_ariths)
  then show ?thesis by (simp add: sum wordAt_def word_offset_def pageOffset_alt)
qed

lemma word_offset_page: "word_offset a = pageOffset a mod 8"
  by (simp add: word_offset_alt pageOffset_def mod_mod_cancel)

text \<open>An address a few bytes on, within the same word.\<close>

lemma wordAt_dvd: "wordAt a = 8 * (pageOffset a div 8)"
proof -
  have "wordAt a + pageOffset a mod 8 = 8 * (pageOffset a div 8) + pageOffset a mod 8"
    using wordAt_offset [of a] by (simp only: word_offset_page mult_div_mod_eq)
  then show ?thesis by (simp only: add_right_cancel)
qed

lemma wordAt_bound: "wordAt a + 8 \<le> 4096"
  using pageOffset_less [of a] unfolding wordAt_dvd by presburger

lemma page_split:
  "r < 4096 \<Longrightarrow> (4096 * q + r) div 4096 = (q::nat)" "r < 4096 \<Longrightarrow> (4096 * q + r) mod 4096 = (r::nat)"
  by (simp_all only: div_mult_self4 mod_mult_self4) simp_all

lemma in_page_add:
  assumes "pageOffset a + i < 4096"
  shows "pageNumber (a + of_nat i) = pageNumber a" "pageOffset (a + of_nat i) = pageOffset a + i"
    "unat (a + of_nat i) = unat a + i"
proof -
  have lt: "unat a + i < 2 ^ 64"
  proof -
    have "pageNumber a < 2 ^ 52" by (rule pageNumber_less)
    then have "unat a + i < 4096 * 2 ^ 52" using assms page_address [of a] by linarith
    then show ?thesis by simp
  qed
  then show u: "unat (a + of_nat i) = unat a + i"
    by (simp add: unat_word_ariths unat_of_nat take_bit_eq_mod)
  have e: "unat a + i = 4096 * pageNumber a + (pageOffset a + i)"
    using page_address [of a] by linarith
  show "pageNumber (a + of_nat i) = pageNumber a"
    unfolding pageNumber_def [of "a + of_nat i"] u e by (rule page_split) (rule assms)
  show "pageOffset (a + of_nat i) = pageOffset a + i"
    unfolding pageOffset_def [of "a + of_nat i"] u e by (rule page_split) (rule assms)
qed

lemma in_word_add:
  assumes "word_offset a + i < 8"
  shows "pageNumber (a + of_nat i) = pageNumber a" "pageOffset (a + of_nat i) = pageOffset a + i"
    "word_offset (a + of_nat i) = word_offset a + i" "unat (a + of_nat i) = unat a + i"
proof -
  have small: "pageOffset a + i < 4096"
    using assms wordAt_offset [of a] wordAt_bound [of a] by linarith
  show "pageNumber (a + of_nat i) = pageNumber a" "unat (a + of_nat i) = unat a + i"
    and off: "pageOffset (a + of_nat i) = pageOffset a + i"
    using in_page_add [OF small] by simp_all
  show "word_offset (a + of_nat i) = word_offset a + i"
    using assms mod_add_left_eq [of "pageOffset a" 8 i] unfolding word_offset_page off by simp
qed

section \<open>Bytes of a page\<close>

lemma put_bytes_simps [simp]:
  "entries (put_bytes p at bs m) = entries m" "nodes (put_bytes p at bs m) = nodes m"
  "chunks (put_bytes p at bs m) = chunks m" "unused (put_bytes p at bs m) = unused m"
  "chunkUsed (put_bytes p at bs m) = chunkUsed m" "stepOpen (put_bytes p at bs m) = stepOpen m"
  "stepWrites (put_bytes p at bs m) = stepWrites m"
  "stepOverflowed (put_bytes p at bs m) = stepOverflowed m" "asked (put_bytes p at bs m) = asked m"
  by (simp_all add: put_bytes_def)

lemma put_bytes_page [simp]: "q \<noteq> p \<Longrightarrow> page_bytes (put_bytes p at bs m) q = page_bytes m q"
  by (simp add: put_bytes_def)

lemma put_bytes_at:
  "page_bytes (put_bytes p at bs m) p k =
   (if at \<le> k \<and> k < at + length bs then bs ! (k - at) else page_bytes m p k)"
  by (simp add: put_bytes_def)

lemma put_bytes_find [simp]: "find_page (put_bytes p at bs m) a = find_page m a"
  by (rule find_page_entries) simp

text \<open>A page that an entry holds can be written: it is none of those that have to be zeros.\<close>

lemma given_not_next:
  "given m p \<Longrightarrow> chunkUsed m \<le> k \<Longrightarrow> p \<noteq> PageAt (chunks m - 1) k"
  unfolding given_def by (cases p) auto

lemma put_bytes_inv:
  assumes "paged_inv m" "find_page m a = Some p"
  shows "paged_inv (put_bytes p at bs m)"
proof -
  obtain path where ok: "nodes_ok path m" "pages_ok m" using assms(1) by (auto simp: paged_inv_def)
  note page = pages_okD [OF ok(2)]
  obtain n where n: "entries m n (indexAt a 3) = ToPage p"
    using assms(2) unfolding find_page_iff by blast
  have g: "given (put_bytes p at bs m) = given m" by (auto simp: given_def)
  have z: "zero_page (put_bytes p at bs m) q = zero_page m q" if "q \<noteq> p" for q
    using that by (simp add: zero_page_def)
  have "nodes_ok path (put_bytes p at bs m)" using ok(1) by (simp add: nodes_ok_def)
  moreover have "pages_ok (put_bytes p at bs m)"
  proof (rule pages_okI)
    show "given (put_bytes p at bs m) q \<and> zero_page (put_bytes p at bs m) q"
      if "q \<in> set (unused (put_bytes p at bs m))" for q
      using that page(2) [OF n] page(4) [of q] z [of q] by (auto simp: g)
    show "zero_page (put_bytes p at bs m) (PageAt (chunks (put_bytes p at bs m) - 1) k)"
      if "chunkUsed (put_bytes p at bs m) \<le> k" "k < 256" for k
      using that page(7) [of k] given_not_next [of m p k] page(2) [OF n] by (auto simp: z)
  qed (use page in \<open>auto simp: g\<close>)
  ultimately show ?thesis by (auto simp: paged_inv_def)
qed

text \<open>
  Bytes put in the page of an address, from that address on and within the page, are bytes
  written there in the address space.
\<close>

lemma put_bytes_view:
  assumes inv: "paged_inv m" and p: "find_page m a = Some p" and fits: "pageOffset a + length bs \<le> 4096"
  shows "view (put_bytes p (pageOffset a) bs m) = upd_bytes (view m) a bs"
proof (rule upd_bytes_eqI)
  obtain path where ok: "nodes_ok path m" "pages_ok m" using inv by (auto simp: paged_inv_def)
  show "length bs \<le> 2 ^ 64" using fits by simp
  fix x
  show "view (put_bytes p (pageOffset a) bs m) x =
      (if unat (x - a) < length bs then bs ! unat (x - a) else view m x)"
  proof (cases "unat (x - a) < length bs")
    case True
    define i where "i = unat (x - a)"
    have i: "i < length bs" "x = a + of_nat i" using True by (simp_all add: i_def)
    then have "pageOffset a + i < 4096" using fits by simp
    note at = in_page_add(1,2) [OF this]
    have "find_page m x = Some p" using find_page_same_page [OF at(1), of m] p i(2) by simp
    then have "view (put_bytes p (pageOffset a) bs m) x = bs ! i"
      using i at(2) by (simp add: view_def put_bytes_at)
    then show ?thesis using True by (simp add: i_def)
  next
    case False
    have "page_bytes (put_bytes p (pageOffset a) bs m) p (pageOffset x) = page_bytes m p (pageOffset x)"
      if "find_page m x = Some p"
    proof -
      have "pageNumber x = pageNumber a" by (rule find_page_inj [OF ok that p])
      then have "unat x = unat a + (pageOffset x - pageOffset a)" if "pageOffset a \<le> pageOffset x"
        using that page_address [of x] page_address [of a] by simp
      then have "unat (x - a) = pageOffset x - pageOffset a" if "pageOffset a \<le> pageOffset x"
        using that unat_sub [of a x] by (simp add: word_le_nat_alt)
      then show ?thesis using False by (auto simp: put_bytes_at)
    qed
    then show ?thesis using False by (cases "find_page m x = Some p") (auto simp: view_def split: option.splits)
  qed
qed

section \<open>Making a page changes no byte\<close>

lemma paged_inv_given: "paged_inv m \<Longrightarrow> find_page m a = Some p \<Longrightarrow> given m p"
  unfolding paged_inv_def find_page_iff using pages_okD(2) by blast

lemma ensured_view:
  assumes "paged_inv m" "ensured a m r m'"
  shows "view m' = view m"
proof
  fix x
  note e = assms(2) [unfolded ensured_def]
  show "view m' x = view m x"
  proof (cases "find_page m x")
    case (Some p)
    then have "find_page m' x = Some p" "page_bytes m' p = page_bytes m p"
      using e grows_find [of m m' x p] paged_inv_given [OF assms(1) Some] by (auto simp: grows_def)
    then show ?thesis using Some by (simp add: view_def)
  next
    case None
    have "zero_page m' p" if "find_page m' x = Some p" for p
    proof -
      have "pageNumber x = pageNumber a" using e None that by force
      then have "find_page m a = None" "find_page m' a = Some p"
        using find_page_same_page [of x a m] find_page_same_page [of x a m'] None that by simp_all
      then show ?thesis using e by simp
    qed
    then show ?thesis using None by (auto simp: view_def zero_page_def split: option.splits)
  qed
qed

section \<open>Words\<close>

lemma loadWord_view:
  "loadWord m a = read_bytes (view m) (a - of_nat (word_offset a)) 8"
proof (rule nth_equalityI)
  define b where "b = a - of_nat (word_offset a)"
  have le: "word_offset a \<le> unat a" by (simp add: word_offset_alt)
  have u: "unat b = unat a - word_offset a"
    using le unat_sub [of "of_nat (word_offset a)" a] word_offset_less [of a]
    by (simp add: b_def word_le_nat_alt unat_of_nat take_bit_eq_mod)
  have w: "unat b mod 8 = 0" unfolding u word_offset_alt by (metis minus_mod_eq_mult_div mod_mult_self1_is_0)
  have b: "a = b + of_nat (word_offset a)" by (simp add: b_def)
  have wb: "word_offset b = 0" using w by (simp add: word_offset_alt)
  have ab: "pageNumber a = pageNumber b" "pageOffset a = pageOffset b + word_offset a"
    using in_word_add(1,2) [of b "word_offset a"] b wb by simp_all
  then have at: "wordAt a = pageOffset b" using wordAt_offset [of a] by simp
  show "length (loadWord m a) = length (read_bytes (view m) (a - of_nat (word_offset a)) 8)"
    by (simp add: loadWord_def load_word_def split: option.splits)
  fix i
  assume "i < length (loadWord m a)"
  then have i: "i < 8" by (simp add: loadWord_def load_word_def split: option.splits)
  have bi: "pageNumber (b + of_nat i) = pageNumber a" "pageOffset (b + of_nat i) = wordAt a + i"
    using in_word_add(1,2) [of b i] i wb ab(1) at by simp_all
  have "view m (b + of_nat i) = loadWord m a ! i"
    using i bi(2) by (simp add: view_def loadWord_def load_word_def find_page_same_page [OF bi(1)]
        split: option.splits)
  then show "loadWord m a ! i = read_bytes (view m) (a - of_nat (word_offset a)) 8 ! i"
    using i by (simp add: b_def)
qed

lemma splice_put:
  assumes "off + length bs \<le> 8"
  shows "put_bytes p at (splice (load_word m p at) off bs) m = put_bytes p (at + off) bs m"
proof -
  have len: "length (splice (load_word m p at) off bs) = 8"
    using assms by (simp add: splice_def load_word_def)
  have "(if at \<le> k \<and> k < at + 8 then splice (load_word m p at) off bs ! (k - at) else page_bytes m p k) =
      (if at + off \<le> k \<and> k < at + off + length bs then bs ! (k - (at + off)) else page_bytes m p k)" for k
    using assms by (auto simp: splice_def load_word_def nth_append not_less)
  then show ?thesis unfolding put_bytes_def len by simp
qed

lemma store_on_page_put:
  assumes "word_offset a + length bs \<le> 8"
  shows "store_on_page p a bs m = put_bytes p (pageOffset a) bs m"
  using assms splice_put [of "word_offset a" bs p "wordAt a" m] wordAt_offset [of a]
  by (auto simp: store_on_page_def)

lemma store_on_page_view:
  assumes "paged_inv m" "find_page m a = Some p" "word_offset a + length bs \<le> 8"
  shows "paged_inv (store_on_page p a bs m)" "view (store_on_page p a bs m) = upd_bytes (view m) a bs"
    "find_page (store_on_page p a bs m) = find_page m" "same_step m (store_on_page p a bs m)"
proof -
  have "pageOffset a + length bs \<le> 4096"
    using assms(3) wordAt_offset [of a] wordAt_bound [of a] by linarith
  then show "view (store_on_page p a bs m) = upd_bytes (view m) a bs"
    unfolding store_on_page_put [OF assms(3)] by (rule put_bytes_view [OF assms(1,2)])
qed (use assms in \<open>auto simp: store_on_page_put put_bytes_inv same_step_def\<close>)

lemma upd_bytes_same:
  "(\<And>i. i < length bs \<Longrightarrow> f (a + of_nat i) = bs ! i) \<Longrightarrow> length bs \<le> 2 ^ 64 \<Longrightarrow> upd_bytes f a bs = f"
proof (rule upd_bytes_eqI [symmetric])
  fix x
  assume "\<And>i. i < length bs \<Longrightarrow> f (a + of_nat i) = bs ! i"
  from this [of "unat (x - a)"] show "f x = (if unat (x - a) < length bs then bs ! unat (x - a) else f x)"
    by simp
qed

text \<open>
  What a store within a word does, with its failure: the bytes are there, or the system refused a
  page, and none are. Pages that there were stay.
\<close>

definition stored :: "u64 \<Rightarrow> u8 list \<Rightarrow> paged \<Rightarrow> paged \<Rightarrow> bool" where
  "stored a bs m m' \<longleftrightarrow> paged_inv m' \<and> view m' = upd_bytes (view m) a bs \<and> same_step m m' \<and>
     (\<forall>b p. find_page m b = Some p \<longrightarrow> find_page m' b = Some p)"

lemma stored_nil: "paged_inv m \<Longrightarrow> stored a [] m m"
  by (simp add: stored_def)

lemma stored_append:
  "stored a bs m m1 \<Longrightarrow> stored (a + of_nat (length bs)) cs m1 m2 \<Longrightarrow> stored a (bs @ cs) m m2"
  using same_step_trans by (auto simp: stored_def upd_bytes_append)

lemma storeInWord_ok:
  assumes inv: "paged_inv m" and fits: "word_offset a + length bs \<le> 8"
    and run: "storeInWord h a bs m = (ok, m')"
  shows "(if ok then stored a bs m m' else stored a [] m m') \<and> ((\<forall>i. h i) \<longrightarrow> ok)"
proof (cases "list_all (\<lambda>b. b = 0) bs")
  case zero: True
  show ?thesis
  proof (cases "find_page m a")
    case None
    have "view m (a + of_nat i) = bs ! i" if "i < length bs" for i
      using that zero in_word_add(1) [of a i] fits None find_page_same_page [of "a + of_nat i" a m]
      by (simp add: view_def list_all_length)
    then have "upd_bytes (view m) a bs = view m" using fits by (intro upd_bytes_same) auto
    then show ?thesis using run zero None inv by (auto simp: storeInWord_def stored_def)
  next
    case (Some p)
    then show ?thesis
      using run zero store_on_page_view [OF inv Some fits] by (auto simp: storeInWord_def stored_def)
  qed
next
  case False
  obtain r m1 where e: "ensure h a m = (r, m1)" by fastforce
  note en = ensure_ok [OF inv e]
  then have v: "view m1 = view m" using ensured_view [OF inv] by blast
  have m1: "paged_inv m1" "same_step m m1" "find_page m1 a = r"
      "find_page m b = Some p \<Longrightarrow> find_page m1 b = Some p" for b p
    using en grows_find [of m m1 b p] by (auto simp: ensured_def)
  show ?thesis
  proof (cases r)
    case None
    then show ?thesis using run False e en m1 v by (auto simp: storeInWord_def stored_def)
  next
    case (Some p)
    note s = store_on_page_view [OF m1(1) m1(3) [unfolded Some] fits]
    have "ok" "m' = store_on_page p a bs m1" using run False e Some by (simp_all add: storeInWord_def)
    then show ?thesis using s m1 v same_step_trans [OF m1(2) s(4)] by (auto simp: stored_def)
  qed
qed

section \<open>Accesses of any size\<close>

lemma word_part:
  assumes "word_offset a + count \<le> 8"
  shows "take count (drop (word_offset a) (loadWord m a)) = read_bytes (view m) a count"
  using assms by (intro nth_equalityI) (auto simp: loadWord_view algebra_simps)

text \<open>How many bytes of an access are in its first word.\<close>

definition first_count :: "u64 \<Rightarrow> nat \<Rightarrow> nat" where
  "first_count a n = (if wordSize - word_offset a < n then wordSize - word_offset a else n)"

lemma first_count:
  "word_offset a + first_count a n \<le> 8" "first_count a n \<le> n" "0 < n \<Longrightarrow> 0 < first_count a n"
  using part_count [OF first_count_def [unfolded wordSize_def] word_offset_less] by simp_all

lemma load_step:
  "0 < n \<Longrightarrow> load m a n = take (first_count a n) (drop (word_offset a) (loadWord m a)) @
     load m (a + of_nat (first_count a n)) (n - first_count a n)"
  by (subst load.simps) (simp add: first_count_def Let_def)

lemma store_step:
  "bs \<noteq> [] \<Longrightarrow> store h a bs m =
     (case storeInWord h a (take (first_count a (length bs)) bs) m of
        (False, m') \<Rightarrow> (False, m')
      | (True, m') \<Rightarrow> store h (a + of_nat (first_count a (length bs))) (drop (first_count a (length bs)) bs) m')"
  by (subst store.simps) (simp only: first_count_def Let_def if_False)

lemma load_view: "load m a n = read_bytes (view m) a n"
proof (induction n arbitrary: a rule: less_induct)
  case (less n)
  show ?case
  proof (cases "n = 0")
    case False
    let ?c = "first_count a n"
    have c: "?c \<le> n" "0 < ?c" using first_count(2,3) [where a = a and n = n] False by simp_all
    then have "load m (a + of_nat ?c) (n - ?c) = read_bytes (view m) (a + of_nat ?c) (n - ?c)"
      using less.IH [of "n - ?c"] by simp
    then show ?thesis
      using False word_part [OF first_count(1), of a n m] read_bytes_add [of "view m" a ?c "n - ?c"] c
      by (simp add: load_step)
  qed (simp add: load.simps)
qed

lemma store_ok:
  assumes "paged_inv m" "store h a bs m = (ok, m')"
  shows "\<exists>n \<le> length bs. stored a (take n bs) m m' \<and> (ok \<longrightarrow> n = length bs) \<and> ((\<forall>i. h i) \<longrightarrow> ok)"
  using assms
proof (induction "length bs" arbitrary: a bs m rule: less_induct)
  case less
  show ?case
  proof (cases "bs = []")
    case True
    then show ?thesis using less.prems by (auto simp: store.simps stored_nil)
  next
    case False
    let ?c = "first_count a (length bs)"
    have c: "?c \<le> length bs" "0 < ?c" "word_offset a + length (take ?c bs) \<le> 8"
      using first_count [where a = a and n = "length bs"] False by auto
    obtain ok1 m1 where w: "storeInWord h a (take ?c bs) m = (ok1, m1)" by fastforce
    note s = storeInWord_ok [OF less.prems(1) c(3) w]
    show ?thesis
    proof (cases ok1)
      case True
      then have s1: "stored a (take ?c bs) m m1" and i1: "paged_inv m1" using s by (auto simp: stored_def)
      have "store h (a + of_nat ?c) (drop ?c bs) m1 = (ok, m')"
        using less.prems(2) False w True by (simp add: store_step)
      from less.hyps [OF _ i1 this] c False obtain n where
        n: "n \<le> length bs - ?c" "stored (a + of_nat ?c) (take n (drop ?c bs)) m1 m'"
          "ok \<longrightarrow> n = length bs - ?c" "(\<forall>i. h i) \<longrightarrow> ok"
        by auto
      have "stored a (take (?c + n) bs) m m'"
        using stored_append [OF s1] n(2) c(1) by (simp add: take_add)
      then show ?thesis using n c by (intro exI [of _ "?c + n"]) auto
    next
      case False
      then have "ok = False" "m' = m1" using less.prems(2) \<open>bs \<noteq> []\<close> w by (simp_all add: store_step)
      then show ?thesis using s False by (intro exI [of _ 0]) auto
    qed
  qed
qed

lemma store_all: "paged_inv m \<Longrightarrow> store h a bs m = (True, m') \<Longrightarrow> stored a bs m m'"
  using store_ok [of m h a bs True m'] by auto

lemma store_granted: "paged_inv m \<Longrightarrow> (\<And>i. h i) \<Longrightarrow> \<exists>m'. store h a bs m = (True, m') \<and> stored a bs m m'"
  using store_ok [of m h a bs] store_all [of m h a bs] by (cases "store h a bs m") auto

lemma read_byte_view: "read_byte m a = view m a"
  by (simp add: read_byte_def load_view)

lemma readRange_view: "readRange m a n = read_bytes (view m) a n"
  by (simp add: readRange_def load_view)

section \<open>The interface\<close>

text \<open>A write is a \<^const>\<open>store\<close> for which the system granted what it asked for.\<close>

definition store_done :: "u64 \<Rightarrow> u8 list \<Rightarrow> paged \<Rightarrow> paged \<Rightarrow> bool" where
  "store_done a bs m m' \<longleftrightarrow> (\<exists>h. store h a bs m = (True, m'))"

interpretation paged: guest_memory paged_inv view load store_done
  by unfold_locales (auto simp: load_view store_done_def stored_def dest: store_all)

end
