(* ===== verification/PagedBulk.thy ===== *)
theory PagedBulk
  imports PagedAccess
begin

unbundle bit_operations_syntax

text \<open>
  The operations of a \<^typ>\<open>paged\<close> memory in bulk: \<^const>\<open>writeAll\<close> with the journal of a step, and
  \<^const>\<open>fill\<close>. Each is the sequence of byte writes that it stands for, and if the system refuses a
  page on the way, a part of that sequence from its start.
\<close>

section \<open>The journal of a step\<close>

text \<open>The addresses that a step wrote, if one is open and they weren't too many.\<close>

definition journal :: "paged \<Rightarrow> u64 set option" where
  "journal m = (if stepOverflowed m \<or> \<not> stepOpen m then None
     else Some (\<Union>w \<in> set (stepWrites m). set (write_addresses w)))"

lemma noteStep_simps [simp]:
  "entries (noteStep a n m) = entries m" "nodes (noteStep a n m) = nodes m"
  "chunks (noteStep a n m) = chunks m" "unused (noteStep a n m) = unused m"
  "chunkUsed (noteStep a n m) = chunkUsed m" "page_bytes (noteStep a n m) = page_bytes m"
  "stepOpen (noteStep a n m) = stepOpen m" "asked (noteStep a n m) = asked m"
  by (simp_all add: noteStep_def)

text \<open>Nothing of the contents, the table or the invariant depends on the journal.\<close>

definition same_table :: "paged \<Rightarrow> paged \<Rightarrow> bool" where
  "same_table m m' \<longleftrightarrow> entries m' = entries m \<and> nodes m' = nodes m \<and> chunks m' = chunks m \<and>
     unused m' = unused m \<and> chunkUsed m' = chunkUsed m \<and> page_bytes m' = page_bytes m"

lemma same_table_inv:
  assumes "same_table m m'"
  shows "paged_inv m' = paged_inv m"
proof -
  have "nodes_ok path m' = nodes_ok path m" for path
    using assms by (simp add: same_table_def nodes_ok_def)
  moreover have "given m' = given m" "zero_page m' = zero_page m"
    using assms by (auto simp: same_table_def given_def zero_page_def)
  then have "pages_ok m' = pages_ok m"
    using assms by (simp add: same_table_def pages_ok_def)
  ultimately show ?thesis by (simp add: paged_inv_def)
qed

lemma same_table_view: "same_table m m' \<Longrightarrow> find_page m' a = find_page m a \<and> view m' = view m"
  using find_page_entries [of m' m]
  by (intro conjI ext) (simp_all add: same_table_def view_def split: option.split)

lemma same_table_steps:
  "same_table m (noteStep a n m)" "same_table m (beginStep m)" "same_table m (endStep m)"
  by (simp_all add: same_table_def beginStep_def endStep_def)

lemmas steps_inv [simp] = same_table_steps [THEN same_table_inv]
lemmas steps_view [simp] = same_table_steps [THEN same_table_view, THEN conjunct2]
lemmas steps_find [simp] = same_table_steps [THEN same_table_view, THEN conjunct1]

text \<open>What is noted is in the journal, and what was in it stays, unless it is too much.\<close>

definition noted :: "u64 set \<Rightarrow> paged \<Rightarrow> paged \<Rightarrow> bool" where
  "noted A m m' \<longleftrightarrow> stepOpen m' = stepOpen m \<and>
     (journal m' = (case journal m of None \<Rightarrow> None | Some J \<Rightarrow> Some (J \<union> A)) \<or> stepOverflowed m')"

lemma noted_trans:
  assumes "noted A m m1" "noted B m1 m2" "stepOverflowed m1 \<Longrightarrow> stepOpen m \<Longrightarrow> stepOverflowed m2"
  shows "noted (A \<union> B) m m2"
proof (cases "stepOverflowed m1 \<and> stepOpen m \<or> stepOverflowed m2")
  case True
  then show ?thesis using assms by (auto simp: noted_def)
next
  case False
  then show ?thesis
    using assms by (auto simp: noted_def journal_def Un_assoc split: if_splits option.splits)
qed

lemma write_addresses_note:
  "n \<le> 8 \<Longrightarrow> set (write_addresses (a, of_nat n)) = (\<lambda>i. a + of_nat i) ` {0..<n}"
  by (simp add: write_addresses_def unat_of_nat take_bit_eq_mod)

lemma noteStep_overflow [simp]: "stepOverflowed m \<Longrightarrow> stepOverflowed (noteStep a n m)"
  by (simp add: noteStep_def)

lemma noteStep_noted: "n \<le> 8 \<Longrightarrow> noted ((\<lambda>i. a + of_nat i) ` {0..<n}) m (noteStep a n m)"
  by (auto simp: noted_def journal_def noteStep_def stepActive_def write_addresses_note)

lemma distinct_remdups_adj_sorted: "sorted xs \<Longrightarrow> distinct (remdups_adj xs)"
  by (induction xs rule: remdups_adj.induct) auto

lemma stepAddresses_journal:
  assumes "stepAddresses m [] = Some xs"
  shows "sorted xs" "distinct xs" "journal m = Some (set xs)"
  using assms by (auto simp: stepAddresses_def journal_def sorted_remdups_adj distinct_remdups_adj_sorted
      split: if_splits)

lemma stepAddresses_none: "stepAddresses m as = None \<longleftrightarrow> journal m = None"
  by (simp add: stepAddresses_def journal_def)

text \<open>As many notes as there is room for don't overflow.\<close>

definition step_room :: "nat \<Rightarrow> paged \<Rightarrow> bool" where
  "step_room k m \<longleftrightarrow> \<not> stepOverflowed m \<and> length (stepWrites m) + k \<le> stepLimit"

lemma step_room_note: "step_room (Suc k) m \<Longrightarrow> step_room k (noteStep a n m)"
  by (auto simp: step_room_def noteStep_def)

lemma step_room_same: "same_step m m' \<Longrightarrow> step_room k m' = step_room k m"
  by (simp add: step_room_def same_step_def)

lemma step_room_mono: "step_room k m \<Longrightarrow> j \<le> k \<Longrightarrow> step_room j m"
  by (simp add: step_room_def)

lemma same_step_journal: "same_step m m' \<Longrightarrow> journal m' = journal m"
  by (simp add: same_step_def journal_def)

lemma same_step_noted: "same_step m m1 \<Longrightarrow> noted A m1 m2 \<Longrightarrow> noted A m m2"
  by (auto simp: noted_def same_step_journal) (auto simp: same_step_def)

section \<open>\<open>writeAll\<close>\<close>

text \<open>The pairs of a run go on from its first, within one word.\<close>

lemma run_from_bound: "run \<le> room \<Longrightarrow> run_from at room run xs \<le> room"
  by (induction xs arbitrary: run) auto

lemma run_from_length: "run_from at room run xs \<le> run + length xs"
proof (induction xs arbitrary: run)
  case (Cons x xs)
  then show ?case using Cons [of "Suc run"] by simp
qed simp

lemma run_from_addresses:
  "run \<le> j \<Longrightarrow> j < run_from at room run xs \<Longrightarrow> xs ! (j - run) = at + of_nat j"
proof (induction xs arbitrary: run)
  case (Cons x xs)
  then show ?case by (cases "j = run") (auto simp: nth_Cons' split: if_splits)
qed simp

lemma run_pairs:
  assumes "run = run_from (fst p) room 1 (map fst ps)"
  shows "upd_pairs f (take run (p # ps)) = upd_bytes f (fst p) (map snd (take run (p # ps)))"
    "fst ` set (take run (p # ps)) = (\<lambda>i. fst p + of_nat i) ` {0..<run}"
proof -
  let ?qs = "take run (p # ps)"
  have len: "length ?qs = run" using run_from_length [of "fst p" room 1 "map fst ps"] assms by simp
  have at: "fst ((p # ps) ! i) = fst p + of_nat i" if "i < run" for i
    using that run_from_addresses [of 1 i "fst p" room "map fst ps"] run_from_length [of "fst p" room 1 "map fst ps"]
    by (cases i) (auto simp: assms)
  have "?qs = map (\<lambda>i. (fst p + of_nat i, map snd ?qs ! i)) [0..<length (map snd ?qs)]"
    using at len by (intro nth_equalityI) (auto simp: prod_eq_iff)
  then show "upd_pairs f ?qs = upd_bytes f (fst p) (map snd ?qs)"
    using upd_bytes_pairs [of f "fst p" "map snd ?qs"] by metis
  have "map fst ?qs = map (\<lambda>i. fst p + of_nat i) [0..<run]"
    using at len by (intro nth_equalityI) auto
  then show "fst ` set ?qs = (\<lambda>i. fst p + of_nat i) ` {0..<run}"
    by (metis list.set_map set_upt)
qed

text \<open>
  Some of the pairs from the start are written and noted; all of them unless the system refused a
  page.
\<close>

definition wrote :: "(u64 \<times> u8) list \<Rightarrow> paged \<Rightarrow> paged \<Rightarrow> bool" where
  "wrote ps m m' \<longleftrightarrow> paged_inv m' \<and> view m' = upd_pairs (view m) ps \<and> noted (fst ` set ps) m m' \<and>
     (stepOverflowed m \<longrightarrow> stepOverflowed m') \<and> (\<forall>k. step_room (length ps + k) m \<longrightarrow> step_room k m') \<and>
     (\<forall>b p. find_page m b = Some p \<longrightarrow> find_page m' b = Some p)"

lemma wrote_nil:
  assumes "stored a [] m m'"
  shows "wrote [] m m'"
proof -
  have s: "same_step m m'" using assms by (simp add: stored_def)
  have "noted {} m m'" using s by (auto simp: noted_def same_step_journal [OF s] same_step_def split: option.split)
  then show ?thesis using assms s by (simp add: wrote_def stored_def step_room_same [OF s]) (simp add: same_step_def)
qed

lemma wrote_append:
  assumes "wrote ps m m1" "wrote qs m1 m2"
  shows "wrote (ps @ qs) m m2"
proof -
  have "noted (fst ` set ps \<union> fst ` set qs) m m2"
    using assms by (intro noted_trans [of _ m m1]) (auto simp: wrote_def)
  moreover have "step_room k m2" if "step_room (length (ps @ qs) + k) m" for k
    using that assms by (simp add: wrote_def ac_simps)
  ultimately show ?thesis using assms by (auto simp: wrote_def upd_pairs_append image_Un)
qed

lemma wrote_run:
  assumes "stored a (map snd ps) m m1" "length ps \<le> 8" "ps \<noteq> []"
    "upd_pairs (view m) ps = upd_bytes (view m) a (map snd ps)"
    "fst ` set ps = (\<lambda>i. a + of_nat i) ` {0..<length ps}"
  shows "wrote ps m (noteStep a (length ps) m1)"
proof -
  have s: "same_step m m1" using assms(1) by (simp add: stored_def)
  have "noted (fst ` set ps) m (noteStep a (length ps) m1)"
    unfolding assms(5) using assms(2) by (intro same_step_noted [OF s] noteStep_noted)
  moreover have "step_room k (noteStep a (length ps) m1)" if "step_room (length ps + k) m" for k
    using that assms(3) step_room_same [OF s]
    by (intro step_room_note) (cases ps; auto intro: step_room_mono)
  ultimately show ?thesis
    using assms(1,4) s by (auto simp: wrote_def stored_def same_step_def)
qed

lemma writeAll_ok:
  assumes "paged_inv m" "writeAll h ps m = (ok, m')"
  shows "\<exists>n \<le> length ps. wrote (take n ps) m m' \<and> (ok \<longrightarrow> n = length ps) \<and> ((\<forall>i. h i) \<longrightarrow> ok)"
  using assms
proof (induction "length ps" arbitrary: ps m rule: less_induct)
  case less
  show ?case
  proof (cases ps)
    case Nil
    then show ?thesis using less.prems wrote_nil [of 0 m m] by (auto simp: stored_nil)
  next
    case (Cons p qs)
    define room where "room = 8 - word_offset (fst p)"
    define run where "run = run_from (fst p) room 1 (map fst qs)"
    have run: "1 \<le> run" "run \<le> room" "run \<le> length ps" "room \<le> 8" "word_offset (fst p) + room = 8"
      using run_from_ge [of 1 "fst p" room "map fst qs"] run_from_bound [of 1 room "fst p" "map fst qs"]
        run_from_length [of "fst p" room 1 "map fst qs"] word_offset_less [of "fst p"]
      by (auto simp: run_def room_def Cons Suc_le_eq)
    obtain ok1 m1 where w: "storeInWord h (fst p) (map snd (take run ps)) m = (ok1, m1)" by fastforce
    have fits: "word_offset (fst p) + length (map snd (take run ps)) \<le> 8" using run by simp
    note s = storeInWord_ok [OF less.prems(1) fits w]
    have step: "writeAll h ps m = (case (ok1, m1) of (False, m') \<Rightarrow> (False, m')
        | (True, m') \<Rightarrow> writeAll h (drop run ps) (noteStep (fst p) run m'))"
      using w by (cases ok1) (simp_all add: Cons writeAll.simps(2) Let_def run_def room_def)
    show ?thesis
    proof (cases ok1)
      case True
      note pr = run_pairs [of run p room qs, OF run_def, folded Cons]
      have len: "length (take run ps) = run" using run by simp
      have "wrote (take run ps) m (noteStep (fst p) (length (take run ps)) m1)"
        using s True run pr(1) pr(2) by (intro wrote_run) (auto simp: Cons)
      then have w1: "wrote (take run ps) m (noteStep (fst p) run m1)" using len by simp
      have inv1: "paged_inv (noteStep (fst p) run m1)" using w1 by (simp add: wrote_def)
      have "writeAll h (drop run ps) (noteStep (fst p) run m1) = (ok, m')"
        using less.prems(2) step True by simp
      from less.hyps [OF _ inv1 this] run Cons obtain n where n: "n \<le> length ps - run"
          "wrote (take n (drop run ps)) (noteStep (fst p) run m1) m'" "ok \<longrightarrow> n = length ps - run"
          "(\<forall>i. h i) \<longrightarrow> ok"
        by auto
      have "wrote (take (run + n) ps) m m'" using wrote_append [OF w1 n(2)] by (simp add: take_add)
      then show ?thesis using n run by (intro exI [of _ "run + n"]) auto
    next
      case False
      then have "wrote [] m m1" using s wrote_nil by auto
      moreover have "ok = False" "m' = m1" using less.prems(2) step False by simp_all
      ultimately show ?thesis using s False by (intro exI [of _ 0]) auto
    qed
  qed
qed

section \<open>\<open>fill\<close>\<close>

text \<open>The test of the code that bytes are all zeros, by comparing them with themselves moved by one.\<close>

lemma is_zero_iff: "bs \<noteq> [] \<Longrightarrow> is_zero bs \<longleftrightarrow> (\<forall>b \<in> set bs. b = 0)"
proof (induction bs)
  case (Cons b bs)
  show ?case
  proof (cases bs)
    case (Cons c cs)
    have "is_zero (b # bs) \<longleftrightarrow> b = 0 \<and> is_zero bs"
      by (auto simp: is_zero_def Cons)
    then show ?thesis using Cons.IH Cons by simp
  qed (simp add: is_zero_def)
qed simp

lemma page_offset_eq: "page_offset a = pageOffset a"
  by (simp add: page_offset_def pageOffset_alt)

text \<open>The part of \<open>fill\<close> on one page: found or made, and copied to.\<close>

lemma put_page_stored:
  assumes "paged_inv m" "find_page m a = Some p" "pageOffset a + length bs \<le> 4096"
  shows "stored a bs m (put_bytes p (pageOffset a) bs m)"
  using put_bytes_inv [OF assms(1,2)] put_bytes_view [OF assms] by (simp add: stored_def same_step_def)

lemma zero_page_stored:
  assumes "paged_inv m" "find_page m a = None" "pageOffset a + length bs \<le> 4096" "\<forall>b \<in> set bs. b = 0"
  shows "stored a bs m m"
proof -
  have "view m (a + of_nat i) = bs ! i" if "i < length bs" for i
    using that assms find_page_same_page [of "a + of_nat i" a m] in_page_add(1) [of a i]
    by (simp add: view_def)
  then have "upd_bytes (view m) a bs = view m" using assms(3) by (intro upd_bytes_same) auto
  then show ?thesis using assms(1) by (simp add: stored_def)
qed

lemma ensured_stored: "paged_inv m \<Longrightarrow> ensured a m r m' \<Longrightarrow> stored b [] m m'"
  using ensured_view [of m a r m'] grows_find [of m m'] by (simp add: stored_def ensured_def)

lemma fill_step:
  assumes "bs \<noteq> []" "at = address + of_nat d" "\<not> at < address"
    "count = (if 4096 - pageOffset at < length bs then 4096 - pageOffset at else length bs)"
  shows "fill_from h address d bs m =
    (if is_zero (take count bs)
     then (case find_page m at of None \<Rightarrow> fill_from h address (d + count) (drop count bs) m
           | Some p \<Rightarrow> fill_from h address (d + count) (drop count bs) (put_bytes p (pageOffset at) (take count bs) m))
     else (case ensure h at m of (None, m') \<Rightarrow> (False, m')
           | (Some p, m') \<Rightarrow> fill_from h address (d + count) (drop count bs) (put_bytes p (pageOffset at) (take count bs) m')))"
  using assms(1,3) unfolding assms(4)
  by (subst fill_from.simps)
     (auto simp: Let_def page_offset_eq simp flip: assms(2) split: option.split prod.split)

text \<open>As many of the bytes as there are before the end of the address space.\<close>

lemma fill_from_ok:
  assumes "paged_inv m" "fill_from h address d bs m = (ok, m')" "unat address + d \<le> 2 ^ 64"
    "d + length bs < 2 ^ 64"
  shows "\<exists>n \<le> min (length bs) (2 ^ 64 - (unat address + d)). stored (address + of_nat d) (take n bs) m m' \<and>
    (ok \<longrightarrow> n = min (length bs) (2 ^ 64 - (unat address + d))) \<and> ((\<forall>i. h i) \<longrightarrow> ok)"
  using assms
proof (induction "length bs" arbitrary: d bs m rule: less_induct)
  case less
  define at where "at = address + of_nat d"
  show ?case
  proof (cases "bs = [] \<or> unat address + d = 2 ^ 64")
    case True
    then have "ok \<and> m' = m"
    proof
      assume "bs = []" then show ?thesis using less.prems(2) by (simp add: fill_from.simps)
    next
      assume e: "unat address + d = 2 ^ 64"
      then have "at = 0" by (simp add: at_def flip: unat_eq_0) (simp add: unat_word_ariths unat_of_nat take_bit_eq_mod mod_add_right_eq)
      moreover have "address \<noteq> 0" using e less.prems(4) by auto
      ultimately have "address + of_nat d < address" by (simp add: at_def word_neq_0_conv)
      then show ?thesis using less.prems(2) by (auto simp: fill_from.simps [of h address d bs m] Let_def split: if_splits)
    qed
    then show ?thesis using less.prems True by (intro exI [of _ 0]) (auto simp: stored_nil)
  next
    case False
    then have lt: "unat address + d < 2 ^ 64" and ne: "bs \<noteq> []" using less.prems(3) by auto
    have u: "unat at = unat address + d"
      using lt by (simp add: at_def unat_word_ariths unat_of_nat take_bit_eq_mod)
    then have ge: "\<not> at < address" by (simp add: word_less_nat_alt)
    define count where "count = (if 4096 - pageOffset at < length bs then 4096 - pageOffset at else length bs)"
    note step = fill_step [OF ne at_def ge count_def, of h m]
    have c: "0 < count" "count \<le> length bs" "pageOffset at + count \<le> 4096"
      using part_count [OF count_def pageOffset_less] ne by simp_all
    have fits: "pageOffset at + length (take count bs) \<le> 4096" using c by simp
    have end_le: "unat address + (d + count) \<le> 2 ^ 64"
    proof -
      have "pageNumber at < 2 ^ 52" by (rule pageNumber_less)
      then have "unat at + count \<le> 4096 * 2 ^ 52" using c(3) page_address [of at] by linarith
      then show ?thesis using u by simp
    qed
    have rest: ?thesis if st: "stored at (take count bs) m m1"
        and run: "fill_from h address (d + count) (drop count bs) m1 = (ok, m')" for m1
    proof -
      have inv1: "paged_inv m1" using st by (simp add: stored_def)
      have a: "address + of_nat (d + count) = at + of_nat (length (take count bs))"
        using c(2) by (simp add: at_def)
      have lts: "length (drop count bs) < length bs" "d + count + length (drop count bs) < 2 ^ 64"
        using c less.prems(4) by auto
      from less.hyps [OF lts(1) inv1 run end_le lts(2)] obtain n
        where n: "n \<le> min (length bs - count) (2 ^ 64 - (unat address + (d + count)))"
          "stored (at + of_nat (length (take count bs))) (take n (drop count bs)) m1 m'"
          "ok \<longrightarrow> n = min (length bs - count) (2 ^ 64 - (unat address + (d + count)))" "(\<forall>i. h i) \<longrightarrow> ok"
        unfolding a by auto
      have "stored at (take (count + n) bs) m m'" using stored_append [OF st n(2)] by (simp add: take_add)
      then show ?thesis using n c(2) end_le unfolding at_def by (intro exI [of _ "count + n"]) auto
    qed
    show ?thesis
    proof (cases "is_zero (take count bs)")
      case True
      have zs: "\<forall>b \<in> set (take count bs). b = 0" using True c is_zero_iff [of "take count bs"] ne by simp
      show ?thesis
      proof (cases "find_page m at")
        case None
        then show ?thesis
          using rest zero_page_stored [OF less.prems(1) None fits zs] less.prems(2) step True by simp
      next
        case (Some p)
        then show ?thesis
          using rest put_page_stored [OF less.prems(1) Some fits] less.prems(2) step True by simp
      qed
    next
      case False
      obtain r m1 where e: "ensure h at m = (r, m1)" by fastforce
      note en = ensure_ok [OF less.prems(1) e]
      note s0 = ensured_stored [OF less.prems(1) conjunct1 [OF en], of at]
      show ?thesis
      proof (cases r)
        case None
        then have "ok = False" "m' = m1" using less.prems(2) step False e by simp_all
        then show ?thesis using en None s0 unfolding at_def by (intro exI [of _ 0]) auto
      next
        case (Some p)
        then have p: "paged_inv m1" "find_page m1 at = Some p" using en by (auto simp: ensured_def)
        have "stored at (take count bs) m (put_bytes p (pageOffset at) (take count bs) m1)"
          using stored_append [OF s0, of "take count bs"] put_page_stored [OF p fits] by simp
        then show ?thesis using rest less.prems(2) step False e Some by simp
      qed
    qed
  qed
qed

lemma fill_ok:
  assumes "paged_inv m" "fill h a bs m = (ok, m')" "length bs < 2 ^ 64"
  shows "\<exists>n \<le> min (length bs) (2 ^ 64 - unat a). stored a (take n bs) m m' \<and>
    (ok \<longrightarrow> n = min (length bs) (2 ^ 64 - unat a)) \<and> ((\<forall>i. h i) \<longrightarrow> ok)"
  using fill_from_ok [of m h a 0 bs ok m'] assms unat64_less [of a] by (simp add: fill_def less_imp_le)

end
