(* ===== verification/PagedPages.thy ===== *)
theory PagedPages
  imports PagedBulk
begin

unbundle bit_operations_syntax

text \<open>
  The operations of a \<^typ>\<open>paged\<close> memory that go over its pages: \<^const>\<open>forEachPage\<close> visits each
  page once, by ascending address; a copy (\<^const>\<open>copyFrom\<close>) has the same contents; \<^const>\<open>trim\<close>
  changes nothing that can be seen; \<^const>\<open>zeroRange\<close> writes zeros exactly in its range; and the
  destructor deletes each node once.
\<close>

section \<open>Visiting\<close>

text \<open>How much of the address space an entry covers that has \<open>k\<close> levels below it.\<close>

definition span :: "nat \<Rightarrow> nat" where
  "span k = 2 ^ (12 + 13 * k)"

lemma span_simps [simp]: "span 0 = 4096" "span (Suc k) = 8192 * span k" "0 < span k"
  by (simp_all add: span_def power_add)

lemma span_le: "k \<le> 3 \<Longrightarrow> span (Suc k) \<le> 2 ^ 64"
  unfolding span_def by (rule power_increasing) auto

lemma indexAt_span: "k \<le> 3 \<Longrightarrow> indexAt a (3 - k) = unat a div span k mod 8192"
  by (simp add: indexAt_alt span_def mult.commute)

lemma disjoint_or_plus:
  assumes "(x::u64) AND y = 0"
  shows "x OR y = x + y"
  using word_plus_and_or [of x y] assms by simp

lemma visit_next:
  assumes "span (Suc k) dvd unat (prefix::u64)" "i < 8192" "k \<le> 3" "unat prefix + span (Suc k) \<le> 2 ^ 64"
  shows "unat (prefix OR push_bit (12 + k * 13) (of_nat i)) = unat prefix + i * span k"
proof -
  let ?n = "12 + k * 13"
  let ?y = "push_bit ?n (of_nat i :: u64)"
  have sp: "span k = 2 ^ ?n" "span (Suc k) = 2 ^ (?n + 13)" by (simp_all add: span_def ac_simps)
  have "i * span k < 8192 * span k" using assms(2) by simp
  then have lt: "i * span k < 2 ^ 64"
    using less_le_trans span_le [OF assms(3), unfolded span_simps] by blast
  have y: "unat ?y = i * span k"
  proof -
    have "?y = of_nat (i * 2 ^ ?n)" by (simp add: push_bit_eq_mult)
    then show ?thesis using lt sp(1) by (simp only: unat_of_nat take_bit_eq_mod) simp
  qed
  have "take_bit (?n + 13) prefix = 0"
  proof -
    have "unat (take_bit (?n + 13) prefix) = 0"
      using assms(1) unfolding sp(2) unsigned_take_bit_eq by (simp add: take_bit_eq_mod dvd_eq_mod_eq_0)
    then show ?thesis by (simp add: unat_eq_0)
  qed
  then have lo: "\<not> bit prefix j" if "j < ?n + 13" for j
    using that by (metis bit_0_eq bit_take_bit_iff bot_apply bot_bool_def)
  have hi: "\<not> bit ?y j" if "?n + 13 \<le> j" for j
  proof -
    have "\<not> bit (of_nat i :: u64) (j - ?n)"
    proof
      assume "bit (of_nat i :: u64) (j - ?n)"
      then have "bit i (j - ?n)" by (simp add: bit_of_nat_iff)
      then have "2 ^ (j - ?n) \<le> i" by (simp add: bit_iff_odd) (metis div_less dvd_0_right not_le)
      moreover have "(2::nat) ^ 13 \<le> 2 ^ (j - ?n)" using that by (intro power_increasing) auto
      ultimately show False using assms(2) by simp
    qed
    then show ?thesis by (simp add: bit_push_bit_iff)
  qed
  have "prefix AND ?y = 0"
    by (rule bit_eqI) (metis bit_0_eq bit_and_iff bot_apply bot_bool_def hi lo not_le)
  then have "prefix OR ?y = prefix + ?y" by (rule disjoint_or_plus)
  moreover have "unat prefix + unat ?y < 2 ^ 64"
    using assms(2,4) y by (simp add: less_le_trans [OF add_strict_left_mono [OF mult_strict_right_mono]])
  ultimately show ?thesis using y by (simp add: unat_word_ariths)
qed

text \<open>Which entry of a node an address is under.\<close>

lemma digit:
  assumes "i < 8192"
  shows "8192 * q + i \<le> d \<and> d < 8192 * q + i + 1 \<longleftrightarrow> 8192 * q \<le> d \<and> d < 8192 * q + 8192 \<and> d mod 8192 = (i::nat)"
proof
  assume "8192 * q \<le> d \<and> d < 8192 * q + 8192 \<and> d mod 8192 = i"
  then show "8192 * q + i \<le> d \<and> d < 8192 * q + i + 1"
    using div_nat_eqI [of 8192 q d] mult_div_mod_eq [of 8192 d] by simp
next
  assume "8192 * q + i \<le> d \<and> d < 8192 * q + i + 1"
  then have "d = 8192 * q + i" by simp
  then show "8192 * q \<le> d \<and> d < 8192 * q + 8192 \<and> d mod 8192 = i" using assms by simp
qed

lemma index_span:
  assumes "span (Suc k) dvd P" "k \<le> 3" "i < 8192"
  shows "P + i * span k \<le> unat a \<and> unat a < P + i * span k + span k \<longleftrightarrow>
    P \<le> unat a \<and> unat a < P + span (Suc k) \<and> indexAt a (3 - k) = i"
proof -
  obtain q where P: "P = 8192 * span k * q" using assms(1) by (auto elim: dvdE)
  have s: "0 < span k" by simp
  define d where "d = unat a div span k"
  have a: "unat a = d * span k + unat a mod span k" "unat a mod span k < span k"
    using s by (simp_all add: d_def)
  have le: "n * span k \<le> unat a \<longleftrightarrow> n \<le> d" for n
    using s by (simp add: d_def less_eq_div_iff_mult_less_eq)
  have lt: "unat a < n * span k \<longleftrightarrow> d < n" for n
    using le [of n] by (simp add: not_le [symmetric])
  have "P + i * span k = (8192 * q + i) * span k" "P + i * span k + span k = (8192 * q + i + 1) * span k"
    "P = (8192 * q) * span k" "P + span (Suc k) = (8192 * q + 8192) * span k"
    by (simp_all add: P algebra_simps)
  then show ?thesis
    unfolding indexAt_span [OF assms(2)] d_def [symmetric] by (simp only: le lt digit [OF assms(3)])
qed

lemma visit_prefix:
  assumes "span (Suc k) dvd unat (prefix::u64)" "i < 8192" "k \<le> 3" "unat prefix + span (Suc k) \<le> 2 ^ 64"
  defines "next' \<equiv> prefix OR push_bit (12 + k * 13) (of_nat i)"
  shows "unat next' = unat prefix + i * span k" "span k dvd unat next'" "unat next' + span k \<le> 2 ^ 64"
proof -
  show n: "unat next' = unat prefix + i * span k"
    unfolding next'_def by (rule visit_next [OF assms(1-4)])
  show "span k dvd unat next'" unfolding n using assms(1) by (auto intro: dvd_add elim: dvdE)
  have "Suc i * span k \<le> 8192 * span k" using assms(2) by (intro mult_right_mono) auto
  then show "unat next' + span k \<le> 2 ^ 64"
    using assms(4) unfolding n mult_Suc span_simps(2) by linarith
qed

lemma aligned_in: "(x::nat) = 4096 * c \<longleftrightarrow> 4096 * c \<le> x \<and> x < 4096 * c + 4096 \<and> x mod 4096 = 0"
  using div_nat_eqI [of 4096 c x] mult_div_mod_eq [of 4096 x] by auto

lemma in_concat_option:
  "x \<in> set (concat (map (\<lambda>i. case f i of None \<Rightarrow> [] | Some y \<Rightarrow> g i y) [0..<n])) \<longleftrightarrow>
   (\<exists>i < n. \<exists>y. f i = Some y \<and> x \<in> set (g i y))"
  by (force split: option.splits)

lemma visit_mem:
  assumes "span (Suc k) dvd unat prefix" "k \<le> 3" "unat prefix + span (Suc k) \<le> 2 ^ 64"
  shows "(a, p) \<in> set (visit m k n prefix) \<longleftrightarrow>
    unat prefix \<le> unat a \<and> unat a < unat prefix + span (Suc k) \<and> pageOffset a = 0 \<and> find_from m a k n = Some p"
  using assms
proof (induction k arbitrary: n prefix)
  case 0
  let ?next = "\<lambda>i. prefix OR push_bit 12 (of_nat i)"
  have eq: "a = ?next i \<longleftrightarrow> unat prefix \<le> unat a \<and> unat a < unat prefix + span 1 \<and> pageOffset a = 0 \<and> indexAt a 3 = i"
    if "i < 8192" for i
  proof -
    note nx = visit_prefix [OF 0(1) that 0(2,3)] and ix = index_span [OF 0(1,2) that, of a]
    have "a = ?next i \<longleftrightarrow> unat a = unat prefix + i * 4096"
      using nx(1) by (auto simp: word_unat_eq_iff)
    also have "\<dots> \<longleftrightarrow> unat prefix + i * 4096 \<le> unat a \<and> unat a < unat prefix + i * 4096 + 4096 \<and> pageOffset a = 0"
    proof -
      have "4096 dvd unat prefix + i * 4096" using nx(1,2) by simp
      then obtain c where c: "unat prefix + i * 4096 = 4096 * c" unfolding dvd_def by blast
      show ?thesis unfolding c pageOffset_def by (rule aligned_in)
    qed
    finally show ?thesis using ix by auto
  qed
  have "(a, p) \<in> set (visit m 0 n prefix) \<longleftrightarrow> (\<exists>i < 8192. entries m n i = ToPage p \<and> a = ?next i)"
    by (simp only: visit.simps in_concat_option) (auto simp: conj_commute)
  also have "\<dots> \<longleftrightarrow> (\<exists>i < 8192. entries m n i = ToPage p \<and>
      unat prefix \<le> unat a \<and> unat a < unat prefix + span 1 \<and> pageOffset a = 0 \<and> indexAt a 3 = i)"
    using eq by blast
  finally show ?case by auto
next
  case (Suc k)
  let ?next = "\<lambda>i. prefix OR push_bit (12 + Suc k * 13) (of_nat i)"
  have "(a, p) \<in> set (visit m (Suc k) n prefix) \<longleftrightarrow>
      (\<exists>i < 8192. \<exists>c. entries m n i = ToNode c \<and> (a, p) \<in> set (visit m k c (?next i)))"
    by (simp only: visit.simps in_concat_option) auto
  also have "\<dots> \<longleftrightarrow> (\<exists>i < 8192. \<exists>c. entries m n i = ToNode c \<and> (unat prefix \<le> unat a \<and>
      unat a < unat prefix + span (Suc (Suc k)) \<and> indexAt a (3 - Suc k) = i) \<and> pageOffset a = 0 \<and>
      find_from m a k c = Some p)"
  proof (intro ex_cong conj_cong refl)
    fix i c :: nat assume i: "i < 8192"
    note nx = visit_prefix [OF Suc.prems(1) i Suc.prems(2,3)]
    have "(a, p) \<in> set (visit m k c (?next i)) \<longleftrightarrow> unat (?next i) \<le> unat a \<and>
      unat a < unat (?next i) + span (Suc k) \<and> pageOffset a = 0 \<and> find_from m a k c = Some p"
      using Suc.prems(2) by (intro Suc.IH nx) simp
    then show "(a, p) \<in> set (visit m k c (?next i)) \<longleftrightarrow> (unat prefix \<le> unat a \<and>
      unat a < unat prefix + span (Suc (Suc k)) \<and> indexAt a (3 - Suc k) = i) \<and> pageOffset a = 0 \<and>
      find_from m a k c = Some p"
      unfolding nx(1) index_span [OF Suc.prems(1,2) i, symmetric] by blast
  qed
  finally show ?case using indexAt_less [of a "3 - Suc k"] unfolding find_from_Suc by blast
qed


lemma forEachPage_mem: "(a, p) \<in> set (forEachPage m) \<longleftrightarrow> pageOffset a = 0 \<and> find_page m a = Some p"
proof -
  have "span (Suc 3) = 2 ^ 64" by (simp add: span_def)
  then show ?thesis
    using visit_mem [of 3 0 a p m 0] unat64_less [of a] by (simp add: forEachPage_def find_page_def)
qed

lemma sorted_concat_spans:
  assumes "\<And>i. i < n \<Longrightarrow> sorted_wrt (<) (map fst (f i))"
    "\<And>i x. i < n \<Longrightarrow> x \<in> set (f i) \<Longrightarrow> L + i * B \<le> unat (fst x) \<and> unat (fst x) < L + i * B + B"
  shows "sorted_wrt (<) (map fst (concat (map f [0..<n]) :: (u64 \<times> 'a) list))"
  using assms
proof (induction n)
  case (Suc n)
  have "fst x < fst y" if "x \<in> set (f i)" "i < n" "y \<in> set (f n)" for x y i
  proof -
    have "Suc i * B \<le> n * B" using that(2) by (intro mult_right_mono) auto
    moreover have "unat (fst x) < L + i * B + B" "L + n * B \<le> unat (fst y)"
      using Suc.prems(2) [of i x] Suc.prems(2) [of n y] that by auto
    ultimately show ?thesis by (simp add: word_less_nat_alt)
  qed
  moreover have "sorted_wrt (<) (map fst (concat (map f [0..<n])))"
    by (rule Suc.IH) (use Suc.prems in auto)
  ultimately show ?case using Suc.prems(1) [of n] by (auto simp: sorted_wrt_append)
qed simp

lemma visit_sorted:
  assumes "span (Suc k) dvd unat prefix" "k \<le> 3" "unat prefix + span (Suc k) \<le> 2 ^ 64"
  shows "sorted_wrt (<) (map fst (visit m k n prefix))"
  using assms
proof (induction k arbitrary: n prefix)
  case 0
  show ?case
    unfolding visit.simps
  proof (rule sorted_concat_spans [where L = "unat prefix" and B = "span 0"])
    fix i x
    assume "i < fanout" "x \<in> set (case as_page (entries m n i) of None \<Rightarrow> []
        | Some p \<Rightarrow> [(prefix OR push_bit pageBits (of_nat i), p)])"
    then show "unat prefix + i * span 0 \<le> unat (fst x) \<and> unat (fst x) < unat prefix + i * span 0 + span 0"
      using visit_prefix(1) [OF 0(1) _ 0(2,3), of i] by (auto split: option.splits)
  qed (auto split: option.splits)
next
  case (Suc k)
  have IH: "sorted_wrt (<) (map fst (visit m k c (prefix OR push_bit (12 + Suc k * 13) (of_nat i))))"
    if "i < 8192" for i c
    using Suc.prems(2) by (intro Suc.IH visit_prefix [OF Suc.prems(1) that Suc.prems(2,3)]) simp
  show ?case
    unfolding visit.simps
  proof (rule sorted_concat_spans [where L = "unat prefix" and B = "span (Suc k)"])
    fix i x
    assume i: "i < fanout" and x: "x \<in> set (case as_node (entries m n i) of None \<Rightarrow> []
        | Some c \<Rightarrow> visit m k c (prefix OR push_bit (pageBits + Suc k * levelBits) (of_nat i)))"
    from i have "i < 8192" by simp
    note nx = visit_prefix [OF Suc.prems(1) this Suc.prems(2,3)]
    from x obtain c where "(fst x, snd x) \<in> set (visit m k c (prefix OR push_bit (12 + Suc k * 13) (of_nat i)))"
      by (auto split: option.splits)
    then show "unat prefix + i * span (Suc k) \<le> unat (fst x) \<and> unat (fst x) < unat prefix + i * span (Suc k) + span (Suc k)"
      using visit_mem [OF nx(2) _ nx(3), of "fst x" "snd x" m c] Suc.prems(2) unfolding nx(1)
      by (simp del: prod.collapse)
  qed (use IH in \<open>auto split: option.splits\<close>)
qed

lemma forEachPage_sorted: "sorted_wrt (<) (map fst (forEachPage m))"
  unfolding forEachPage_def levels_def using visit_sorted [of 3 0 m 0] by (simp add: span_def)

lemma forEachPage_distinct: "distinct (map fst (forEachPage m))"
  using forEachPage_sorted [of m] strict_sorted_iff by blast

section \<open>Deleting the nodes\<close>

definition child :: "paged \<Rightarrow> nat \<Rightarrow> nat \<Rightarrow> bool" where
  "child m n c \<longleftrightarrow> (\<exists>i. entries m n i = ToNode c)"

lemma tranclp_left: "r\<^sup>+\<^sup>+ n c \<longleftrightarrow> (\<exists>d. r n d \<and> (r\<^sup>+\<^sup>+ d c \<or> c = d))"
  by (metis converse_tranclpE tranclp.r_into_trancl tranclp_into_tranclp2)

lemma clear_from_mem:
  assumes "nodes_ok path m" "length (path n) + k = 3"
  shows "c \<in> set (clear_from m k n) \<longleftrightarrow> (child m)\<^sup>+\<^sup>+ n c"
  using assms(2)
proof (induction k arbitrary: n)
  case 0
  then have "\<not> child m n d" for d using nodes_ok_ToNode [OF assms(1)] by (fastforce simp: child_def)
  then show ?case by (subst tranclp_left) simp
next
  case (Suc k)
  have step: "i < 8192 \<and> length (path d) + k = 3" if "entries m n i = ToNode d" for i d
    using nodes_ok_ToNode [OF assms(1) that] Suc.prems by simp
  have "c \<in> set (clear_from m (Suc k) n) \<longleftrightarrow>
      (\<exists>i < 8192. \<exists>d. entries m n i = ToNode d \<and> (c \<in> set (clear_from m k d) \<or> c = d))"
    by (simp only: clear_from.simps in_concat_option) auto
  also have "\<dots> \<longleftrightarrow> (\<exists>d. child m n d \<and> ((child m)\<^sup>+\<^sup>+ d c \<or> c = d))"
    using step Suc.IH unfolding child_def by blast
  finally show ?case using tranclp_left [of "child m" n c] by simp
qed

lemma clear_from_path:
  assumes "nodes_ok path m"
  shows "c \<in> set (clear_from m k n) \<Longrightarrow> \<exists>ys. ys \<noteq> [] \<and> path c = path n @ ys"
proof (induction k arbitrary: n)
  case (Suc k)
  from Suc.prems obtain i d where d: "entries m n i = ToNode d" "c \<in> set (clear_from m k d) \<or> c = d"
    by (simp only: clear_from.simps in_concat_option) auto
  then have "path d = path n @ [i]" using nodes_ok_ToNode [OF assms d(1)] by simp
  then show ?case using d(2) Suc.IH [of d] by auto
qed simp

lemma clear_from_distinct:
  assumes "nodes_ok path m"
  shows "distinct (clear_from m k n)"
proof (induction k arbitrary: n)
  case (Suc k)
  let ?f = "\<lambda>i. case as_node (entries m n i) of None \<Rightarrow> [] | Some c \<Rightarrow> clear_from m k c @ [c]"
  have at: "\<exists>ys. path c = path n @ i # ys" if c: "c \<in> set (?f i)" for c i
  proof -
    obtain d where d: "entries m n i = ToNode d" "c \<in> set (clear_from m k d) \<or> c = d"
      using c by (cases "entries m n i") auto
    then show ?thesis
      using nodes_ok_ToNode [OF assms d(1)] clear_from_path [OF assms, of c k d] by auto
  qed
  have "c \<notin> set (clear_from m k c)" for c using clear_from_path [OF assms, of c k c] by auto
  then have "distinct (?f i)" for i using Suc.IH by (cases "entries m n i") auto
  moreover have "set (?f i) \<inter> set (?f j) = {}" if "i \<noteq> j" for i j
    using at [of _ i] at [of _ j] that by fastforce
  ultimately show ?case unfolding clear_from.simps by (intro distinct_concat_disjoint)
qed simp

section \<open>Copying\<close>

lemma put_bytes_append:
  "put_bytes p (at + length bs) cs (put_bytes p at bs m) = put_bytes p at (bs @ cs) m"
  by (auto simp: put_bytes_def nth_append fun_eq_iff intro!: arg_cong2 [where f = page_bytes_update])

lemma copy_words:
  "foldl (\<lambda>m offset. put_bytes p offset (load_word other from' offset) m) m (map (\<lambda>k. k * wordSize) [0..<n]) =
   put_bytes p 0 (map (page_bytes other from') [0..<n * wordSize]) m"
proof (induction n)
  case 0
  show ?case by (simp add: put_bytes_def)
next
  case (Suc n)
  have "load_word other from' (n * wordSize) = map (page_bytes other from') [n * wordSize..<Suc n * wordSize]"
    by (rule nth_equalityI) (auto simp: load_word_def)
  moreover have "[0..<Suc n * wordSize] = [0..<n * wordSize] @ [n * wordSize..<Suc n * wordSize]"
    using upt_add_eq_append [of 0 "n * wordSize" wordSize] by (simp add: add.commute)
  ultimately show ?case
    using Suc put_bytes_append [of p 0 "map (page_bytes other from') [0..<n * wordSize]"] by simp
qed

lemma page_range:
  assumes "pageOffset b = 0"
  shows "unat (a - b) < 4096 \<longleftrightarrow> pageNumber a = pageNumber b"
    "pageNumber a = pageNumber b \<Longrightarrow> unat (a - b) = pageOffset a"
proof -
  show u: "unat (a - b) = pageOffset a" if "pageNumber a = pageNumber b"
    using that assms page_address [of a] page_address [of b] unat_sub [of b a] by (simp add: word_le_nat_alt)
  show "unat (a - b) < 4096 \<longleftrightarrow> pageNumber a = pageNumber b"
  proof
    assume "unat (a - b) < 4096"
    then show "pageNumber a = pageNumber b" using in_page_add(1) [of b "unat (a - b)"] assms by simp
  qed (use u in simp)
qed

lemma page_bytes_read:
  assumes "pageOffset b = 0" "find_page m b = Some p"
  shows "map (page_bytes m p) [0..<4096] = read_bytes (view m) b 4096"
proof (rule nth_equalityI)
  fix i assume "i < length (map (page_bytes m p) [0..<4096])"
  then have i: "i < 4096" by simp
  then show "map (page_bytes m p) [0..<4096] ! i = read_bytes (view m) b 4096 ! i"
    using in_page_add(1,2) [of b i] assms find_page_same_page [of "b + of_nat i" b m] by (simp add: view_def)
qed simp

lemma copy_pages_ok:
  assumes "paged_inv m" "copy_pages h other ws m = (ok, m')"
    "\<And>w. w \<in> set ws \<Longrightarrow> pageOffset (fst w) = 0 \<and> find_page other (fst w) = Some (snd w)"
  shows "paged_inv m' \<and> same_step m m' \<and> (ok \<longrightarrow>
    (\<forall>a. view m' a = (if pageNumber a \<in> pageNumber ` fst ` set ws then view other a else view m a))) \<and>
    ((\<forall>i. h i) \<longrightarrow> ok)"
  using assms
proof (induction ws arbitrary: m)
  case (Cons w ws)
  obtain r m1 where e: "ensure h (fst w) m = (r, m1)" by fastforce
  note en = ensure_ok [OF Cons.prems(1) e]
  have m1: "paged_inv m1" "same_step m m1" "find_page m1 (fst w) = r" "view m1 = view m"
    using en ensured_view [OF Cons.prems(1)] by (auto simp: ensured_def)
  have w: "pageOffset (fst w) = 0" "find_page other (fst w) = Some (snd w)" using Cons.prems(3) by auto
  show ?case
  proof (cases r)
    case None
    then show ?thesis using Cons.prems(2) e en m1 by auto
  next
    case (Some p)
    let ?bs = "read_bytes (view other) (fst w) 4096"
    define m2 where "m2 = put_bytes p 0 ?bs m1"
    have "stored (fst w) ?bs m1 m2"
      using put_page_stored [OF m1(1) m1(3) [unfolded Some], of ?bs] w(1) by (simp add: m2_def)
    then have m2: "paged_inv m2" "same_step m1 m2" "view m2 = upd_bytes (view m) (fst w) ?bs"
      using m1(4) by (simp_all add: stored_def)
    have "copy_pages h other ws m2 = (ok, m')"
      using Cons.prems(2) e Some copy_words [of p other "snd w" m1 512] page_bytes_read [OF w]
      by (simp add: m2_def)
    note IH = Cons.IH [OF m2(1) this Cons.prems(3)]
    have v2: "view m2 a = (if pageNumber a = pageNumber (fst w) then view other a else view m a)" for a
    proof (cases "pageNumber a = pageNumber (fst w)")
      case True
      have "fst w + of_nat (unat (a - fst w)) = a" by simp
      then show ?thesis using True page_range [OF w(1), of a] by (simp add: m2(3) upd_bytes_inside)
    next
      case False
      then show ?thesis using page_range(1) [OF w(1), of a] by (simp add: m2(3) upd_bytes_outside)
    qed
    show ?thesis using IH same_step_trans [OF same_step_trans [OF m1(2) m2(2)]] by (auto simp: v2)
  qed
qed simp

lemma copyFrom_ok:
  assumes "paged_inv m" "copyFrom h other m = (ok, m')"
  shows "paged_inv m' \<and> same_step m m' \<and> (ok \<longrightarrow>
    (\<forall>a. view m' a = (if find_page other a = None then view m a else view other a))) \<and> ((\<forall>i. h i) \<longrightarrow> ok)"
proof -
  have "pageNumber a \<in> pageNumber ` fst ` set (forEachPage other) \<longleftrightarrow> find_page other a \<noteq> None" for a
  proof
    assume "pageNumber a \<in> pageNumber ` fst ` set (forEachPage other)"
    then show "find_page other a \<noteq> None"
      using find_page_same_page [of a _ other] by (fastforce simp: forEachPage_mem)
  next
    assume "find_page other a \<noteq> None"
    then obtain p where p: "find_page other a = Some p" by blast
    define b where "b = a - of_nat (pageOffset a)"
    have ub: "unat b = 4096 * pageNumber a"
      using page_address [of a] unat_sub [of "of_nat (pageOffset a)" a] pageOffset_less [of a]
      by (simp add: b_def word_le_nat_alt unat_of_nat take_bit_eq_mod del: pageOffset_less)
    then have b: "pageOffset b = 0" "pageNumber b = pageNumber a" by (simp_all add: pageOffset_def pageNumber_def)
    then have "(b, p) \<in> set (forEachPage other)"
      using p find_page_same_page [OF b(2), of other] by (simp add: forEachPage_mem)
    then show "pageNumber a \<in> pageNumber ` fst ` set (forEachPage other)" using b(2) by (metis fst_conv image_eqI)
  qed
  moreover have "pageOffset (fst w) = 0 \<and> find_page other (fst w) = Some (snd w)"
    if "w \<in> set (forEachPage other)" for w
    using that forEachPage_mem [of "fst w" "snd w"] by simp
  ultimately show ?thesis
    using copy_pages_ok [OF assms(1) assms(2) [unfolded copyFrom_def]] by simp
qed

lemma copyFrom_new:
  assumes "copyFrom h other new_memory = (True, m')"
  shows "paged_inv m'" "view m' = view other"
proof -
  have "view other a = 0" if "find_page other a = None" for a using that by (simp add: view_def)
  then show "paged_inv m'" "view m' = view other"
    using copyFrom_ok [OF paged_inv_new assms] by (auto simp: fun_eq_iff)
qed

section \<open>Trimming\<close>

lemma trim_page_same: "trim_page start last' m w = m"
proof -
  have "dont_need p m = m" if z: "list_all (\<lambda>k. load_word m p (k * wordSize) = replicate wordSize 0) [0..<512]" for p
  proof -
    have "page_bytes m p k = 0" if "k < 4096" for k
    proof -
      have "load_word m p (k div 8 * wordSize) = replicate wordSize 0"
        using z that by (auto simp: list_all_iff)
      then have "load_word m p (k div 8 * 8) ! (k mod 8) = 0" by simp
      then show ?thesis by (simp add: load_word_def)
    qed
    then show ?thesis by (auto simp: dont_need_def fun_eq_iff intro!: paged.equality)
  qed
  then show ?thesis by (simp add: trim_page_def Let_def)
qed

lemma trim_same: "trim samePages first last' m = m"
proof -
  have "foldl (trim_page s last') m ws = m" for s ws by (induction ws) (simp_all add: trim_page_same)
  then show ?thesis by (simp add: trim_def Let_def)
qed

end
