(* ===== verification/PagedZero.thy ===== *)
theory PagedZero
  imports PagedPages
begin

unbundle bit_operations_syntax

text \<open>
  \<^const>\<open>zeroRange\<close>: it ends, and afterwards the bytes from the first to the last address are zeros
  and the others as they were, whichever way it goes over the pages; a step is told of each byte
  that wasn't zero before.
\<close>

section \<open>Ranges of addresses\<close>

lemma range_count:
  assumes "(a::u64) \<le> e"
  shows "unat (x - a) < unat (e - a) + 1 \<longleftrightarrow> x \<in> {a..e}"
proof -
  have ea: "unat (e - a) = unat e - unat a" using assms by (simp add: unat_sub)
  show ?thesis
  proof (cases "a \<le> x")
    case True
    then have "unat (x - a) = unat x - unat a" by (simp add: unat_sub)
    then show ?thesis using True assms ea by (auto simp: word_le_nat_alt)
  next
    case False
    then have "x < a" by simp
    have "unat (x - a) = unat x + 2 ^ 64 - unat a"
      using \<open>x < a\<close> unat_sub_if' [of x a] by (simp add: word_less_nat_alt)
    then show ?thesis using False ea unat64_less [of e] unat64_less [of a] \<open>x < a\<close> assms
      by (simp add: word_less_nat_alt word_le_nat_alt)
  qed
qed

lemma word_end: "(a::u64) OR 7 = a + of_nat (7 - word_offset a)"
proof -
  have d: "a AND (7 AND NOT a) = 0" "(a AND 7) AND (7 AND NOT a) = 0"
    by (rule bit_word_eqI; auto simp: bit_simps)+
  have o: "a OR (7 AND NOT a) = a OR 7" "(a AND 7) OR (7 AND NOT a) = 7"
    by (rule bit_word_eqI; auto simp: bit_simps)+
  have "a OR 7 = a + (7 AND NOT a)" using disjoint_or_plus [OF d(1)] o(1) by simp
  moreover have "7 AND NOT a = 7 - (a AND 7)" using disjoint_or_plus [OF d(2)] o(2) by (simp add: algebra_simps)
  moreover have "7 - (a AND 7) = of_nat (7 - word_offset a)"
    using word_offset_less [of a] by (simp add: of_nat_diff word_offset_def)
  ultimately show ?thesis by simp
qed

lemma page_base_unat: "unat (page_base a) = 4096 * pageNumber a"
proof -
  have d: "(a AND NOT 4095) AND (a AND 4095) = 0" by (rule bit_word_eqI) (auto simp: bit_simps)
  have o: "(a AND NOT 4095) OR (a AND 4095) = a" by (rule bit_word_eqI) (auto simp: bit_simps)
  have "page_base a + (a AND 4095) = a" using disjoint_or_plus [OF d] o by (simp add: page_base_def)
  then have "page_base a = a - (a AND 4095)" by (metis add_diff_cancel_right')
  then have "unat (page_base a) = unat a - pageOffset a"
    using unat_sub [of "a AND 4095" a] by (simp add: pageOffset_alt word_and_le2)
  then show ?thesis using page_address [of a] by simp
qed

lemma page_base_page [simp]: "pageNumber (page_base a) = pageNumber a" "pageOffset (page_base a) = 0"
  by (simp_all add: pageNumber_def [of "page_base a"] pageOffset_def [of "page_base a"] page_base_unat)

lemma page_number_diff:
  assumes "first \<le> (last'::u64)"
  shows "unat (drop_bit 12 last' - drop_bit 12 first) = pageNumber last' - pageNumber first"
proof -
  have d: "unat (drop_bit 12 a) = pageNumber a" for a :: u64
    by (simp only: unat_drop_bit_eq pageNumber_def) (simp add: drop_bit_eq_div)
  have "pageNumber first \<le> pageNumber last'"
    using assms by (simp add: pageNumber_def word_le_nat_alt div_le_mono)
  then show ?thesis using unat_sub [of "drop_bit 12 first" "drop_bit 12 last'"] by (simp add: word_le_nat_alt d)
qed

section \<open>Zeros written in some places\<close>

text \<open>The bytes of a set are zeroed, with a note in the journal for each of them at most.\<close>

definition zeroed :: "u64 set \<Rightarrow> paged \<Rightarrow> paged \<Rightarrow> bool" where
  "zeroed R m m' \<longleftrightarrow> paged_inv m' \<and> (\<forall>x. view m' x = (if x \<in> R then 0 else view m x)) \<and>
     (\<forall>x. find_page m' x = find_page m x) \<and> (stepOverflowed m \<longrightarrow> stepOverflowed m') \<and>
     (\<forall>k. step_room (card R + k) m \<longrightarrow> step_room k m') \<and>
     (\<exists>A. A \<subseteq> R \<and> (\<forall>x \<in> R - A. view m x = 0) \<and> noted A m m')"

lemma noted_refl: "noted {} m m"
  by (simp add: noted_def split: option.split)

lemma zeroed_same:
  assumes "paged_inv m" "\<And>x. x \<in> R \<Longrightarrow> view m x = 0"
  shows "zeroed R m m"
  using assms noted_refl by (auto simp: zeroed_def intro!: exI [of _ "{}"] elim: step_room_mono)

lemma zeroed_empty [simp]: "zeroed {} m m \<longleftrightarrow> paged_inv m"
  using zeroed_same [of m "{}"] by (auto simp: zeroed_def)

lemma zeroed_trans:
  assumes "zeroed R m m1" "zeroed S m1 m2" "R \<inter> S = {}"
  shows "zeroed (R \<union> S) m m2"
proof -
  obtain A B where A: "A \<subseteq> R" "\<And>x. x \<in> R - A \<Longrightarrow> view m x = 0" "noted A m m1"
      and B: "B \<subseteq> S" "\<And>x. x \<in> S - B \<Longrightarrow> view m1 x = 0" "noted B m1 m2"
    using assms by (auto simp: zeroed_def)
  have v: "view m1 x = (if x \<in> R then 0 else view m x)" for x using assms(1) by (simp add: zeroed_def)
  have "noted (A \<union> B) m m2" by (rule noted_trans [OF A(3) B(3)]) (use assms in \<open>simp add: zeroed_def\<close>)
  moreover have "view m x = 0" if "x \<in> R \<union> S - (A \<union> B)" for x
    using that A(1) A(2) [of x] B(2) [of x] v [of x] by (cases "x \<in> R") auto
  ultimately have "\<exists>A. A \<subseteq> R \<union> S \<and> (\<forall>x \<in> R \<union> S - A. view m x = 0) \<and> noted A m m2"
    using A(1) B(1) by (intro exI [of _ "A \<union> B"]) auto
  moreover have "card (R \<union> S) = card R + card S" by (rule card_Un_disjoint) (use assms(3) in simp_all)
  ultimately show ?thesis using assms(1,2) by (simp add: zeroed_def add.assoc)
qed

lemma zeroed_more:
  assumes "zeroed R m m'" "R \<subseteq> S" "\<And>x. x \<in> S \<Longrightarrow> x \<notin> R \<Longrightarrow> view m x = 0"
  shows "zeroed S m m'"
proof -
  obtain A where A: "A \<subseteq> R" "\<forall>x \<in> R - A. view m x = 0" "noted A m m'" using assms(1) by (auto simp: zeroed_def)
  then have "\<exists>A. A \<subseteq> S \<and> (\<forall>x \<in> S - A. view m x = 0) \<and> noted A m m'"
    using assms(2,3) by (intro exI [of _ A]) blast
  moreover have "step_room k m'" if "step_room (card S + k) m" for k
  proof -
    have "card R \<le> card S" using assms(2) by (simp add: card_mono)
    then have "step_room (card R + k) m" by (intro step_room_mono [OF that]) simp
    then show ?thesis using assms(1) by (simp add: zeroed_def)
  qed
  ultimately show ?thesis using assms by (auto simp: zeroed_def)
qed

section \<open>Words and pages\<close>

text \<open>A part of a word that is on a page is zeros already, or it is stored and noted.\<close>

lemma zero_part:
  assumes inv: "paged_inv m" and page: "find_page m a = Some page"
    and fits: "word_offset a + count \<le> 8" and rng: "\<And>x. unat (x - a) < count \<longleftrightarrow> x \<in> R"
    and m': "m' = (if take count (drop (word_offset a) (load_word m page (wordAt a))) \<noteq> replicate count 0
       then noteStep a count (snd (storeInWord h a (replicate count 0) m)) else m)"
  shows "zeroed R m m'"
proof -
  have part: "take count (drop (word_offset a) (load_word m page (wordAt a))) = read_bytes (view m) a count"
    using word_part [OF fits, of m] page by (simp add: loadWord_def)
  show ?thesis
  proof (cases "read_bytes (view m) a count = replicate count 0")
    case True
    have "view m x = 0" if "x \<in> R" for x
    proof -
      have "unat (x - a) < count" using rng that by simp
      then show ?thesis using arg_cong [OF True, of "\<lambda>l. l ! unat (x - a)"] by simp
    qed
    then show ?thesis using zeroed_same [OF inv] True m' part by simp
  next
    case False
    let ?z = "replicate count 0 :: u8 list"
    define m1 where "m1 = store_on_page page a ?z m"
    have "word_offset a + length ?z \<le> 8" using fits by simp
    note s = store_on_page_view [OF inv page this, folded m1_def]
    have "storeInWord h a ?z m = (True, m1)" using page by (simp add: storeInWord_def m1_def list_all_iff)
    then have e: "m' = noteStep a count m1" using False m' part by simp
    have c8: "count \<le> 8" using fits by simp
    have "x \<in> R \<longleftrightarrow> x \<in> (\<lambda>i. a + of_nat i) ` {0..<count}" for x
    proof -
      have "x = a + of_nat (unat (x - a))" by simp
      then have "unat (x - a) < count \<Longrightarrow> x \<in> (\<lambda>i. a + of_nat i) ` {0..<count}" by (metis atLeastLessThan_iff image_eqI le0)
      moreover have "unat (a + of_nat i - a) = i" if "i < count" for i
        using that c8 by (simp add: unat_of_nat take_bit_eq_mod)
      ultimately show ?thesis unfolding rng [symmetric] by auto
    qed
    then have R: "R = (\<lambda>i. a + of_nat i) ` {0..<count}" by blast
    have "noted R m m'" unfolding R e by (rule same_step_noted [OF s(4) noteStep_noted [OF c8]])
    moreover have "view m' x = (if x \<in> R then 0 else view m x)" for x
      using c8 by (simp add: e s(2) upd_bytes_apply rng [symmetric])
    moreover have "step_room k m'" if "step_room (card R + k) m" for k
    proof -
      have "count \<noteq> 0" using False by (cases count) (simp_all add: read_bytes_def)
      then have "a \<in> R" unfolding R by force
      then have "Suc k \<le> card R + k" by (simp add: Suc_le_eq card_gt_0_iff) blast
      then have "step_room (Suc k) m" by (rule step_room_mono [OF that])
      then show ?thesis unfolding e using step_room_same [OF s(4)] by (intro step_room_note) simp
    qed
    ultimately show ?thesis
      using s by (auto simp: zeroed_def e same_step_def intro!: exI [of _ R])
  qed
qed

lemma zero_words_ok:
  assumes "paged_inv m" "find_page m at = Some page" "at \<le> upper" "pageNumber upper = pageNumber at"
  shows "zeroed {at..upper} m (zero_words h page upper at m)"
  using assms
proof (induction "unat upper - unat at" arbitrary: at m rule: less_induct)
  case less
  define e where "e = (if at OR 7 < upper then at OR 7 else upper)"
  define count where "count = unat (e - at) + 1"
  define m' where "m' = (if take count (drop (word_offset at) (load_word m page (wordAt at))) \<noteq> replicate count 0
       then noteStep at count (snd (storeInWord h at (replicate count 0) m)) else m)"
  have ae: "at \<le> e" "e \<le> at OR 7" "e \<le> upper" using less.prems(3) le_word_or2 [of at 7] by (auto simp: e_def)
  have in_word: "word_offset at + (7 - word_offset at) < 8" using word_offset_less [of at] by linarith
  have we: "unat (at OR 7) = unat at + (7 - word_offset at)" "pageNumber (at OR 7) = pageNumber at"
    unfolding word_end by (rule in_word_add [OF in_word])+
  have "unat (e - at) = unat e - unat at" using ae(1) by (simp add: unat_sub)
  then have "unat (e - at) \<le> 7 - word_offset at" using ae we(1) by (simp add: word_le_nat_alt)
  then have fits: "word_offset at + count \<le> 8" using word_offset_less [of at] unfolding count_def by linarith
  have z: "zeroed {at..e} m m'"
    using range_count [OF ae(1)] unfolding count_def [symmetric]
    by (intro zero_part [OF less.prems(1,2) fits _ m'_def])
  have step: "zero_words h page upper at m = (if e = upper then m' else zero_words h page upper (e + 1) m')"
    by (subst zero_words.simps) (simp add: Let_def e_def count_def m'_def)
  show ?case
  proof (cases "e = upper")
    case True
    then show ?thesis using z step by simp
  next
    case False
    then have e: "e = at OR 7" "e < upper" by (auto simp: e_def split: if_splits)
    note nx = word_next [OF ae(1) e(2)]
    have up: "unat (e + 1) \<le> unat upper" using e(2) nx(1) by (simp add: word_less_nat_alt)
    have "pageNumber at \<le> pageNumber (e + 1)" "pageNumber (e + 1) \<le> pageNumber upper"
      using up nx(1) ae(1) by (auto simp: pageNumber_def word_le_nat_alt intro!: div_le_mono)
    then have pn: "pageNumber (e + 1) = pageNumber at" using less.prems(4) by simp
    have "zeroed {e + 1..upper} m' (zero_words h page upper (e + 1) m')"
    proof (rule less.hyps [OF nx(2)])
      show "paged_inv m'" using z by (simp add: zeroed_def)
      show "find_page m' (e + 1) = Some page"
        using z less.prems(2) find_page_same_page [OF pn, of m] by (simp add: zeroed_def)
    qed (use up pn less.prems(4) in \<open>simp_all add: word_le_nat_alt\<close>)
    moreover have "{at..e} \<union> {e + 1..upper} = {at..upper}" "{at..e} \<inter> {e + 1..upper} = {}"
      using e(2) ae nx(1) by (auto simp: word_le_nat_alt word_less_nat_alt)
    ultimately show ?thesis using zeroed_trans [OF z] step False by metis
  qed
qed

definition page_set :: "nat \<Rightarrow> u64 set" where
  "page_set k = {x. pageNumber x = k}"

lemma page_last:
  assumes "pageOffset base = 0"
  shows "unat (base + 4095) = unat base + 4095" "x \<in> page_set (pageNumber base) \<longleftrightarrow> base \<le> x \<and> x \<le> base + 4095"
proof -
  show u: "unat (base + 4095) = unat base + 4095" using in_page_add(3) [of base 4095] assms by simp
  show "x \<in> page_set (pageNumber base) \<longleftrightarrow> base \<le> x \<and> x \<le> base + 4095"
    using page_range(1) [OF assms, of x] range_count [of base "base + 4095" x] u
    by (simp add: page_set_def word_le_nat_alt)
qed

lemma if_less_max: "(if b < f then f else b) = max b (f::u64)"
  by (auto simp: max_def)

lemma if_less_min: "(if b < f then b else f) = min b (f::u64)"
  by (auto simp: min_def)

lemma zeroInPage_ok:
  assumes "paged_inv m" "find_page m base = Some page" "pageOffset base = 0" "first \<le> last'"
  shows "zeroed ({first..last'} \<inter> page_set (pageNumber base)) m (zeroInPage h first last' base page m)"
proof -
  note pl = page_last [OF assms(3)]
  define lower where "lower = (if base < first then first else base)"
  define upper where "upper = (if last' < base + 4095 then last' else base + 4095)"
  have R: "{first..last'} \<inter> page_set (pageNumber base) = {lower..upper}"
  proof (rule set_eqI)
    fix x
    have "lower \<le> x \<longleftrightarrow> first \<le> x \<and> base \<le> x" "x \<le> upper \<longleftrightarrow> x \<le> last' \<and> x \<le> base + 4095"
      using if_less_max [of base first] if_less_min [of last' "base + 4095"]
      by (simp_all only: lower_def upper_def) auto
    then show "x \<in> {first..last'} \<inter> page_set (pageNumber base) \<longleftrightarrow> x \<in> {lower..upper}"
      using pl(2) [of x] by auto
  qed
  show ?thesis
  proof (cases "last' < base \<or> base + 4095 < first")
    case True
    then have "{lower..upper} = {}" using pl(1) by (auto simp: lower_def upper_def)
    then show ?thesis using True assms(1) unfolding R by (simp add: zeroInPage_def Let_def)
  next
    case False
    then have le: "lower \<le> upper" using assms(4) pl(1)
      unfolding lower_def upper_def if_less_max if_less_min
      by (simp add: not_less word_le_nat_alt [of base "base + 4095"])
    have "lower \<in> {lower..upper}" "upper \<in> {lower..upper}" using le by simp_all
    then have "lower \<in> page_set (pageNumber base)" "upper \<in> page_set (pageNumber base)" unfolding R [symmetric] by blast+
    then have pn: "pageNumber lower = pageNumber base" "pageNumber upper = pageNumber base"
      by (simp_all add: page_set_def)
    have "zeroed {lower..upper} m (zero_words h page upper lower m)"
      using pn assms(2) find_page_same_page [OF pn(1), of m] by (intro zero_words_ok [OF assms(1) _ le]) simp_all
    moreover have "zeroInPage h first last' base page m = zero_words h page upper lower m"
      using False by (simp add: zeroInPage_def Let_def lower_def upper_def)
    ultimately show ?thesis by (simp add: R)
  qed
qed

lemma no_page_zero: "find_page m base = None \<Longrightarrow> x \<in> page_set (pageNumber base) \<Longrightarrow> view m x = 0"
  using find_page_same_page [of x base m] by (simp add: page_set_def view_def)

lemma zero_pages_ok:
  assumes "paged_inv m" "pageOffset base = 0" "first \<le> last'" "pageNumber base \<le> pageNumber last'"
    "pageNumber last' - pageNumber base < fuel"
  shows "\<exists>m'. zero_pages h first last' fuel base m = Some m' \<and>
    zeroed ({first..last'} \<inter> {x. pageNumber base \<le> pageNumber x}) m m'"
  using assms
proof (induction fuel arbitrary: base m)
  case (Suc fuel)
  define m1 where "m1 = (case find_page m base of None \<Rightarrow> m | Some page \<Rightarrow> zeroInPage h first last' base page m)"
  have z1: "zeroed ({first..last'} \<inter> page_set (pageNumber base)) m m1"
  proof (cases "find_page m base")
    case None
    then show ?thesis using no_page_zero [OF None] by (auto simp: m1_def intro!: zeroed_same [OF Suc.prems(1)])
  next
    case (Some page)
    then show ?thesis using zeroInPage_ok [OF Suc.prems(1) Some Suc.prems(2,3)] by (simp add: m1_def)
  qed
  have ub: "unat base = 4096 * pageNumber base" using page_address [of base] Suc.prems(2) by simp
  have le: "page_base last' \<le> base \<longleftrightarrow> pageNumber last' = pageNumber base"
    using Suc.prems(4) ub by (auto simp: word_le_nat_alt page_base_unat)
  have mono: "x \<le> y \<Longrightarrow> pageNumber x \<le> pageNumber y" for x y
    by (simp add: pageNumber_def word_le_nat_alt div_le_mono)
  show ?case
  proof (cases "pageNumber last' = pageNumber base")
    case True
    then have "{first..last'} \<inter> {x. pageNumber base \<le> pageNumber x} = {first..last'} \<inter> page_set (pageNumber base)"
      using mono [of _ last'] by (fastforce simp: page_set_def)
    then show ?thesis using z1 True le by (simp add: m1_def)
  next
    case False
    then have lt: "pageNumber base + 1 \<le> pageNumber last'" using Suc.prems(4) by simp
    have "unat base + 4096 < 2 ^ 64" using lt ub page_address [of last'] unat64_less [of last'] by linarith
    then have u: "unat (base + 4096) = 4096 * (pageNumber base + 1)" using ub by (simp add: unat_word_ariths)
    then have nx: "pageNumber (base + 4096) = pageNumber base + 1" "pageOffset (base + 4096) = 0"
      by (simp_all add: pageNumber_def [of "base + 4096"] pageOffset_def [of "base + 4096"])
    have "\<exists>m'. zero_pages h first last' fuel (base + 4096) m1 = Some m' \<and>
        zeroed ({first..last'} \<inter> {x. pageNumber (base + 4096) \<le> pageNumber x}) m1 m'"
      using z1 Suc.prems(3,5) lt by (intro Suc.IH) (auto simp: nx zeroed_def)
    then obtain m' where m': "zero_pages h first last' fuel (base + 4096) m1 = Some m'"
        "zeroed ({first..last'} \<inter> {x. pageNumber base + 1 \<le> pageNumber x}) m1 m'"
      unfolding nx(1) by blast
    have "{first..last'} \<inter> page_set (pageNumber base) \<union> {first..last'} \<inter> {x. pageNumber base + 1 \<le> pageNumber x} =
        {first..last'} \<inter> {x. pageNumber base \<le> pageNumber x}"
      by (auto simp: page_set_def)
    moreover have "{first..last'} \<inter> page_set (pageNumber base) \<inter> ({first..last'} \<inter> {x. pageNumber base + 1 \<le> pageNumber x}) = {}"
      by (auto simp: page_set_def)
    ultimately show ?thesis using zeroed_trans [OF z1 m'(2)] m'(1) False le by (simp add: m1_def)
  qed
qed simp

lemma zero_visited:
  assumes "paged_inv m" "first \<le> last'"
    "\<And>w. w \<in> set ws \<Longrightarrow> pageOffset (fst w) = 0 \<and> find_page m (fst w) = Some (snd w)" "distinct (map fst ws)"
  shows "zeroed ({first..last'} \<inter> (\<Union>w \<in> set ws. page_set (pageNumber (fst w)))) m
    (foldl (\<lambda>m w. zeroInPage h first last' (fst w) (snd w) m) m ws)"
  using assms
proof (induction ws arbitrary: m)
  case (Cons w ws)
  let ?m1 = "zeroInPage h first last' (fst w) (snd w) m"
  have z: "zeroed ({first..last'} \<inter> page_set (pageNumber (fst w))) m ?m1"
    using Cons.prems by (intro zeroInPage_ok) auto
  then have "zeroed ({first..last'} \<inter> (\<Union>w \<in> set ws. page_set (pageNumber (fst w)))) ?m1
    (foldl (\<lambda>m w. zeroInPage h first last' (fst w) (snd w) m) ?m1 ws)"
    using Cons.prems by (intro Cons.IH) (auto simp: zeroed_def)
  moreover have "pageNumber (fst w) \<noteq> pageNumber (fst v)" if "v \<in> set ws" for v
  proof
    assume n: "pageNumber (fst w) = pageNumber (fst v)"
    have "unat (fst w) = unat (fst v)"
      using n Cons.prems(3) [of w] Cons.prems(3) [of v] that page_address [of "fst w"] page_address [of "fst v"] by simp
    then show False using Cons.prems(4) that by (force simp: word_unat_eq_iff)
  qed
  then have "{first..last'} \<inter> page_set (pageNumber (fst w)) \<inter>
      ({first..last'} \<inter> (\<Union>w \<in> set ws. page_set (pageNumber (fst w)))) = {}"
    by (fastforce simp: page_set_def)
  ultimately show ?case using zeroed_trans [OF z] by (simp add: Int_Un_distrib)
qed simp

lemma zeroRange_ok:
  assumes "paged_inv m"
  shows "\<exists>m'. zeroRange h first last' m = Some m' \<and> zeroed {first..last'} m m'"
proof (cases "last' < first")
  case True
  then show ?thesis using assms by (simp add: zeroRange_def)
next
  case False
  then have le: "first \<le> last'" by simp
  then have pn: "pageNumber first \<le> pageNumber last'" by (simp add: pageNumber_def word_le_nat_alt div_le_mono)
  show ?thesis
  proof (cases "drop_bit 12 last' - drop_bit 12 first < (2 ^ 16 :: u64)")
    case True
    then have "pageNumber last' - pageNumber first < 2 ^ 16"
      using page_number_diff [OF le] by (simp add: word_less_nat_alt)
    then obtain m' where m': "zero_pages h first last' (2 ^ 16) (page_base first) m = Some m'"
        "zeroed ({first..last'} \<inter> {x. pageNumber first \<le> pageNumber x}) m m'"
      using zero_pages_ok [OF assms _ le, of "page_base first" "2 ^ 16" h] pn by auto
    moreover have "{first..last'} \<inter> {x. pageNumber first \<le> pageNumber x} = {first..last'}"
      by (auto simp: pageNumber_def word_le_nat_alt div_le_mono)
    ultimately show ?thesis using False True by (simp add: zeroRange_def)
  next
    case far: False
    let ?m' = "foldl (\<lambda>m w. zeroInPage h first last' (fst w) (snd w) m) m (forEachPage m)"
    have mem: "pageOffset (fst w) = 0 \<and> find_page m (fst w) = Some (snd w)" if "w \<in> set (forEachPage m)" for w
      using that forEachPage_mem [of "fst w" "snd w" m] by simp
    have d: "distinct (map fst (forEachPage m))" using forEachPage_sorted [of m] by (simp add: strict_sorted_iff)
    have "zeroed {first..last'} m ?m'"
    proof (rule zeroed_more [OF zero_visited [OF assms le mem d]])
      fix x
      assume x: "x \<in> {first..last'}"
        "x \<notin> {first..last'} \<inter> (\<Union>w \<in> set (forEachPage m). page_set (pageNumber (fst w)))"
      have "find_page m x = None"
      proof (rule ccontr)
        assume "find_page m x \<noteq> None"
        then obtain p where "find_page m (page_base x) = Some p"
          using find_page_same_page [OF page_base_page(1), of m x] by auto
        then have "(page_base x, p) \<in> set (forEachPage m)" by (simp add: forEachPage_mem)
        then show False using x by (force simp: page_set_def)
      qed
      then show "view m x = 0" by (simp add: view_def)
    qed auto
    then show ?thesis using False far by (simp add: zeroRange_def)
  qed
qed

lemma card_range: "card {a..b :: u64} \<le> unat b + 1 - unat a"
proof -
  have "inj_on unat {a..b}" by (auto simp: inj_on_def word_unat_eq_iff)
  moreover have "unat ` {a..b} \<subseteq> {unat a..unat b}" by (auto simp: word_le_nat_alt)
  ultimately have "card {a..b} \<le> card {unat a..unat b}" using card_inj_on_le by blast
  then show ?thesis by simp
qed

end
