(* ===== verification/ByteArrays.thy ===== *)
theory ByteArrays
  imports PagedZero
begin

unbundle bit_operations_syntax

text \<open>
  The byte arrays of \<open>native/bap_jit.cpp\<close>: \<open>lazyZeros\<close>, \<open>allZero\<close>, \<open>sliceBytes\<close>, \<open>bap_bytes_pieces\<close>,
  \<open>bap_bytes_resident\<close>, \<open>bap_bytes_fill\<close> and \<open>bap_jit_memory_region_bytes\<close>, which keep big arrays of
  mostly zeros without taking the memory of the host for them. They are the plain operations on
  lists of bytes (\<open>take\<close> and \<open>drop\<close>, reading a range), and filling with the pieces of an array gives
  the array back. A natural number that Lean passes is a scalar below \<open>2 ^ 63\<close>.
\<close>

definition is_scalar :: "nat \<Rightarrow> bool" where
  "is_scalar n \<longleftrightarrow> n < 2 ^ 63"

definition lazyFrom :: nat where "lazyFrom = 65536"

text \<open>\<open>std::memset\<close> to 0 and \<open>std::memcpy\<close> in an array, from an index on.\<close>

definition memcpy_at :: "nat \<Rightarrow> u8 list \<Rightarrow> u8 list \<Rightarrow> u8 list" where
  "memcpy_at i bs to' = take i to' @ bs @ drop (i + length bs) to'"

definition memset0 :: "nat \<Rightarrow> nat \<Rightarrow> u8 list \<Rightarrow> u8 list" where
  "memset0 i n to' = memcpy_at i (replicate n 0) to'"

text \<open>
  \<open>lazyZeros\<close> on what the allocation has (\<open>garbage\<close>), at the address \<open>start\<close> of a system with pages
  of \<open>page\<close> bytes. \<open>advised\<close> is whether \<open>madvise\<close> succeeds, which then leaves zeros, as it does for
  private memory that isn't of a file; \<open>linux\<close> whether the code is compiled with it.
\<close>

definition lazyZeros :: "bool \<Rightarrow> nat \<Rightarrow> nat \<Rightarrow> bool \<Rightarrow> u8 list \<Rightarrow> u8 list" where
  "lazyZeros linux page start advised garbage =
     (let sz = length garbage;
          end' = start + sz;
          first = (start + page - 1) div page * page;
          last' = end' div page * page
      in if linux \<and> lazyFrom \<le> sz \<and> first < last'
         then let data1 = memset0 0 (first - start) garbage;
                  data2 = memset0 (last' - start) (end' - last') data1
              in if advised then memset0 (first - start) (last' - first) data2
                 else memset0 (first - start) (last' - first) data2
         else memset0 0 sz garbage)"

definition allZero :: "u8 list \<Rightarrow> bool" where
  "allZero bs \<longleftrightarrow> length bs = 0 \<or> (hd bs = 0 \<and> take (length bs - 1) bs = take (length bs - 1) (tl bs))"

text \<open>The starts of the pieces of 4096 bytes of an array, and a piece.\<close>

definition starts :: "nat \<Rightarrow> nat list" where
  "starts sz = map (\<lambda>k. k * 4096) [0..<(sz + 4095) div 4096]"

definition piece :: "u8 list \<Rightarrow> nat \<Rightarrow> u8 list" where
  "piece data start = take (min 4096 (length data - start)) (drop start data)"

text \<open>\<open>zeros\<close> is what \<^const>\<open>lazyZeros\<close> gave for the size.\<close>

definition copy_nonzero :: "u8 list \<Rightarrow> u8 list \<Rightarrow> u8 list" where
  "copy_nonzero from' zeros =
     foldl (\<lambda>to' start. if allZero (piece from' start) then to' else memcpy_at start (piece from' start) to')
       zeros (starts (length from'))"

definition sliceBytes :: "(nat \<Rightarrow> u8 list) \<Rightarrow> u8 list \<Rightarrow> nat \<Rightarrow> nat \<Rightarrow> u8 list" where
  "sliceBytes zeros data start' stop' =
     (let total = length data;
          stop = (if is_scalar stop' then min stop' total else total);
          start = (if is_scalar start' then start' else total);
          sz = (if start < stop then stop - start else 0);
          from' = take sz (drop (if sz = 0 then 0 else start) data)
      in if sz < lazyFrom then from' else copy_nonzero from' (zeros sz))"

definition bytes_pieces :: "u8 list \<Rightarrow> (nat \<times> u8 list) list" where
  "bytes_pieces data =
     foldl (\<lambda>list at. (at, piece data at) # list) []
       (rev (filter (\<lambda>start. \<not> allZero (piece data start)) (starts (length data))))"

definition bytes_resident :: "u8 list \<Rightarrow> nat" where
  "bytes_resident data =
     foldl (\<lambda>total start. if allZero (piece data start) then total else total + length (piece data start)) 0
       (starts (length data))"

definition fill_piece :: "nat \<Rightarrow> u8 list \<Rightarrow> nat \<times> u8 list \<Rightarrow> u8 list" where
  "fill_piece sz to' p =
     (let start = fst p; count = min (length (snd p)) (sz - start)
      in if \<not> is_scalar start \<or> sz \<le> start \<or> count = 0 then to' else memcpy_at start (take count (snd p)) to')"

definition bytes_fill :: "(nat \<Rightarrow> u8 list) \<Rightarrow> nat \<Rightarrow> (nat \<times> u8 list) list \<Rightarrow> u8 list" where
  "bytes_fill zeros sz ps = foldl (fill_piece sz) (zeros sz) (rev ps)"

function region_from :: "paged \<Rightarrow> u64 \<Rightarrow> nat \<Rightarrow> nat \<Rightarrow> u8 list \<Rightarrow> u8 list" where
  "region_from m address sz d to' =
     (if sz \<le> d then to'
      else let at = address + of_nat d;
               offset = page_offset at;
               count = min (pageSize - offset) (sz - d);
               to'' = (case find_page m at of
                         None \<Rightarrow> to'
                       | Some p \<Rightarrow>
                           let bs = map (\<lambda>i. page_bytes m p (offset + i)) [0..<count]
                           in if allZero bs then to' else memcpy_at d bs to')
           in region_from m address sz (d + count) to'')"
  by pat_completeness auto
termination region_from
proof (relation "measure (\<lambda>(m, address, sz, d, to'). sz - d)", goal_cases)
  case (2 m address sz d to' at offset count to'')
  then have "0 < pageSize - offset" by (simp only: pageSize_def zero_less_diff page_offset_less)
  then have "0 < count" using 2 by simp
  then have "sz - (d + count) < sz - d" using 2(1) by linarith
  then show ?case by simp
qed simp

declare region_from.simps [simp del]

definition memory_region_bytes :: "(nat \<Rightarrow> u8 list) \<Rightarrow> paged \<Rightarrow> u64 \<Rightarrow> nat \<Rightarrow> u8 list" where
  "memory_region_bytes zeros m address sz = region_from m address sz 0 (zeros sz)"

section \<open>Zeros\<close>

lemma length_memcpy_at: "i + length bs \<le> length to' \<Longrightarrow> length (memcpy_at i bs to') = length to'"
  by (simp add: memcpy_at_def)

lemma nth_memcpy_at:
  "i + length bs \<le> length to' \<Longrightarrow> j < length to' \<Longrightarrow>
   memcpy_at i bs to' ! j = (if i \<le> j \<and> j < i + length bs then bs ! (j - i) else to' ! j)"
  by (auto simp: memcpy_at_def nth_append)

text \<open>Zeros before, after and between two places are zeros everywhere.\<close>

lemma three_memsets:
  assumes "f \<le> l" "l \<le> length d"
  shows "memset0 f (l - f) (memset0 l (length d - l) (memset0 0 f d)) = replicate (length d) 0"
proof -
  define d1 where "d1 = memset0 0 f d"
  define d2 where "d2 = memset0 l (length d - l) d1"
  have l1: "length d1 = length d" using assms by (simp add: d1_def memset0_def length_memcpy_at)
  have l2: "length d2 = length d" using assms by (simp add: d2_def memset0_def length_memcpy_at l1)
  have "length (memset0 f (l - f) d2) = length d" using assms by (simp add: memset0_def length_memcpy_at l2)
  moreover have "memset0 f (l - f) d2 ! i = 0" if "i < length d" for i
  proof -
    have "d1 ! i = (if i < f then 0 else d ! i)" using assms that by (simp add: d1_def memset0_def nth_memcpy_at)
    moreover have "d2 ! i = (if l \<le> i then 0 else d1 ! i)"
      using assms that by (auto simp: d2_def memset0_def nth_memcpy_at l1)
    moreover have "memset0 f (l - f) d2 ! i = (if f \<le> i \<and> i < l then 0 else d2 ! i)"
      using assms that by (auto simp: memset0_def nth_memcpy_at l2)
    ultimately show ?thesis by auto
  qed
  ultimately show ?thesis unfolding d2_def d1_def by (intro nth_equalityI) auto
qed

lemma lazyZeros_zeros:
  assumes "0 < page"
  shows "lazyZeros linux page start advised garbage = replicate (length garbage) 0"
proof -
  let ?sz = "length garbage"
  define first where "first = (start + page - 1) div page * page"
  define last' where "last' = (start + ?sz) div page * page"
  have all: "memset0 0 ?sz garbage = replicate ?sz 0" by (simp add: memset0_def memcpy_at_def)
  have lo: "start \<le> first"
  proof -
    have "start + page - 1 - (start + page - 1) mod page \<ge> start"
      using assms mod_less_divisor [OF assms, of "start + page - 1"] by linarith
    then show ?thesis by (simp add: first_def minus_mod_eq_div_mult)
  qed
  have hi: "last' \<le> start + ?sz" by (simp add: last'_def)
  have "memset0 (first - start) (last' - first) (memset0 (last' - start) (start + ?sz - last')
      (memset0 0 (first - start) garbage)) = replicate ?sz 0" if "first < last'"
  proof -
    have "last' - first = last' - start - (first - start)" "start + ?sz - last' = ?sz - (last' - start)"
      using lo hi that by simp_all
    then show ?thesis using three_memsets [of "first - start" "last' - start" garbage] lo hi that by simp
  qed
  then show ?thesis using all unfolding lazyZeros_def Let_def first_def [symmetric] last'_def [symmetric] by simp
qed

lemma allZero_iff: "allZero bs \<longleftrightarrow> bs = replicate (length bs) 0"
proof -
  have "(\<forall>b \<in> set bs. b = 0) \<longleftrightarrow> bs = replicate (length bs) 0"
    by (metis in_set_replicate replicate_eqI)
  then show ?thesis using is_zero_iff [of bs] by (cases "bs = []") (simp_all add: allZero_def is_zero_def)
qed

section \<open>Pieces\<close>

lemma starts_less: "s \<in> set (starts n) \<Longrightarrow> s < n"
proof -
  assume "s \<in> set (starts n)"
  then obtain k where k: "k < (n + 4095) div 4096" "s = k * 4096" by (auto simp: starts_def)
  then have "(k + 1) * 4096 \<le> (n + 4095) div 4096 * 4096" by (intro mult_right_mono) auto
  also have "\<dots> \<le> n + 4095" by simp
  finally show ?thesis using k(2) by simp
qed

lemma starts_cover: "j < n \<Longrightarrow> j div 4096 * 4096 \<in> set (starts n)"
proof -
  assume "j < n"
  then have "j div 4096 < (n + 4095) div 4096" using div_le_mono [of "j + 4096" "n + 4095" 4096] by simp
  then show ?thesis by (simp add: starts_def)
qed

lemma starts_block: "s \<in> set (starts n) \<Longrightarrow> s \<le> j \<and> j < s + 4096 \<longleftrightarrow> s = j div 4096 * 4096"
  by (auto simp: starts_def)

lemma length_piece: "length (piece d s) = min 4096 (length d - s)"
  by (simp add: piece_def)

lemma nth_piece: "i < length (piece d s) \<Longrightarrow> piece d s ! i = d ! (s + i)"
  by (auto simp: piece_def)

text \<open>Copying the pieces that aren't zeros into zeros copies the array.\<close>

lemma copy_pieces:
  assumes "n \<le> (length d + 4095) div 4096"
  shows "length (foldl (\<lambda>to' start. if allZero (piece d start) then to' else memcpy_at start (piece d start) to')
      (replicate (length d) 0) (map (\<lambda>k. k * 4096) [0..<n])) = length d \<and>
    (\<forall>j < length d. foldl (\<lambda>to' start. if allZero (piece d start) then to' else memcpy_at start (piece d start) to')
      (replicate (length d) 0) (map (\<lambda>k. k * 4096) [0..<n]) ! j = (if j < n * 4096 then d ! j else 0))"
  using assms
proof (induction n)
  case (Suc n)
  let ?s = "n * 4096"
  define to' where "to' = foldl (\<lambda>to' start. if allZero (piece d start) then to' else memcpy_at start (piece d start) to')
      (replicate (length d) 0) (map (\<lambda>k. k * 4096) [0..<n])"
  have IH: "length to' = length d" "\<And>j. j < length d \<Longrightarrow> to' ! j = (if j < ?s then d ! j else 0)"
    using Suc by (auto simp: to'_def)
  have "?s \<in> set (starts (length d))" using Suc.prems by (auto simp: starts_def)
  then have s: "?s < length d" by (rule starts_less)
  have len: "?s + length (piece d ?s) \<le> length to'" using s IH(1) by (simp add: length_piece)
  have "(if allZero (piece d ?s) then to' else memcpy_at ?s (piece d ?s) to') ! j = (if j < Suc n * 4096 then d ! j else 0)"
    if j: "j < length d" for j
  proof (cases "?s \<le> j \<and> j < ?s + 4096")
    case True
    then have i: "j - ?s < length (piece d ?s)" using j by (auto simp: length_piece)
    have dj: "piece d ?s ! (j - ?s) = d ! j" using nth_piece [OF i] True by simp
    have "d ! j = 0" if "allZero (piece d ?s)"
      using that i dj unfolding allZero_iff by (metis nth_replicate)
    moreover have "memcpy_at ?s (piece d ?s) to' ! j = d ! j"
      using nth_memcpy_at [OF len, of j] j True i dj IH(1) by auto
    ultimately show ?thesis using True IH(2) [OF j] by auto
  next
    case False
    then show ?thesis
      using IH(1) IH(2) [OF j] j nth_memcpy_at [OF len, of j] by (auto simp: length_piece)
  qed
  then show ?case using IH(1) length_memcpy_at [OF len] by (simp flip: to'_def)
qed simp

lemma copy_nonzero_same: "copy_nonzero d (replicate (length d) 0) = d"
proof -
  note c = copy_pieces [of "(length d + 4095) div 4096" d, simplified]
  have "j < (length d + 4095) div 4096 * 4096" if "j < length d" for j
    using that div_mult_mod_eq [of "length d + 4095" 4096] mod_less_divisor [of 4096 "length d + 4095"] by linarith
  then show ?thesis unfolding copy_nonzero_def starts_def using c by (intro nth_equalityI) auto
qed

lemma sliceBytes_extract:
  assumes "\<And>n. zeros n = replicate n 0" "length d < 2 ^ 63"
  shows "sliceBytes zeros d start stop = take (stop - start) (drop start d)"
proof -
  define stop' where "stop' = (if is_scalar stop then min stop (length d) else length d)"
  define start' where "start' = (if is_scalar start then start else length d)"
  have st: "stop' = min stop (length d)" using assms(2) by (auto simp: stop'_def is_scalar_def)
  have sa: "start' = start \<or> length d \<le> start \<and> start' = length d"
    using assms(2) by (auto simp: start'_def is_scalar_def)
  define sz where "sz = (if start' < stop' then stop' - start' else 0)"
  define from' where "from' = take sz (drop (if sz = 0 then 0 else start') d)"
  have f: "from' = take (stop - start) (drop start d)"
    using st sa by (auto simp: from'_def sz_def min_def take_all_iff)
  have len: "length from' = sz" using st sa by (auto simp: from'_def sz_def)
  have "sliceBytes zeros d start stop = (if sz < lazyFrom then from' else copy_nonzero from' (zeros sz))"
    by (simp add: sliceBytes_def Let_def sz_def from'_def start'_def stop'_def)
  then show ?thesis using copy_nonzero_same [of from'] len f assms(1) by simp
qed

section \<open>Filling\<close>

text \<open>A byte is of the first piece that has it, and 0 if none has.\<close>

definition has_byte :: "nat \<Rightarrow> nat \<times> u8 list \<Rightarrow> bool" where
  "has_byte j p \<longleftrightarrow> fst p \<le> j \<and> j < fst p + length (snd p)"

lemma fill_piece_nth:
  assumes "length to' = sz" "j < sz" "sz < 2 ^ 63"
  shows "length (fill_piece sz to' p) = sz"
    "fill_piece sz to' p ! j = (if has_byte j p then snd p ! (j - fst p) else to' ! j)"
proof -
  let ?c = "min (length (snd p)) (sz - fst p)"
  have c: "fst p + length (take ?c (snd p)) \<le> length to'" if "fst p < sz" using that assms(1) by simp
  show "length (fill_piece sz to' p) = sz"
    using length_memcpy_at [OF c] assms(1) by (simp add: fill_piece_def Let_def)
  show "fill_piece sz to' p ! j = (if has_byte j p then snd p ! (j - fst p) else to' ! j)"
  proof (cases "\<not> is_scalar (fst p) \<or> sz \<le> fst p \<or> ?c = 0")
    case True
    then show ?thesis using assms by (auto simp: fill_piece_def Let_def has_byte_def is_scalar_def)
  next
    case False
    then have "fst p < sz" by simp
    moreover have "take ?c (snd p) ! (j - fst p) = snd p ! (j - fst p)" if "fst p \<le> j" "j < fst p + ?c"
      using that by (intro nth_take) linarith
    ultimately show ?thesis
      using False nth_memcpy_at [OF c, of j] assms(1,2) by (auto simp: fill_piece_def Let_def has_byte_def)
  qed
qed

lemma bytes_fill_nth:
  assumes "\<And>n. zeros n = replicate n 0" "sz < 2 ^ 63"
  shows "length (bytes_fill zeros sz ps) = sz"
    "j < sz \<Longrightarrow> bytes_fill zeros sz ps ! j = (case find (has_byte j) ps of None \<Rightarrow> 0 | Some p \<Rightarrow> snd p ! (j - fst p))"
proof -
  have "length (bytes_fill zeros sz ps) = sz \<and> (\<forall>j < sz. bytes_fill zeros sz ps ! j =
      (case find (has_byte j) ps of None \<Rightarrow> 0 | Some p \<Rightarrow> snd p ! (j - fst p)))"
  proof (induction ps)
    case Nil
    then show ?case by (simp add: bytes_fill_def assms(1))
  next
    case (Cons p ps)
    then have len: "length (bytes_fill zeros sz ps) = sz" by simp
    have "bytes_fill zeros sz (p # ps) = fill_piece sz (bytes_fill zeros sz ps) p" by (simp add: bytes_fill_def)
    then show ?case
      using Cons fill_piece_nth [OF len _ assms(2)] by (cases "sz = 0") (auto simp: fill_piece_def Let_def)
  qed
  then show "length (bytes_fill zeros sz ps) = sz"
    "j < sz \<Longrightarrow> bytes_fill zeros sz ps ! j = (case find (has_byte j) ps of None \<Rightarrow> 0 | Some p \<Rightarrow> snd p ! (j - fst p))"
    by simp_all
qed

lemma bytes_pieces_alt:
  "bytes_pieces d = map (\<lambda>s. (s, piece d s)) (filter (\<lambda>s. \<not> allZero (piece d s)) (starts (length d)))"
proof -
  have "foldl (\<lambda>list at. (at, piece d at) # list) acc (rev xs) = map (\<lambda>s. (s, piece d s)) xs @ acc" for xs acc
    by (induction xs arbitrary: acc) simp_all
  from this [of "[]"] show ?thesis by (simp add: bytes_pieces_def)
qed

lemma fill_pieces:
  assumes "\<And>n. zeros n = replicate n 0" "length d < 2 ^ 63"
  shows "bytes_fill zeros (length d) (bytes_pieces d) = d"
proof (rule nth_equalityI)
  show len: "length (bytes_fill zeros (length d) (bytes_pieces d)) = length d" by (rule bytes_fill_nth [OF assms])
  fix j
  assume "j < length (bytes_fill zeros (length d) (bytes_pieces d))"
  then have j: "j < length d" using len by simp
  let ?s = "j div 4096 * 4096"
  have s: "?s \<in> set (starts (length d))" by (rule starts_cover [OF j])
  have i: "j - ?s < length (piece d ?s)"
    using j by (simp add: length_piece minus_div_mult_eq_mod) (metis diff_less_mono div_times_less_eq_dividend minus_div_mult_eq_mod)
  have dj: "piece d ?s ! (j - ?s) = d ! j" using nth_piece [OF i] by simp
  have has: "has_byte j p \<longleftrightarrow> fst p = ?s" if "p \<in> set (bytes_pieces d)" for p
    using that starts_block [of "fst p" "length d" j] j by (auto simp: bytes_pieces_alt has_byte_def length_piece)
  show "bytes_fill zeros (length d) (bytes_pieces d) ! j = d ! j"
  proof (cases "find (has_byte j) (bytes_pieces d)")
    case None
    then have "(?s, piece d ?s) \<notin> set (bytes_pieces d)" using has [of "(?s, piece d ?s)"] by (auto simp: find_None_iff)
    then have "allZero (piece d ?s)" using s by (auto simp: bytes_pieces_alt)
    then have "d ! j = 0" using i dj unfolding allZero_iff by (metis nth_replicate)
    then show ?thesis using bytes_fill_nth(2) [OF assms j] None by simp
  next
    case (Some p)
    then have p: "p \<in> set (bytes_pieces d)" "has_byte j p" by (auto simp: find_Some_iff)
    then have "fst p = ?s" "snd p = piece d (fst p)" using has by (auto simp: bytes_pieces_alt)
    then show ?thesis using bytes_fill_nth(2) [OF assms j] Some dj by simp
  qed
qed

lemma bytes_resident_pieces: "bytes_resident d = sum_list (map (length \<circ> snd) (bytes_pieces d))"
proof -
  have "foldl (\<lambda>total start. if allZero (piece d start) then total else total + length (piece d start)) acc xs =
      acc + sum_list (map (\<lambda>s. length (piece d s)) (filter (\<lambda>s. \<not> allZero (piece d s)) xs))" for acc xs
    by (induction xs arbitrary: acc) auto
  then show ?thesis by (simp add: bytes_resident_def bytes_pieces_alt comp_def)
qed

section \<open>A region of a memory\<close>

lemma region_from_ok:
  assumes "length to' = sz" "drop d to' = replicate (sz - d) 0" "take d to' = take d (read_bytes (view m) a sz)"
  shows "region_from m a sz d to' = read_bytes (view m) a sz"
  using assms
proof (induction "sz - d" arbitrary: d to' rule: less_induct)
  case less
  show ?case
  proof (cases "sz \<le> d")
    case True
    then show ?thesis using less.prems by (simp add: region_from.simps)
  next
    case False
    define at where "at = a + of_nat d"
    define count where "count = min (4096 - pageOffset at) (sz - d)"
    have "0 < 4096 - pageOffset at" by (simp only: zero_less_diff pageOffset_less)
    then have "0 < count" "d + count \<le> sz" "count \<le> 4096 - pageOffset at" using False by (auto simp: count_def)
    then have c: "0 < count" "d + count \<le> sz" "pageOffset at + count \<le> 4096"
      using pageOffset_less [of at] by linarith+
    have part: "read_bytes (view m) at count = take count (drop d (read_bytes (view m) a sz))"
      using c by (intro nth_equalityI) (auto simp: at_def algebra_simps)
    define to'' where "to'' = memcpy_at d (read_bytes (view m) at count) to'"
    have to'': "(case find_page m at of None \<Rightarrow> to' | Some p \<Rightarrow>
        let bs = map (\<lambda>i. page_bytes m p (page_offset at + i)) [0..<count] in if allZero bs then to' else memcpy_at d bs to') = to''"
    proof -
      have same: "memcpy_at d (replicate count 0) to' = to'"
      proof -
        have "sz - d = count + (sz - d - count)" using c by simp
        then have e: "drop d to' = replicate count 0 @ replicate (sz - d - count) 0"
          using less.prems(2) by (metis replicate_add)
        have "drop (d + count) to' = drop count (drop d to')" by (simp add: add.commute)
        then have "memcpy_at d (replicate count 0) to' = take d to' @ drop d to'" by (simp add: memcpy_at_def e)
        then show ?thesis by simp
      qed
      show ?thesis
      proof (cases "find_page m at")
        case None
        have "read_bytes (view m) at count = replicate count 0"
        proof (rule nth_equalityI)
          fix i assume "i < length (read_bytes (view m) at count)"
          then have i: "i < count" by simp
          then have "pageNumber (at + of_nat i) = pageNumber at" using in_page_add(1) [of at i] c(3) by simp
          then show "read_bytes (view m) at count ! i = replicate count 0 ! i"
            using i None find_page_same_page [of "at + of_nat i" at m] by (simp add: view_def)
        qed simp
        then show ?thesis using None same by (simp add: to''_def)
      next
        case (Some p)
        have "map (\<lambda>i. page_bytes m p (page_offset at + i)) [0..<count] = read_bytes (view m) at count"
        proof (rule nth_equalityI)
          fix i assume "i < length (map (\<lambda>i. page_bytes m p (page_offset at + i)) [0..<count])"
          then have i: "i < count" by simp
          then have "pageOffset at + i < 4096" using c(3) by simp
          note q = in_page_add(1,2) [OF this]
          show "map (\<lambda>i. page_bytes m p (page_offset at + i)) [0..<count] ! i = read_bytes (view m) at count ! i"
            using i Some q(2) find_page_same_page [OF q(1), of m] by (simp add: view_def page_offset_eq)
        qed simp
        then show ?thesis using Some same by (auto simp: to''_def allZero_iff Let_def)
      qed
    qed
    have len: "length to'' = sz" using less.prems(1) c by (simp add: to''_def length_memcpy_at)
    have "region_from m a sz d to' = region_from m a sz (d + count) to''"
      using to'' [unfolded page_offset_eq Let_def] False
      by (subst region_from.simps)
         (simp only: Let_def page_offset_eq pageSize_def at_def [symmetric] count_def [symmetric] if_False)
    moreover have "drop (d + count) to'' = replicate (sz - (d + count)) 0"
    proof -
      have "drop (d + count) to'' = drop (d + count) to'" using less.prems(1) c by (simp add: to''_def memcpy_at_def)
      also have "\<dots> = drop count (drop d to')" by (simp add: add.commute)
      finally show ?thesis using less.prems(2) by simp
    qed
    moreover have "take (d + count) to'' = take (d + count) (read_bytes (view m) a sz)"
      using less.prems(1,3) c part by (simp add: to''_def memcpy_at_def take_add)
    ultimately show ?thesis using less.hyps [of "d + count" to''] c False len by simp
  qed
qed

lemma memory_region_bytes_read:
  assumes "\<And>n. zeros n = replicate n 0"
  shows "memory_region_bytes zeros m a sz = readRange m a sz"
  using region_from_ok [of "zeros sz" sz 0 m a] by (simp add: memory_region_bytes_def assms readRange_view)

end
