(* ===== verification/MemoryApi.thy ===== *)
theory MemoryApi
  imports ByteArrays
begin

unbundle bit_operations_syntax

text \<open>
  The operations on memories that \<open>native/bap_jit.cpp\<close> exports to Lean (\<open>bap_jit_memory_create\<close> to
  \<open>bap_jit_memory_size\<close>): making one from pairs or from chunks, writing, cloning, dumping, reading and
  comparing, the journal of a step, and trimming. A \<open>bad_alloc\<close> that the code catches is an error of
  its own; \<open>bap_jit_memory_clone\<close> and \<open>bap_jit_memory_zero\<close> catch none.
\<close>

datatype api_error = Lengths_differ | Bad_alloc | Read_too_large

definition memory_create :: "host \<Rightarrow> u64 list \<Rightarrow> u8 list \<Rightarrow> api_error + paged" where
  "memory_create h addresses vs =
     (if length addresses \<noteq> length vs then Inl Lengths_differ
      else case writeAll h (zip addresses vs) new_memory of
             (True, m) \<Rightarrow> Inr m
           | (False, _) \<Rightarrow> Inl Bad_alloc)"

fun fill_chunks :: "host \<Rightarrow> (u64 \<times> u8 list) list \<Rightarrow> paged \<Rightarrow> bool \<times> paged" where
  "fill_chunks h [] m = (True, m)"
| "fill_chunks h (c # cs) m =
     (case fill h (fst c) (snd c) m of
        (True, m') \<Rightarrow> fill_chunks h cs m'
      | (False, m') \<Rightarrow> (False, m'))"

definition memory_create_chunks :: "host \<Rightarrow> u64 list \<Rightarrow> u8 list list \<Rightarrow> api_error + paged" where
  "memory_create_chunks h bases chunks' =
     (if length bases \<noteq> length chunks' then Inl Lengths_differ
      else case fill_chunks h (zip bases chunks') new_memory of
             (True, m) \<Rightarrow> Inr m
           | (False, _) \<Rightarrow> Inl Bad_alloc)"

text \<open>The memory after a write that failed is the one that it left.\<close>

definition memory_write :: "host \<Rightarrow> u64 list \<Rightarrow> u8 list \<Rightarrow> paged \<Rightarrow> api_error option \<times> paged" where
  "memory_write h addresses vs m =
     (if length addresses \<noteq> length vs then (Some Lengths_differ, m)
      else case writeAll h (zip addresses vs) m of
             (True, m') \<Rightarrow> (None, m')
           | (False, m') \<Rightarrow> (Some Bad_alloc, m'))"

text \<open>None if an exception leaves the function.\<close>

definition memory_clone :: "host \<Rightarrow> paged \<Rightarrow> paged option" where
  "memory_clone h m = (case copyFrom h m new_memory of (True, m') \<Rightarrow> Some m' | (False, _) \<Rightarrow> None)"

definition memory_zero :: "host \<Rightarrow> u64 \<Rightarrow> u64 \<Rightarrow> paged \<Rightarrow> paged option" where
  "memory_zero h first last' m = zeroRange h first last' m"

definition dump_word :: "u64 \<Rightarrow> nat \<Rightarrow> u8 list \<Rightarrow> (u64 \<times> u8) list" where
  "dump_word address offset word =
     (if word = replicate wordSize 0 then []
      else concat (map (\<lambda>i. if word ! i = 0 then [] else [(address + of_nat (offset + i), word ! i)]) [0..<wordSize]))"

definition memory_dump :: "paged \<Rightarrow> (u64 \<times> u8) list" where
  "memory_dump m =
     concat (map (\<lambda>w. concat (map (\<lambda>k. dump_word (fst w) (k * wordSize) (load_word m (snd w) (k * wordSize)))
        [0..<pageSize div wordSize])) (forEachPage m))"

definition memory_size :: "paged \<Rightarrow> nat" where
  "memory_size m =
     foldl (\<lambda>total w. foldl (\<lambda>total offset. if page_bytes m (snd w) offset \<noteq> 0 then Suc total else total) total [0..<pageSize])
       0 (forEachPage m)"

definition memory_read :: "paged \<Rightarrow> u64 \<Rightarrow> nat" where
  "memory_read m address = unat (read_byte m address)"

definition memory_read_range :: "paged \<Rightarrow> u64 \<Rightarrow> nat \<Rightarrow> api_error + u8 list" where
  "memory_read_range m address sz = (if \<not> is_scalar sz then Inl Read_too_large else Inr (readRange m address sz))"

definition memory_matches :: "paged \<Rightarrow> u64 \<Rightarrow> u8 list \<Rightarrow> bool" where
  "memory_matches m address bytes \<longleftrightarrow> readRange m address (length bytes) = bytes"

definition memory_step_begin :: "paged \<Rightarrow> paged" where
  "memory_step_begin m = beginStep m"

definition memory_step_end :: "paged \<Rightarrow> paged" where
  "memory_step_end m = endStep m"

definition memory_step_writes :: "paged \<Rightarrow> u64 list option" where
  "memory_step_writes m = stepAddresses m []"

definition memory_trim :: "bool \<Rightarrow> u64 \<Rightarrow> u64 \<Rightarrow> paged \<Rightarrow> paged" where
  "memory_trim samePages first last' m = trim samePages first last' m"

section \<open>Dumping\<close>

text \<open>The bytes of a page that aren't zero, in order.\<close>

lemma word_cells:
  assumes "load_word m p (k * 8) = w"
  shows "dump_word a (k * 8) w =
    concat (map (\<lambda>o'. if page_bytes m p o' = 0 then [] else [(a + of_nat o', page_bytes m p o')]) [k * 8..<Suc k * 8])"
proof -
  have w: "w ! i = page_bytes m p (k * 8 + i)" if "i < 8" for i
    using that assms by (auto simp: load_word_def)
  have upt: "[k * 8..<Suc k * 8] = map (\<lambda>i. k * 8 + i) [0..<8]"
    by (rule nth_equalityI) auto
  have "concat (map (\<lambda>i. if w ! i = 0 then [] else [(a + of_nat (k * 8 + i), w ! i)]) [0..<8]) =
      concat (map (\<lambda>o'. if page_bytes m p o' = 0 then [] else [(a + of_nat o', page_bytes m p o')]) [k * 8..<Suc k * 8])"
    unfolding upt map_map comp_def by (intro arg_cong [where f = concat] map_cong) (auto simp: w)
  moreover have "concat (map (\<lambda>i. if w ! i = 0 then [] else [(a + of_nat (k * 8 + i), w ! i)]) [0..<8]) = []"
    if "w = replicate 8 0"
    using that by simp
  ultimately show ?thesis
    unfolding dump_word_def wordSize_def by (cases "w = replicate 8 0") (simp_all only: if_True if_False simp_thms)
qed

definition page_dump :: "paged \<Rightarrow> u64 \<times> page_ptr \<Rightarrow> (u64 \<times> u8) list" where
  "page_dump m w = concat (map (\<lambda>o'. if page_bytes m (snd w) o' = 0 then []
     else [(fst w + of_nat o', page_bytes m (snd w) o')]) [0..<4096])"

lemma concat_words:
  "concat (map (\<lambda>k. concat (map f [k * 8..<Suc k * 8])) [0..<n]) = concat (map f [0..<n * 8])"
proof (induction n)
  case (Suc n)
  have "[0..<Suc n * 8] = [0..<n * 8] @ [n * 8..<Suc n * 8]"
    using upt_add_eq_append [of 0 "n * 8" 8] by (simp add: add.commute)
  then show ?case using Suc by simp
qed simp

lemma memory_dump_alt: "memory_dump m = concat (map (page_dump m) (forEachPage m))"
proof -
  have "concat (map (\<lambda>k. dump_word (fst w) (k * 8) (load_word m (snd w) (k * 8))) [0..<512]) = page_dump m w" for w
    unfolding word_cells [OF refl] page_dump_def using concat_words [of _ 512] by simp
  then show ?thesis by (simp add: memory_dump_def)
qed

lemma page_dump_mem:
  assumes "pageOffset (fst w) = 0" "find_page m (fst w) = Some (snd w)"
  shows "(a, v) \<in> set (page_dump m w) \<longleftrightarrow> pageNumber a = pageNumber (fst w) \<and> v = view m a \<and> v \<noteq> 0"
proof
  assume "(a, v) \<in> set (page_dump m w)"
  then obtain i where i: "i < 4096" "a = fst w + of_nat i" "v = page_bytes m (snd w) i" "v \<noteq> 0"
    by (auto simp: page_dump_def split: if_splits)
  then have at: "pageNumber a = pageNumber (fst w)" "pageOffset a = i"
    using in_page_add(1,2) [of "fst w" i] assms(1) by simp_all
  then show "pageNumber a = pageNumber (fst w) \<and> v = view m a \<and> v \<noteq> 0"
    using i assms(2) find_page_same_page [OF at(1), of m] by (simp add: view_def)
next
  assume a: "pageNumber a = pageNumber (fst w) \<and> v = view m a \<and> v \<noteq> 0"
  then have "unat (a - fst w) = pageOffset a" using page_range(2) [OF assms(1)] by simp
  moreover have "a = fst w + of_nat (unat (a - fst w))" by simp
  ultimately have e: "a = fst w + of_nat (pageOffset a)" by simp
  have "v = page_bytes m (snd w) (pageOffset a)"
    using a assms(2) find_page_same_page [of a "fst w" m] by (simp add: view_def)
  then show "(a, v) \<in> set (page_dump m w)"
    using a e pageOffset_less [of a] unfolding page_dump_def
    by (auto simp del: pageOffset_less intro!: bexI [of _ "pageOffset a"])
qed

lemma concat_filter_map: "concat (map (\<lambda>x. if P x then [] else [f x]) xs) = map f (filter (\<lambda>x. \<not> P x) xs)"
  by (induction xs) auto

lemma page_dump_sorted:
  assumes "pageOffset (fst w) = 0"
  shows "sorted_wrt (<) (map fst (page_dump m w))"
proof -
  have "fst w + of_nat i < fst w + of_nat j" if "i < j" "j < 4096" for i j
    using in_page_add(3) [of "fst w" i] in_page_add(3) [of "fst w" j] assms that by (simp add: word_less_nat_alt)
  then show ?thesis
    unfolding page_dump_def concat_filter_map map_map comp_def fst_conv sorted_wrt_map
    by (intro sorted_wrt_filter) (auto simp: sorted_wrt_iff_nth_less)
qed

lemma sorted_concat_pages:
  assumes "sorted_wrt (<) (map fst ws)" "\<And>w. w \<in> set ws \<Longrightarrow> pageOffset (fst w) = 0"
    "\<And>w x. w \<in> set ws \<Longrightarrow> x \<in> set (f w) \<Longrightarrow> pageNumber x = pageNumber (fst w)"
    "\<And>w. w \<in> set ws \<Longrightarrow> sorted_wrt (<) (f w)"
  shows "sorted_wrt (<) (concat (map f ws) :: u64 list)"
  using assms
proof (induction ws)
  case (Cons w ws)
  have "x < y" if "x \<in> set (f w)" "y \<in> set (f w')" "w' \<in> set ws" for x y w'
  proof -
    have lt: "fst w < fst w'" using Cons.prems(1) that(3) by auto
    have o: "pageOffset (fst w) = 0" "pageOffset (fst w') = 0" using Cons.prems(2) that(3) by auto
    have p: "pageNumber x = pageNumber (fst w)" "pageNumber y = pageNumber (fst w')"
      using Cons.prems(3) that by auto
    have "pageNumber (fst w) < pageNumber (fst w')"
      using lt o page_address [of "fst w"] page_address [of "fst w'"] by (simp add: word_less_nat_alt)
    then have "unat x < unat y"
      using page_address [of x] page_address [of y] p pageOffset_less [of x] by linarith
    then show ?thesis by (simp add: word_less_nat_alt)
  qed
  moreover have "sorted_wrt (<) (concat (map f ws))" by (rule Cons.IH) (use Cons.prems in auto)
  ultimately show ?case using Cons.prems(4) [of w] by (auto simp: sorted_wrt_append)
qed simp

lemma memory_dump_ok:
  shows "sorted_wrt (<) (map fst (memory_dump m))"
    "(a, v) \<in> set (memory_dump m) \<longleftrightarrow> v = view m a \<and> v \<noteq> 0"
proof -
  have page: "pageOffset (fst w) = 0 \<and> find_page m (fst w) = Some (snd w)" if "w \<in> set (forEachPage m)" for w
    using that forEachPage_mem [of "fst w" "snd w" m] by simp
  have "sorted_wrt (<) (concat (map (\<lambda>w. map fst (page_dump m w)) (forEachPage m)))"
  proof (rule sorted_concat_pages [OF forEachPage_sorted])
    fix w assume w: "w \<in> set (forEachPage m)"
    show "pageOffset (fst w) = 0" using page [OF w] by simp
    show "sorted_wrt (<) (map fst (page_dump m w))" using page [OF w] by (intro page_dump_sorted) simp
    show "pageNumber x = pageNumber (fst w)" if "x \<in> set (map fst (page_dump m w))" for x
      using that page_dump_mem [of w m] page [OF w] by auto
  qed
  then show "sorted_wrt (<) (map fst (memory_dump m))" by (simp add: memory_dump_alt map_concat comp_def)
  show "(a, v) \<in> set (memory_dump m) \<longleftrightarrow> v = view m a \<and> v \<noteq> 0"
  proof
    assume "(a, v) \<in> set (memory_dump m)"
    then obtain w where "w \<in> set (forEachPage m)" "(a, v) \<in> set (page_dump m w)" by (auto simp: memory_dump_alt)
    then show "v = view m a \<and> v \<noteq> 0" using page_dump_mem [of w m] page [of w] by auto
  next
    assume v: "v = view m a \<and> v \<noteq> 0"
    then obtain p where "find_page m a = Some p" by (auto simp: view_def split: option.splits)
    then have "find_page m (page_base a) = Some p" using find_page_same_page [OF page_base_page(1), of m a] by simp
    then have w: "(page_base a, p) \<in> set (forEachPage m)" by (simp add: forEachPage_mem)
    then have "(a, v) \<in> set (page_dump m (page_base a, p))" using v page [OF w] page_dump_mem [of "(page_base a, p)" m a v] by auto
    then show "(a, v) \<in> set (memory_dump m)" using w by (auto simp: memory_dump_alt)
  qed
qed

lemma memory_size_dump: "memory_size m = length (memory_dump m)"
proof -
  have "foldl (\<lambda>total offset. if page_bytes m p offset \<noteq> 0 then Suc total else total) t xs =
      t + length (filter (\<lambda>o'. page_bytes m p o' \<noteq> 0) xs)" for p t xs
    by (induction xs arbitrary: t) auto
  moreover have "length (page_dump m w) = length (filter (\<lambda>o'. page_bytes m (snd w) o' \<noteq> 0) [0..<4096])" for w
    by (simp add: page_dump_def concat_filter_map)
  moreover have "foldl (\<lambda>t w. t + g w) t ws = t + sum_list (map g ws)" for t and g :: "u64 \<times> page_ptr \<Rightarrow> nat" and ws
    by (induction ws arbitrary: t) auto
  ultimately show ?thesis by (simp add: memory_size_def memory_dump_alt length_concat comp_def)
qed

section \<open>Chunks\<close>

text \<open>Each byte of each chunk at its base plus its offset, up to the end of the address space.\<close>

fun upd_chunks :: "memory \<Rightarrow> (u64 \<times> u8 list) list \<Rightarrow> memory" where
  "upd_chunks f [] = f"
| "upd_chunks f (c # cs) = upd_chunks (upd_bytes f (fst c) (take (2 ^ 64 - unat (fst c)) (snd c))) cs"

lemma fill_chunks_ok:
  assumes "paged_inv m" "fill_chunks h cs m = (ok, m')" "\<And>c. c \<in> set cs \<Longrightarrow> length (snd c) < 2 ^ 64"
  shows "paged_inv m'" "ok \<Longrightarrow> view m' = upd_chunks (view m) cs" "(\<And>i. h i) \<Longrightarrow> ok"
proof -
  have "paged_inv m' \<and> (ok \<longrightarrow> view m' = upd_chunks (view m) cs) \<and> ((\<forall>i. h i) \<longrightarrow> ok)"
    using assms
  proof (induction cs arbitrary: m)
    case (Cons c cs)
    obtain o1 m1 where f: "fill h (fst c) (snd c) m = (o1, m1)" by fastforce
    have "length (snd c) < 2 ^ 64" using Cons.prems(3) by simp
    from fill_ok [OF Cons.prems(1) f this] obtain n where
      n: "n \<le> min (length (snd c)) (2 ^ 64 - unat (fst c))" "stored (fst c) (take n (snd c)) m m1"
        "o1 \<longrightarrow> n = min (length (snd c)) (2 ^ 64 - unat (fst c))" "(\<forall>i. h i) \<longrightarrow> o1"
      by auto
    have m1: "paged_inv m1" "view m1 = upd_bytes (view m) (fst c) (take n (snd c))" using n(2) by (simp_all add: stored_def)
    show ?case
    proof (cases o1)
      case True
      have "take n (snd c) = take (2 ^ 64 - unat (fst c)) (snd c)" using n(3) True by (simp add: min_def)
      then show ?thesis using Cons.IH [OF m1(1)] Cons.prems(2,3) f True m1(2) by simp
    next
      case False
      then show ?thesis using Cons.prems(2) f m1 n(4) by auto
    qed
  qed auto
  then show "paged_inv m'" "ok \<Longrightarrow> view m' = upd_chunks (view m) cs" "(\<And>i. h i) \<Longrightarrow> ok" by auto
qed

end
