(* ===== verification/PagedConc.thy ===== *)
theory PagedConc
  imports PagedZero "HOL-Library.Multiset"
begin

unbundle bit_operations_syntax

text \<open>
  Threads that load and store in one \<^typ>\<open>paged\<close> memory at the same time. A thread goes through
  \<open>find\<close> or \<open>ensure\<close>, and then the word, in the atomic steps that the code has: the load of an entry,
  the making of a node or page, the exchange of an entry, the load, store or exchange of a word.
  Steps of different threads come in any order. What is shown is that each access takes effect in
  one of its steps (\<open>linearize\<close>): there is an order of the finished accesses in which, one after
  another, the stores make the memory what it is, and each load had what the stores before it made.
  So no store is lost, though threads make the same page or change different bytes of one word at
  once. A node that was deleted after a lost race isn't made again under the same number.
\<close>

section \<open>The steps of a thread\<close>

datatype access = Store (addr: u64) "u8 list" | Load (addr: u64)

text \<open>An access that took effect: a load with the bytes of the word that it found.\<close>

datatype event = Stored u64 "u8 list" | Loaded u64 "u8 list"

text \<open>
  Where a thread is: at an entry of a node with \<open>k\<close> levels left, with a node or page made for an
  entry that was null, with a page to give back that lost, on the page, or with the word read that
  it is to exchange. \<open>Failed\<close> is a \<open>bad_alloc\<close>.
\<close>

datatype pc =
  Walking access nat nat
| NodeMade access nat nat nat
| PageMade u64 "u8 list" nat page_ptr
| PageLost u64 "u8 list" page_ptr page_ptr
| OnPage access page_ptr
| Exchanging u64 "u8 list" page_ptr "u8 list"
| Done event
| Failed

text \<open>Whether an access makes the page if it isn't there: a store of anything but zeros.\<close>

fun makes_page :: "access \<Rightarrow> bool" where
  "makes_page (Store a bs) = (\<not> list_all (\<lambda>b. b = 0) bs)"
| "makes_page (Load a) = False"

text \<open>What an access comes to where there is no page: zeros, or nothing to store.\<close>

fun no_page :: "access \<Rightarrow> event" where
  "no_page (Store a bs) = Stored a bs"
| "no_page (Load a) = Loaded a (replicate wordSize 0)"

text \<open>
  One step of a thread: where it goes, the memory, and whether its access took effect.
\<close>

fun advance :: "host \<Rightarrow> pc \<Rightarrow> paged \<Rightarrow> pc \<times> paged \<times> event option" where
  "advance h (Walking acc 0 n) m =
     (case entries m n (indexAt (addr acc) (levels - 1)) of
        ToPage p \<Rightarrow> (OnPage acc p, m, None)
      | _ \<Rightarrow>
          (case acc of
             Store a bs \<Rightarrow>
               (if makes_page acc
                then (case newPage h m of
                        (None, m') \<Rightarrow> (Failed, m', None)
                      | (Some p, m') \<Rightarrow> (PageMade a bs n p, m', None))
                else (Done (no_page acc), m, Some (no_page acc)))
           | Load a \<Rightarrow> (Done (no_page acc), m, Some (no_page acc))))"
| "advance h (Walking acc (Suc k) n) m =
     (case entries m n (indexAt (addr acc) (levels - 1 - Suc k)) of
        ToNode c \<Rightarrow> (Walking acc k c, m, None)
      | _ \<Rightarrow>
          (if makes_page acc
           then (case newNode h m of
                   (None, m') \<Rightarrow> (Failed, m', None)
                 | (Some c, m') \<Rightarrow> (NodeMade acc (Suc k) n c, m', None))
           else (Done (no_page acc), m, Some (no_page acc))))"
| "advance h (NodeMade acc k n c) m =
     (case exchange_entry n (indexAt (addr acc) (levels - 1 - k)) Null (ToNode c) m of
        (True, _, m') \<Rightarrow> (Walking acc (k - 1) c, m', None)
      | (False, ToNode c', m') \<Rightarrow> (Walking acc (k - 1) c', m', None)
      | (False, _, m') \<Rightarrow> (Failed, m', None))"
| "advance h (PageMade a bs n p) m =
     (case exchange_entry n (indexAt a (levels - 1)) Null (ToPage p) m of
        (True, _, m') \<Rightarrow> (OnPage (Store a bs) p, m', None)
      | (False, ToPage p', m') \<Rightarrow> (PageLost a bs p p', m', None)
      | (False, _, m') \<Rightarrow> (Failed, m', None))"
| "advance h (PageLost a bs made p) m = (OnPage (Store a bs) p, unusedPage made m, None)"
| "advance h (OnPage (Load a) p) m =
     (let ev = Loaded a (load_word m p (wordAt a)) in (Done ev, m, Some ev))"
| "advance h (OnPage (Store a bs) p) m =
     (if length bs = wordSize
      then (Done (Stored a bs), put_bytes p (wordAt a) bs m, Some (Stored a bs))
      else (Exchanging a bs p (load_word m p (wordAt a)), m, None))"
| "advance h (Exchanging a bs p expected) m =
     (if load_word m p (wordAt a) = expected
      then (Done (Stored a bs), put_bytes p (wordAt a) (splice expected (word_offset a) bs) m, Some (Stored a bs))
      else (Exchanging a bs p (load_word m p (wordAt a)), m, None))"
| "advance h (Done ev) m = (Done ev, m, None)"
| "advance h Failed m = (Failed, m, None)"

text \<open>The exchange of a word is a weak one, and may fail though the word is the one expected.\<close>

fun spurious :: "pc \<Rightarrow> paged \<Rightarrow> pc option" where
  "spurious (Exchanging a bs p expected) m = Some (Exchanging a bs p (load_word m p (wordAt a)))"
| "spurious _ m = None"

record conc =
  mem :: paged
  threads :: "pc list"

inductive conc_step :: "host \<Rightarrow> conc \<Rightarrow> event option \<Rightarrow> conc \<Rightarrow> bool" for h where
  advance: "t < length (threads s) \<Longrightarrow> advance h (threads s ! t) (mem s) = (q, m', ev) \<Longrightarrow>
    conc_step h s ev \<lparr>mem = m', threads = (threads s)[t := q]\<rparr>"
| spurious: "t < length (threads s) \<Longrightarrow> spurious (threads s ! t) (mem s) = Some q \<Longrightarrow>
    conc_step h s None (s\<lparr>threads := (threads s)[t := q]\<rparr>)"

text \<open>A run, with the accesses in the order in which they took effect.\<close>

inductive conc_run :: "host \<Rightarrow> conc \<Rightarrow> event list \<Rightarrow> conc \<Rightarrow> bool" for h where
  run_nil: "conc_run h s [] s"
| run_step: "conc_run h s evs s1 \<Longrightarrow> conc_step h s1 ev s2 \<Longrightarrow>
    conc_run h s (evs @ (case ev of None \<Rightarrow> [] | Some e \<Rightarrow> [e])) s2"

inductive_cases conc_stepE: "conc_step h s ev s'"

text \<open>A thread that begins an access, as \<open>storeInWord\<close> and \<open>loadWord\<close> do, at the root.\<close>

definition start :: "access \<Rightarrow> pc" where
  "start acc = Walking acc (levels - 1) 0"

section \<open>What accesses come to one after another\<close>

fun replay :: "memory \<Rightarrow> event list \<Rightarrow> memory" where
  "replay f [] = f"
| "replay f (Stored a bs # evs) = replay (upd_bytes f a bs) evs"
| "replay f (Loaded a w # evs) = replay f evs"

fun legal :: "memory \<Rightarrow> event list \<Rightarrow> bool" where
  "legal f [] = True"
| "legal f (Stored a bs # evs) = legal (upd_bytes f a bs) evs"
| "legal f (Loaded a w # evs) = (w = read_bytes f (a - of_nat (word_offset a)) wordSize \<and> legal f evs)"

lemma replay_append: "replay f (evs @ evs') = replay (replay f evs) evs'"
  by (induction f evs rule: replay.induct) auto

lemma legal_append: "legal f (evs @ evs') \<longleftrightarrow> legal f evs \<and> legal (replay f evs) evs'"
  by (induction f evs rule: replay.induct) auto

section \<open>The invariant of a thread\<close>

fun access_ok :: "access \<Rightarrow> bool" where
  "access_ok (Store a bs) = (word_offset a + length bs \<le> wordSize)"
| "access_ok (Load a) = True"

fun thread_ok :: "paged \<Rightarrow> pc \<Rightarrow> bool" where
  "thread_ok m (Walking acc k n) \<longleftrightarrow> access_ok acc \<and> k < 4 \<and> node_at m (addr acc) (3 - k) = Some n"
| "thread_ok m (NodeMade acc k n c) \<longleftrightarrow> access_ok acc \<and> makes_page acc \<and> 0 < k \<and> k < 4 \<and>
     node_at m (addr acc) (3 - k) = Some n \<and> fresh_node m c"
| "thread_ok m (PageMade a bs n p) \<longleftrightarrow> access_ok (Store a bs) \<and> node_at m a 3 = Some n \<and> fresh_page m p"
| "thread_ok m (PageLost a bs made p) \<longleftrightarrow> access_ok (Store a bs) \<and> find_page m a = Some p \<and> fresh_page m made"
| "thread_ok m (OnPage acc p) \<longleftrightarrow> access_ok acc \<and> find_page m (addr acc) = Some p"
| "thread_ok m (Exchanging a bs p w) \<longleftrightarrow> access_ok (Store a bs) \<and> find_page m a = Some p"
| "thread_ok m (Done ev) \<longleftrightarrow> True"
| "thread_ok m Failed \<longleftrightarrow> True"

text \<open>What a thread made and nobody else can see yet.\<close>

fun made_node :: "pc \<Rightarrow> nat option" where
  "made_node (NodeMade acc k n c) = Some c"
| "made_node _ = None"

fun made_page :: "pc \<Rightarrow> page_ptr option" where
  "made_page (PageMade a bs n p) = Some p"
| "made_page (PageLost a bs made p) = Some made"
| "made_page _ = None"

text \<open>Two threads have made different nodes and pages.\<close>

definition apart :: "pc \<Rightarrow> pc \<Rightarrow> bool" where
  "apart q q' \<longleftrightarrow> (made_node q = None \<or> made_node q \<noteq> made_node q') \<and>
     (made_page q = None \<or> made_page q \<noteq> made_page q')"

definition conc_inv :: "conc \<Rightarrow> bool" where
  "conc_inv s \<longleftrightarrow> paged_inv (mem s) \<and> (\<forall>t < length (threads s). thread_ok (mem s) (threads s ! t)) \<and>
     (\<forall>t < length (threads s). \<forall>t' < length (threads s). t \<noteq> t' \<longrightarrow> apart (threads s ! t) (threads s ! t'))"

text \<open>
  What a step of one thread leaves to the others: entries stay once they are filled, and what
  another thread made stays its own.
\<close>

definition leaves :: "pc \<Rightarrow> pc \<Rightarrow> paged \<Rightarrow> paged \<Rightarrow> bool" where
  "leaves q q' m m' \<longleftrightarrow> (\<forall>n i. entries m n i \<noteq> Null \<longrightarrow> entries m' n i = entries m n i) \<and>
     (\<forall>c. fresh_node m c \<and> made_node q \<noteq> Some c \<longrightarrow> fresh_node m' c \<and> made_node q' \<noteq> Some c) \<and>
     (\<forall>p. fresh_page m p \<and> made_page q \<noteq> Some p \<longrightarrow> fresh_page m' p \<and> made_page q' \<noteq> Some p)"

lemma entries_node_at:
  assumes "\<And>n i. entries m n i \<noteq> Null \<Longrightarrow> entries m' n i = entries m n i"
  shows "node_at m a l = Some n \<Longrightarrow> node_at m' a l = Some n"
proof (induction l arbitrary: n)
  case (Suc l)
  then show ?case unfolding node_at_Suc using assms by (metis void_ptr.distinct(1))
qed simp

lemma entries_find:
  assumes "\<And>n i. entries m n i \<noteq> Null \<Longrightarrow> entries m' n i = entries m n i"
  shows "find_page m a = Some p \<Longrightarrow> find_page m' a = Some p"
  unfolding find_page_iff using entries_node_at [OF assms] assms by (metis void_ptr.distinct(3))

lemma leaves_thread_ok:
  assumes "leaves q q' m m'" "apart q r" "thread_ok m r"
  shows "thread_ok m' r" "apart q' r"
proof -
  have e: "entries m n i \<noteq> Null \<Longrightarrow> entries m' n i = entries m n i" for n i
    using assms(1) by (simp add: leaves_def)
  note keep = entries_node_at [OF e] entries_find [OF e]
  have made: "made_node r = Some c \<Longrightarrow> fresh_node m c \<Longrightarrow> fresh_node m' c \<and> made_node q' \<noteq> Some c"
      "made_page r = Some p \<Longrightarrow> fresh_page m p \<Longrightarrow> fresh_page m' p \<and> made_page q' \<noteq> Some p" for c p
    using assms(1,2) by (auto simp: leaves_def apart_def)
  show "thread_ok m' r" using assms(3) keep made by (cases r) auto
  show "apart q' r" using assms(3) made by (cases r) (auto simp: apart_def)
qed

section \<open>What a step does\<close>

text \<open>
  The invariant and the others' part is kept, and the contents change only in the step in which
  the access takes effect, which is the one that ends it.
\<close>

definition step_ok :: "pc \<Rightarrow> paged \<Rightarrow> pc \<Rightarrow> paged \<Rightarrow> event option \<Rightarrow> bool" where
  "step_ok q m q' m' ev \<longleftrightarrow> paged_inv m' \<and> thread_ok m' q' \<and> leaves q q' m m' \<and>
     (case ev of
        None \<Rightarrow> view m' = view m \<and> (\<forall>e. q' = Done e \<longleftrightarrow> q = Done e)
      | Some e \<Rightarrow> view m' = replay (view m) [e] \<and> legal (view m) [e] \<and> q' = Done e \<and> (\<forall>e'. q \<noteq> Done e'))"

lemma leaves_same: "made_node q' = None \<Longrightarrow> made_page q' = None \<Longrightarrow> leaves q q' m m"
  by (simp add: leaves_def)

lemma grows_view:
  assumes "paged_inv m" "grows m m'" "\<And>a. find_page m' a = find_page m a"
  shows "view m' = view m"
proof
  fix a
  show "view m' a = view m a"
    using assms paged_inv_given [OF assms(1), of a]
    by (cases "find_page m a") (auto simp: view_def grows_def)
qed

lemma node_at_not_fresh: "node_at m a l = Some n \<Longrightarrow> fresh_node m c \<Longrightarrow> n \<noteq> c"
  by (cases l) (auto simp: fresh_node_def split: option.splits)

lemma node_at_same:
  assumes "entries m' = entries m"
  shows "node_at m' a l = node_at m a l"
  by (induction l) (simp_all add: assms split: option.split)

lemma newPage_other:
  assumes "newPage h m = (r, m')" "fresh_page m p"
  shows "fresh_page m' p \<and> r \<noteq> Some p"
  using assms(1)
proof (cases rule: newPage_cases)
  case (unused q rest)
  then show ?thesis using assms(2) by (auto simp: fresh_page_def given_def zero_page_def)
next
  case next_page
  then show ?thesis using assms(2) by (auto simp: fresh_page_def given_def zero_page_def)
next
  case refused
  then show ?thesis using assms(2) by (auto simp: fresh_page_def given_def zero_page_def)
next
  case chunk
  then show ?thesis using assms(2) by (auto simp: fresh_page_def given_def zero_page_def)
qed

lemma newPage_leaves:
  assumes "newPage h m = (r, m')" "made_node q' = None" "made_page q' = r"
  shows "leaves q q' m m'"
  using newPage_other [OF assms(1)] newPage_frame(1,2) [OF assms(1)] assms(2,3)
  by (auto simp: leaves_def fresh_node_def)

lemma newPage_inv:
  assumes "paged_inv m" "newPage h m = (r, m')"
  shows "paged_inv m'" "view m' = view m" "node_at m' a l = node_at m a l"
proof -
  obtain path where ok: "nodes_ok path m" "pages_ok m" using assms(1) by (auto simp: paged_inv_def)
  show "paged_inv m'" unfolding paged_inv_def
    using newPage_nodes_ok [OF assms(2) ok(1)] newPage_ok [OF assms(2) ok(2)] by blast
  show "view m' = view m"
    using newPage_grows [OF assms(2)] find_page_entries [OF newPage_frame(1) [OF assms(2)]]
    by (intro grows_view [OF assms(1)]) auto
  show "node_at m' a l = node_at m a l"
    by (rule node_at_same [OF newPage_frame(1) [OF assms(2)]])
qed

lemma newNode_leaves:
  assumes "newNode h m = (r, m')" "nodes_ok path m" "made_node q' = r" "made_page q' = None"
  shows "leaves q q' m m'"
proof -
  note e = newNode_entries [OF assms(1,2)] and fr = newNode_frame [OF assms(1)]
  have "r \<noteq> Some c" if "fresh_node m c" for c
    using that assms(1,2) newNode_fresh(2) [of h m c m'] by (auto simp: fresh_node_def)
  moreover have "fresh_node m' c" if "fresh_node m c" for c
    using that fr(9) by (auto simp: fresh_node_def e)
  moreover have "fresh_page m' p" if "fresh_page m p" for p
    using that by (simp add: fresh_page_def given_def zero_page_def e fr)
  ultimately show ?thesis using assms(3,4) by (auto simp: leaves_def e)
qed

lemma newNode_inv:
  assumes "paged_inv m" "newNode h m = (r, m')"
  shows "paged_inv m'" "view m' = view m" "node_at m' a l = node_at m a l"
proof -
  obtain path where ok: "nodes_ok path m" "pages_ok m" using assms(1) by (auto simp: paged_inv_def)
  note e = newNode_entries [OF assms(2) ok(1)] and fr = newNode_frame [OF assms(2)]
  have "given m' = given m" "zero_page m' = zero_page m" by (auto simp: given_def zero_page_def fr fun_eq_iff)
  then have "pages_ok m'" using ok(2) by (simp add: pages_ok_def e fr)
  then show "paged_inv m'" unfolding paged_inv_def using newNode_ok [OF assms(2) ok(1)] by blast
  show "view m' = view m"
    using newNode_grows [OF assms(2) ok(1)] find_page_entries [OF e] by (intro grows_view [OF assms(1)]) auto
  show "node_at m' a l = node_at m a l" by (rule node_at_same [OF e])
qed

text \<open>Where the way to the page ends, the word is zeros.\<close>

lemma find_page_None:
  assumes "node_at m a (3 - k) = Some n" "k < 4"
    "k = 0 \<Longrightarrow> as_page (entries m n (indexAt a 3)) = None"
    "0 < k \<Longrightarrow> as_node (entries m n (indexAt a (3 - k))) = None"
  shows "find_page m a = None"
  using find_from_node_at [OF assms(1,2)] assms(3,4) by (cases k) auto

lemma no_page_ok:
  assumes "access_ok acc" "\<not> makes_page acc" "find_page m (addr acc) = None" "paged_inv m"
    "\<forall>e. q \<noteq> Done e"
  shows "step_ok q m (Done (no_page acc)) m (Some (no_page acc))"
proof (cases acc)
  case (Load a)
  then have "replicate 8 0 = read_bytes (view m) (a - of_nat (word_offset a)) 8"
    using assms(3) loadWord_view [of m a] by (simp add: loadWord_def)
  then show ?thesis using Load assms(4,5) by (simp add: step_ok_def leaves_same)
next
  case (Store a bs)
  then have f: "word_offset a + length bs \<le> 8" "list_all (\<lambda>b. b = 0) bs" "find_page m a = None"
    using assms(1-3) by simp_all
  then have "storeInWord (\<lambda>_. True) a bs m = (True, m)" by (simp add: storeInWord_def)
  from storeInWord_ok [OF assms(4) f(1) this] have "view m = upd_bytes (view m) a bs"
    by (simp add: stored_def)
  then show ?thesis using Store assms(4,5) by (simp add: step_ok_def leaves_same)
qed

text \<open>A word on a page is written all at once.\<close>

lemma put_leaves:
  assumes "find_page m a = Some p"
  shows "leaves q (Done e) m (put_bytes p at bs m)"
proof -
  have "zero_page (put_bytes p at bs m) p'" if "fresh_page m p'" for p'
  proof -
    have "p' \<noteq> p" using that assms by (auto simp: fresh_page_def find_page_iff)
    then show ?thesis using that by (simp add: fresh_page_def zero_page_def)
  qed
  then show ?thesis by (auto simp: leaves_def fresh_page_def fresh_node_def given_def)
qed

lemma put_step_ok:
  assumes "paged_inv m" "find_page m a = Some p" "word_offset a + length bs \<le> 8" "\<forall>e. q \<noteq> Done e"
  shows "step_ok q m (Done (Stored a bs)) (put_bytes p (pageOffset a) bs m) (Some (Stored a bs))"
proof -
  have "pageOffset a + length bs \<le> 4096"
    using assms(3) wordAt_offset [of a] wordAt_bound [of a] by linarith
  then show ?thesis
    using put_bytes_inv [OF assms(1,2)] put_bytes_view [OF assms(1,2)] put_leaves [OF assms(2)] assms(4)
    by (simp add: step_ok_def)
qed

lemma exchange_fails:
  "entries m n i \<noteq> Null \<Longrightarrow> exchange_entry n i Null v m = (False, entries m n i, m)"
  by (simp add: exchange_entry_def)

lemma advance_walk_page:
  assumes "paged_inv m" "thread_ok m (Walking acc 0 n)" "advance h (Walking acc 0 n) m = (q', m', ev)"
  shows "step_ok (Walking acc 0 n) m q' m' ev"
proof (cases "\<exists>p. entries m n (indexAt (addr acc) 3) = ToPage p")
  case True
  then obtain p where p: "entries m n (indexAt (addr acc) 3) = ToPage p" by blast
  then have "q' = OnPage acc p" "m' = m" "ev = None" using assms(3) by auto
  moreover have "find_page m (addr acc) = Some p" using assms(2) p by (auto simp: find_page_iff)
  ultimately show ?thesis using assms(1,2) by (simp add: step_ok_def leaves_same)
next
  case False
  then have none: "as_page (entries m n (indexAt (addr acc) 3)) = None"
    by (cases "entries m n (indexAt (addr acc) 3)") auto
  have fp: "find_page m (addr acc) = None"
    using find_page_None [of m "addr acc" 0 n] assms(2) none by simp
  show ?thesis
  proof (cases "makes_page acc")
    case True
    then obtain a bs where acc: "acc = Store a bs" by (cases acc) auto
    obtain r m1 where new: "newPage h m = (r, m1)" by fastforce
    note i = newPage_inv [OF assms(1) new]
    have q: "m' = m1 \<and> ev = None \<and> q' = (case r of None \<Rightarrow> Failed | Some p \<Rightarrow> PageMade a bs n p)"
      using assms(3) none True new acc
      by (cases "entries m n (indexAt (addr acc) 3)"; cases r) auto
    have "leaves (Walking acc 0 n) q' m m'"
      using q by (intro newPage_leaves [OF new [folded conjunct1 [OF q]]]) (auto split: option.split)
    moreover have "thread_ok m' q'"
    proof (cases r)
      case (Some p)
      have "pages_ok m" using assms(1) by (auto simp: paged_inv_def)
      then have "fresh_page m1 p" using newPage_fresh new Some by blast
      then show ?thesis using q Some assms(2) acc i(3) by simp
    qed (use q in simp)
    ultimately show ?thesis using i(1,2) q by (simp add: step_ok_def split: option.split)
  next
    case False
    then have "q' = Done (no_page acc)" "m' = m" "ev = Some (no_page acc)"
      using assms(3) none by (cases "entries m n (indexAt (addr acc) 3)"; cases acc; auto)+
    then show ?thesis using no_page_ok [OF _ False fp assms(1)] assms(2) by simp
  qed
qed

lemma advance_walk_node:
  assumes "paged_inv m" "thread_ok m (Walking acc (Suc k) n)" "advance h (Walking acc (Suc k) n) m = (q', m', ev)"
  shows "step_ok (Walking acc (Suc k) n) m q' m' ev"
proof (cases "\<exists>c. entries m n (indexAt (addr acc) (3 - Suc k)) = ToNode c")
  case True
  then obtain c where c: "entries m n (indexAt (addr acc) (3 - Suc k)) = ToNode c" by blast
  then have "q' = Walking acc k c" "m' = m" "ev = None" using assms(3) by auto
  moreover have "node_at m (addr acc) (Suc (3 - Suc k)) = Some c" using assms(2) c unfolding node_at_Suc by auto
  moreover have "Suc (3 - Suc k) = 3 - k" using assms(2) by auto
  ultimately have "q' = Walking acc k c" "m' = m" "ev = None" "node_at m (addr acc) (3 - k) = Some c"
    by (simp_all only:)
  then show ?thesis using assms(1,2) by (simp add: step_ok_def leaves_same)
next
  case False
  then have none: "as_node (entries m n (indexAt (addr acc) (3 - Suc k))) = None"
    by (cases "entries m n (indexAt (addr acc) (3 - Suc k))") auto
  have fp: "find_page m (addr acc) = None"
    using find_page_None [of m "addr acc" "Suc k" n] assms(2) none by simp
  show ?thesis
  proof (cases "makes_page acc")
    case True
    obtain path where ok: "nodes_ok path m" using assms(1) by (auto simp: paged_inv_def)
    obtain r m1 where new: "newNode h m = (r, m1)" by fastforce
    note i = newNode_inv [OF assms(1) new]
    have q: "m' = m1 \<and> ev = None \<and> q' = (case r of None \<Rightarrow> Failed | Some c \<Rightarrow> NodeMade acc (Suc k) n c)"
      using assms(3) none True new
      by (cases "entries m n (indexAt (addr acc) (3 - Suc k))"; cases r) auto
    have "leaves (Walking acc (Suc k) n) q' m m'"
      using q by (intro newNode_leaves [OF new [folded conjunct1 [OF q]] ok]) (auto split: option.split)
    moreover have "thread_ok m' q'"
    proof (cases r)
      case (Some c)
      then have "fresh_node m1 c" using newNode_fresh(1) new ok by blast
      then show ?thesis using q Some assms(2) True i(3) by simp
    qed (use q in simp)
    ultimately show ?thesis using i(1,2) q by (simp add: step_ok_def split: option.split)
  next
    case False
    then have "q' = Done (no_page acc)" "m' = m" "ev = Some (no_page acc)"
      using assms(3) none by (cases "entries m n (indexAt (addr acc) (3 - Suc k))"; auto)+
    then show ?thesis using no_page_ok [OF _ False fp assms(1)] assms(2) by simp
  qed
qed

lemma set_node_leaves:
  assumes "node_at m a l = Some n" "entries m n i = Null"
  shows "leaves (NodeMade acc k n c) (Walking acc k' c) m (set_entry n i (ToNode c) m)"
proof -
  have "fresh_node (set_entry n i (ToNode c) m) d" if "fresh_node m d" "d \<noteq> c" for d
    using that node_at_not_fresh [OF assms(1) that(1)] by (auto simp: fresh_node_def)
  then show ?thesis using assms(2) by (auto simp: leaves_def fresh_page_def given_def zero_page_def)
qed

lemma advance_node_made:
  assumes "paged_inv m" "thread_ok m (NodeMade acc k n c)" "advance h (NodeMade acc k n c) m = (q', m', ev)"
  shows "step_ok (NodeMade acc k n c) m q' m' ev"
proof -
  let ?i = "indexAt (addr acc) (3 - k)"
  have k: "0 < k" "k < 4" "node_at m (addr acc) (3 - k) = Some n" "fresh_node m c" "access_ok acc"
    using assms(2) by simp_all
  have next_at: "node_at m2 (addr acc) (3 - (k - 1)) = Some d"
    if "node_at m2 (addr acc) (3 - k) = Some n" "entries m2 n ?i = ToNode d" for m2 d
  proof -
    have "node_at m2 (addr acc) (Suc (3 - k)) = Some d" using that unfolding node_at_Suc by blast
    moreover have "Suc (3 - k) = 3 - (k - 1)" using k(1,2) by simp
    ultimately show ?thesis by simp
  qed
  show ?thesis
  proof (cases "entries m n ?i")
    case Null
    obtain path where ok: "nodes_ok path m" "pages_ok m" using assms(1) by (auto simp: paged_inv_def)
    let ?m = "set_entry n ?i (ToNode c) m"
    have q: "q' = Walking acc (k - 1) c" "m' = ?m" "ev = None"
      using assms(3) exchange_null [OF Null] by auto
    have nc: "n \<noteq> c" by (rule node_at_not_fresh [OF k(3,4)])
    have p: "path n = map (indexAt (addr acc)) [0..<3 - k]" "n < nodes m"
      using node_at_path [OF ok(1) k(3)] by simp_all
    have "nodes_ok (path(c := path n @ [?i])) ?m"
      using p k(1) by (intro set_node_ok [OF ok(1) k(4) Null _ _ _ nc]) auto
    moreover have "pages_ok ?m" by (rule set_node_pages_ok [OF ok(2) Null])
    ultimately have inv: "paged_inv ?m" by (auto simp: paged_inv_def)
    have v: "view ?m = view m"
      using set_entry_grows [OF Null] set_node_find [OF k(4) Null nc] by (intro grows_view [OF assms(1)]) auto
    have "node_at ?m (addr acc) (3 - k) = Some n"
      using entries_node_at [of m ?m "addr acc" "3 - k" n] k(3) Null by fastforce
    then have "node_at ?m (addr acc) (3 - (k - 1)) = Some c" by (rule next_at) simp
    then show ?thesis
      using q inv v k set_node_leaves [OF k(3) Null] by (simp add: step_ok_def)
  next
    case (ToNode d)
    then have "q' = Walking acc (k - 1) d" "m' = m" "ev = None"
      using assms(3) exchange_fails [of m n ?i] by auto
    then show ?thesis using assms(1) k next_at [OF k(3) ToNode] by (simp add: step_ok_def leaves_same)
  next
    case (ToPage p)
    then have "q' = Failed" "m' = m" "ev = None" using assms(3) exchange_fails [of m n ?i] by auto
    then show ?thesis using assms(1) by (simp add: step_ok_def leaves_same)
  qed
qed

lemma set_page_view:
  assumes inv: "paged_inv m" and at: "entries m n i = Null" and p: "fresh_page m p"
  shows "view (set_entry n i (ToPage p) m) = view m"
proof
  fix x
  let ?m = "set_entry n i (ToPage p) m"
  show "view ?m x = view m x"
  proof (cases "node_at m x 3 = Some n \<and> indexAt x 3 = i")
    case True
    then have "find_page m x = None" using at find_page_None [of m x 0 n] by simp
    then show ?thesis using True p by (simp add: view_def set_page_find [OF at] fresh_page_def zero_page_def)
  next
    case False
    then show ?thesis by (simp add: view_def set_page_find [OF at] if_not_P split: option.split)
  qed
qed

lemma advance_page_made:
  assumes "paged_inv m" "thread_ok m (PageMade a bs n p)" "advance h (PageMade a bs n p) m = (q', m', ev)"
  shows "step_ok (PageMade a bs n p) m q' m' ev"
proof (cases "entries m n (indexAt a 3)")
  case Null
  let ?m = "set_entry n (indexAt a 3) (ToPage p) m"
  obtain path where ok: "nodes_ok path m" "pages_ok m" using assms(1) by (auto simp: paged_inv_def)
  have t: "node_at m a 3 = Some n" "fresh_page m p" "access_ok (Store a bs)" using assms(2) by simp_all
  have q: "q' = OnPage (Store a bs) p" "m' = ?m" "ev = None" using assms(3) exchange_null [OF Null] by auto
  have "path n = map (indexAt a) [0..<3]" "n < nodes m" using node_at_path [OF ok(1) t(1)] by simp_all
  then have inv: "paged_inv ?m"
    using set_page_ok [OF ok t(2) Null] by (auto simp: paged_inv_def)
  have "fresh_page ?m p'" if "fresh_page m p'" "p' \<noteq> p" for p'
    using that by (auto simp: fresh_page_def given_def zero_page_def)
  moreover have "fresh_node ?m c" if "fresh_node m c" for c
    using that node_at_not_fresh [OF t(1) that] by (auto simp: fresh_node_def)
  ultimately have "leaves (PageMade a bs n p) q' m ?m"
    using Null q(1) by (auto simp: leaves_def)
  moreover have "find_page ?m a = Some p" using t(1) by (simp add: set_page_find [OF Null])
  ultimately show ?thesis
    using q inv set_page_view [OF assms(1) Null t(2)] t(3) by (simp add: step_ok_def)
next
  case (ToNode d)
  then have "q' = Failed" "m' = m" "ev = None" using assms(3) exchange_fails [of m n "indexAt a 3"] by auto
  then show ?thesis using assms(1) by (simp add: step_ok_def leaves_same)
next
  case (ToPage p')
  then have "q' = PageLost a bs p p'" "m' = m" "ev = None"
    using assms(3) exchange_fails [of m n "indexAt a 3"] by auto
  moreover have "find_page m a = Some p'" using ToPage assms(2) by (auto simp: find_page_iff)
  ultimately show ?thesis using assms(1,2) by (simp add: step_ok_def leaves_def)
qed

lemma advance_page_lost:
  assumes "paged_inv m" "thread_ok m (PageLost a bs made p)"
  shows "step_ok (PageLost a bs made p) m (OnPage (Store a bs) p) (unusedPage made m) None"
proof -
  let ?m = "unusedPage made m"
  obtain path where ok: "nodes_ok path m" "pages_ok m" using assms(1) by (auto simp: paged_inv_def)
  have fresh: "fresh_page m made" "access_ok (Store a bs)" "find_page m a = Some p" using assms(2) by simp_all
  have fields: "entries ?m = entries m" "nodes ?m = nodes m" "chunks ?m = chunks m" "unused ?m = made # unused m"
      "chunkUsed ?m = chunkUsed m" "page_bytes ?m = page_bytes m"
    by (simp_all add: unusedPage_def)
  then have g: "given ?m = given m" "zero_page ?m = zero_page m" by (auto simp: given_def zero_page_def)
  note pg = pages_okD [OF ok(2)]
  have "pages_ok ?m"
    by (rule pages_okI) (use pg fresh(1) in \<open>auto simp: fields g fresh_page_def\<close>)
  moreover have "nodes_ok path ?m" using ok(1) by (simp add: nodes_ok_def fields)
  ultimately have inv: "paged_inv ?m" by (auto simp: paged_inv_def)
  have f: "find_page ?m x = find_page m x" for x by (rule find_page_entries) (simp add: fields)
  have "view ?m = view m" by (rule grows_view [OF assms(1)]) (simp_all add: grows_def fields g f)
  moreover have "leaves (PageLost a bs made p) (OnPage (Store a bs) p) m ?m"
    by (auto simp: leaves_def fields g fresh_page_def fresh_node_def)
  ultimately show ?thesis using inv fresh by (simp add: step_ok_def f)
qed

lemma advance_on_page:
  assumes "paged_inv m" "thread_ok m (OnPage acc p)" "advance h (OnPage acc p) m = (q', m', ev)"
  shows "step_ok (OnPage acc p) m q' m' ev"
proof (cases acc)
  case (Load a)
  then have "load_word m p (wordAt a) = read_bytes (view m) (a - of_nat (word_offset a)) 8"
    using assms(2) loadWord_view [of m a] by (simp add: loadWord_def)
  then show ?thesis using Load assms(1,3) by (auto simp: step_ok_def leaves_same Let_def)
next
  case (Store a bs)
  then have t: "word_offset a + length bs \<le> 8" "find_page m a = Some p" using assms(2) by simp_all
  show ?thesis
  proof (cases "length bs = 8")
    case True
    then have "wordAt a = pageOffset a" using t(1) wordAt_offset [of a] by simp
    then show ?thesis using put_step_ok [OF assms(1) t(2,1)] Store True assms(3) by auto
  next
    case False
    then show ?thesis using Store assms(1,3) t by (auto simp: step_ok_def leaves_same)
  qed
qed

lemma advance_exchanging:
  assumes "paged_inv m" "thread_ok m (Exchanging a bs p w)" "advance h (Exchanging a bs p w) m = (q', m', ev)"
  shows "step_ok (Exchanging a bs p w) m q' m' ev"
proof (cases "load_word m p (wordAt a) = w")
  case True
  have t: "word_offset a + length bs \<le> 8" "find_page m a = Some p" using assms(2) by simp_all
  have "put_bytes p (wordAt a) (splice w (word_offset a) bs) m = put_bytes p (pageOffset a) bs m"
    using splice_put [OF t(1), of p "wordAt a" m] True wordAt_offset [of a] by simp
  then show ?thesis using put_step_ok [OF assms(1) t(2,1)] True assms(3) by auto
next
  case False
  then show ?thesis using assms by (auto simp: step_ok_def leaves_same)
qed

lemma advance_ok:
  assumes "paged_inv m" "thread_ok m q" "advance h q m = (q', m', ev)"
  shows "step_ok q m q' m' ev"
proof (cases q)
  case (Walking acc k n)
  then show ?thesis
    using assms advance_walk_page [of m acc n h q' m' ev] advance_walk_node [of m acc "k - 1" n h q' m' ev]
    by (cases k) simp_all
next
  case (NodeMade acc k n c)
  then show ?thesis using assms advance_node_made by blast
next
  case (PageMade a bs n p)
  then show ?thesis using assms advance_page_made by blast
next
  case (PageLost a bs made p)
  then show ?thesis using assms advance_page_lost [of m a bs made p] by auto
next
  case (OnPage acc p)
  then show ?thesis using assms advance_on_page by blast
next
  case (Exchanging a bs p w)
  then show ?thesis using assms advance_exchanging by blast
qed (use assms in \<open>auto simp: step_ok_def leaves_same\<close>)

section \<open>Runs\<close>

lemma conc_inv_update:
  assumes "conc_inv s" "t < length (threads s)" "step_ok (threads s ! t) (mem s) q m' ev"
  shows "conc_inv \<lparr>mem = m', threads = (threads s)[t := q]\<rparr>"
proof -
  have ok: "paged_inv m'" "thread_ok m' q" "leaves (threads s ! t) q (mem s) m'"
    using assms(3) by (simp_all add: step_ok_def)
  have other: "thread_ok m' (threads s ! t')" "apart q (threads s ! t')"
    if "t' < length (threads s)" "t' \<noteq> t" for t'
    using leaves_thread_ok [OF ok(3), of "threads s ! t'"] assms(1,2) that by (simp_all add: conc_inv_def)
  have sym: "apart r q \<longleftrightarrow> apart q r" for r by (auto simp: apart_def)
  show ?thesis
    using assms(1,2) ok other by (auto simp: conc_inv_def nth_list_update sym)
qed

lemma spurious_ok:
  assumes "paged_inv m" "thread_ok m q" "spurious q m = Some q'"
  shows "step_ok q m q' m None"
  using assms by (cases q) (auto simp: step_ok_def leaves_same)

text \<open>The accesses that are done.\<close>

fun done_event :: "pc \<Rightarrow> event list" where
  "done_event (Done e) = [e]"
| "done_event _ = []"

definition finished :: "conc \<Rightarrow> event multiset" where
  "finished s = mset (concat (map done_event (threads s)))"

lemma finished_update:
  assumes "t < length (threads s)" "threads s' = (threads s)[t := q]"
  shows "finished s' + mset (done_event (threads s ! t)) = finished s + mset (done_event q)"
proof -
  have split: "threads s = take t (threads s) @ (threads s ! t) # drop (Suc t) (threads s)"
    using assms(1) by (rule id_take_nth_drop)
  have "(threads s)[t := q] = take t (threads s) @ q # drop (Suc t) (threads s)"
    using assms(1) by (rule upd_conv_take_nth_drop)
  then show ?thesis unfolding finished_def assms(2) by (subst (3) split) simp
qed

lemma step_finished:
  assumes "step_ok q m q' m' ev"
  shows "mset (done_event q') = mset (done_event q) + mset (case ev of None \<Rightarrow> [] | Some e \<Rightarrow> [e])"
  using assms by (cases ev; cases q; cases q') (auto simp: step_ok_def)

lemma conc_step_ok:
  assumes "conc_step h s ev s'" "conc_inv s"
  obtains t q m' where "t < length (threads s)" "step_ok (threads s ! t) (mem s) q m' ev"
    "s' = \<lparr>mem = m', threads = (threads s)[t := q]\<rparr>"
  using assms(1)
proof (cases rule: conc_step.cases)
  case (advance t q m')
  then show ?thesis using that [of t q m'] advance_ok assms(2) by (simp add: conc_inv_def)
next
  case (spurious t q)
  then have "step_ok (threads s ! t) (mem s) q (mem s) None"
    using spurious_ok assms(2) by (simp add: conc_inv_def)
  then show ?thesis using that [of t q "mem s"] spurious by simp
qed

text \<open>
  In the order in which they took effect, the finished accesses one after another make the memory
  what it is, and each load among them is of what it was then.
\<close>

lemma linearize:
  assumes "conc_run h s evs s'" "conc_inv s" "finished s = {#}"
  shows "conc_inv s' \<and> view (mem s') = replay (view (mem s)) evs \<and> legal (view (mem s)) evs \<and>
    finished s' = mset evs"
  using assms
proof (induction rule: conc_run.induct)
  case (run_step s evs s1 ev s2)
  then have IH: "conc_inv s1" "view (mem s1) = replay (view (mem s)) evs" "legal (view (mem s)) evs"
      "finished s1 = mset evs"
    by simp_all
  from conc_step_ok [OF run_step.hyps(2) IH(1)] obtain t q m' where t: "t < length (threads s1)"
      "step_ok (threads s1 ! t) (mem s1) q m' ev" "s2 = \<lparr>mem = m', threads = (threads s1)[t := q]\<rparr>" .
  have "finished s2 + mset (done_event (threads s1 ! t)) = finished s1 + mset (done_event q)"
    using t(1,3) by (intro finished_update) simp_all
  then have "finished s2 = mset (evs @ (case ev of None \<Rightarrow> [] | Some e \<Rightarrow> [e]))"
    using step_finished [OF t(2)] IH(4) by (simp add: ac_simps)
  moreover have "conc_inv s2" using conc_inv_update [OF IH(1) t(1,2)] t(3) by simp
  ultimately show ?case
    using IH(2,3) t(2,3) by (auto simp: step_ok_def replay_append legal_append split: option.splits)
qed simp

lemma conc_inv_start:
  assumes "paged_inv m" "list_all access_ok accs"
  shows "conc_inv \<lparr>mem = m, threads = map start accs\<rparr>" "finished \<lparr>mem = m, threads = map start accs\<rparr> = {#}"
proof -
  show "conc_inv \<lparr>mem = m, threads = map start accs\<rparr>"
    using assms by (auto simp: conc_inv_def start_def apart_def list_all_length)
  have "concat (map done_event (map start accs)) = []" by (induction accs) (simp_all add: start_def)
  then show "finished \<lparr>mem = m, threads = map start accs\<rparr> = {#}" by (simp add: finished_def)
qed

end
