(* ===== verification/MemoryProperties.thy ===== *)
theory MemoryProperties
  imports MemoryApi PagedConc
begin

text \<open>
  What the paged memory and the functions that Lean calls on it promise, stated on the bytes that
  \<open>readByte\<close> gives: the map that \<open>src/Bap/Jit.lean\<close> models a memory with.
\<close>

definition granted :: host where
  "granted = (\<lambda>_. True)"

lemma granted [simp]: "granted i"
  by (simp add: granted_def)

lemma read_byte_fun: "read_byte m = view m"
  by (rule ext) (rule read_byte_view)

lemma store_from_new: "\<exists>m. store granted a bs new_memory = (True, m) \<and> stored a bs new_memory m"
  by (rule store_granted [OF paged_inv_new]) simp

section \<open>Writes\<close>

text \<open>
  C1. A write of pairs to a memory is the fold of the pairs over the map, in the order of the pairs, however
  they are merged into words: every byte is the value of the last pair with its address, or what it was. If
  the host runs out of memory, the bytes are those of a prefix of the pairs, and it reports that it failed;
  it never fails while the host has memory.
\<close>

theorem memory_write_folds:
  assumes "paged_inv m" "length addresses = length vs" "memory_write h addresses vs m = (r, m')"
  shows "\<exists>n \<le> length addresses. paged_inv m' \<and> read_byte m' = upd_pairs (read_byte m) (take n (zip addresses vs)) \<and>
    (r = None \<longrightarrow> n = length addresses) \<and> (r \<noteq> None \<longrightarrow> r = Some Bad_alloc) \<and> ((\<forall>i. h i) \<longrightarrow> r = None)"
proof -
  obtain ok m1 where w: "writeAll h (zip addresses vs) m = (ok, m1)" by fastforce
  have r: "m' = m1" "r = (if ok then None else Some Bad_alloc)"
    using assms(2,3) w by (auto simp: memory_write_def split: bool.splits)
  show ?thesis using writeAll_ok [OF assms(1) w] assms(2) by (auto simp: r wrote_def read_byte_fun)
qed

theorem memory_write_folds_witness:
  "\<exists>m'. memory_write granted [7, 8, 7] [1, 2, 3] new_memory = (None, m') \<and> read_byte m' 7 = 3 \<and> read_byte m' 8 = 2"
proof -
  obtain r m' where run: "memory_write granted [7, 8, 7] [1, 2, 3] new_memory = (r, m')" by fastforce
  from memory_write_folds [OF paged_inv_new _ run] show ?thesis using run
    by (auto simp: read_byte_fun)
qed

text \<open>
  C2. A load gives the bytes that the last store to the same range stored, whatever words and pages the
  range crosses and also across the end of the address space, and a store changes no byte outside its range.
\<close>

theorem store_then_load:
  assumes "paged_inv m" "store h a bs m = (True, m')" "length bs \<le> 2 ^ 64"
  shows "load m' a (length bs) = bs \<and> (\<forall>b n. (\<forall>i < n. length bs \<le> unat (b + of_nat i - a)) \<longrightarrow> load m' b n = load m b n)"
proof -
  have run: "store_done a bs m m'" using assms(2) by (auto simp: store_done_def)
  show ?thesis using paged.read_after_write [OF assms(1) run assms(3)] paged.read_apart [OF assms(1) run] by blast
qed

theorem store_then_load_witness:
  "\<exists>m'. store granted (- 2) [1, 2, 3, 4] new_memory = (True, m') \<and> load m' (- 2) 4 = [1, 2, 3, 4] \<and> load m' 2 5 = load new_memory 2 5"
proof -
  obtain m' where run: "store granted (- 2) [1, 2, 3, 4] new_memory = (True, m')"
    using store_from_new by blast
  have "\<forall>i < 5. length [1, 2, 3, 4 :: u8] \<le> unat ((2 :: u64) + of_nat i - (- 2))"
  proof (intro allI impI)
    fix i :: nat assume "i < 5"
    then have "i = 0 \<or> i = 1 \<or> i = 2 \<or> i = 3 \<or> i = 4" by linarith
    then show "length [1, 2, 3, 4 :: u8] \<le> unat ((2 :: u64) + of_nat i - (- 2))" by (elim disjE) simp_all
  qed
  then have "load m' 2 5 = load new_memory 2 5" "load m' (- 2) (length [1, 2, 3, 4 :: u8]) = [1, 2, 3, 4]"
    using store_then_load [OF paged_inv_new run] by simp_all
  moreover have "length [1, 2, 3, 4 :: u8] = 4" by simp
  ultimately show ?thesis using run by (simp only: simp_thms) blast
qed

section \<open>Whole memories\<close>

text \<open>
  C5. A memory that is made from chunks has each byte of each chunk at its base plus its offset, the later
  chunk where two overlap, nothing past the end of the address space, and zero everywhere else. Zero
  bytes make no page, but still overwrite.
\<close>

theorem memory_create_chunks_bytes:
  assumes "length bases = length css" "\<forall>c \<in> set css. length c < 2 ^ 64"
  shows "(\<forall>m. memory_create_chunks h bases css = Inr m \<longrightarrow>
      paged_inv m \<and> read_byte m = upd_chunks (\<lambda>_. 0) (zip bases css)) \<and>
    ((\<forall>i. h i) \<longrightarrow> (\<exists>m. memory_create_chunks h bases css = Inr m))"
proof -
  obtain ok m' where f: "fill_chunks h (zip bases css) new_memory = (ok, m')" by fastforce
  have small: "length (snd c) < 2 ^ 64" if "c \<in> set (zip bases css)" for c
    using assms(2) set_zip_rightD [of "fst c" "snd c" bases css] that by simp
  note all = fill_chunks_ok [OF paged_inv_new f small]
  show ?thesis using all f assms(1) by (auto simp: memory_create_chunks_def read_byte_fun split: bool.splits)
qed

theorem memory_create_chunks_bytes_witness:
  "\<exists>m. memory_create_chunks granted [10, 12] [[1, 2, 3, 4], [0, 6]] = Inr m \<and> map (read_byte m) [9, 10, 11, 12, 13, 14] = [0, 1, 2, 0, 6, 0]"
  using memory_create_chunks_bytes [of "[10, 12]" "[[1, 2, 3, 4], [0, 6]]" granted]
  by auto

text \<open>
  C6. A dump has exactly the addresses whose byte isn't zero, each once and in order, with their bytes, and
  \<open>bap_jit_memory_size\<close> is the length of it: the bytes that aren't zero, and not the memory of the host that the pages
  take. A memory that \<open>bap_jit_memory_create\<close> makes of the addresses and the bytes of a dump has the bytes of the
  memory that was dumped, and it makes one as long as the host has memory.
\<close>

theorem memory_dump_complete:
  "sorted_wrt (<) (map fst (memory_dump m)) \<and> set (memory_dump m) = {(a, read_byte m a) | a. read_byte m a \<noteq> 0} \<and>
   memory_size m = length (memory_dump m) \<and>
   (\<forall>m'. memory_create h (map fst (memory_dump m)) (map snd (memory_dump m)) = Inr m' \<longrightarrow> paged_inv m' \<and> read_byte m' = read_byte m) \<and>
   ((\<forall>i. h i) \<longrightarrow> (\<exists>m'. memory_create h (map fst (memory_dump m)) (map snd (memory_dump m)) = Inr m'))"
proof -
  have s: "sorted_wrt (<) (map fst (memory_dump m))" by (rule memory_dump_ok)
  then have d: "distinct (map fst (memory_dump m))" by (simp add: strict_sorted_iff)
  have set: "(a, v) \<in> set (memory_dump m) \<longleftrightarrow> v = view m a \<and> v \<noteq> 0" for a v by (rule memory_dump_ok)
  have "upd_pairs (\<lambda>_. 0) (memory_dump m) a = view m a" for a
  proof (cases "map_of (memory_dump m) a")
    case None
    then have "view m a = 0" using set [of a "view m a"] by (force simp: map_of_eq_None_iff)
    then show ?thesis using None by (simp add: upd_pairs_lookup [OF d])
  next
    case (Some v)
    then show ?thesis using set [of a v] by (simp add: upd_pairs_lookup [OF d] map_of_SomeD)
  qed
  then have fold: "upd_pairs (view new_memory) (memory_dump m) = view m" by (simp add: fun_eq_iff)
  obtain ok m1 where w: "writeAll h (memory_dump m) new_memory = (ok, m1)" by fastforce
  have "ok \<Longrightarrow> paged_inv m1 \<and> view m1 = view m" "(\<forall>i. h i) \<Longrightarrow> ok"
    using writeAll_ok [OF paged_inv_new w] fold by (auto simp: wrote_def)
  then have "(\<forall>m'. memory_create h (map fst (memory_dump m)) (map snd (memory_dump m)) = Inr m' \<longrightarrow> paged_inv m' \<and> read_byte m' = read_byte m) \<and>
      ((\<forall>i. h i) \<longrightarrow> (\<exists>m'. memory_create h (map fst (memory_dump m)) (map snd (memory_dump m)) = Inr m'))"
    using w by (auto simp: memory_create_def zip_map_fst_snd read_byte_fun split: bool.splits)
  then show ?thesis using s set memory_size_dump [of m] by (auto simp: read_byte_fun)
qed

theorem memory_dump_complete_witness:
  "\<exists>m m'. store granted 5 [8, 0, 9] new_memory = (True, m) \<and> (7, 9) \<in> set (memory_dump m) \<and>
     memory_create granted (map fst (memory_dump m)) (map snd (memory_dump m)) = Inr m' \<and> read_byte m' 5 = 8"
proof -
  obtain m where m: "store granted 5 [8, 0, 9] new_memory = (True, m)" "stored 5 [8, 0, 9] new_memory m"
    using store_from_new by blast
  then have r: "read_byte m 5 = 8" "read_byte m 7 = 9" using m(2) by (simp_all add: stored_def read_byte_fun)
  then show ?thesis using memory_dump_complete [of m granted] m(1) by fastforce
qed

text \<open>
  A clone has the bytes of the memory that it was made from, and it shares nothing with it: writing to
  the memory afterwards leaves the clone as it was. Cloning succeeds when the host has memory.
\<close>

lemma memory_clone_same:
  "(\<forall>m'. memory_clone h m = Some m' \<longrightarrow> paged_inv m' \<and> read_byte m' = read_byte m) \<and>
   ((\<forall>i. h i) \<longrightarrow> memory_clone h m \<noteq> None)"
proof -
  obtain ok m1 where c: "copyFrom h m new_memory = (ok, m1)" by fastforce
  show ?thesis
    using c copyFrom_new [of h m m1] copyFrom_ok [OF paged_inv_new c]
    by (auto simp: memory_clone_def read_byte_fun split: bool.splits)
qed

text \<open>
  C7. Zeroing a range zeroes the bytes of the range and no other, both bounds included, needs no memory of
  the host, ends, makes and removes no page, and during a step notes a write for every byte that it
  changed, if the journal doesn't overflow.
\<close>

theorem memory_zero_range:
  assumes "paged_inv m"
  shows "\<exists>m'. memory_zero h first last' m = Some m' \<and> paged_inv m' \<and>
    (\<forall>a. read_byte m' a = (if first \<le> a \<and> a \<le> last' then 0 else read_byte m a)) \<and>
    (\<forall>a. find_page m' a = find_page m a) \<and>
    (\<forall>J J' a. journal m = Some J \<and> journal m' = Some J' \<and> read_byte m' a \<noteq> read_byte m a \<longrightarrow> a \<in> J')"
proof -
  obtain m' where m': "zeroRange h first last' m = Some m'" "zeroed {first..last'} m m'"
    using zeroRange_ok [OF assms] by blast
  then obtain A where A: "A \<subseteq> {first..last'}" "\<forall>x \<in> {first..last'} - A. view m x = 0" "noted A m m'"
    by (auto simp: zeroed_def)
  have v: "view m' x = (if x \<in> {first..last'} then 0 else view m x)" for x using m'(2) by (simp add: zeroed_def)
  have "a \<in> J'" if "journal m = Some J" "journal m' = Some J'" "view m' a \<noteq> view m a" for J J' a
  proof -
    have "J' = J \<union> A" using A(3) that(1,2) by (auto simp: noted_def journal_def split: if_splits)
    moreover have "a \<in> A" using that(3) v [of a] A(2) by (auto split: if_splits)
    ultimately show ?thesis by simp
  qed
  then show ?thesis using m' v by (auto simp: memory_zero_def zeroed_def read_byte_fun)
qed

theorem memory_zero_range_witness:
  "\<exists>m m'. store granted 5 [8, 9] new_memory = (True, m) \<and> memory_zero granted 6 (- 1) m = Some m' \<and> read_byte m' 5 = 8 \<and> read_byte m' 6 = 0"
proof -
  obtain m where m: "store granted 5 [8, 9] new_memory = (True, m)" "stored 5 [8, 9] new_memory m"
    using store_from_new by blast
  then have inv: "paged_inv m" and r: "read_byte m 5 = 8" by (simp_all add: stored_def read_byte_fun)
  show ?thesis using memory_zero_range [OF inv, of granted 6 "- 1"] m(1) r by fastforce
qed

text \<open>
  Trimming a range changes nothing that can be read, whether or not the host's pages are of the size of
  the guest's, and keeps the pages, the invariant and the journal.
\<close>

lemma memory_trim_same:
  "memory_trim samePages first last' m = m"
  by (simp add: memory_trim_def trim_same)



section \<open>The table of pages\<close>

text \<open>
  The walk over the pages of a memory gives every page of it exactly once, in the order of their
  addresses.
\<close>

lemma forEachPage_complete:
  "sorted_wrt (<) (map fst (forEachPage m)) \<and>
   set (forEachPage m) = {(a, p). pageOffset a = 0 \<and> find_page m a = Some p}"
  using forEachPage_sorted [of m] forEachPage_mem [of _ _ m] by auto

text \<open>
  C9. Asking for the page of an address gives a page that is found from then on, zero if there was none,
  keeps every other page where it was and the byte at every address, and never gives the page of another
  address: addresses of two pages never share one.
\<close>

theorem ensure_gives_page:
  assumes "paged_inv m" "ensure h a m = (Some p, m')"
  shows "paged_inv m' \<and> find_page m' a = Some p \<and> read_byte m' = read_byte m \<and>
    (\<forall>b q. find_page m b = Some q \<longrightarrow> find_page m' b = Some q) \<and>
    (\<forall>b. find_page m' b = Some p \<longrightarrow> unat b div pageSize = unat a div pageSize)"
proof -
  have e: "ensured a m (Some p) m'" using ensure_ok [OF assms] by simp
  then have inv: "paged_inv m'" and f: "find_page m' a = Some p" by (simp_all add: ensured_def)
  obtain path where "nodes_ok path m'" "pages_ok m'" using inv by (auto simp: paged_inv_def)
  then have same: "unat b div pageSize = unat a div pageSize" if "find_page m' b = Some p" for b
    using find_page_inj [of path m' b p a] that f by (simp add: pageNumber_def)
  have kept: "find_page m' b = Some q" if "find_page m b = Some q" for b q
    using e that grows_find [of m m' b q] by (simp add: ensured_def)
  have "read_byte m' = read_byte m" using ensured_view [OF assms(1) e] by (simp only: read_byte_fun)
  with inv f kept same show ?thesis by metis
qed

theorem ensure_gives_page_witness:
  "\<exists>p m'. ensure granted 4100 new_memory = (Some p, m') \<and> find_page m' 4100 = Some p \<and> read_byte m' 4100 = 0"
proof -
  obtain r m' where run: "ensure granted 4100 new_memory = (r, m')" by fastforce
  then obtain p where "r = Some p" using ensure_ok [OF paged_inv_new run] by auto
  with run have run: "ensure granted 4100 new_memory = (Some p, m')" by simp
  show ?thesis using ensure_gives_page [OF paged_inv_new run] run by (auto simp: read_byte_fun)
qed

text \<open>
  C10. Destroying a memory frees every node that the root reaches exactly once, never the root, which is
  no allocation of its own, and every chunk of pages once.
\<close>

theorem destroy_frees_once:
  assumes "paged_inv m"
  shows "distinct (fst (destroy m)) \<and> set (fst (destroy m)) = {c. (child m)\<^sup>+\<^sup>+ 0 c} \<and> 0 \<notin> set (fst (destroy m)) \<and>
    snd (destroy m) = [0..<chunks m]"
proof -
  obtain path where ok: "nodes_ok path m" using assms by (auto simp: paged_inv_def)
  then have root: "path 0 = []" by (simp add: nodes_ok_def)
  have "0 \<notin> set (clear_from m 3 0)" using clear_from_path [OF ok, of 0 3 0] root by auto
  then show ?thesis using clear_from_distinct [OF ok] clear_from_mem [OF ok, of 0 3] root by (auto simp: destroy_def)
qed

theorem destroy_frees_once_witness:
  "\<exists>m. store granted 5 [8] new_memory = (True, m) \<and> distinct (fst (destroy m)) \<and> 0 \<notin> set (fst (destroy m))"
  using store_from_new [of 5 "[8]"] destroy_frees_once by (auto simp: stored_def)

section \<open>Threads\<close>

text \<open>
  C3. Stores and loads within words by any number of threads, interleaved in any way, with allocations
  that race for the same node or page and exchanges that fail, are linearizable: there is an order of the
  accesses that finished, in which each has its effect in one step between its start and its end, that
  makes the memory what it is, and in which each load gives the bytes that the stores before it left. The
  table stays well-formed, so that no thread loses the page of another.
\<close>

theorem threads_linearizable:
  assumes "paged_inv m" "list_all access_ok accs" "conc_run h \<lparr>mem = m, threads = map start accs\<rparr> evs s"
  shows "paged_inv (mem s) \<and> read_byte (mem s) = replay (read_byte m) evs \<and> legal (read_byte m) evs \<and>
    mset evs = finished s"
  using linearize [OF assms(3) conc_inv_start [OF assms(1,2)]] by (simp add: conc_inv_def read_byte_fun)


theorem threads_linearizable_witness:
  "\<exists>s. conc_run granted \<lparr>mem = new_memory, threads = map start [Load 5, Store 5 [0]]\<rparr>
      [Loaded 5 (replicate 8 0), Stored 5 [0]] s \<and> legal (read_byte new_memory) [Loaded 5 (replicate 8 0), Stored 5 [0]]"
proof -
  let ?s0 = "\<lparr>mem = new_memory, threads = map start [Load 5, Store 5 [0]]\<rparr>"
  let ?s1 = "\<lparr>mem = new_memory, threads = (threads ?s0)[0 := Done (Loaded 5 (replicate 8 0))]\<rparr>"
  let ?s2 = "\<lparr>mem = new_memory, threads = (threads ?s1)[1 := Done (Stored 5 [0])]\<rparr>"
  have "conc_step granted ?s0 (Some (Loaded 5 (replicate 8 0))) ?s1"
    by (rule conc_step.advance) (simp_all add: start_def new_memory_def numeral_3_eq_3)
  moreover have "conc_step granted ?s1 (Some (Stored 5 [0])) ?s2"
    by (rule conc_step.advance) (simp_all add: start_def new_memory_def numeral_3_eq_3)
  ultimately have run: "conc_run granted ?s0 [Loaded 5 (replicate 8 0), Stored 5 [0]] ?s2"
    using conc_run.run_step [OF conc_run.run_step [OF conc_run.run_nil]] by fastforce
  have "list_all access_ok [Load 5, Store 5 [0]]" by (simp add: word_offset_def)
  then show ?thesis using run threads_linearizable [OF paged_inv_new _ run] by blast
qed

end
