(* ===== verification/StoreLog.thy ===== *)
theory StoreLog
  imports Interfaces "HOL-Library.AList" "HOL-Library.FuncSet"
begin

unbundle bit_operations_syntax

text \<open>
  The class \<open>StoreLog\<close> of \<open>native/bap_jit.cpp\<close>: the bytes that the stores of a run wrote, by the page,
  with a bitmap of those written and a counter. It is a finite map from addresses to the last byte
  written, of the size that the counter says, whichever way \<open>note\<close> goes, and \<open>forEach\<close> gives each
  byte once. The pages are in the order they were made; the order of the hash map is unspecified, and
  nothing below depends on it.
\<close>

section \<open>The code\<close>

record log_page =
  written :: "nat \<Rightarrow> u64"
  page_values :: "nat \<Rightarrow> u8"

text \<open>\<open>last\<close> points into the map, here by the number of the page; None is the null pointer.\<close>

record store_log =
  log_pages :: "(u64 \<times> log_page) list"
  lastNumber :: u64
  last_page :: "u64 option"
  log_count :: nat

definition new_page :: log_page where
  "new_page = \<lparr>written = (\<lambda>_. 0), page_values = (\<lambda>_. 0)\<rparr>"

definition new_log :: store_log where
  "new_log = \<lparr>log_pages = [], lastNumber = - 1, last_page = None, log_count = 0\<rparr>"

definition pageOf :: "u64 \<Rightarrow> store_log \<Rightarrow> u64 option \<times> store_log" where
  "pageOf number l =
     (if number = lastNumber l then (last_page l, l)
      else (Some number,
            l\<lparr>log_pages := (case map_of (log_pages l) number of
                               None \<Rightarrow> log_pages l @ [(number, new_page)]
                             | Some _ \<Rightarrow> log_pages l),
              lastNumber := number, last_page := Some number\<rparr>))"

text \<open>A change of the page that a pointer is to.\<close>

definition on_page :: "u64 \<Rightarrow> (log_page \<Rightarrow> log_page) \<Rightarrow> store_log \<Rightarrow> store_log" where
  "on_page k f l = l\<lparr>log_pages := AList.map_entry k f (log_pages l)\<rparr>"

definition log_offset :: "u64 \<Rightarrow> nat" where
  "log_offset address = unat (address AND 4095)"

definition popcount :: "u64 \<Rightarrow> nat" where
  "popcount w = length (filter (bit w) [0..<64])"

text \<open>What is written of a null page is undefined in the code, and here nothing.\<close>

definition note_byte :: "u64 \<Rightarrow> u8 \<Rightarrow> store_log \<Rightarrow> store_log" where
  "note_byte at v l =
     (case pageOf (drop_bit 12 at) l of
        (None, l1) \<Rightarrow> l1
      | (Some k, l1) \<Rightarrow>
          (case map_of (log_pages l1) k of
             None \<Rightarrow> l1
           | Some page \<Rightarrow>
               let offset = log_offset at;
                   bit' = push_bit (offset mod 64) 1;
                   l2 = (if written page (offset div 64) AND bit' = 0
                         then (on_page k (\<lambda>p. p\<lparr>written := (written p)(offset div 64 := written p (offset div 64) OR bit')\<rparr>) l1)
                                \<lparr>log_count := Suc (log_count l1)\<rparr>
                         else l1)
               in on_page k (\<lambda>p. p\<lparr>page_values := (page_values p)(offset := v)\<rparr>) l2))"

definition note_aligned :: "u64 \<Rightarrow> nat \<Rightarrow> bool \<Rightarrow> u64 \<Rightarrow> store_log \<Rightarrow> store_log" where
  "note_aligned address sz bigEndian v l =
     (case pageOf (drop_bit 12 address) l of
        (None, l1) \<Rightarrow> l1
      | (Some k, l1) \<Rightarrow>
          (case map_of (log_pages l1) k of
             None \<Rightarrow> l1
           | Some page \<Rightarrow>
               let offset = log_offset address;
                   mask' = push_bit (offset mod 64) (push_bit sz 1 - 1);
                   word = written page (offset div 64);
                   bytes = value_bytes bigEndian sz v
               in (on_page k (\<lambda>p. p\<lparr>written := (written p)(offset div 64 := word OR mask'),
                        page_values := (\<lambda>i. if offset \<le> i \<and> i < offset + sz then bytes ! (i - offset) else page_values p i)\<rparr>) l1)
                   \<lparr>log_count := log_count l1 + popcount (mask' AND NOT word)\<rparr>))"

definition log_note :: "u64 \<Rightarrow> nat \<Rightarrow> bool \<Rightarrow> u64 \<Rightarrow> store_log \<Rightarrow> store_log" where
  "log_note address sz bigEndian v l =
     (if (sz = 1 \<or> sz = 2 \<or> sz = 4 \<or> sz = 8) \<and> address AND of_nat (sz - 1) = 0
      then note_aligned address sz bigEndian v l
      else foldl (\<lambda>l i. note_byte (address + of_nat i) (value_bytes bigEndian sz v ! i) l) l [0..<sz])"

text \<open>\<open>forEach\<close> as the calls of its action: the bits of each word from the least on.\<close>

definition log_cells :: "store_log \<Rightarrow> (u64 \<times> u8) list" where
  "log_cells l =
     concat (map (\<lambda>(k, page). concat (map (\<lambda>word.
         map (\<lambda>b. (push_bit 12 k + of_nat (word * 64 + b), page_values page (word * 64 + b)))
             (filter (bit (written page word)) [0..<64])) [0..<64])) (log_pages l))"

section \<open>The map that a log is\<close>

definition page_map :: "log_page \<Rightarrow> nat \<Rightarrow> u8 option" where
  "page_map page o' = (if bit (written page (o' div 64)) (o' mod 64) then Some (page_values page o') else None)"

definition log_map :: "store_log \<Rightarrow> u64 \<Rightarrow> u8 option" where
  "log_map l a = (case map_of (log_pages l) (drop_bit 12 a) of
      None \<Rightarrow> None | Some page \<Rightarrow> page_map page (log_offset a))"

definition log_ok :: "store_log \<Rightarrow> bool" where
  "log_ok l \<longleftrightarrow> distinct (map fst (log_pages l)) \<and>
     (\<forall>k \<in> set (map fst (log_pages l)). k < 2 ^ 52) \<and>
     (case last_page l of None \<Rightarrow> lastNumber l = - 1 | Some k \<Rightarrow> lastNumber l = k \<and> k \<in> fst ` set (log_pages l)) \<and>
     finite (dom (log_map l)) \<and> log_count l = card (dom (log_map l))"

lemma log_offset_alt: "log_offset a = unat a mod 4096"
  using unat_and_mask64 [of a 12] by (simp add: log_offset_def mask_eq_exp_minus_1)

lemma log_offset_less [simp]: "log_offset a < 4096"
  by (simp add: log_offset_alt)

lemma log_number: "unat (drop_bit 12 (a::u64)) = unat a div 4096"
  by (simp only: unat_drop_bit_eq) (simp add: drop_bit_eq_div)

lemma log_address_inj: "drop_bit 12 (a::u64) = drop_bit 12 b \<Longrightarrow> log_offset a = log_offset b \<Longrightarrow> a = b"
proof -
  assume "drop_bit 12 a = drop_bit 12 b" "log_offset a = log_offset b"
  then have "unat a div 4096 = unat b div 4096" "unat a mod 4096 = unat b mod 4096"
    using log_number [of a] log_number [of b] by (simp_all add: log_offset_alt)
  then have "unat a = unat b" by (metis div_mult_mod_eq)
  then show "a = b" by (simp only: word_unat_eq_iff)
qed

lemma log_number_bound: "drop_bit 12 (a::u64) < 2 ^ 52" "drop_bit 12 a \<noteq> - 1"
proof -
  have "unat a < 4096 * 2 ^ 52" using unat64_less [of a] by simp
  then have "unat a div 4096 < 2 ^ 52" by (simp add: less_mult_imp_div_less mult.commute)
  then show lt: "drop_bit 12 a < 2 ^ 52" by (simp only: word_less_nat_alt log_number) simp
  show "drop_bit 12 a \<noteq> - 1"
  proof
    assume "drop_bit 12 a = - 1"
    with lt show False by simp
  qed
qed

lemma log_map_new: "log_map new_log = Map.empty"
  by (simp add: log_map_def new_log_def fun_eq_iff)

lemma log_ok_new: "log_ok new_log"
  by (simp add: log_ok_def log_map_new) (simp add: new_log_def)

section \<open>What the operations do to it\<close>

lemma map_entry_keys: "map fst (AList.map_entry k f xs) = map fst xs"
  by (induction xs) auto

lemma on_page_simps [simp]:
  "map_of (log_pages (on_page k f l)) = (map_of (log_pages l))(k := map_option f (map_of (log_pages l) k))"
  "map fst (log_pages (on_page k f l)) = map fst (log_pages l)"
  "lastNumber (on_page k f l) = lastNumber l" "last_page (on_page k f l) = last_page l"
  "log_count (on_page k f l) = log_count l"
proof -
  show "map_of (log_pages (on_page k f l)) = (map_of (log_pages l))(k := map_option f (map_of (log_pages l) k))"
    by (simp add: on_page_def AList.map_of_map_entry fun_eq_iff split: option.split)
  show "map fst (log_pages (on_page k f l)) = map fst (log_pages l)"
    by (simp add: on_page_def map_entry_keys)
qed (simp_all add: on_page_def)

lemma pageOf_ok:
  assumes "log_ok l" "pageOf (drop_bit 12 a) l = (r, l')"
  shows "log_ok l'" "log_map l' = log_map l" "log_count l' = log_count l" "r = Some (drop_bit 12 a)"
    "\<exists>page. map_of (log_pages l') (drop_bit 12 a) = Some page"
proof -
  let ?k = "drop_bit 12 a :: u64"
  have "log_ok l' \<and> log_map l' = log_map l \<and> log_count l' = log_count l \<and> r = Some ?k \<and>
      (\<exists>page. map_of (log_pages l') ?k = Some page)"
  proof (cases "?k = lastNumber l")
    case True
    then have "l' = l" "r = last_page l" using assms(2) by (auto simp: pageOf_def)
    moreover have "last_page l = Some ?k \<and> ?k \<in> fst ` set (log_pages l)"
      using assms(1) True log_number_bound(2) [of a] by (auto simp: log_ok_def split: option.splits)
    then have "last_page l = Some ?k" "\<exists>page. map_of (log_pages l) ?k = Some page"
      by (auto simp: map_of_eq_None_iff dest: sym intro: weak_map_of_SomeI)
    ultimately show ?thesis using assms(1) by simp
  next
    case False
    then have l': "r = Some ?k" "l' = l\<lparr>log_pages := (case map_of (log_pages l) ?k of
                               None \<Rightarrow> log_pages l @ [(?k, new_page)]
                             | Some _ \<Rightarrow> log_pages l), lastNumber := ?k, last_page := Some ?k\<rparr>"
      using assms(2) by (auto simp: pageOf_def)
    show ?thesis
    proof (cases "map_of (log_pages l) ?k")
      case None
      then have pages: "log_pages l' = log_pages l @ [(?k, new_page)]" and notin: "?k \<notin> fst ` set (log_pages l)"
        using l' None by (simp, simp add: map_of_eq_None_iff)
      have m: "map_of (log_pages l') = (map_of (log_pages l))(?k \<mapsto> new_page)"
        unfolding pages using None by (auto simp: map_add_def fun_eq_iff split: option.splits)
      have lm: "log_map l' = log_map l"
        using None by (auto simp: log_map_def m fun_eq_iff page_map_def new_page_def)
      moreover have "log_ok l'"
        using assms(1) notin log_number_bound(1) [of a] l'(2) pages lm by (auto simp: log_ok_def)
      ultimately show ?thesis using l' m by simp
    next
      case (Some page)
      then have pages: "log_pages l' = log_pages l" using l' by simp
      then have lm: "log_map l' = log_map l" by (simp add: log_map_def fun_eq_iff)
      moreover have "log_ok l'"
        using assms(1) l'(2) pages lm map_of_SomeD [OF Some] by (force simp: log_ok_def)
      ultimately show ?thesis using l' Some pages by simp
    qed
  qed
  then show "log_ok l'" "log_map l' = log_map l" "log_count l' = log_count l" "r = Some ?k"
    "\<exists>page. map_of (log_pages l') ?k = Some page" by simp_all
qed

lemma log_map_page:
  assumes "map_of (log_pages l) k = Some page" "map_of (log_pages l') = (map_of (log_pages l))(k \<mapsto> page')"
  shows "log_map l' a = (if drop_bit 12 a = k then page_map page' (log_offset a) else log_map l a)"
  using assms by (simp add: log_map_def)

text \<open>
  A page with some of its bytes set, and as many more counted as weren't written before: the map
  with those bytes.
\<close>

lemma log_ok_set:
  assumes ok: "log_ok l" and page: "map_of (log_pages l) k = Some page"
    and l': "map_of (log_pages l') = (map_of (log_pages l))(k \<mapsto> page')" "map fst (log_pages l') = map fst (log_pages l)"
      "lastNumber l' = lastNumber l" "last_page l' = last_page l" "log_count l' = log_count l + card (A - dom (log_map l))"
    and pm: "\<And>a. drop_bit 12 a = k \<Longrightarrow> page_map page' (log_offset a) = (if a \<in> A then Some (f a) else page_map page (log_offset a))"
    and A: "finite A" "\<And>a. a \<in> A \<Longrightarrow> drop_bit 12 a = k"
  shows "log_ok l' \<and> log_map l' = (\<lambda>a. if a \<in> A then Some (f a) else log_map l a)"
proof -
  have lm: "log_map l' = (\<lambda>a. if a \<in> A then Some (f a) else log_map l a)"
  proof
    fix a
    show "log_map l' a = (if a \<in> A then Some (f a) else log_map l a)"
      using pm [of a] A(2) [of a] page log_map_page [OF page l'(1), of a]
      by (auto simp: log_map_def [of l] simp del: fun_upd_apply)
  qed
  have d: "dom (log_map l') = dom (log_map l) \<union> (A - dom (log_map l))" unfolding lm by auto
  have "card (dom (log_map l')) = card (dom (log_map l)) + card (A - dom (log_map l))"
    unfolding d using ok A(1) by (intro card_Un_disjoint) (auto simp: log_ok_def)
  moreover have "finite (dom (log_map l'))" unfolding d using ok A(1) by (simp add: log_ok_def)
  moreover have "fst ` set (log_pages l') = fst ` set (log_pages l)" using l'(2) by (metis list.set_map)
  ultimately show ?thesis using ok l' lm by (cases "last_page l") (simp_all add: log_ok_def)
qed

lemma note_byte_ok:
  assumes "log_ok l"
  shows "log_ok (note_byte a v l) \<and> log_map (note_byte a v l) = (log_map l)(a \<mapsto> v)"
proof -
  let ?k = "drop_bit 12 a :: u64"
  let ?o = "log_offset a"
  obtain r l1 where p: "pageOf ?k l = (r, l1)" by fastforce
  note ok = pageOf_ok [OF assms p]
  then obtain page where page: "map_of (log_pages l1) ?k = Some page" by blast
  define new where "new = (written page (?o div 64) AND push_bit (?o mod 64) 1 = 0)"
  have new: "new \<longleftrightarrow> \<not> bit (written page (?o div 64)) (?o mod 64)"
    by (simp add: new_def bit_iff_and_push_bit_not_eq_0)
  define page' where "page' = page\<lparr>written := (written page)(?o div 64 := written page (?o div 64) OR push_bit (?o mod 64) 1),
      page_values := (page_values page)(?o := v)\<rparr>"
  have same: "written page (?o div 64) OR push_bit (?o mod 64) 1 = written page (?o div 64)" if "\<not> new"
    using that new by (intro bit_word_eqI) (auto simp: bit_or_iff bit_push_bit_iff bit_1_iff bit_exp_iff)
  let ?l = "note_byte a v l"
  have l': "map_of (log_pages ?l) = (map_of (log_pages l1))(?k \<mapsto> page')"
    "map fst (log_pages ?l) = map fst (log_pages l1)" "lastNumber ?l = lastNumber l1"
    "last_page ?l = last_page l1" "log_count ?l = log_count l1 + (if new then 1 else 0)"
    using same by (auto simp: note_byte_def p ok(4) page Let_def page'_def new_def)
  have d: "a \<in> dom (log_map l1) \<longleftrightarrow> \<not> new"
    using page new by (auto simp: log_map_def page_map_def)
  have "log_ok ?l \<and> log_map ?l = (\<lambda>b. if b \<in> {a} then Some v else log_map l1 b)"
  proof (rule log_ok_set [OF ok(1) page l'(1-4)])
    show "log_count ?l = log_count l1 + card ({a} - dom (log_map l1))" using l'(5) d by (cases new) (simp_all add: insert_Diff_if)
    fix b :: u64
    assume b: "drop_bit 12 b = ?k"
    show "page_map page' (log_offset b) = (if b \<in> {a} then Some v else page_map page (log_offset b))"
    proof (cases "log_offset b = ?o")
      case True
      then have "b = a" using b log_address_inj by blast
      then show ?thesis by (simp add: page_map_def page'_def bit_or_iff bit_push_bit_iff bit_exp_iff)
    next
      case False
      then have "log_offset b div 64 \<noteq> ?o div 64 \<or> log_offset b mod 64 \<noteq> ?o mod 64"
        by (metis div_mult_mod_eq)
      then show ?thesis using False
        by (auto simp: page_map_def page'_def bit_or_iff bit_push_bit_iff bit_1_iff bit_exp_iff)
    qed
  qed simp_all
  then show ?thesis using ok(2) by (auto simp: fun_eq_iff)
qed

section \<open>The way of an aligned access\<close>

text \<open>An access aligned to its size is within one word of the bitmap.\<close>

lemma aligned_mod:
  assumes "sz = 1 \<or> sz = 2 \<or> sz = 4 \<or> sz = 8" "a AND of_nat (sz - 1) = (0::u64)"
  shows "sz dvd unat a"
proof -
  have "unat (a AND mask n) = 0" if "sz = 2 ^ n" for n
    using assms(2) that by (simp add: mask_eq_exp_minus_1 of_nat_diff)
  then have "2 ^ n dvd unat a" if "sz = 2 ^ n" for n
    using that unat_and_mask64 [of a n] by (simp add: dvd_eq_mod_eq_0)
  then show ?thesis using assms(1) by (auto dest: meta_spec [of _ 0] meta_spec [of _ 1] meta_spec [of _ 2] meta_spec [of _ 3])
qed

lemma aligned_bytes:
  assumes "sz = 1 \<or> sz = 2 \<or> sz = 4 \<or> sz = 8" "sz dvd unat (a::u64)" "i < sz"
  shows "log_offset a mod 64 + sz \<le> 64" "drop_bit 12 (a + of_nat i) = drop_bit 12 a"
    "log_offset (a + of_nat i) = log_offset a + i"
    "(log_offset a + i) div 64 = log_offset a div 64" "(log_offset a + i) mod 64 = log_offset a mod 64 + i"
    "unat (of_nat i :: u64) = i"
proof -
  have d64: "sz dvd 64" using assms(1) by auto
  have m: "log_offset a mod 64 = unat a mod 64" unfolding log_offset_alt by (rule mod_mod_cancel) simp
  have "sz dvd log_offset a mod 64" using assms(2) d64 by (simp add: m dvd_mod)
  then obtain q where q: "log_offset a mod 64 = sz * q" by (elim dvdE)
  obtain r where r: "64 = sz * r" using d64 by (elim dvdE)
  have "sz * q < sz * r" using q r by (metis mod_less_divisor zero_less_numeral)
  then have "sz * (q + 1) \<le> sz * r" by (intro mult_le_mono2) simp
  then show le: "log_offset a mod 64 + sz \<le> 64" using q r by simp
  then have lt: "log_offset a mod 64 + i < 64" using assms(3) by simp
  have e: "log_offset a + i = 64 * (log_offset a div 64) + (log_offset a mod 64 + i)" by simp
  show "(log_offset a + i) div 64 = log_offset a div 64" "(log_offset a + i) mod 64 = log_offset a mod 64 + i"
    unfolding e by (rule part_div [OF lt])+
  have off: "log_offset a + i < 4096"
  proof -
    have "log_offset a div 64 < 64" using log_offset_less [of a] by (intro less_mult_imp_div_less) simp
    then show ?thesis using lt e by linarith
  qed
  have ua: "unat a = 4096 * (unat a div 4096) + log_offset a" by (simp add: log_offset_alt)
  have "unat a div 4096 < 2 ^ 52" using unat64_less [of a] by (intro less_mult_imp_div_less) simp
  then have "unat a + i < 4096 * 2 ^ 52" using ua off by linarith
  then have u: "unat (a + of_nat i) = 4096 * (unat a div 4096) + (log_offset a + i)"
    using ua by (simp add: unat_word_ariths unat_of_nat take_bit_eq_mod)
  have "unat (drop_bit 12 (a + of_nat i)) = unat (drop_bit 12 a)"
    unfolding log_number u using off by simp
  then show "drop_bit 12 (a + of_nat i) = drop_bit 12 a" by (simp only: word_unat_eq_iff)
  show "log_offset (a + of_nat i) = log_offset a + i" unfolding log_offset_alt [of "a + _"] u using off by simp
  show "unat (of_nat i :: u64) = i" using assms(1,3) by (auto simp: unat_of_nat take_bit_eq_mod)
qed

lemma bit_mask_at: "s + sz \<le> 64 \<Longrightarrow> bit (push_bit s (push_bit sz 1 - 1 :: u64)) j \<longleftrightarrow> s \<le> j \<and> j < s + sz"
proof -
  assume "s + sz \<le> 64"
  have "push_bit sz 1 - 1 = (mask sz :: u64)" by (simp add: mask_eq_decr_exp)
  then show ?thesis using \<open>s + sz \<le> 64\<close> by (auto simp: bit_push_bit_iff bit_mask_iff)
qed

lemma popcount_card: "popcount w = card {j. j < 64 \<and> bit w j}"
proof -
  have "{j. j < 64 \<and> bit w j} = set (filter (bit w) [0..<64])" by auto
  then show ?thesis by (simp only: popcount_def distinct_card [OF distinct_filter [OF distinct_upt], symmetric])
qed

lemma note_aligned_ok:
  assumes "log_ok l" "sz = 1 \<or> sz = 2 \<or> sz = 4 \<or> sz = 8" "sz dvd unat a"
  shows "log_ok (note_aligned a sz big v l) \<and> log_map (note_aligned a sz big v l) =
    (\<lambda>x. if unat (x - a) < sz then Some (value_bytes big sz v ! unat (x - a)) else log_map l x)"
proof -
  let ?k = "drop_bit 12 a :: u64"
  let ?o = "log_offset a"
  let ?bs = "value_bytes big sz v"
  define mk where "mk = push_bit (?o mod 64) (push_bit sz 1 - 1 :: u64)"
  define A where "A = (\<lambda>i. a + of_nat i) ` {0..<sz}"
  obtain r l1 where p: "pageOf ?k l = (r, l1)" by fastforce
  note ok = pageOf_ok [OF assms(1) p]
  then obtain page where page: "map_of (log_pages l1) ?k = Some page" by blast
  define w where "w = written page (?o div 64)"
  define page' where "page' = page\<lparr>written := (written page)(?o div 64 := w OR mk),
      page_values := (\<lambda>i. if ?o \<le> i \<and> i < ?o + sz then ?bs ! (i - ?o) else page_values page i)\<rparr>"
  have pos: "0 < sz" using assms(2) by auto
  note at = aligned_bytes [OF assms(2,3)]
  have s: "?o mod 64 + sz \<le> 64" using at(1) [OF pos] .
  have bit_mk: "bit mk j \<longleftrightarrow> ?o mod 64 \<le> j \<and> j < ?o mod 64 + sz" for j unfolding mk_def by (rule bit_mask_at [OF s])
  have inA: "x \<in> A \<longleftrightarrow> unat (x - a) < sz" for x
  proof
    assume "unat (x - a) < sz"
    moreover have "x = a + of_nat (unat (x - a))" by simp
    ultimately show "x \<in> A" unfolding A_def by (metis atLeastLessThan_iff image_eqI le0)
  qed (auto simp: A_def at(6))
  have cnt: "popcount (mk AND NOT w) = card (A - dom (log_map l1))"
  proof -
    have "bij_betw (\<lambda>j. a + of_nat (j - ?o mod 64)) {j. j < 64 \<and> bit (mk AND NOT w) j} (A - dom (log_map l1))"
    proof (rule bij_betwI [where g = "\<lambda>x. ?o mod 64 + unat (x - a)"])
      have dom: "a + of_nat i \<in> dom (log_map l1) \<longleftrightarrow> bit w (?o mod 64 + i)" if "i < sz" for i
        using page at(2-5) [OF that] by (auto simp: log_map_def page_map_def w_def split: if_splits)
      show "(\<lambda>j. a + of_nat (j - ?o mod 64)) \<in> {j. j < 64 \<and> bit (mk AND NOT w) j} \<rightarrow> A - dom (log_map l1)"
      proof
        fix j
        assume "j \<in> {j. j < 64 \<and> bit (mk AND NOT w) j}"
        then have j: "?o mod 64 \<le> j" "j - ?o mod 64 < sz" "\<not> bit w j" by (auto simp: bit_and_iff bit_not_iff bit_mk)
        then show "a + of_nat (j - ?o mod 64) \<in> A - dom (log_map l1)"
          using dom [OF j(2)] at(6) [OF j(2)] by (simp add: inA)
      qed
      show "(\<lambda>x. ?o mod 64 + unat (x - a)) \<in> A - dom (log_map l1) \<rightarrow> {j. j < 64 \<and> bit (mk AND NOT w) j}"
      proof
        fix x
        assume x: "x \<in> A - dom (log_map l1)"
        then have i: "unat (x - a) < sz" by (simp add: inA)
        have "x = a + of_nat (unat (x - a))" by simp
        then have "\<not> bit w (?o mod 64 + unat (x - a))" using dom [OF i] x by auto
        then show "?o mod 64 + unat (x - a) \<in> {j. j < 64 \<and> bit (mk AND NOT w) j}"
          using i s by (simp add: bit_and_iff bit_not_iff bit_mk)
      qed
      fix j
      assume "j \<in> {j. j < 64 \<and> bit (mk AND NOT w) j}"
      then have "?o mod 64 \<le> j" "j - ?o mod 64 < sz" by (auto simp: bit_and_iff bit_mk)
      then show "?o mod 64 + unat (a + of_nat (j - ?o mod 64) - a) = j"
        using at(6) [of "j - ?o mod 64"] by (simp del: of_nat_diff)
    qed simp
    then show ?thesis unfolding popcount_card by (rule bij_betw_same_card)
  qed
  let ?l = "note_aligned a sz big v l"
  have l': "map_of (log_pages ?l) = (map_of (log_pages l1))(?k \<mapsto> page')"
    "map fst (log_pages ?l) = map fst (log_pages l1)" "lastNumber ?l = lastNumber l1"
    "last_page ?l = last_page l1" "log_count ?l = log_count l1 + card (A - dom (log_map l1))"
    using cnt by (simp_all add: note_aligned_def p ok(4) page Let_def page'_def mk_def w_def fun_eq_iff)
  have "log_ok ?l \<and> log_map ?l = (\<lambda>x. if x \<in> A then Some (?bs ! unat (x - a)) else log_map l1 x)"
  proof (rule log_ok_set [OF ok(1) page l'])
    fix x :: u64
    assume x: "drop_bit 12 x = ?k"
    show "page_map page' (log_offset x) = (if x \<in> A then Some (?bs ! unat (x - a)) else page_map page (log_offset x))"
    proof (cases "x \<in> A")
      case True
      then have i: "unat (x - a) < sz" by (simp add: inA)
      have "x = a + of_nat (unat (x - a))" by simp
      then have "log_offset x = ?o + unat (x - a)" using at(3) [OF i] by simp
      then show ?thesis using True at(4,5) [OF i] i s by (simp add: page_map_def page'_def bit_or_iff bit_mk)
    next
      case False
      have out: "\<not> (?o \<le> log_offset x \<and> log_offset x < ?o + sz)"
      proof
        assume o: "?o \<le> log_offset x \<and> log_offset x < ?o + sz"
        then have i: "log_offset x - ?o < sz" by linarith
        have "log_offset (a + of_nat (log_offset x - ?o)) = log_offset x" using at(3) [OF i] o by simp
        then have "x = a + of_nat (log_offset x - ?o)" using log_address_inj x at(2) [OF i] by metis
        then show False using False i by (auto simp: A_def)
      qed
      have "\<not> bit mk (log_offset x mod 64)" if "log_offset x div 64 = ?o div 64"
      proof
        assume "bit mk (log_offset x mod 64)"
        then have "?o mod 64 \<le> log_offset x mod 64" "log_offset x mod 64 < ?o mod 64 + sz" by (simp_all add: bit_mk)
        then show False using out that div_mult_mod_eq [of "log_offset x" 64] div_mult_mod_eq [of ?o 64] by linarith
      qed
      then show ?thesis using False out by (auto simp: page_map_def page'_def bit_or_iff w_def)
    qed
  qed (auto simp: A_def at(2))
  then show ?thesis unfolding ok(2) inA .
qed

section \<open>\<open>note\<close> and \<open>forEach\<close>\<close>

lemma note_bytes_ok:
  assumes "log_ok l" "n \<le> 8"
  shows "log_ok (foldl (\<lambda>l i. note_byte (a + of_nat i) (bs ! i) l) l [0..<n]) \<and>
    log_map (foldl (\<lambda>l i. note_byte (a + of_nat i) (bs ! i) l) l [0..<n]) =
    (\<lambda>x. if unat (x - a) < n then Some (bs ! unat (x - a)) else log_map l x)"
  using assms(2)
proof (induction n)
  case (Suc n)
  have "x = a + of_nat n \<longleftrightarrow> unat (x - a) = n" for x
  proof
    assume "unat (x - a) = n"
    moreover have "of_nat (unat (x - a)) = x - a" by simp
    ultimately have "of_nat n = x - a" by simp
    then show "x = a + of_nat n" by simp
  qed (use Suc.prems in \<open>simp add: unat_of_nat take_bit_eq_mod\<close>)
  then show ?case using Suc note_byte_ok by (auto simp: fun_eq_iff less_Suc_eq)
qed (simp add: assms(1))

lemma log_note_ok:
  assumes "log_ok l" "sz \<le> 8"
  shows "log_ok (log_note a sz big v l)"
    "log_map (log_note a sz big v l) =
     (\<lambda>x. if unat (x - a) < sz then Some (value_bytes big sz v ! unat (x - a)) else log_map l x)"
proof -
  have "log_ok (log_note a sz big v l) \<and> log_map (log_note a sz big v l) =
     (\<lambda>x. if unat (x - a) < sz then Some (value_bytes big sz v ! unat (x - a)) else log_map l x)"
    using note_bytes_ok [OF assms, of a "value_bytes big sz v"] note_aligned_ok [OF assms(1)] aligned_mod [of sz a]
    by (simp add: log_note_def)
  then show "log_ok (log_note a sz big v l)" "log_map (log_note a sz big v l) =
     (\<lambda>x. if unat (x - a) < sz then Some (value_bytes big sz v ! unat (x - a)) else log_map l x)" by simp_all
qed

text \<open>Each byte written comes once, with its value.\<close>

lemma page_address_log:
  assumes "k < 2 ^ 52" "o' < 4096"
  shows "drop_bit 12 (push_bit 12 k + of_nat o' :: u64) = k" "log_offset (push_bit 12 k + of_nat o') = o'"
proof -
  have k: "unat k < 2 ^ 52" using assms(1) by (simp add: word_less_nat_alt)
  have "unat (push_bit 12 k) = 4096 * unat k"
    using k by (simp add: push_bit_eq_mult unat_word_ariths)
  then have u: "unat (push_bit 12 k + of_nat o') = 4096 * unat k + o'"
    using k assms(2) by (simp add: unat_word_ariths unat_of_nat take_bit_eq_mod)
  have "unat (drop_bit 12 (push_bit 12 k + of_nat o' :: u64)) = unat k"
    unfolding log_number u using assms(2) by simp
  then show "drop_bit 12 (push_bit 12 k + of_nat o' :: u64) = k" by (simp only: word_unat_eq_iff)
  show "log_offset (push_bit 12 k + of_nat o') = o'" unfolding log_offset_alt u using assms(2) by simp
qed

definition page_cells :: "u64 \<Rightarrow> log_page \<Rightarrow> (u64 \<times> u8) list" where
  "page_cells k page = concat (map (\<lambda>word.
         map (\<lambda>b. (push_bit 12 k + of_nat (word * 64 + b), page_values page (word * 64 + b)))
             (filter (bit (written page word)) [0..<64])) [0..<64])"

lemma page_cells_alt:
  "page_cells k page = map (\<lambda>o'. (push_bit 12 k + of_nat o', page_values page o'))
     (concat (map (\<lambda>word. map (\<lambda>b. word * 64 + b) (filter (bit (written page word)) [0..<64])) [0..<64]))"
  by (simp add: page_cells_def map_concat comp_def)

lemma page_offsets:
  "set (concat (map (\<lambda>word. map (\<lambda>b. word * 64 + b) (filter (bit (written page word)) [0..<64])) [0..<64])) =
     {o'. o' < 4096 \<and> page_map page o' \<noteq> None}" (is "?A = ?B")
  "distinct (concat (map (\<lambda>word. map (\<lambda>b. word * 64 + b) (filter (bit (written page word)) [0..<64])) [0..<64]))"
proof -
  show "?A = ?B"
  proof (intro set_eqI iffI)
    fix o' assume "o' \<in> ?A"
    then show "o' \<in> ?B" by (auto simp: page_map_def)
  next
    fix o' assume o': "o' \<in> ?B"
    then have "o' div 64 < 64" "o' mod 64 < 64" "o' = o' div 64 * 64 + o' mod 64" "bit (written page (o' div 64)) (o' mod 64)"
      by (auto simp: page_map_def split: if_splits)
    then show "o' \<in> ?A" by (auto intro!: bexI [of _ "o' div 64"] image_eqI [of _ _ "o' mod 64"])
  qed
next
  show "distinct (concat (map (\<lambda>word. map (\<lambda>b. word * 64 + b) (filter (bit (written page word)) [0..<64])) [0..<64]))"
  proof (rule distinct_concat_disjoint)
    fix w assume "w < (64::nat)"
    show "distinct (map (\<lambda>b. w * 64 + b) (filter (bit (written page w)) [0..<64]))"
      by (auto simp: distinct_map inj_on_def)
  next
    fix w w' :: nat assume "w \<noteq> w'"
    moreover have "x div 64 = v" if "x \<in> set (map (\<lambda>b. v * 64 + b) (filter (bit (written page v)) [0..<64]))" for v x
      using that by auto
    ultimately show "set (map (\<lambda>b. w * 64 + b) (filter (bit (written page w)) [0..<64])) \<inter>
        set (map (\<lambda>b. w' * 64 + b) (filter (bit (written page w')) [0..<64])) = {}"
      by blast
  qed
qed

lemma page_cells_ok:
  assumes "k < 2 ^ 52"
  shows "(a, v) \<in> set (page_cells k page) \<longleftrightarrow> drop_bit 12 a = k \<and> page_map page (log_offset a) = Some v"
    "distinct (map fst (page_cells k page))"
proof -
  show "(a, v) \<in> set (page_cells k page) \<longleftrightarrow> drop_bit 12 a = k \<and> page_map page (log_offset a) = Some v"
  proof
    assume "(a, v) \<in> set (page_cells k page)"
    then obtain o' where o': "o' < 4096" "page_map page o' \<noteq> None" "a = push_bit 12 k + of_nat o'" "v = page_values page o'"
      unfolding page_cells_alt set_map page_offsets(1) by auto
    then show "drop_bit 12 a = k \<and> page_map page (log_offset a) = Some v"
      using page_address_log [OF assms o'(1)] by (auto simp: page_map_def split: if_splits)
  next
    assume a: "drop_bit 12 a = k \<and> page_map page (log_offset a) = Some v"
    have "a = push_bit 12 k + of_nat (log_offset a)"
      by (rule log_address_inj)
         (simp_all only: page_address_log [OF assms log_offset_less] conjunct1 [OF a])
    moreover have "page_values page (log_offset a) = v" using a by (simp add: page_map_def split: if_splits)
    ultimately show "(a, v) \<in> set (page_cells k page)"
      unfolding page_cells_alt set_map page_offsets(1) using a
      by (intro image_eqI [of _ _ "log_offset a"]) auto
  qed
  have "inj_on (\<lambda>o'. push_bit 12 k + of_nat o' :: u64) {o'. o' < 4096}"
    using page_address_log(2) [OF assms] by (intro inj_onI) (metis mem_Collect_eq)
  then show "distinct (map fst (page_cells k page))"
    unfolding page_cells_alt map_map comp_def fst_conv distinct_map using page_offsets
    by (auto intro: inj_on_subset)
qed

lemma log_cells_alt: "log_cells l = concat (map (\<lambda>(k, page). page_cells k page) (log_pages l))"
  by (simp add: log_cells_def page_cells_def [abs_def])

lemma distinct_concat_keys:
  assumes "distinct (map fst xs)" "\<And>x. x \<in> set xs \<Longrightarrow> distinct (f x)"
    "\<And>x y. x \<in> set xs \<Longrightarrow> y \<in> set (f x) \<Longrightarrow> key y = fst x"
  shows "distinct (concat (map f xs))"
  using assms
proof (induction xs)
  case (Cons x xs)
  have "set (f x) \<inter> (\<Union>z \<in> set xs. set (f z)) = {}"
  proof (rule ccontr)
    assume "set (f x) \<inter> (\<Union>z \<in> set xs. set (f z)) \<noteq> {}"
    then obtain y z where "y \<in> set (f x)" "z \<in> set xs" "y \<in> set (f z)" by blast
    then have "fst x = fst z" using Cons.prems(3) [of x y] Cons.prems(3) [of z y] by simp
    then show False using Cons.prems(1) \<open>z \<in> set xs\<close> by auto
  qed
  moreover have "distinct (concat (map f xs))" by (rule Cons.IH) (use Cons.prems in auto)
  ultimately show ?case using Cons.prems(2) [of x] by auto
qed simp

lemma log_cells_ok:
  assumes "log_ok l"
  shows "(a, v) \<in> set (log_cells l) \<longleftrightarrow> log_map l a = Some v" "distinct (map fst (log_cells l))"
    "length (log_cells l) = log_count l"
proof -
  have d: "distinct (map fst (log_pages l))" and b: "\<And>k page. (k, page) \<in> set (log_pages l) \<Longrightarrow> k < 2 ^ 52"
    using assms by (auto simp: log_ok_def)
  show mem: "(a, v) \<in> set (log_cells l) \<longleftrightarrow> log_map l a = Some v" for a v
  proof -
    have "(a, v) \<in> set (log_cells l) \<longleftrightarrow> (\<exists>page. (drop_bit 12 a, page) \<in> set (log_pages l) \<and> page_map page (log_offset a) = Some v)"
      using page_cells_ok(1) [OF b] by (fastforce simp: log_cells_alt)
    also have "\<dots> \<longleftrightarrow> log_map l a = Some v"
    proof
      assume "\<exists>page. (drop_bit 12 a, page) \<in> set (log_pages l) \<and> page_map page (log_offset a) = Some v"
      then show "log_map l a = Some v" using map_of_is_SomeI [OF d] by (auto simp: log_map_def)
    qed (auto simp: log_map_def dest: map_of_SomeD split: option.splits)
    finally show ?thesis .
  qed
  have "map fst (log_cells l) = concat (map (\<lambda>x. map fst (page_cells (fst x) (snd x))) (log_pages l))"
    by (simp add: log_cells_alt map_concat comp_def case_prod_unfold)
  moreover have "distinct (concat (map (\<lambda>x. map fst (page_cells (fst x) (snd x))) (log_pages l)))"
  proof (rule distinct_concat_keys [OF d, where key = "drop_bit 12"])
    fix x assume "x \<in> set (log_pages l)"
    then have k: "fst x < 2 ^ 52" using b [of "fst x" "snd x"] by simp
    then show "distinct (map fst (page_cells (fst x) (snd x)))" by (rule page_cells_ok(2))
    show "drop_bit 12 y = fst x" if "y \<in> set (map fst (page_cells (fst x) (snd x)))" for y
      using that page_cells_ok(1) [OF k] by fastforce
  qed
  ultimately show dist: "distinct (map fst (log_cells l))" by simp
  have "dom (log_map l) = fst ` set (log_cells l)" using mem by force
  then have "log_count l = card (set (map fst (log_cells l)))" using assms by (simp add: log_ok_def)
  then show "length (log_cells l) = log_count l" using distinct_card [OF dist] by simp
qed

section \<open>The interface\<close>

interpretation store_log: change_log log_ok log_map log_note log_cells new_log
  by unfold_locales (simp_all add: log_ok_new log_map_new log_note_ok log_cells_ok)

end
