(* ===== verification/MemoryFilter.thy ===== *)
theory MemoryFilter
  imports Prelude
begin

unbundle bit_operations_syntax

text \<open>
  The struct \<open>MemoryFilter\<close> of \<open>native/bap_jit.cpp\<close>: the ranges of addresses where the memory observer
  would do nothing. They stay apart, so that an access lies within at most one, which \<open>quietRange\<close>
  finds by its first address, and \<open>insert\<close> takes a range exactly if it is apart from those there.
  A \<open>std::map\<close> is its entries by ascending key.
\<close>

section \<open>The code\<close>

record quiet_range =
  rfirst :: u64
  rlast :: u64
  readQuiet :: bool
  writeQuiet :: bool

type_synonym memory_filter = "(u64 \<times> quiet_range) list"

text \<open>\<open>upper_bound\<close> splits the entries: those with keys up to one, and those after it.\<close>

definition before_bound :: "u64 \<Rightarrow> memory_filter \<Rightarrow> memory_filter" where
  "before_bound address rs = takeWhile (\<lambda>e. fst e \<le> address) rs"

definition after_bound :: "u64 \<Rightarrow> memory_filter \<Rightarrow> memory_filter" where
  "after_bound address rs = dropWhile (\<lambda>e. fst e \<le> address) rs"

definition quietRange :: "memory_filter \<Rightarrow> u64 \<Rightarrow> u64 \<Rightarrow> bool \<Rightarrow> quiet_range option" where
  "quietRange rs address sz write =
     (if sz = 0 then None
      else let last' = address + sz - 1
           in if last' < address then None
              else case before_bound address rs of
                     [] \<Rightarrow> None
                   | b # bs \<Rightarrow>
                       let range = snd (last (b # bs))
                       in if last' \<le> rlast range \<and> (if write then writeQuiet range else readQuiet range)
                          then Some range else None)"

definition filter_insert :: "quiet_range \<Rightarrow> memory_filter \<Rightarrow> bool \<times> memory_filter" where
  "filter_insert r rs =
     (if rlast r < rfirst r then (False, rs)
      else let before = before_bound (rfirst r) rs; after = after_bound (rfirst r) rs
           in if after \<noteq> [] \<and> rfirst (snd (hd after)) \<le> rlast r then (False, rs)
              else if before \<noteq> [] \<and> rfirst r \<le> rlast (snd (last before)) then (False, rs)
              else (True, before @ (rfirst r, r) # after))"

text \<open>The range that the arrays of \<open>bap_jit_memory_filter_create\<close> and its update give, with its bits.\<close>

definition range_of :: "u64 \<times> u64 \<times> u8 \<Rightarrow> quiet_range" where
  "range_of x = \<lparr>rfirst = fst x, rlast = fst (snd x), readQuiet = bit (snd (snd x)) 0,
     writeQuiet = bit (snd (snd x)) 1\<rparr>"

fun insert_ranges :: "(u64 \<times> u64 \<times> u8) list \<Rightarrow> memory_filter \<Rightarrow> bool \<times> memory_filter" where
  "insert_ranges [] rs = (True, rs)"
| "insert_ranges (x # xs) rs =
     (case filter_insert (range_of x) rs of
        (True, rs') \<Rightarrow> insert_ranges xs rs'
      | (False, rs') \<Rightarrow> (False, rs'))"

datatype filter_error = Different_lengths | Not_apart

definition filter_create :: "u64 list \<Rightarrow> u64 list \<Rightarrow> u8 list \<Rightarrow> filter_error + memory_filter" where
  "filter_create firsts lasts quiet =
     (if length lasts \<noteq> length firsts \<or> length quiet \<noteq> length firsts then Inl Different_lengths
      else case insert_ranges (zip firsts (zip lasts quiet)) [] of
             (True, rs) \<Rightarrow> Inr rs
           | (False, _) \<Rightarrow> Inl Not_apart)"

definition filter_update ::
  "u64 list \<Rightarrow> u64 list \<Rightarrow> u64 list \<Rightarrow> u8 list \<Rightarrow> memory_filter \<Rightarrow> bool \<times> memory_filter" where
  "filter_update removed firsts lasts quiet rs =
     (let rs' = foldl (\<lambda>rs k. filter (\<lambda>e. fst e \<noteq> k) rs) rs removed
      in if length lasts \<noteq> length firsts \<or> length quiet \<noteq> length firsts then (False, rs')
         else insert_ranges (zip firsts (zip lasts quiet)) rs')"

section \<open>Ranges that are apart\<close>

definition ranges_of :: "memory_filter \<Rightarrow> quiet_range set" where
  "ranges_of rs = snd ` set rs"

definition apart_ranges :: "quiet_range \<Rightarrow> quiet_range \<Rightarrow> bool" where
  "apart_ranges r s \<longleftrightarrow> rlast r < rfirst s \<or> rlast s < rfirst r"

definition filter_ok :: "memory_filter \<Rightarrow> bool" where
  "filter_ok rs \<longleftrightarrow> (\<forall>e \<in> set rs. fst e = rfirst (snd e) \<and> rfirst (snd e) \<le> rlast (snd e)) \<and>
     sorted_wrt (\<lambda>e f. rlast (snd e) < rfirst (snd f)) rs"

lemma filter_ok_entry: "filter_ok rs \<Longrightarrow> e \<in> set rs \<Longrightarrow> fst e = rfirst (snd e) \<and> fst e \<le> rlast (snd e)"
  by (auto simp: filter_ok_def)

lemma split_bound: "before_bound a rs @ after_bound a rs = rs"
  by (simp add: before_bound_def after_bound_def)

text \<open>The split is where the keys are: those after it are all above the address.\<close>

lemma sorted_bound:
  assumes "filter_ok rs"
  shows "sorted_wrt (\<lambda>e f. rlast (snd e) < rfirst (snd f)) (before_bound a rs)"
    "sorted_wrt (\<lambda>e f. rlast (snd e) < rfirst (snd f)) (after_bound a rs)"
    "set rs = set (before_bound a rs) \<union> set (after_bound a rs)"
proof -
  have "sorted_wrt (\<lambda>e f. rlast (snd e) < rfirst (snd f)) (before_bound a rs @ after_bound a rs)"
    using assms by (simp add: split_bound filter_ok_def)
  then show "sorted_wrt (\<lambda>e f. rlast (snd e) < rfirst (snd f)) (before_bound a rs)"
    "sorted_wrt (\<lambda>e f. rlast (snd e) < rfirst (snd f)) (after_bound a rs)"
    by (simp_all add: sorted_wrt_append)
  show "set rs = set (before_bound a rs) \<union> set (after_bound a rs)" by (simp flip: set_append add: split_bound)
qed

lemma after_bound_above:
  assumes "filter_ok rs" "e \<in> set (after_bound a rs)"
  shows "a < fst e"
proof (cases "after_bound a rs")
  case (Cons f fs)
  then have "\<not> fst f \<le> a" unfolding after_bound_def dropWhile_eq_Cons_conv by simp
  then have f: "a < fst f" by simp
  have s: "sorted_wrt (\<lambda>e f. rlast (snd e) < rfirst (snd f)) (f # fs)"
    using sorted_bound(2) [OF assms(1), of a] Cons by simp
  have mem: "x \<in> set rs" if "x \<in> set (f # fs)" for x
    using that sorted_bound(3) [OF assms(1), of a] Cons by auto
  show ?thesis
  proof (cases "e = f")
    case False
    then have "rlast (snd f) < rfirst (snd e)" using assms(2) s Cons by auto
    then show ?thesis using f filter_ok_entry [OF assms(1) mem, of f] filter_ok_entry [OF assms(1) mem, of e] assms(2) Cons
      by auto
  qed (simp add: f)
qed (use assms(2) in simp)

lemma before_bound_below: "e \<in> set (before_bound a rs) \<Longrightarrow> fst e \<le> a \<and> e \<in> set rs"
  unfolding before_bound_def by (auto dest: set_takeWhileD)

text \<open>The last of those before is the only one that can reach the address.\<close>

lemma before_bound_last:
  assumes "filter_ok rs" "e \<in> set (before_bound a rs)" "a \<le> rlast (snd e)"
  shows "before_bound a rs \<noteq> [] \<and> last (before_bound a rs) = e"
proof -
  let ?b = "before_bound a rs"
  have ne: "?b \<noteq> []" using assms(2) by auto
  note s = sorted_bound(1) [OF assms(1), of a]
  have "last ?b \<in> set ?b" using ne by simp
  then have "rfirst (snd (last ?b)) \<le> a"
    using before_bound_below [of "last ?b"] filter_ok_entry [OF assms(1), of "last ?b"] by auto
  then show ?thesis using sorted_wrt_last [OF s assms(2)] assms(3) ne by force
qed

lemma quietRange_iff:
  assumes "filter_ok rs"
  shows "quietRange rs a sz write = Some r \<longleftrightarrow>
    sz \<noteq> 0 \<and> a \<le> a + sz - 1 \<and> r \<in> ranges_of rs \<and> rfirst r \<le> a \<and> a + sz - 1 \<le> rlast r \<and>
    (if write then writeQuiet r else readQuiet r)"
proof (cases "sz = 0 \<or> a + sz - 1 < a")
  case True
  then show ?thesis by (auto simp: quietRange_def Let_def)
next
  case False
  then have le: "a \<le> a + sz - 1" by auto
  let ?b = "before_bound a rs"
  have q: "quietRange rs a sz write = Some r \<longleftrightarrow> ?b \<noteq> [] \<and> snd (last ?b) = r \<and> a + sz - 1 \<le> rlast r \<and>
      (if write then writeQuiet r else readQuiet r)"
    using False by (cases ?b) (auto simp: quietRange_def Let_def split: if_splits)
  have b: "?b \<noteq> [] \<and> snd (last ?b) = r \<longleftrightarrow> r \<in> ranges_of rs \<and> rfirst r \<le> a" if "a + sz - 1 \<le> rlast r"
  proof
    assume "?b \<noteq> [] \<and> snd (last ?b) = r"
    moreover from this have "last ?b \<in> set ?b" by simp
    ultimately show "r \<in> ranges_of rs \<and> rfirst r \<le> a"
      using before_bound_below [of "last ?b" a rs] filter_ok_entry [OF assms, of "last ?b"] by (auto simp: ranges_of_def)
  next
    assume r: "r \<in> ranges_of rs \<and> rfirst r \<le> a"
    then obtain e where e: "e \<in> set rs" "snd e = r" by (auto simp: ranges_of_def)
    then have fe: "fst e \<le> a" using filter_ok_entry [OF assms e(1)] r by simp
    then have "e \<in> set ?b"
      using e(1) sorted_bound(3) [OF assms, of a] after_bound_above [OF assms, of e a] by auto
    then show "?b \<noteq> [] \<and> snd (last ?b) = r"
      using before_bound_last [OF assms, of e a] e(2) that le by auto
  qed
  show ?thesis using q b False le by auto
qed

lemma quietRange_unique:
  assumes "filter_ok rs" "r \<in> ranges_of rs" "s \<in> ranges_of rs" "r \<noteq> s"
  shows "apart_ranges r s"
proof -
  obtain i j where i: "i < length rs" "snd (rs ! i) = r" and j: "j < length rs" "snd (rs ! j) = s"
    using assms(2,3) by (auto simp: ranges_of_def in_set_conv_nth)
  have "i \<noteq> j" using i j assms(4) by auto
  then show ?thesis
    using assms(1) i j unfolding filter_ok_def sorted_wrt_iff_nth_less apart_ranges_def
    by (metis linorder_neqE_nat)
qed

text \<open>A range goes in exactly if it is one and apart from those there, and they stay apart.\<close>

lemma filter_insert_ok:
  assumes "filter_ok rs" "filter_insert r rs = (ok, rs')"
  shows "ok \<longleftrightarrow> rfirst r \<le> rlast r \<and> (\<forall>s \<in> ranges_of rs. apart_ranges r s)"
    "filter_ok rs'" "ranges_of rs' = (if ok then insert r (ranges_of rs) else ranges_of rs)"
proof -
  let ?b = "before_bound (rfirst r) rs"
  let ?a = "after_bound (rfirst r) rs"
  have rs: "set rs = set ?b \<union> set ?a" by (rule sorted_bound(3) [OF assms(1)])
  have sb: "sorted_wrt (\<lambda>e f. rlast (snd e) < rfirst (snd f)) (?b @ ?a)"
    using assms(1) by (simp add: split_bound filter_ok_def)
  have entry: "fst e = rfirst (snd e)" "rfirst (snd e) \<le> rlast (snd e)" if "e \<in> set rs" for e
    using filter_ok_entry [OF assms(1) that] by auto
  have hd_a: "rfirst (snd (hd ?a)) \<le> rfirst (snd e)" if "e \<in> set ?a" for e
  proof -
    have "hd ?a \<in> set rs" using that rs by (cases ?a) auto
    then show ?thesis
      using sorted_wrt_hd [of "\<lambda>e f. rlast (snd e) < rfirst (snd f)" ?a e] that sb entry(2) [of "hd ?a"]
      by (auto simp: sorted_wrt_append)
  qed
  have last_b: "rlast (snd e) \<le> rlast (snd (last ?b))" if "e \<in> set ?b" for e
  proof -
    have "last ?b \<in> set rs" using that rs by (cases ?b) auto
    then show ?thesis
      using sorted_wrt_last [of "\<lambda>e f. rlast (snd e) < rfirst (snd f)" ?b e] that sb entry(2) [of "last ?b"]
      by (auto simp: sorted_wrt_append)
  qed
  have above: "rfirst r < rfirst (snd e)" if "e \<in> set ?a" for e
    using after_bound_above [OF assms(1) that] entry(1) [of e] that rs by auto
  have below: "rfirst (snd e) \<le> rfirst r" if "e \<in> set ?b" for e
    using before_bound_below [OF that] entry(1) [of e] by auto
  have ok_iff: "ok \<longleftrightarrow> rfirst r \<le> rlast r \<and> (\<forall>e \<in> set ?a. rlast r < rfirst (snd e)) \<and> (\<forall>e \<in> set ?b. rlast (snd e) < rfirst r)"
    and rs': "rs' = (if ok then ?b @ (rfirst r, r) # ?a else rs)"
  proof -
    have 1: "(?a \<noteq> [] \<and> rfirst (snd (hd ?a)) \<le> rlast r) \<longleftrightarrow> \<not> (\<forall>e \<in> set ?a. rlast r < rfirst (snd e))"
    proof
      assume "\<not> (\<forall>e \<in> set ?a. rlast r < rfirst (snd e))"
      then obtain e where "e \<in> set ?a" "rfirst (snd e) \<le> rlast r" by (auto simp: not_less)
      then show "?a \<noteq> [] \<and> rfirst (snd (hd ?a)) \<le> rlast r" using hd_a [of e] by (auto intro: order.trans)
    qed (use hd_in_set in \<open>force simp: not_less\<close>)
    have 2: "(?b \<noteq> [] \<and> rfirst r \<le> rlast (snd (last ?b))) \<longleftrightarrow> \<not> (\<forall>e \<in> set ?b. rlast (snd e) < rfirst r)"
    proof
      assume "\<not> (\<forall>e \<in> set ?b. rlast (snd e) < rfirst r)"
      then obtain e where "e \<in> set ?b" "rfirst r \<le> rlast (snd e)" by (auto simp: not_less)
      then show "?b \<noteq> [] \<and> rfirst r \<le> rlast (snd (last ?b))" using last_b [of e] by (auto intro: order.trans)
    qed (use last_in_set in \<open>force simp: not_less\<close>)
    show "ok \<longleftrightarrow> rfirst r \<le> rlast r \<and> (\<forall>e \<in> set ?a. rlast r < rfirst (snd e)) \<and> (\<forall>e \<in> set ?b. rlast (snd e) < rfirst r)"
      and "rs' = (if ok then ?b @ (rfirst r, r) # ?a else rs)"
      using assms(2) unfolding filter_insert_def Let_def 1 2 by (auto split: if_splits)
  qed
  have apart_a: "apart_ranges r (snd e) \<longleftrightarrow> rlast r < rfirst (snd e)" if "e \<in> set ?a" for e
    using above [OF that] entry(2) [of e] that rs by (auto simp: apart_ranges_def)
  have apart_b: "apart_ranges r (snd e) \<longleftrightarrow> rlast (snd e) < rfirst r" if "e \<in> set ?b" "rfirst r \<le> rlast r" for e
    using below [OF that(1)] that(2) by (auto simp: apart_ranges_def)
  show "ok \<longleftrightarrow> rfirst r \<le> rlast r \<and> (\<forall>s \<in> ranges_of rs. apart_ranges r s)"
    unfolding ok_iff ranges_of_def rs image_Un ball_Un ball_simps using apart_a apart_b by blast
  show "filter_ok rs'"
  proof (cases ok)
    case True
    then show ?thesis using ok_iff rs' sb assms(1) rs by (auto simp: filter_ok_def sorted_wrt_append)
  qed (simp add: rs' assms(1))
  show "ranges_of rs' = (if ok then insert r (ranges_of rs) else ranges_of rs)"
    using rs' rs by (auto simp: ranges_of_def)
qed

section \<open>Making and changing a filter\<close>

text \<open>Several ranges go in exactly if each is one and they are apart from each other and those there.\<close>

lemma apart_sym: "apart_ranges r s \<longleftrightarrow> apart_ranges s r"
  by (auto simp: apart_ranges_def)

lemma insert_ranges_all:
  assumes "filter_ok rs" "insert_ranges xs rs = (ok, rs')"
  shows "filter_ok rs' \<and>
    (ok \<longleftrightarrow> (\<forall>r \<in> range_of ` set xs. rfirst r \<le> rlast r \<and> (\<forall>s \<in> ranges_of rs. apart_ranges r s)) \<and>
       sorted_wrt apart_ranges (map range_of xs)) \<and>
    (ok \<longrightarrow> ranges_of rs' = ranges_of rs \<union> range_of ` set xs)"
  using assms
proof (induction xs arbitrary: rs)
  case (Cons x xs)
  obtain o1 rs1 where i: "filter_insert (range_of x) rs = (o1, rs1)" by fastforce
  note one = filter_insert_ok [OF Cons.prems(1) i]
  show ?case
  proof (cases o1)
    case True
    then have "insert_ranges xs rs1 = (ok, rs')" "ranges_of rs1 = insert (range_of x) (ranges_of rs)"
      using Cons.prems(2) i one(3) by simp_all
    then show ?thesis using Cons.IH [OF one(2), of] one(1) True by (auto simp: apart_sym)
  next
    case False
    then have "ok = False" "rs' = rs1" using Cons.prems(2) i by simp_all
    then show ?thesis using one(1,2) False by auto
  qed
qed auto

lemmas insert_ranges_ok = insert_ranges_all [THEN conjunct1] insert_ranges_all [THEN conjunct2, THEN conjunct1]
  insert_ranges_all [THEN conjunct2, THEN conjunct2, rule_format]

lemma filter_erase_ok:
  assumes "filter_ok rs"
  shows "filter_ok (foldl (\<lambda>rs k. filter (\<lambda>e. fst e \<noteq> k) rs) rs ks)"
    "ranges_of (foldl (\<lambda>rs k. filter (\<lambda>e. fst e \<noteq> k) rs) rs ks) = {r \<in> ranges_of rs. rfirst r \<notin> set ks}"
proof -
  have f: "foldl (\<lambda>rs k. filter (\<lambda>e. fst e \<noteq> k) rs) rs ks = filter (\<lambda>e. fst e \<notin> set ks) rs"
    by (induction ks arbitrary: rs) (auto simp: filter_filter intro: filter_cong)
  show "filter_ok (foldl (\<lambda>rs k. filter (\<lambda>e. fst e \<noteq> k) rs) rs ks)"
    using assms unfolding f by (auto simp: filter_ok_def sorted_wrt_filter)
  show "ranges_of (foldl (\<lambda>rs k. filter (\<lambda>e. fst e \<noteq> k) rs) rs ks) = {r \<in> ranges_of rs. rfirst r \<notin> set ks}"
    using filter_ok_entry [OF assms] unfolding f by (fastforce simp: ranges_of_def)
qed

lemma filter_ok_nil: "filter_ok []" "ranges_of [] = {}"
  by (simp_all add: filter_ok_def ranges_of_def)

lemma filter_create_ok:
  assumes "filter_create firsts lasts quiet = Inr rs"
  shows "filter_ok rs" "ranges_of rs = range_of ` set (zip firsts (zip lasts quiet))"
proof -
  have "insert_ranges (zip firsts (zip lasts quiet)) [] = (True, rs)"
    using assms by (auto simp: filter_create_def split: if_splits prod.splits bool.splits)
  from insert_ranges_ok [OF filter_ok_nil(1) this] show "filter_ok rs"
    "ranges_of rs = range_of ` set (zip firsts (zip lasts quiet))" by (simp_all add: filter_ok_nil)
qed

lemma filter_update_ok:
  assumes "filter_ok rs" "filter_update removed firsts lasts quiet rs = (ok, rs')"
  shows "filter_ok rs'"
    "ok \<Longrightarrow> ranges_of rs' = {r \<in> ranges_of rs. rfirst r \<notin> set removed} \<union> range_of ` set (zip firsts (zip lasts quiet))"
  using insert_ranges_ok(1,3) [OF filter_erase_ok(1) [OF assms(1)]] filter_erase_ok [OF assms(1)] assms(2)
  by (auto simp: filter_update_def Let_def split: if_splits)

end
