(* ===== verification/Cells.thy ===== *)
theory Cells
  imports PagedZero StoreLog MemoryFilter
begin

unbundle bit_operations_syntax

text \<open>
  The struct \<open>BapCells\<close> of \<open>native/bap_jit.cpp\<close> and the functions that compiled code calls on it:
  \<open>bap_jit_memory_notify\<close>, \<open>bap_jit_code_notify\<close>, \<open>bap_jit_memory_load_bytes\<close>,
  \<open>bap_jit_memory_store_bytes\<close>, \<open>bap_jit_memory_note\<close> and \<open>bap_jit_memory_page\<close>, with
  \<open>bap_jit_live_changes\<close>, which the code observer calls. The observers are Lean code, and so parameters:
  functions of what they are called with and of the world, which holds what they can change of the
  memory and of the filter. A \<open>std::bad_alloc\<close> leaves compiled code at once, and is the value None.
\<close>

section \<open>State\<close>

datatype 'e run_error = Observer_error 'e | Waiting_site_stops

text \<open>\<open>outside\<close> is all that Lean code has besides the memory and the filter.\<close>

record 'x world =
  outside :: 'x
  pages :: "paged option"
  quiet_filter :: "memory_filter option"

type_synonym ('x, 'e) memory_observer = "bool \<Rightarrow> u64 \<Rightarrow> u64 \<Rightarrow> u64 \<Rightarrow> 'x world \<Rightarrow> 'e option \<times> 'x world"

text \<open>
  What \<open>siteCells\<close> gives the code that a code site calls: the array of the slots, none for the cells of a chain,
  and what says whether they are those of the run at a site.
\<close>

record site =
  site_slots :: "u64 list option"
  site_serial :: u64
  site_live :: bool
  site_flushed :: u64

type_synonym ('x, 'e) code_observer = "u64 \<Rightarrow> site \<Rightarrow> 'x world \<Rightarrow> ('e + bool) \<times> 'x world"

text \<open>
  \<open>items\<close> are the cells of a run without pages, up to \<open>capacity\<close> of them. The fields with an index for
  the kind of access have True for a write. An entry of \<open>pageEntries\<close> is its tag and its page.
  \<open>slots\<close> are what the code of the run works on. That is the array of the state itself but for optimized code,
  which has a copy of them on the stack: then \<open>state_array\<close> is the array. \<open>slots_shown\<close> is whether the pointer
  of the cells to the array is set.
\<close>

record ('x, 'e) cells =
  items :: "(u64 \<times> u8) list"
  capacity :: nat
  observer :: "('x, 'e) memory_observer option"
  error :: "'e run_error option"
  world :: "'x world"
  changes :: "store_log option"
  codeObserver :: "('x, 'e) code_observer option"
  quietSites :: bool
  leanRan :: bool
  pendingSite :: bool
  pendingPc :: u64
  quietFirst :: "bool \<Rightarrow> u64"
  quietLast :: "bool \<Rightarrow> u64"
  registers :: "u64 list option"
  slots :: "u64 list"
  state_array :: "u64 list option"
  slots_shown :: bool
  serial :: u64
  slotsLive :: bool
  flushedPc :: u64
  pageEntries :: "nat \<Rightarrow> u64 \<times> page_ptr"

definition pageEntryCount :: nat where [simp]: "pageEntryCount = 64"

definition no_entries :: "nat \<Rightarrow> u64 \<times> page_ptr" where
  "no_entries = (\<lambda>_. (0, PageAt 0 0))"

section \<open>Observers\<close>

definition forgetQuiet :: "('x, 'e) cells \<Rightarrow> ('x, 'e) cells" where
  "forgetQuiet c = c\<lparr>quietFirst := (\<lambda>_. 1), quietLast := (\<lambda>_. 0)\<rparr>"

definition failCells :: "'e run_error \<Rightarrow> ('x, 'e) cells \<Rightarrow> ('x, 'e) cells" where
  "failCells e c = forgetQuiet (c\<lparr>error := Some e, pageEntries := no_entries\<rparr>)"

definition site_of :: "('x, 'e) cells \<Rightarrow> site" where
  "site_of c = \<lparr>site_slots = (if slots_shown c then Some (case state_array c of None \<Rightarrow> slots c | Some s \<Rightarrow> s) else None),
     site_serial = serial c, site_live = slotsLive c, site_flushed = flushedPc c\<rparr>"

text \<open>Whether the observer stops the run, and the cells after it.\<close>

definition callCodeObserver :: "u64 \<Rightarrow> ('x, 'e) cells \<Rightarrow> bool \<times> ('x, 'e) cells" where
  "callCodeObserver pc c =
     (case codeObserver c of
        None \<Rightarrow> (False, c)
      | Some f \<Rightarrow>
          let c1 = forgetQuiet c; (result, w) = f pc (site_of c1) (world c1); c2 = c1\<lparr>world := w\<rparr>
          in case result of
               Inl e \<Rightarrow> (True, failCells (Observer_error e) c2)
             | Inr stop \<Rightarrow> (stop, c2))"

definition call_observer :: "bool \<Rightarrow> u64 \<Rightarrow> u64 \<Rightarrow> u64 \<Rightarrow> ('x, 'e) cells \<Rightarrow> ('x, 'e) cells" where
  "call_observer write address sz v c =
     (case observer c of
        None \<Rightarrow> c
      | Some f \<Rightarrow>
          let c1 = forgetQuiet (c\<lparr>leanRan := True\<rparr>); (result, w) = f write address sz v (world c1); c2 = c1\<lparr>world := w\<rparr>
          in case result of Some e \<Rightarrow> failCells (Observer_error e) c2 | None \<Rightarrow> c2)"

definition memory_notify :: "bool \<Rightarrow> u64 \<Rightarrow> u64 \<Rightarrow> u64 \<Rightarrow> ('x, 'e) cells \<Rightarrow> ('x, 'e) cells" where
  "memory_notify write address sz v c =
     (if observer c = None \<or> error c \<noteq> None then c
      else case (case quiet_filter (world c) of None \<Rightarrow> None | Some f \<Rightarrow> quietRange f address sz write) of
             Some r \<Rightarrow> c\<lparr>quietFirst := (quietFirst c)(write := rfirst r), quietLast := (quietLast c)(write := rlast r)\<rparr>
           | None \<Rightarrow>
               if pendingSite c
               then (case callCodeObserver (pendingPc c) (c\<lparr>pendingSite := False, leanRan := True\<rparr>) of
                       (True, c1) \<Rightarrow> if error c1 = None then failCells Waiting_site_stops c1 else c1
                     | (False, c1) \<Rightarrow> call_observer write address sz v c1)
               else call_observer write address sz v c)"

definition code_notify :: "u64 \<Rightarrow> ('x, 'e) cells \<Rightarrow> bool \<times> ('x, 'e) cells" where
  "code_notify pc c =
     (if codeObserver c = None \<or> error c \<noteq> None then (error c \<noteq> None, c)
      else if quietSites c \<and> \<not> leanRan c then (False, c\<lparr>pendingSite := True, pendingPc := pc\<rparr>)
      else callCodeObserver pc c)"

section \<open>Bytes\<close>

fun load_item :: "(u64 \<times> u8) list \<Rightarrow> u64 \<Rightarrow> u8" where
  "load_item [] a = 0"
| "load_item (x # xs) a = (if fst x = a then snd x else load_item xs a)"

definition loadByte :: "('x, 'e) cells \<Rightarrow> u64 \<Rightarrow> u8" where
  "loadByte c a = load_item (items c) a"

text \<open>None if no cell has the address.\<close>

fun store_item :: "(u64 \<times> u8) list \<Rightarrow> u64 \<Rightarrow> u8 \<Rightarrow> (u64 \<times> u8) list option" where
  "store_item [] a v = None"
| "store_item (x # xs) a v =
     (if fst x = a then Some ((a, v) # xs)
      else case store_item xs a v of None \<Rightarrow> None | Some ys \<Rightarrow> Some (x # ys))"

definition storeByte :: "u64 \<Rightarrow> u8 \<Rightarrow> ('x, 'e) cells \<Rightarrow> ('x, 'e) cells" where
  "storeByte a v c =
     (case store_item (items c) a v of
        Some xs \<Rightarrow> c\<lparr>items := xs\<rparr>
      | None \<Rightarrow> if length (items c) < capacity c then c\<lparr>items := items c @ [(a, v)]\<rparr> else c)"

definition load_bytes :: "u64 \<Rightarrow> nat \<Rightarrow> bool \<Rightarrow> ('x, 'e) cells \<Rightarrow> u64" where
  "load_bytes address sz bigEndian c =
     (if error c \<noteq> None then 0
      else bytes_value bigEndian
             (case pages (world c) of
                Some m \<Rightarrow> load m address sz
              | None \<Rightarrow> map (\<lambda>i. loadByte c (address + of_nat i)) [0..<sz]))"

definition memory_note :: "u64 \<Rightarrow> nat \<Rightarrow> bool \<Rightarrow> u64 \<Rightarrow> ('x, 'e) cells \<Rightarrow> ('x, 'e) cells" where
  "memory_note address sz bigEndian v c = c\<lparr>changes := map_option (log_note address sz bigEndian v) (changes c)\<rparr>"

definition set_pages :: "paged \<Rightarrow> ('x, 'e) cells \<Rightarrow> ('x, 'e) cells" where
  "set_pages m c = c\<lparr>world := (world c)\<lparr>pages := Some m\<rparr>\<rparr>"

definition store_bytes :: "host \<Rightarrow> u64 \<Rightarrow> nat \<Rightarrow> bool \<Rightarrow> u64 \<Rightarrow> ('x, 'e) cells \<Rightarrow> ('x, 'e) cells option" where
  "store_bytes h address sz bigEndian v c =
     (if error c \<noteq> None then Some c
      else let bs = value_bytes bigEndian sz v
           in case pages (world c) of
                Some m \<Rightarrow>
                  (case store h address bs m of
                     (True, m') \<Rightarrow> Some (memory_note address sz bigEndian v (set_pages m' c))
                   | (False, _) \<Rightarrow> None)
              | None \<Rightarrow>
                  Some (memory_note address sz bigEndian v
                          (foldl (\<lambda>c i. storeByte (address + of_nat i) (bs ! i) c) c [0..<sz])))"

definition page_number :: "u64 \<Rightarrow> u64" where
  "page_number address = drop_bit pageBits address"

definition entry_index :: "u64 \<Rightarrow> nat" where
  "entry_index number = unat (number AND of_nat (pageEntryCount - 1))"

text \<open>The page if there is one to be had, and the cells that remember it; None is a \<open>bad_alloc\<close>.\<close>

definition memory_page :: "host \<Rightarrow> u64 \<Rightarrow> bool \<Rightarrow> ('x, 'e) cells \<Rightarrow> (page_ptr option \<times> ('x, 'e) cells) option" where
  "memory_page h address write c =
     (case pages (world c) of
        None \<Rightarrow> Some (None, c)
      | Some m \<Rightarrow>
          if error c \<noteq> None then Some (None, c)
          else let remember = (\<lambda>p c. c\<lparr>pageEntries :=
                     (pageEntries c)(entry_index (page_number address) := (page_number address + 1, p))\<rparr>)
               in if write
                  then (case ensure h address m of
                          (None, _) \<Rightarrow> None
                        | (Some p, m') \<Rightarrow> Some (Some p, remember p (set_pages m' c)))
                  else (case find_page m address of
                          None \<Rightarrow> Some (None, c)
                        | Some p \<Rightarrow> Some (Some p, remember p c)))"

section \<open>Accesses as compiled code makes them\<close>

text \<open>
  \<open>notifyAccess\<close>, \<open>pageForAccess\<close> and the two kinds of access, as \<open>compileOps\<close> generates them.
  \<open>hostBig\<close> is whether the host has the most significant byte first.
\<close>

definition notifyAccess :: "bool \<Rightarrow> u64 \<Rightarrow> nat \<Rightarrow> u64 \<Rightarrow> ('x, 'e) cells \<Rightarrow> ('x, 'e) cells" where
  "notifyAccess write base sz v c =
     (let end' = base + of_nat (sz - 1)
      in if quietFirst c write \<le> base \<and> end' \<le> quietLast c write \<and> base \<le> end' then c
         else memory_notify write base (of_nat sz) v c)"

definition hasInstruction :: "nat \<Rightarrow> bool" where
  "hasInstruction sz \<longleftrightarrow> sz = 1 \<or> sz = 2 \<or> sz = 4 \<or> sz = 8"

definition pageForAccess :: "host \<Rightarrow> u64 \<Rightarrow> nat \<Rightarrow> bool \<Rightarrow> ('x, 'e) cells \<Rightarrow> (page_ptr option \<times> ('x, 'e) cells) option" where
  "pageForAccess h base sz write c =
     (let aligned = (base AND of_nat (sz - 1) = 0);
          number = page_number base;
          entry = pageEntries c (entry_index number)
      in if aligned \<and> fst entry = number + 1 then Some (Some (snd entry), c)
         else if aligned then memory_page h base write c
         else Some (None, c))"

definition swapped :: "bool \<Rightarrow> nat \<Rightarrow> bool \<Rightarrow> u64 \<Rightarrow> u64" where
  "swapped hostBig sz bigEndian v = (if sz = 1 \<or> bigEndian = hostBig then v else bswap sz v)"

definition access_load :: "host \<Rightarrow> bool \<Rightarrow> u64 \<Rightarrow> nat \<Rightarrow> bool \<Rightarrow> ('x, 'e) cells \<Rightarrow> (u64 \<times> ('x, 'e) cells) option" where
  "access_load h hostBig base sz bigEndian c =
     (let c1 = notifyAccess False base sz 0 c
      in if hasInstruction sz
         then (case pageForAccess h base sz False c1 of
                 None \<Rightarrow> None
               | Some (None, c2) \<Rightarrow> Some (load_bytes base sz bigEndian c2, c2)
               | Some (Some p, c2) \<Rightarrow>
                   (case pages (world c2) of
                      None \<Rightarrow> None
                    | Some m \<Rightarrow>
                        let loaded = bytes_value hostBig (map (\<lambda>i. page_bytes m p (page_offset base + i)) [0..<sz])
                        in Some (swapped hostBig sz bigEndian loaded, c2)))
         else Some (load_bytes base sz bigEndian c1, c1))"

definition access_store :: "host \<Rightarrow> bool \<Rightarrow> u64 \<Rightarrow> nat \<Rightarrow> bool \<Rightarrow> u64 \<Rightarrow> ('x, 'e) cells \<Rightarrow> ('x, 'e) cells option" where
  "access_store h hostBig base sz bigEndian v c =
     (let c1 = notifyAccess True base sz v c
      in if hasInstruction sz
         then (case pageForAccess h base sz True c1 of
                 None \<Rightarrow> None
               | Some (None, c2) \<Rightarrow> store_bytes h base sz bigEndian v c2
               | Some (Some p, c2) \<Rightarrow>
                   (case pages (world c2) of
                      None \<Rightarrow> None
                    | Some m \<Rightarrow>
                        let bs = value_bytes hostBig sz (swapped hostBig sz bigEndian (take_bit (8 * sz) v))
                        in Some (memory_note base sz bigEndian v (set_pages (put_bytes p (page_offset base) bs m) c2))))
         else store_bytes h base sz bigEndian v c1)"

end
