(* ===== verification/CellsAccess.thy ===== *)
theory CellsAccess
  imports Cells
begin

unbundle bit_operations_syntax

text \<open>
  What an access of compiled code does, on every way that it can go: by the instruction of the host
  on a page that is known or found, byte by byte, or without pages. The check for quiet ranges that
  is compiled in is the filter's; the value loaded is that of the bytes of the memory in the order
  asked for; a store writes those bytes and notes them; and once there is an error nothing takes effect.
\<close>

section \<open>The invariant\<close>

definition world_ok :: "'x world \<Rightarrow> bool" where
  "world_ok w \<longleftrightarrow> (case pages w of None \<Rightarrow> True | Some m \<Rightarrow> paged_inv m) \<and>
     (case quiet_filter w of None \<Rightarrow> True | Some f \<Rightarrow> filter_ok f)"

text \<open>
  Lean code has a memory only through its operations, none of which takes a page out, and it can't
  exchange the memory of a run.
\<close>

definition keeps_pages :: "'x world \<Rightarrow> 'x world \<Rightarrow> bool" where
  "keeps_pages w w' \<longleftrightarrow> (pages w' = None \<longleftrightarrow> pages w = None) \<and>
     (\<forall>m m' a p. pages w = Some m \<and> pages w' = Some m' \<and> find_page m a = Some p \<longrightarrow> find_page m' a = Some p)"

definition observer_ok :: "('x, 'e) memory_observer \<Rightarrow> bool" where
  "observer_ok f \<longleftrightarrow> (\<forall>write a sz v w r w'. world_ok w \<and> f write a sz v w = (r, w') \<longrightarrow> world_ok w' \<and> keeps_pages w w')"

definition code_observer_ok :: "('x, 'e) code_observer \<Rightarrow> bool" where
  "code_observer_ok f \<longleftrightarrow> (\<forall>pc ss w r w'. world_ok w \<and> f pc ss w = (r, w') \<longrightarrow> world_ok w' \<and> keeps_pages w w')"

text \<open>A page that is remembered is the one of the memory.\<close>

definition entries_ok :: "('x, 'e) cells \<Rightarrow> bool" where
  "entries_ok c \<longleftrightarrow> (\<forall>i a. fst (pageEntries c i) = page_number a + 1 \<longrightarrow>
     (\<exists>m. pages (world c) = Some m \<and> find_page m a = Some (snd (pageEntries c i))))"

text \<open>A range that is remembered, if any, is one of the filter that lets the kind of access through.\<close>

definition quiet_ok :: "('x, 'e) cells \<Rightarrow> bool" where
  "quiet_ok c \<longleftrightarrow> (\<forall>write. quietFirst c write \<le> quietLast c write \<longrightarrow> observer c \<noteq> None \<and> error c = None \<and>
     (\<exists>f r. quiet_filter (world c) = Some f \<and> r \<in> ranges_of f \<and> quietFirst c write = rfirst r \<and>
        quietLast c write = rlast r \<and> (if write then writeQuiet r else readQuiet r)))"

definition cells_ok :: "('x, 'e) cells \<Rightarrow> bool" where
  "cells_ok c \<longleftrightarrow> world_ok (world c) \<and> entries_ok c \<and> quiet_ok c \<and>
     (error c \<noteq> None \<longrightarrow> pageEntries c = no_entries) \<and>
     (case changes c of None \<Rightarrow> True | Some l \<Rightarrow> log_ok l) \<and>
     (case observer c of None \<Rightarrow> True | Some f \<Rightarrow> observer_ok f) \<and>
     (case codeObserver c of None \<Rightarrow> True | Some f \<Rightarrow> code_observer_ok f)"

text \<open>The bytes that a run sees.\<close>

definition contents :: "('x, 'e) cells \<Rightarrow> memory" where
  "contents c = (case pages (world c) of Some m \<Rightarrow> view m | None \<Rightarrow> loadByte c)"

lemma tag_nonzero: "page_number a + 1 \<noteq> 0"
proof
  assume "page_number a + 1 = 0"
  then have "drop_bit 12 a = - 1" by (simp add: page_number_def eq_neg_iff_add_eq_0)
  then show False using log_number_bound(2) [of a] by simp
qed

lemma no_entries_ok: "pageEntries c = no_entries \<Longrightarrow> entries_ok c"
  using tag_nonzero by (auto simp: entries_ok_def no_entries_def)

lemma page_number_eq: "page_number a = page_number b \<longleftrightarrow> pageNumber a = pageNumber b"
  using log_number [of a] log_number [of b] by (simp add: page_number_def pageNumber_def word_unat_eq_iff)

lemma forgetQuiet_simps [simp]:
  "items (forgetQuiet c) = items c" "capacity (forgetQuiet c) = capacity c" "observer (forgetQuiet c) = observer c"
  "error (forgetQuiet c) = error c" "world (forgetQuiet c) = world c" "changes (forgetQuiet c) = changes c"
  "codeObserver (forgetQuiet c) = codeObserver c" "pageEntries (forgetQuiet c) = pageEntries c"
  "slots (forgetQuiet c) = slots c" "site_of (forgetQuiet c) = site_of c" "registers (forgetQuiet c) = registers c"
  "state_array (forgetQuiet c) = state_array c" "leanRan (forgetQuiet c) = leanRan c" "pendingSite (forgetQuiet c) = pendingSite c"
  "quietFirst (forgetQuiet c) w = 1" "quietLast (forgetQuiet c) w = 0" "quietSites (forgetQuiet c) = quietSites c"
  by (simp_all add: forgetQuiet_def site_of_def split: option.split)

lemma failCells_simps [simp]:
  "items (failCells e c) = items c" "capacity (failCells e c) = capacity c" "observer (failCells e c) = observer c"
  "error (failCells e c) = Some e" "world (failCells e c) = world c" "changes (failCells e c) = changes c"
  "codeObserver (failCells e c) = codeObserver c" "pageEntries (failCells e c) = no_entries"
  "slots (failCells e c) = slots c" "registers (failCells e c) = registers c" "state_array (failCells e c) = state_array c"
  "quietFirst (failCells e c) w = 1" "quietLast (failCells e c) w = 0"
  by (simp_all add: failCells_def)

lemma quiet_none: "quietFirst c True = 1 \<Longrightarrow> quietFirst c False = 1 \<Longrightarrow> quietLast c True = 0 \<Longrightarrow> quietLast c False = 0 \<Longrightarrow> quiet_ok c"
  unfolding quiet_ok_def by (auto split: bool.split simp: all_bool_eq)

lemma failCells_ok: "cells_ok c \<Longrightarrow> cells_ok (failCells e c)"
  using no_entries_ok [of "failCells e c"] quiet_none [of "failCells e c"] by (simp add: cells_ok_def)

lemma keeps_pagesD:
  "keeps_pages w w' \<Longrightarrow> pages w = Some m \<Longrightarrow>
   \<exists>m'. pages w' = Some m' \<and> (\<forall>a p. find_page m a = Some p \<longrightarrow> find_page m' a = Some p)"
  unfolding keeps_pages_def by (metis not_None_eq)

lemma keeps_pages_trans: "keeps_pages w w1 \<Longrightarrow> keeps_pages w1 w2 \<Longrightarrow> keeps_pages w w2"
  unfolding keeps_pages_def by (metis not_None_eq)

text \<open>What running Lean code leaves of the cells: all but the flags, the quiet ranges and the world.\<close>

definition kept :: "('x, 'e) cells \<Rightarrow> ('x, 'e) cells \<Rightarrow> bool" where
  "kept c c' \<longleftrightarrow> changes c' = changes c \<and> items c' = items c \<and> capacity c' = capacity c \<and> slots c' = slots c \<and>
     registers c' = registers c \<and> state_array c' = state_array c \<and> observer c' = observer c \<and> codeObserver c' = codeObserver c \<and>
     keeps_pages (world c) (world c') \<and> (error c \<noteq> None \<longrightarrow> error c' \<noteq> None)"

lemma kept_refl [simp]: "kept c c"
  by (auto simp: kept_def keeps_pages_def)

lemma kept_trans: "kept c c1 \<Longrightarrow> kept c1 c2 \<Longrightarrow> kept c c2"
  using keeps_pages_trans [of "world c" "world c1" "world c2"] by (simp add: kept_def)

text \<open>After Lean code ran, pages that were known are still there.\<close>

lemma world_update_ok:
  assumes "cells_ok c" "world_ok w" "keeps_pages (world c) w"
  shows "cells_ok ((forgetQuiet c)\<lparr>world := w\<rparr>)"
proof -
  let ?c = "(forgetQuiet c)\<lparr>world := w\<rparr>"
  have "entries_ok ?c" unfolding entries_ok_def
  proof (intro allI impI)
    fix i a
    assume "fst (pageEntries ?c i) = page_number a + 1"
    then have "fst (pageEntries c i) = page_number a + 1" by simp
    then obtain m where m: "pages (world c) = Some m" "find_page m a = Some (snd (pageEntries c i))"
      using assms(1) unfolding cells_ok_def entries_ok_def by blast
    then show "\<exists>m. pages (world ?c) = Some m \<and> find_page m a = Some (snd (pageEntries ?c i))"
      using keeps_pagesD [OF assms(3) m(1)] by auto
  qed
  moreover have "quiet_ok ?c" by (rule quiet_none) simp_all
  ultimately show ?thesis using assms(1,2) by (simp add: cells_ok_def)
qed

lemma keeps_refl [simp]: "keeps_pages w w"
  by (auto simp: keeps_pages_def)

lemma callCodeObserver_ok:
  assumes "cells_ok c" "callCodeObserver pc c = (stop, c')"
  shows "cells_ok c' \<and> kept c c'"
proof (cases "codeObserver c")
  case None
  then show ?thesis using assms by (simp add: callCodeObserver_def)
next
  case (Some f)
  obtain r w where r: "f pc (site_of c) (world c) = (r, w)" by fastforce
  have "code_observer_ok f" "world_ok (world c)" using assms(1) Some by (simp_all add: cells_ok_def)
  then have w: "world_ok w" "keeps_pages (world c) w" using r by (auto simp: code_observer_ok_def)
  note ok = world_update_ok [OF assms(1) w]
  have "c' = (case r of Inl e \<Rightarrow> failCells (Observer_error e) ((forgetQuiet c)\<lparr>world := w\<rparr>)
      | Inr st \<Rightarrow> (forgetQuiet c)\<lparr>world := w\<rparr>)"
    using assms(2) Some r by (cases r) (simp_all add: callCodeObserver_def Let_def)
  then show ?thesis using failCells_ok [OF ok] ok w(2) by (cases r) (simp_all add: kept_def)
qed

lemma cells_ok_flags:
  "cells_ok c \<Longrightarrow> cells_ok (c\<lparr>leanRan := b\<rparr>)" "cells_ok c \<Longrightarrow> cells_ok (c\<lparr>pendingSite := p, leanRan := b\<rparr>)"
  "cells_ok c \<Longrightarrow> cells_ok (c\<lparr>pendingSite := p, pendingPc := pc\<rparr>)"
  by (simp_all add: cells_ok_def entries_ok_def quiet_ok_def)

lemma call_observer_ok:
  assumes "cells_ok c"
  shows "cells_ok (call_observer write a sz v c) \<and> kept c (call_observer write a sz v c)"
proof (cases "observer c")
  case None
  then show ?thesis using assms by (simp add: call_observer_def)
next
  case (Some f)
  let ?c = "c\<lparr>leanRan := True\<rparr>"
  obtain r w where r: "f write a sz v (world c) = (r, w)" by fastforce
  have "observer_ok f" "world_ok (world c)" using assms Some by (simp_all add: cells_ok_def)
  then have w: "world_ok w" "keeps_pages (world ?c) w" using r by (auto simp: observer_ok_def)
  note ok = world_update_ok [OF cells_ok_flags(1) [OF assms] w]
  have e: "call_observer write a sz v c = (case r of Some e \<Rightarrow> failCells (Observer_error e) ((forgetQuiet ?c)\<lparr>world := w\<rparr>)
      | None \<Rightarrow> (forgetQuiet ?c)\<lparr>world := w\<rparr>)"
    using Some r by (simp add: call_observer_def Let_def)
  show ?thesis unfolding e using failCells_ok [OF ok] ok w(2) by (cases r) (simp_all add: kept_def)
qed

lemma notify_quiet_ok:
  assumes "cells_ok c" "observer c \<noteq> None" "error c = None" "quiet_filter (world c) = Some f"
    "quietRange f a sz write = Some r"
  shows "cells_ok (c\<lparr>quietFirst := (quietFirst c)(write := rfirst r), quietLast := (quietLast c)(write := rlast r)\<rparr>)"
    (is "cells_ok ?c")
proof -
  have "filter_ok f" using assms(1,4) by (simp add: cells_ok_def world_ok_def)
  then have r: "r \<in> ranges_of f" "if write then writeQuiet r else readQuiet r"
    using assms(5) by (simp_all add: quietRange_iff)
  have "quiet_ok c" using assms(1) by (simp add: cells_ok_def)
  then have "quiet_ok ?c"
    unfolding quiet_ok_def using assms(2-4) r by (auto simp del: split_paired_Ex)
  then show ?thesis using assms(1) by (simp add: cells_ok_def entries_ok_def)
qed

text \<open>The three ways of \<open>bap_jit_memory_notify\<close>.\<close>

lemma memory_notify_cases:
  obtains (nothing) "observer c = None \<or> error c \<noteq> None" "memory_notify write a sz v c = c"
  | (quiet) f r where "observer c \<noteq> None" "error c = None" "quiet_filter (world c) = Some f"
      "quietRange f a sz write = Some r"
      "memory_notify write a sz v c = c\<lparr>quietFirst := (quietFirst c)(write := rfirst r), quietLast := (quietLast c)(write := rlast r)\<rparr>"
  | (call) "observer c \<noteq> None" "error c = None" "\<not> pendingSite c" "memory_notify write a sz v c = call_observer write a sz v c"
  | (site) stop c1 where "observer c \<noteq> None" "error c = None" "pendingSite c"
      "callCodeObserver (pendingPc c) (c\<lparr>pendingSite := False, leanRan := True\<rparr>) = (stop, c1)"
      "memory_notify write a sz v c = (if stop then if error c1 = None then failCells Waiting_site_stops c1 else c1
          else call_observer write a sz v c1)"
proof (cases "observer c = None \<or> error c \<noteq> None")
  case True
  show thesis by (rule nothing [OF True]) (use True in \<open>auto simp: memory_notify_def\<close>)
next
  case False
  define q where "q = (case quiet_filter (world c) of None \<Rightarrow> None | Some f \<Rightarrow> quietRange f a sz write)"
  have n: "memory_notify write a sz v c = (case q of
      Some r \<Rightarrow> c\<lparr>quietFirst := (quietFirst c)(write := rfirst r), quietLast := (quietLast c)(write := rlast r)\<rparr>
    | None \<Rightarrow> if pendingSite c
        then (case callCodeObserver (pendingPc c) (c\<lparr>pendingSite := False, leanRan := True\<rparr>) of
                (True, c1) \<Rightarrow> if error c1 = None then failCells Waiting_site_stops c1 else c1
              | (False, c1) \<Rightarrow> call_observer write a sz v c1)
        else call_observer write a sz v c)"
    unfolding memory_notify_def q_def by (rule if_not_P [OF False])
  have ob: "observer c \<noteq> None" "error c = None" using False by simp_all
  show thesis
  proof (cases q)
    case (Some r)
    then obtain f where f: "quiet_filter (world c) = Some f" "quietRange f a sz write = Some r"
      by (auto simp: q_def split: option.splits)
    show thesis by (rule quiet [OF ob f]) (simp add: n Some)
  next
    case None
    obtain stop c1 where c1: "callCodeObserver (pendingPc c) (c\<lparr>pendingSite := False, leanRan := True\<rparr>) = (stop, c1)"
      by fastforce
    show thesis
    proof (cases "pendingSite c")
      case True
      show thesis by (rule site [OF ob True c1]) (cases stop; simp add: n None True c1)
    next
      case False
      show thesis by (rule call [OF ob False]) (simp add: n None False)
    qed
  qed
qed

lemma memory_notify_ok:
  assumes "cells_ok c"
  shows "cells_ok (memory_notify write a sz v c) \<and> kept c (memory_notify write a sz v c)"
proof (cases rule: memory_notify_cases [of c "write" a sz v])
  case nothing
  then show ?thesis using assms by simp
next
  case (quiet f r)
  then show ?thesis using notify_quiet_ok [OF assms quiet(1-4)] by (simp add: kept_def)
next
  case call
  then show ?thesis using call_observer_ok [OF assms] by simp
next
  case (site stop c1)
  have "cells_ok c1 \<and> kept (c\<lparr>pendingSite := False, leanRan := True\<rparr>) c1"
    by (rule callCodeObserver_ok [OF cells_ok_flags(2) [OF assms] site(4)])
  then have c1: "cells_ok c1" "kept c c1" by (simp_all add: kept_def)
  have "kept c1 (failCells Waiting_site_stops c1)" by (simp add: kept_def)
  then show ?thesis
    using site(5) c1 failCells_ok [OF c1(1)] call_observer_ok [OF c1(1)] kept_trans [OF c1(2)] by simp
qed

lemma code_notify_ok:
  assumes "cells_ok c" "code_notify pc c = (stop, c')"
  shows "cells_ok c' \<and> kept c c'"
proof (cases "codeObserver c = None \<or> error c \<noteq> None \<or> quietSites c \<and> \<not> leanRan c")
  case True
  then have "c' = c \<or> c' = c\<lparr>pendingSite := True, pendingPc := pc\<rparr>"
    using assms(2) by (auto simp: code_notify_def split: if_splits)
  then show ?thesis using assms(1) cells_ok_flags(3) [OF assms(1)] by (auto simp: kept_def)
next
  case False
  then show ?thesis using callCodeObserver_ok [OF assms(1)] assms(2) by (auto simp: code_notify_def)
qed

section \<open>The compiled check is the filter's\<close>

text \<open>
  The range that is remembered would be found again, as the ranges are apart: skipping the call
  changes nothing.
\<close>

lemma notifyAccess_eq:
  assumes "cells_ok c" "0 < sz" "sz < 2 ^ 64"
  shows "notifyAccess write base sz v c = memory_notify write base (of_nat sz) v c"
proof (cases "quietFirst c write \<le> base \<and> base + of_nat (sz - 1) \<le> quietLast c write \<and> base \<le> base + of_nat (sz - 1)")
  case True
  then have "quietFirst c write \<le> quietLast c write" by (meson order.trans)
  then obtain f r where ob: "observer c \<noteq> None" "error c = None" and f: "quiet_filter (world c) = Some f"
      and r: "r \<in> ranges_of f" "quietFirst c write = rfirst r" "quietLast c write = rlast r"
        "if write then writeQuiet r else readQuiet r"
    using assms(1) unfolding cells_ok_def quiet_ok_def by blast
  have "filter_ok f" using assms(1) f by (simp add: cells_ok_def world_ok_def)
  moreover have "base + of_nat sz - 1 = base + of_nat (sz - 1)" using assms(2) by (simp add: of_nat_diff)
  moreover have "(of_nat sz :: u64) \<noteq> 0"
    using assms(2,3) by (simp add: word_unat_eq_iff unat_of_nat take_bit_eq_mod)
  ultimately have "quietRange f base (of_nat sz) write = Some r"
    using r True by (simp only: quietRange_iff) simp
  then have "memory_notify write base (of_nat sz) v c =
      c\<lparr>quietFirst := (quietFirst c)(write := rfirst r), quietLast := (quietLast c)(write := rlast r)\<rparr>"
    using ob f by (cases "observer c") (auto simp: memory_notify_def)
  also have "\<dots> = c" using r(2,3) by (simp add: fun_upd_idem)
  finally show ?thesis using True by (simp add: notifyAccess_def)
next
  case False
  then show ?thesis by (auto simp: notifyAccess_def Let_def)
qed

section \<open>An access that an instruction does\<close>

lemma hasInstruction_dvd:
  assumes "hasInstruction sz" "base AND of_nat (sz - 1) = 0"
  shows "sz dvd unat base" "pageOffset base + sz \<le> 4096" "sz \<le> 8" "0 < sz"
proof -
  have sz: "sz = 1 \<or> sz = 2 \<or> sz = 4 \<or> sz = 8" using assms(1) by (simp add: hasInstruction_def)
  then show "sz \<le> 8" "0 < sz" by auto
  show d: "sz dvd unat base" by (rule aligned_mod [OF sz assms(2)])
  have "sz dvd 4096" using sz by auto
  then obtain r where r: "4096 = sz * r" by (elim dvdE)
  have "sz dvd pageOffset base" unfolding pageOffset_def using d \<open>sz dvd 4096\<close> by (simp add: dvd_mod)
  then obtain q where q: "pageOffset base = sz * q" by (elim dvdE)
  have "sz * q < sz * r" using q r pageOffset_less [of base] by simp
  then have "sz * (q + 1) \<le> sz * r" by (intro mult_le_mono2) simp
  then show "pageOffset base + sz \<le> 4096" using q r by simp
qed

lemma byte_order_one: "length bs = 1 \<Longrightarrow> bytes_value big bs = bytes_value big' bs" "value_bytes big 1 v = value_bytes big' 1 v"
  by (simp_all add: bytes_value_def value_bytes_def byte_shift_def)

text \<open>What the instruction loads, with its bytes in the order asked for, and what it is to store.\<close>

lemma swapped_load:
  assumes "length bs = sz" "sz \<le> 8"
  shows "swapped hostBig sz big (bytes_value hostBig bs) = bytes_value big bs"
proof (cases "sz = 1")
  case True
  then show ?thesis using byte_order_one(1) [of bs hostBig big] assms(1) by (simp add: swapped_def)
next
  case False
  have "bytes_value (\<not> hostBig) bs = bytes_value big bs" if "big \<noteq> hostBig" using that by (cases big) auto
  then show ?thesis using False bswap_bytes [of bs hostBig] assms by (auto simp: swapped_def)
qed

lemma swapped_store:
  assumes "sz \<le> 8"
  shows "value_bytes hostBig sz (swapped hostBig sz big (take_bit (8 * sz) v)) = value_bytes big sz v"
proof -
  let ?bs = "value_bytes big sz v"
  have t: "take_bit (8 * sz) v = bytes_value big ?bs" using bytes_value_of_value [OF assms] by simp
  have len: "length ?bs = sz" by simp
  have "swapped hostBig sz big (bytes_value big ?bs) = bytes_value hostBig ?bs"
  proof (cases "sz = 1 \<or> big = hostBig")
    case True
    then show ?thesis using byte_order_one(1) [of ?bs big hostBig] by (auto simp: swapped_def)
  next
    case False
    then have "bytes_value (\<not> big) ?bs = bytes_value hostBig ?bs" by (cases big) auto
    then show ?thesis using False bswap_bytes [of ?bs big] assms by (simp add: swapped_def)
  qed
  then show ?thesis using value_bytes_of_bytes [of ?bs hostBig] assms by (simp add: t)
qed

lemma page_bytes_view:
  assumes "find_page m base = Some p" "pageOffset base + n \<le> 4096"
  shows "map (\<lambda>i. page_bytes m p (page_offset base + i)) [0..<n] = read_bytes (view m) base n"
proof (rule nth_equalityI)
  fix i
  assume "i < length (map (\<lambda>i. page_bytes m p (page_offset base + i)) [0..<n])"
  then have i: "i < n" by simp
  then have "pageOffset base + i < 4096" using assms(2) by simp
  note at = in_page_add(1,2) [OF this]
  show "map (\<lambda>i. page_bytes m p (page_offset base + i)) [0..<n] ! i = read_bytes (view m) base n ! i"
    using i at(2) find_page_same_page [OF at(1), of m] assms(1) by (simp add: view_def page_offset_eq)
qed simp

section \<open>Pages for compiled code\<close>

text \<open>
  The page that compiled code comes to, if any: of this memory, whether it was known or had to be
  looked for, with no byte of the memory changed.
\<close>

definition steps_kept :: "('x, 'e) cells \<Rightarrow> ('x, 'e) cells \<Rightarrow> bool" where
  "steps_kept c c' \<longleftrightarrow> (\<forall>m m'. pages (world c) = Some m \<and> pages (world c') = Some m' \<longrightarrow> same_step m m')"

lemma steps_kept_refl [simp]: "steps_kept c c"
  by (auto simp: steps_kept_def same_step_def)

definition paged_for :: "u64 \<Rightarrow> page_ptr option \<Rightarrow> ('x, 'e) cells \<Rightarrow> ('x, 'e) cells \<Rightarrow> bool" where
  "paged_for base r c c' \<longleftrightarrow> cells_ok c' \<and> kept c c' \<and> error c' = error c \<and> contents c' = contents c \<and>
     (pages (world c') = None \<longleftrightarrow> pages (world c) = None) \<and> steps_kept c c' \<and>
     (\<forall>p. r = Some p \<longrightarrow> error c = None \<and> (\<exists>m. pages (world c') = Some m \<and> find_page m base = Some p))"

lemma paged_for_none: "cells_ok c \<Longrightarrow> paged_for base None c c"
  by (simp add: paged_for_def)

lemma set_pages_simps [simp]:
  "world (set_pages m c) = (world c)\<lparr>pages := Some m\<rparr>" "items (set_pages m c) = items c"
  "capacity (set_pages m c) = capacity c" "observer (set_pages m c) = observer c" "error (set_pages m c) = error c"
  "changes (set_pages m c) = changes c" "codeObserver (set_pages m c) = codeObserver c"
  "slots (set_pages m c) = slots c" "registers (set_pages m c) = registers c" "state_array (set_pages m c) = state_array c" "pageEntries (set_pages m c) = pageEntries c"
  "quietFirst (set_pages m c) = quietFirst c" "quietLast (set_pages m c) = quietLast c"
  by (simp_all add: set_pages_def)

lemma set_pages_ok:
  assumes "cells_ok c" "pages (world c) = Some m" "paged_inv m'"
    "\<And>a p. find_page m a = Some p \<Longrightarrow> find_page m' a = Some p"
  shows "cells_ok (set_pages m' c) \<and> kept c (set_pages m' c)"
proof -
  have "entries_ok (set_pages m' c)"
    using assms(1,2,4) unfolding cells_ok_def entries_ok_def by fastforce
  moreover have "quiet_ok (set_pages m' c)" using assms(1) by (simp add: cells_ok_def quiet_ok_def)
  moreover have "world_ok (world (set_pages m' c))" using assms(1,3) by (simp add: cells_ok_def world_ok_def)
  ultimately show ?thesis using assms by (simp add: cells_ok_def kept_def keeps_pages_def)
qed

lemma remember_ok:
  assumes "cells_ok c" "error c = None" "pages (world c) = Some m" "find_page m base = Some p"
  shows "cells_ok (c\<lparr>pageEntries := (pageEntries c)(i := (page_number base + 1, p))\<rparr>)" (is "cells_ok ?c")
proof -
  have "entries_ok ?c" unfolding entries_ok_def
  proof (intro allI impI)
    fix j a
    assume e: "fst (pageEntries ?c j) = page_number a + 1"
    show "\<exists>m. pages (world ?c) = Some m \<and> find_page m a = Some (snd (pageEntries ?c j))"
    proof (cases "j = i")
      case True
      then have "pageNumber a = pageNumber base" using e by (simp add: page_number_eq [symmetric])
      then show ?thesis using True assms(3,4) find_page_same_page [of a base m] by simp
    next
      case False
      then show ?thesis using e assms(1) unfolding cells_ok_def entries_ok_def by simp
    qed
  qed
  then show ?thesis using assms(1,2) by (simp add: cells_ok_def quiet_ok_def)
qed

lemma memory_page_ok:
  assumes ok: "cells_ok c" and run: "memory_page h base write c = Some (r, c')"
  shows "paged_for base r c c'"
proof (cases "pages (world c)")
  case None
  then show ?thesis using run ok paged_for_none by (auto simp: memory_page_def)
next
  case (Some m)
  have inv: "paged_inv m" using ok Some by (simp add: cells_ok_def world_ok_def)
  show ?thesis
  proof (cases "error c = None")
    case False
    then show ?thesis using run ok Some paged_for_none by (auto simp: memory_page_def)
  next
    case True
    let ?rem = "\<lambda>p c. c\<lparr>pageEntries := (pageEntries c)(entry_index (page_number base) := (page_number base + 1, p))\<rparr>"
    have goes: "paged_for base (Some p) c (?rem p (set_pages m' c))"
      if m': "paged_inv m'" "\<And>a q. find_page m a = Some q \<Longrightarrow> find_page m' a = Some q" "view m' = view m"
        "find_page m' base = Some p" "same_step m m'" for p m'
    proof -
      note s = set_pages_ok [OF ok Some m'(1,2)]
      have "cells_ok (?rem p (set_pages m' c))"
        by (rule remember_ok [OF conjunct1 [OF s], of m']) (simp_all add: True m'(4))
      then show ?thesis using s m'(3-5) Some True by (simp add: paged_for_def kept_def contents_def steps_kept_def)
    qed
    show ?thesis
    proof (cases "write")
      case w: True
      obtain q m' where e: "ensure h base m = (q, m')" by fastforce
      note en = ensure_ok [OF inv e]
      obtain p where p: "q = Some p" "r = Some p" "c' = ?rem p (set_pages m' c)"
        using run Some True w e by (auto simp: memory_page_def split: option.splits)
      show ?thesis unfolding p(2,3)
        using en p(1) ensured_view [OF inv, of base q m'] grows_find [of m m']
        by (intro goes) (auto simp: ensured_def)
    next
      case r: False
      show ?thesis
      proof (cases "find_page m base")
        case None
        then show ?thesis using run Some True r ok paged_for_none by (auto simp: memory_page_def)
      next
        case (Some p)
        then have e: "r = Some p" "c' = ?rem p c"
          using run \<open>pages (world c) = Some m\<close> True r by (auto simp: memory_page_def)
        have "set_pages m c = c" using \<open>pages (world c) = Some m\<close> by (simp add: set_pages_def)
        then show ?thesis using goes [of m p] inv Some by (simp add: e)
      qed
    qed
  qed
qed

lemma pageForAccess_ok:
  assumes "cells_ok c" "pageForAccess h base sz write c = Some (r, c')"
  shows "paged_for base r c c'" "r \<noteq> None \<Longrightarrow> base AND of_nat (sz - 1) = 0"
proof -
  let ?e = "pageEntries c (entry_index (page_number base))"
  have hit: "error c = None \<and> (\<exists>m. pages (world c) = Some m \<and> find_page m base = Some (snd ?e))"
    if "fst ?e = page_number base + 1"
  proof -
    have "pageEntries c \<noteq> no_entries" using that tag_nonzero [of base] by (auto simp: no_entries_def)
    then have "error c = None" using assms(1) by (auto simp: cells_ok_def)
    then show ?thesis using that assms(1) unfolding cells_ok_def entries_ok_def by blast
  qed
  show "paged_for base r c c'"
  proof (cases "base AND of_nat (sz - 1) = 0 \<and> fst ?e = page_number base + 1")
    case True
    then have "r = Some (snd ?e)" "c' = c" using assms(2) by (auto simp: pageForAccess_def)
    then show ?thesis using hit True assms(1) by (simp add: paged_for_def)
  next
    case False
    then show ?thesis
      using assms memory_page_ok [OF assms(1)] paged_for_none [OF assms(1), of base]
      by (auto simp: pageForAccess_def Let_def split: if_splits)
  qed
  show "r \<noteq> None \<Longrightarrow> base AND of_nat (sz - 1) = 0"
    using assms(2) by (auto simp: pageForAccess_def Let_def split: if_splits)
qed

section \<open>Loads\<close>

lemma load_bytes_contents:
  "load_bytes base sz big c = (if error c \<noteq> None then 0 else bytes_value big (read_bytes (contents c) base sz))"
  by (auto simp: load_bytes_def contents_def load_view read_bytes_def split: option.splits)

lemma read_never_fails: "pageForAccess h base sz False c \<noteq> None"
  by (auto simp: pageForAccess_def memory_page_def Let_def split: option.splits)

lemma access_load_ok:
  assumes "cells_ok c" "0 < sz" "sz \<le> 8" and c1_def: "c1 = memory_notify False base (of_nat sz) 0 c"
  shows "\<exists>c'. access_load h hostBig base sz big c =
      Some (if error c1 \<noteq> None then 0 else bytes_value big (read_bytes (contents c1) base sz), c') \<and>
    cells_ok c' \<and> kept c1 c' \<and> error c' = error c1 \<and> contents c' = contents c1 \<and> steps_kept c1 c'"
proof -
  have n: "notifyAccess False base sz 0 c = c1"
    unfolding c1_def using assms(2,3) by (intro notifyAccess_eq [OF assms(1)]) simp_all
  have ok1: "cells_ok c1" using memory_notify_ok [OF assms(1)] by (simp add: c1_def)
  show ?thesis
  proof (cases "hasInstruction sz")
    case False
    then show ?thesis using ok1 n by (simp add: access_load_def Let_def load_bytes_contents)
  next
    case True
    obtain r c2 where p: "pageForAccess h base sz False c1 = Some (r, c2)"
      using read_never_fails [of h base sz c1] by auto
    note pf = pageForAccess_ok [OF ok1 p]
    then have c2: "cells_ok c2" "kept c1 c2" "error c2 = error c1" "contents c2 = contents c1" "steps_kept c1 c2"
      by (simp_all add: paged_for_def)
    show ?thesis
    proof (cases r)
      case None
      then show ?thesis using True n p c2 by (simp add: access_load_def Let_def load_bytes_contents)
    next
      case (Some q)
      then obtain m where m: "pages (world c2) = Some m" "find_page m base = Some q" "error c1 = None"
        using pf(1) by (auto simp: paged_for_def)
      have al: "base AND of_nat (sz - 1) = 0" using pf(2) Some by simp
      note d = hasInstruction_dvd [OF True al]
      have "contents c2 = view m" using m(1) by (simp add: contents_def)
      then have "map (\<lambda>i. page_bytes m q (page_offset base + i)) [0..<sz] = read_bytes (contents c1) base sz"
        using page_bytes_view [OF m(2) d(2)] c2(4) by simp
      then show ?thesis
        using True n p Some m(1,3) c2 swapped_load [of "read_bytes (contents c1) base sz" sz hostBig big] assms(3)
        by (simp add: access_load_def Let_def)
    qed
  qed
qed

section \<open>Stores\<close>

lemma store_item_None: "store_item xs a v = None \<longleftrightarrow> a \<notin> fst ` set xs"
  by (induction xs) (auto split: option.splits)

lemma store_item_Some:
  "store_item xs a v = Some ys \<Longrightarrow> load_item ys b = (if b = a then v else load_item xs b) \<and> length ys = length xs"
proof (induction xs arbitrary: ys)
  case (Cons x xs)
  show ?case
  proof (cases "fst x = a")
    case True
    then have "ys = (a, v) # xs" using Cons.prems by simp
    then show ?thesis using True by simp
  next
    case False
    then obtain zs where zs: "store_item xs a v = Some zs" "ys = x # zs"
      using Cons.prems by (cases "store_item xs a v") simp_all
    show ?thesis using Cons.IH [OF zs(1)] zs(2) False by auto
  qed
qed simp

lemma load_item_append: "a \<notin> fst ` set xs \<Longrightarrow> load_item (xs @ [(a, v)]) = (load_item xs)(a := v)"
  by (induction xs) (auto simp: fun_eq_iff)

text \<open>A run without pages has cells for as many bytes as its capacity.\<close>

definition room_for :: "nat \<Rightarrow> ('x, 'e) cells \<Rightarrow> bool" where
  "room_for n c \<longleftrightarrow> pages (world c) \<noteq> None \<or> length (items c) + n \<le> capacity c"

definition same_but_items :: "('x, 'e) cells \<Rightarrow> ('x, 'e) cells \<Rightarrow> bool" where
  "same_but_items c c' \<longleftrightarrow> (\<exists>xs. c' = c\<lparr>items := xs\<rparr>)"

lemma same_but_items_refl [simp]: "same_but_items c c"
  unfolding same_but_items_def by (rule exI [of _ "items c"]) simp

lemma same_but_items_trans: "same_but_items c c1 \<Longrightarrow> same_but_items c1 c2 \<Longrightarrow> same_but_items c c2"
  by (auto simp: same_but_items_def)

lemma storeByte_ok:
  "same_but_items c (storeByte a v c)"
  "length (items c) < capacity c \<Longrightarrow> loadByte (storeByte a v c) = (loadByte c)(a := v)"
  "length (items (storeByte a v c)) \<le> Suc (length (items c))"
proof -
  have upd: "same_but_items c (c\<lparr>items := xs\<rparr>)" for xs by (auto simp: same_but_items_def)
  show "same_but_items c (storeByte a v c)"
    using upd by (simp add: storeByte_def split: option.split)
  show "loadByte (storeByte a v c) = (loadByte c)(a := v)" if "length (items c) < capacity c"
  proof (cases "store_item (items c) a v")
    case None
    then show ?thesis
      using that load_item_append [of a "items c" v] store_item_None [of "items c" a v]
      by (simp add: storeByte_def loadByte_def [abs_def])
  next
    case (Some ys)
    then show ?thesis using store_item_Some [OF Some] by (simp add: storeByte_def loadByte_def [abs_def] fun_eq_iff)
  qed
  show "length (items (storeByte a v c)) \<le> Suc (length (items c))"
    using store_item_Some [of "items c" a v] by (auto simp: storeByte_def split: option.split)
qed

lemma storeBytes_same:
  "same_but_items c (foldl (\<lambda>c i. storeByte (a + of_nat i) (bs ! i) c) c [0..<n]) \<and>
   length (items (foldl (\<lambda>c i. storeByte (a + of_nat i) (bs ! i) c) c [0..<n])) \<le> length (items c) + n"
proof (induction n)
  case (Suc n)
  let ?c = "foldl (\<lambda>c i. storeByte (a + of_nat i) (bs ! i) c) c [0..<n]"
  have "length (items (storeByte (a + of_nat n) (bs ! n) ?c)) \<le> length (items c) + Suc n"
    using storeByte_ok(3) [of "a + of_nat n" "bs ! n" ?c] Suc by linarith
  then show ?case using Suc same_but_items_trans storeByte_ok(1) by fastforce
qed simp

lemma storeBytes_ok:
  assumes "length (items c) + n \<le> capacity c"
  shows "same_but_items c (foldl (\<lambda>c i. storeByte (a + of_nat i) (bs ! i) c) c [0..<n]) \<and>
    length (items (foldl (\<lambda>c i. storeByte (a + of_nat i) (bs ! i) c) c [0..<n])) \<le> length (items c) + n \<and>
    (n \<le> length bs \<longrightarrow> loadByte (foldl (\<lambda>c i. storeByte (a + of_nat i) (bs ! i) c) c [0..<n]) = upd_bytes (loadByte c) a (take n bs))"
  using assms
proof (induction n)
  case (Suc n)
  let ?c = "foldl (\<lambda>c i. storeByte (a + of_nat i) (bs ! i) c) c [0..<n]"
  have IH: "same_but_items c ?c" "length (items ?c) \<le> length (items c) + n"
      "n \<le> length bs \<longrightarrow> loadByte ?c = upd_bytes (loadByte c) a (take n bs)"
    using Suc by auto
  have cap: "capacity ?c = capacity c" using IH(1) by (auto simp: same_but_items_def)
  have lt: "length (items ?c) < capacity ?c" using IH(2) Suc.prems cap by simp
  have "upd_bytes (loadByte c) a (take (Suc n) bs) = (upd_bytes (loadByte c) a (take n bs))(a + of_nat n := bs ! n)"
    if "Suc n \<le> length bs"
    using that by (simp add: take_Suc_conv_app_nth upd_bytes_append)
  moreover have "length (items (storeByte (a + of_nat n) (bs ! n) ?c)) \<le> length (items c) + Suc n"
    using storeByte_ok(3) [of "a + of_nat n" "bs ! n" ?c] IH(2) by linarith
  ultimately show ?case
    using IH(3) storeByte_ok(2) [OF lt] same_but_items_trans [OF IH(1) storeByte_ok(1)] by simp
qed simp

text \<open>
  What a store does: nothing if there is an error, and otherwise its bytes, in the order asked for,
  and the note of them.
\<close>

definition stored_cells :: "u64 \<Rightarrow> nat \<Rightarrow> bool \<Rightarrow> u64 \<Rightarrow> ('x, 'e) cells \<Rightarrow> ('x, 'e) cells \<Rightarrow> bool" where
  "stored_cells base sz big v c c' \<longleftrightarrow> cells_ok c' \<and> error c' = error c \<and> slots c' = slots c \<and>
     registers c' = registers c \<and> state_array c' = state_array c \<and> observer c' = observer c \<and> codeObserver c' = codeObserver c \<and>
     keeps_pages (world c) (world c') \<and> steps_kept c c' \<and> capacity c' = capacity c \<and>
     (error c \<noteq> None \<longrightarrow> contents c' = contents c \<and> changes c' = changes c) \<and>
     (error c = None \<longrightarrow> changes c' = map_option (log_note base sz big v) (changes c)) \<and>
     (error c = None \<and> room_for sz c \<longrightarrow> contents c' = upd_bytes (contents c) base (value_bytes big sz v)) \<and>
     length (items c') \<le> length (items c) + sz"

lemma memory_note_simps [simp]:
  "world (memory_note a sz big v c) = world c" "items (memory_note a sz big v c) = items c"
  "capacity (memory_note a sz big v c) = capacity c" "observer (memory_note a sz big v c) = observer c"
  "error (memory_note a sz big v c) = error c" "codeObserver (memory_note a sz big v c) = codeObserver c"
  "slots (memory_note a sz big v c) = slots c" "registers (memory_note a sz big v c) = registers c"
  "state_array (memory_note a sz big v c) = state_array c" "pageEntries (memory_note a sz big v c) = pageEntries c"
  "quietFirst (memory_note a sz big v c) = quietFirst c" "quietLast (memory_note a sz big v c) = quietLast c"
  "changes (memory_note a sz big v c) = map_option (log_note a sz big v) (changes c)"
  by (simp_all add: memory_note_def)

lemma memory_note_ok: "cells_ok c \<Longrightarrow> sz \<le> 8 \<Longrightarrow> cells_ok (memory_note a sz big v c)"
  using log_note_ok(1) by (auto simp: cells_ok_def entries_ok_def quiet_ok_def split: option.splits)

lemma note_paged_store:
  assumes "cells_ok c" "pages (world c) = Some m" "error c = None" "sz \<le> 8" "stored base (value_bytes big sz v) m m'"
  shows "stored_cells base sz big v c (memory_note base sz big v (set_pages m' c))"
proof -
  have m': "paged_inv m'" "view m' = upd_bytes (view m) base (value_bytes big sz v)"
      "\<And>a p. find_page m a = Some p \<Longrightarrow> find_page m' a = Some p"
    using assms(5) by (auto simp: stored_def)
  note s = set_pages_ok [OF assms(1,2) m'(1,3)]
  have "contents (memory_note base sz big v (set_pages m' c)) = upd_bytes (contents c) base (value_bytes big sz v)"
    using m'(2) assms(2) by (simp add: contents_def)
  then show ?thesis
    using s assms(3,4) memory_note_ok [OF conjunct1 [OF s] assms(4)] assms(2,5)
    by (simp add: stored_cells_def kept_def steps_kept_def stored_def)
qed

lemma store_bytes_ok:
  assumes ok: "cells_ok c" "sz \<le> 8" and run: "store_bytes h base sz big v c = Some c'"
  shows "stored_cells base sz big v c c'"
proof (cases "error c")
  case (Some e)
  then have "c' = c" using run by (simp add: store_bytes_def)
  then show ?thesis using ok Some by (simp add: stored_cells_def)
next
  case None
  let ?bs = "value_bytes big sz v"
  show ?thesis
  proof (cases "pages (world c)")
    case (Some m)
    then have inv: "paged_inv m" using ok by (simp add: cells_ok_def world_ok_def)
    obtain k m' where s: "store h base ?bs m = (k, m')" by fastforce
    then have "k" "c' = memory_note base sz big v (set_pages m' c)"
      using run None Some by (cases k; simp add: store_bytes_def Let_def)+
    then show ?thesis using note_paged_store [OF ok(1) Some None ok(2)] store_all [OF inv] s by simp
  next
    case no_pages: None
    let ?c = "foldl (\<lambda>c i. storeByte (base + of_nat i) (?bs ! i) c) c [0..<sz]"
    have c': "c' = memory_note base sz big v ?c" using run None no_pages by (simp add: store_bytes_def Let_def)
    have s: "same_but_items c ?c" "length (items ?c) \<le> length (items c) + sz"
      using storeBytes_same by auto
    obtain xs where same: "?c = c\<lparr>items := xs\<rparr>" using s(1) by (auto simp: same_but_items_def)
    have lb: "loadByte ?c = upd_bytes (loadByte c) base ?bs" if "room_for sz c"
      using storeBytes_ok [of c sz base ?bs] that no_pages by (simp add: room_for_def)
    define d where "d = ?c"
    have fields: "world d = world c" "error d = error c" "changes d = changes c" "observer d = observer c"
        "codeObserver d = codeObserver c" "slots d = slots c" "registers d = registers c" "state_array d = state_array c" "capacity d = capacity c" "pageEntries d = pageEntries c"
        "quietFirst d = quietFirst c" "quietLast d = quietLast c"
      unfolding d_def same by simp_all
    then have "cells_ok d" using ok(1) by (simp add: cells_ok_def entries_ok_def quiet_ok_def)
    from memory_note_ok [OF this ok(2)] show ?thesis
      unfolding c' d_def [symmetric] using fields None no_pages lb s(2)
      by (simp add: stored_cells_def contents_def d_def loadByte_def [abs_def] fun_eq_iff steps_kept_def)
  qed
qed

lemma access_store_ok:
  assumes "cells_ok c" "0 < sz" "sz \<le> 8" and c1_def: "c1 = memory_notify True base (of_nat sz) v c"
    and run: "access_store h hostBig base sz big v c = Some c'"
  shows "\<exists>c2. stored_cells base sz big v c2 c' \<and> kept c1 c2 \<and> error c2 = error c1 \<and> contents c2 = contents c1 \<and>
    steps_kept c1 c2"
proof -
  have n: "notifyAccess True base sz v c = c1"
    unfolding c1_def using assms(2,3) by (intro notifyAccess_eq [OF assms(1)]) simp_all
  have ok1: "cells_ok c1" "kept c c1" using memory_notify_ok [OF assms(1)] by (simp_all add: c1_def)
  show ?thesis
  proof (cases "hasInstruction sz")
    case False
    then have "stored_cells base sz big v c1 c'"
      using run n by (intro store_bytes_ok [OF ok1(1) assms(3)]) (simp add: access_store_def Let_def)
    then show ?thesis by (intro exI [of _ c1]) simp
  next
    case True
    obtain r c2 where p: "pageForAccess h base sz True c1 = Some (r, c2)"
      using run n True by (auto simp: access_store_def Let_def split: option.splits)
    note pf = pageForAccess_ok [OF ok1(1) p]
    then have c2: "cells_ok c2" "kept c1 c2" "error c2 = error c1" "contents c2 = contents c1" "steps_kept c1 c2"
      by (simp_all add: paged_for_def)
    have "stored_cells base sz big v c2 c'"
    proof (cases r)
      case None
      then have "store_bytes h base sz big v c2 = Some c'" using run n True p by (simp add: access_store_def Let_def)
      then show ?thesis by (rule store_bytes_ok [OF c2(1) assms(3)])
    next
      case (Some q)
      then obtain m where m: "pages (world c2) = Some m" "find_page m base = Some q" "error c1 = None"
        using pf(1) by (auto simp: paged_for_def)
      have al: "base AND of_nat (sz - 1) = 0" using pf(2) Some by simp
      note d = hasInstruction_dvd [OF True al]
      have inv: "paged_inv m" using c2(1) m(1) by (simp add: cells_ok_def world_ok_def)
      have "stored base (value_bytes big sz v) m (put_bytes q (pageOffset base) (value_bytes big sz v) m)"
        using d(2) by (intro put_page_stored [OF inv m(2)]) simp
      from note_paged_store [OF c2(1) m(1) _ assms(3) this] show ?thesis
        using run n True p Some m swapped_store [OF assms(3), of hostBig big v] c2(3)
        by (simp add: access_store_def Let_def page_offset_eq)
    qed
    then show ?thesis using c2 by blast
  qed
qed

text \<open>With memory for the pages, a store goes through.\<close>

lemma memory_page_granted:
  assumes "cells_ok c" "\<And>i. h i"
  shows "memory_page h base write c \<noteq> None"
proof (cases "pages (world c)")
  case (Some m)
  then have "paged_inv m" using assms(1) by (simp add: cells_ok_def world_ok_def)
  then have "fst (ensure h base m) \<noteq> None"
    using ensure_ok [of m h base "fst (ensure h base m)" "snd (ensure h base m)"] assms(2) by simp
  then show ?thesis using Some by (auto simp: memory_page_def Let_def split: option.splits prod.splits)
qed (simp add: memory_page_def)

lemma store_bytes_granted:
  assumes "cells_ok c" "\<And>i. h i"
  shows "store_bytes h base sz big v c \<noteq> None"
proof (cases "pages (world c)")
  case (Some m)
  then have "paged_inv m" using assms(1) by (simp add: cells_ok_def world_ok_def)
  then obtain m' where "store h base (value_bytes big sz v) m = (True, m')" using store_granted assms(2) by blast
  then show ?thesis using Some by (simp add: store_bytes_def Let_def)
qed (simp add: store_bytes_def Let_def)

lemma access_store_granted:
  assumes "cells_ok c" "\<And>i. h i" "0 < sz" "sz \<le> 8"
  shows "access_store h hostBig base sz big v c \<noteq> None"
proof -
  define c1 where "c1 = notifyAccess True base sz v c"
  have "c1 = memory_notify True base (of_nat sz) v c"
    unfolding c1_def using assms(3,4) by (intro notifyAccess_eq [OF assms(1)]) simp_all
  then have ok1: "cells_ok c1" using memory_notify_ok [OF assms(1)] by simp
  show ?thesis
  proof (cases "hasInstruction sz")
    case False
    then show ?thesis using store_bytes_granted [OF ok1 assms(2)] by (simp add: access_store_def c1_def)
  next
    case True
    have "pageForAccess h base sz True c1 \<noteq> None"
      using memory_page_granted [OF ok1 assms(2)] by (simp add: pageForAccess_def Let_def)
    then obtain r c2 where p: "pageForAccess h base sz True c1 = Some (r, c2)" by auto
    note pf = pageForAccess_ok(1) [OF ok1 p]
    show ?thesis
    proof (cases r)
      case None
      have "cells_ok c2" using pf by (simp add: paged_for_def)
      from store_bytes_granted [OF this assms(2), where base = base and sz = sz and big = big and v = v] show ?thesis
        using True p None by (simp add: access_store_def c1_def)
    next
      case (Some q)
      then obtain m where "pages (world c2) = Some m" using pf by (auto simp: paged_for_def)
      then show ?thesis using True p Some by (simp add: access_store_def c1_def Let_def)
    qed
  qed
qed

end
