(* ===== verification/JitOps.thy ===== *)
theory JitOps
  imports CellsAccess "HOL-Library.Signed_Division" "HOL-Library.Monad_Syntax"
begin

unbundle bit_operations_syntax

text \<open>
  The operations of a compiled program and what the code that \<open>compileOps\<close> of \<open>native/bap_jit.cpp\<close>
  generates for each does, on the slots and the cells of a run. An instruction of LLVM that is undefined, or
  whose result is poison, for its operands gives None, as does a slot outside of the state, so that what
  \<open>compileOps\<close> guards against is part of what is shown: no operation gets there.
\<close>

section \<open>Operations\<close>

datatype bin_op = Add | Sub | Mul | And | Or | Xor | Lshift | Rshift | Eq | Neq | Lt | Le | Gt | Ge
  | Udiv | Urem | Sdiv | Srem | Slt | Sle | Sgt | Sge

text \<open>An operation of two slots comes to \<open>compileOps\<close> by its number among them.\<close>

definition bin_ops :: "bin_op list" where
  "bin_ops = [Add, Sub, Mul, And, Or, Xor, Lshift, Rshift, Eq, Neq, Lt, Le, Gt, Ge, Udiv, Urem, Sdiv, Srem, Slt, Sle, Sgt, Sge]"

datatype jit_op =
  Set nat u64
| Move nat nat
| AddImm nat nat u64
| Jump u64
| JumpSlot nat
| Bin nat nat nat nat
| AndImm nat nat u64
| SignExtend nat nat nat
| Select nat nat nat nat
| Neg nat nat
| NotOp nat nat
| Ashr nat nat nat nat
| Label nat
| Goto nat
| Branch nat nat nat
| MemLoad nat nat nat bool
| MemStore nat nat nat bool
| Code nat u64

section \<open>Instructions of LLVM\<close>

definition llvm_shl :: "u64 \<Rightarrow> u64 \<Rightarrow> u64 option" where
  "llvm_shl a n = (if n < 64 then Some (push_bit (unat n) a) else None)"

definition llvm_lshr :: "u64 \<Rightarrow> u64 \<Rightarrow> u64 option" where
  "llvm_lshr a n = (if n < 64 then Some (drop_bit (unat n) a) else None)"

definition llvm_ashr :: "u64 \<Rightarrow> u64 \<Rightarrow> u64 option" where
  "llvm_ashr a n = (if n < 64 then Some (signed_drop_bit (unat n) a) else None)"

definition llvm_udiv :: "u64 \<Rightarrow> u64 \<Rightarrow> u64 option" where
  "llvm_udiv a b = (if b = 0 then None else Some (a div b))"

definition llvm_urem :: "u64 \<Rightarrow> u64 \<Rightarrow> u64 option" where
  "llvm_urem a b = (if b = 0 then None else Some (a mod b))"

text \<open>A signed division is undefined also where its quotient has no word.\<close>

definition sdiv_defined :: "u64 \<Rightarrow> u64 \<Rightarrow> bool" where
  "sdiv_defined a b \<longleftrightarrow> b \<noteq> 0 \<and> \<not> (a = push_bit 63 1 \<and> b = - 1)"

definition llvm_sdiv :: "u64 \<Rightarrow> u64 \<Rightarrow> u64 option" where
  "llvm_sdiv a b = (if sdiv_defined a b then Some (word_of_int (sint a sdiv sint b)) else None)"

definition llvm_srem :: "u64 \<Rightarrow> u64 \<Rightarrow> u64 option" where
  "llvm_srem a b = (if sdiv_defined a b then Some (word_of_int (sint a smod sint b)) else None)"

definition zext_bool :: "bool \<Rightarrow> u64" where
  "zext_bool b = (if b then 1 else 0)"

section \<open>The value of an operation of two slots\<close>

definition shift_value :: "nat \<Rightarrow> u64 \<Rightarrow> u64 \<Rightarrow> u64 option" where
  "shift_value binary left right =
     (let large = 64 \<le> right;
          amount = (if large then 0 else right)
      in do {
        shifted \<leftarrow> (if binary = 6 then llvm_shl left amount else llvm_lshr left amount);
        Some (if large then 0 else shifted)
      })"

definition compare_value :: "nat \<Rightarrow> u64 \<Rightarrow> u64 \<Rightarrow> u64" where
  "compare_value binary left right =
     zext_bool
       (if binary = 8 then left = right
        else if binary = 9 then left \<noteq> right
        else if binary = 10 then left < right
        else if binary = 11 then left \<le> right
        else if binary = 12 then right < left
        else if binary = 13 then right \<le> left
        else if binary = 18 then sint left < sint right
        else if binary = 19 then sint left \<le> sint right
        else if binary = 20 then sint right < sint left
        else sint right \<le> sint left)"

definition udiv_value :: "nat \<Rightarrow> u64 \<Rightarrow> u64 \<Rightarrow> u64 option" where
  "udiv_value binary left right =
     (let isZero = (right = 0);
          divisor = (if isZero then 1 else right)
      in do {
        quotient \<leftarrow> (if binary = 14 then llvm_udiv left divisor else llvm_urem left divisor);
        Some (if isZero then (if binary = 14 then - 1 else left) else quotient)
      })"

definition sdiv_value :: "nat \<Rightarrow> u64 \<Rightarrow> u64 \<Rightarrow> u64 option" where
  "sdiv_value binary left right =
     (let isZero = (right = 0);
          minimum = push_bit 63 1;
          overflow = (left = minimum \<and> right = - 1);
          divisor = (if isZero then 1 else right);
          divisor = (if overflow then 1 else divisor)
      in do {
        quotient \<leftarrow> (if binary = 16 then llvm_sdiv left divisor else llvm_srem left divisor);
        let result = (if overflow then (if binary = 16 then left else 0) else quotient);
        let byZero = (if sint left < 0 then 1 else - 1);
        Some (if isZero then (if binary = 16 then byZero else left) else result)
      })"

definition bin_value :: "nat \<Rightarrow> u64 \<Rightarrow> u64 \<Rightarrow> u64 option" where
  "bin_value binary left right =
     (if binary = 0 then Some (left + right)
      else if binary = 1 then Some (left - right)
      else if binary = 2 then Some (left * right)
      else if binary = 3 then Some (left AND right)
      else if binary = 4 then Some (left OR right)
      else if binary = 5 then Some (left XOR right)
      else if binary = 6 \<or> binary = 7 then shift_value binary left right
      else if binary = 14 \<or> binary = 15 then udiv_value binary left right
      else if binary = 16 \<or> binary = 17 then sdiv_value binary left right
      else if binary \<le> 21 then Some (compare_value binary left right)
      else None)"

definition sign_extend_value :: "nat \<Rightarrow> u64 \<Rightarrow> u64 option" where
  "sign_extend_value width v =
     (if width < 64
      then do {
        let shift = 64 - width;
        shifted \<leftarrow> llvm_shl v (of_nat shift);
        llvm_ashr shifted (of_nat shift)
      }
      else Some v)"

definition ashr_value :: "nat \<Rightarrow> u64 \<Rightarrow> u64 \<Rightarrow> u64 option" where
  "ashr_value width left right =
     (let large = of_nat width \<le> right;
          amount = (if large then of_nat (width - 1) else right)
      in llvm_ashr left amount)"

section \<open>What an operation does\<close>

text \<open>
  To go on with the next operation, to leave the program with a value, to go to a label, or what ends a run
  without a result: an exception, or what the code leaves undefined.
\<close>

datatype 'c flow = Next 'c | Leave u64 'c | To nat 'c | Thrown | Undefined

definition load_slot :: "nat \<Rightarrow> ('x, 'e) cells \<Rightarrow> u64 option" where
  "load_slot i c = (if i < length (slots c) then Some (slots c ! i) else None)"

definition store_slot :: "nat \<Rightarrow> u64 \<Rightarrow> ('x, 'e) cells \<Rightarrow> ('x, 'e) cells option" where
  "store_slot i v c = (if i < length (slots c) then Some (c\<lparr>slots := (slots c)[i := v]\<rparr>) else None)"

definition going_on :: "'c option \<Rightarrow> 'c flow" where
  "going_on r = (case r of None \<Rightarrow> Undefined | Some c \<Rightarrow> Next c)"

text \<open>A code site, with what \<open>bap_jit_code_notify\<close> does without running Lean code done in place.\<close>

definition code_site :: "nat \<Rightarrow> u64 \<Rightarrow> ('x, 'e) cells \<Rightarrow> ('x, 'e) cells flow" where
  "code_site effectSlot pc c =
     (let observed = (codeObserver c \<noteq> None);
          fine = (error c = None);
          waits = (quietSites c \<and> \<not> leanRan c)
      in if fine \<and> \<not> observed then Next c
         else if fine \<and> waits then Next (c\<lparr>pendingSite := True, pendingPc := pc\<rparr>)
         else case code_notify pc c of
                (False, c1) \<Rightarrow> Next c1
              | (True, c1) \<Rightarrow> (case store_slot effectSlot 3 c1 of None \<Rightarrow> Undefined | Some c2 \<Rightarrow> Leave pc c2))"

fun exec_op :: "host \<Rightarrow> bool \<Rightarrow> jit_op \<Rightarrow> ('x, 'e) cells \<Rightarrow> ('x, 'e) cells flow" where
  "exec_op h hb (Set d v) c = going_on (store_slot d v c)"
| "exec_op h hb (Move d s) c = going_on (do { v \<leftarrow> load_slot s c; store_slot d v c })"
| "exec_op h hb (AddImm d s v) c = going_on (do { x \<leftarrow> load_slot s c; store_slot d (x + v) c })"
| "exec_op h hb (Jump v) c = Leave v c"
| "exec_op h hb (JumpSlot s) c = (case load_slot s c of None \<Rightarrow> Undefined | Some v \<Rightarrow> Leave v c)"
| "exec_op h hb (Bin b d l r) c =
     going_on (do { x \<leftarrow> load_slot l c; y \<leftarrow> load_slot r c; v \<leftarrow> bin_value b x y; store_slot d v c })"
| "exec_op h hb (AndImm d s v) c = going_on (do { x \<leftarrow> load_slot s c; store_slot d (x AND v) c })"
| "exec_op h hb (SignExtend w d s) c =
     going_on (do { x \<leftarrow> load_slot s c; v \<leftarrow> sign_extend_value w x; store_slot d v c })"
| "exec_op h hb (Select d q y n) c =
     going_on (do { b \<leftarrow> load_slot q c; x \<leftarrow> load_slot y c; z \<leftarrow> load_slot n c; store_slot d (if b \<noteq> 0 then x else z) c })"
| "exec_op h hb (Neg d s) c = going_on (do { x \<leftarrow> load_slot s c; store_slot d (- x) c })"
| "exec_op h hb (NotOp d s) c = going_on (do { x \<leftarrow> load_slot s c; store_slot d (NOT x) c })"
| "exec_op h hb (Ashr w d l r) c =
     going_on (do { x \<leftarrow> load_slot l c; y \<leftarrow> load_slot r c; v \<leftarrow> ashr_value w x y; store_slot d v c })"
| "exec_op h hb (Label i) c = Next c"
| "exec_op h hb (Goto i) c = To i c"
| "exec_op h hb (Branch q y n) c =
     (case load_slot q c of None \<Rightarrow> Undefined | Some b \<Rightarrow> To (if b \<noteq> 0 then y else n) c)"
| "exec_op h hb (MemLoad d a sz big) c =
     (case load_slot a c of
        None \<Rightarrow> Undefined
      | Some base \<Rightarrow>
          (case access_load h hb base sz big c of
             None \<Rightarrow> Thrown
           | Some (v, c1) \<Rightarrow> going_on (store_slot d v c1)))"
| "exec_op h hb (MemStore a s sz big) c =
     (case do { base \<leftarrow> load_slot a c; v \<leftarrow> load_slot s c; Some (base, v) } of
        None \<Rightarrow> Undefined
      | Some (base, v) \<Rightarrow>
          (case access_store h hb base sz big v c of
             None \<Rightarrow> Thrown
           | Some c1 \<Rightarrow> Next c1))"
| "exec_op h hb (Code e pc) c = code_site e pc c"

section \<open>What the operations compute\<close>

text \<open>
  The operations in the arithmetic of numbers: modulo \<open>2 ^ 64\<close>, with shifts as multiplication and division by
  powers of two, whatever the amount, and signed division that truncates. A division by zero has the
  results of SMT-LIB's bit vectors.
\<close>

fun denoteBin :: "bin_op \<Rightarrow> u64 \<Rightarrow> u64 \<Rightarrow> u64" where
  "denoteBin Add l r = of_nat (unat l + unat r)"
| "denoteBin Sub l r = of_int (uint l - uint r)"
| "denoteBin Mul l r = of_nat (unat l * unat r)"
| "denoteBin And l r = l AND r"
| "denoteBin Or l r = l OR r"
| "denoteBin Xor l r = l XOR r"
| "denoteBin Lshift l r = of_nat (unat l * 2 ^ unat r)"
| "denoteBin Rshift l r = of_nat (unat l div 2 ^ unat r)"
| "denoteBin Eq l r = of_bool (unat l = unat r)"
| "denoteBin Neq l r = of_bool (unat l \<noteq> unat r)"
| "denoteBin Lt l r = of_bool (unat l < unat r)"
| "denoteBin Le l r = of_bool (unat l \<le> unat r)"
| "denoteBin Gt l r = of_bool (unat r < unat l)"
| "denoteBin Ge l r = of_bool (unat r \<le> unat l)"
| "denoteBin Udiv l r = (if r = 0 then - 1 else of_nat (unat l div unat r))"
| "denoteBin Urem l r = of_nat (unat l mod unat r)"
| "denoteBin Sdiv l r = (if r = 0 then if sint l < 0 then 1 else - 1 else of_int (sint l sdiv sint r))"
| "denoteBin Srem l r = of_int (sint l smod sint r)"
| "denoteBin Slt l r = of_bool (sint l < sint r)"
| "denoteBin Sle l r = of_bool (sint l \<le> sint r)"
| "denoteBin Sgt l r = of_bool (sint r < sint l)"
| "denoteBin Sge l r = of_bool (sint r \<le> sint l)"

fun bin_number :: "bin_op \<Rightarrow> nat" where
  "bin_number Add = 0" | "bin_number Sub = 1" | "bin_number Mul = 2" | "bin_number And = 3" | "bin_number Or = 4"
| "bin_number Xor = 5" | "bin_number Lshift = 6" | "bin_number Rshift = 7" | "bin_number Eq = 8"
| "bin_number Neq = 9" | "bin_number Lt = 10" | "bin_number Le = 11" | "bin_number Gt = 12" | "bin_number Ge = 13"
| "bin_number Udiv = 14" | "bin_number Urem = 15" | "bin_number Sdiv = 16" | "bin_number Srem = 17"
| "bin_number Slt = 18" | "bin_number Sle = 19" | "bin_number Sgt = 20" | "bin_number Sge = 21"

lemma of_nat_pow64_zero: "64 \<le> n \<Longrightarrow> (of_nat (a * 2 ^ n) :: u64) = 0"
proof -
  assume "64 \<le> n"
  then have "(2 :: u64) ^ n = 0" by simp
  then show ?thesis by (simp only: of_nat_mult of_nat_power of_nat_numeral mult_zero_right)
qed

lemma shift_left_value: "shift_value 6 l r = Some (denoteBin Lshift l r)"
proof (cases "64 \<le> r")
  case True
  then have "64 \<le> unat r" by (simp add: word_le_nat_alt)
  then show ?thesis using True of_nat_pow64_zero [of "unat r" "unat l"] by (simp add: shift_value_def Let_def llvm_shl_def)
next
  case False
  then have "(of_nat (unat l * 2 ^ unat r) :: u64) = push_bit (unat r) l" by (simp add: push_bit_eq_mult)
  then show ?thesis using False by (simp add: shift_value_def Let_def llvm_shl_def not_le)
qed

lemma drop_bit_of_nat: "(of_nat (unat l div 2 ^ n) :: u64) = drop_bit n l"
  by (simp add: drop_bit_eq_div [symmetric] unat_drop_bit_eq [symmetric])

lemma shift_right_value: "shift_value 7 l r = Some (denoteBin Rshift l r)"
proof (cases "64 \<le> r")
  case True
  then have "64 \<le> unat r" by (simp add: word_le_nat_alt)
  then have "unat l < 2 ^ unat r" using unat64_less [of l] power_increasing [of 64 "unat r" "2::nat"] by linarith
  then show ?thesis using True by (simp add: shift_value_def Let_def llvm_lshr_def)
next
  case False
  then show ?thesis by (simp add: shift_value_def Let_def llvm_lshr_def not_le drop_bit_of_nat)
qed


lemma udiv_values:
  "udiv_value 14 l r = Some (denoteBin Udiv l r)" "udiv_value 15 l r = Some (denoteBin Urem l r)"
  by (simp_all add: udiv_value_def Let_def llvm_udiv_def llvm_urem_def word_arith_nat_div word_arith_nat_mod unat_eq_zero)

lemma smod_one [simp]: "(a :: int) smod 1 = 0"
  by (simp add: signed_modulo_int_def signed_divide_int_def)

lemma sdiv_values:
  "sdiv_value 16 l r = Some (denoteBin Sdiv l r)" "sdiv_value 17 l r = Some (denoteBin Srem l r)"
proof -
  consider (zero) "r = 0" | (overflow) "l = push_bit 63 1" "r = - 1" | (defined) "sdiv_defined l r"
    by (auto simp: sdiv_defined_def)
  then have "sdiv_value 16 l r = Some (denoteBin Sdiv l r) \<and> sdiv_value 17 l r = Some (denoteBin Srem l r)"
  proof cases
    case zero
    then show ?thesis by (simp add: sdiv_value_def Let_def llvm_sdiv_def llvm_srem_def sdiv_defined_def)
  next
    case overflow
    then show ?thesis by (simp add: sdiv_value_def Let_def llvm_sdiv_def llvm_srem_def sdiv_defined_def)
  next
    case defined
    then have "r \<noteq> 0" "\<not> (l = push_bit 63 1 \<and> r = - 1)" by (auto simp: sdiv_defined_def)
    with defined show ?thesis by (auto simp: sdiv_value_def Let_def llvm_sdiv_def llvm_srem_def)
  qed
  then show "sdiv_value 16 l r = Some (denoteBin Sdiv l r)" "sdiv_value 17 l r = Some (denoteBin Srem l r)" by auto
qed

lemma bin_value_denotes: "bin_value (bin_number b) l r = Some (denoteBin b l r)"
proof (cases b)
  case Sub
  then show ?thesis by (simp add: bin_value_def)
qed (auto simp: bin_value_def shift_left_value shift_right_value udiv_values sdiv_values compare_value_def zext_bool_def
    word_less_nat_alt word_le_nat_alt word_unat_eq_iff simp del: denoteBin.simps(7,8,15-18))

lemma bin_number_all: "binary \<le> 21 \<longleftrightarrow> (\<exists>b. bin_number b = binary)"
proof
  assume "binary \<le> 21"
  then have "binary = bin_number (bin_ops ! binary)"
    by (auto simp: bin_ops_def le_Suc_eq numeral_eq_Suc)
  then show "\<exists>b. bin_number b = binary" by metis
next
  assume "\<exists>b. bin_number b = binary"
  then obtain b where "bin_number b = binary" ..
  then show "binary \<le> 21" by (cases b) auto
qed


text \<open>The low bits of a word as a signed number of their width, and division by a power of two that rounds down.\<close>

lemma of_nat_64: "n < 64 \<Longrightarrow> unat (of_nat n :: u64) = n" "n < 64 \<Longrightarrow> (of_nat n :: u64) < 64"
  by (simp_all add: unat_of_nat word_less_nat_alt)

lemma signed_drop_bit_int: "signed_drop_bit n v = of_int (drop_bit n (sint v))" for v :: u64
  by (simp add: sint_signed_drop_bit_eq [symmetric])

lemma drop_bit_signed: "drop_bit m (signed_take_bit (n + m) a) = signed_take_bit n (drop_bit m a)" for a :: int
  by (rule bit_eqI) (auto simp: bit_drop_bit_eq bit_signed_take_bit_iff min_def add.commute)

lemma sign_extend_denotes:
  assumes "0 < width" "width \<le> 64"
  shows "sign_extend_value width v = Some (of_int (signed_take_bit (width - 1) (uint v)))"
proof (cases "width < 64")
  case True
  let ?s = "64 - width"
  have s: "?s < 64" "width - 1 + ?s = 63" using assms True by simp_all
  have "sint (push_bit ?s v) = signed_take_bit 63 (push_bit ?s (uint v))"
    by (simp add: sint_uint unsigned_push_bit_eq signed_take_bit_take_bit)
  then have "drop_bit ?s (sint (push_bit ?s v)) = signed_take_bit (width - 1) (uint v)"
    using drop_bit_signed [of ?s "width - 1" "push_bit ?s (uint v)"] s(2) by (simp add: drop_bit_push_bit)
  then show ?thesis
    using True of_nat_64 [OF s(1)] by (simp add: sign_extend_value_def llvm_shl_def llvm_ashr_def Let_def signed_drop_bit_int)
next
  case False
  then have "width = 64" using assms by simp
  moreover have "(of_int (signed_take_bit 63 (uint v)) :: u64) = v"
  proof -
    have "(of_int (sint v) :: u64) = v" by simp
    then show ?thesis by (simp only: sint_uint) simp
  qed
  ultimately show ?thesis by (simp add: sign_extend_value_def)
qed

lemma ashr_denotes:
  assumes "0 < width" "width \<le> 64"
  shows "ashr_value width l r = Some (of_int (sint l div 2 ^ min (unat r) (width - 1)))"
proof -
  let ?n = "min (unat r) (width - 1)"
  have n: "?n < 64" using assms by simp
  have w: "unat (of_nat width :: u64) = width" using assms by (simp add: unat_of_nat)
  have "(if (of_nat width :: u64) \<le> r then of_nat (width - 1) else r) = of_nat ?n"
    using assms by (auto simp: word_le_nat_alt w min_def)
  moreover have "signed_drop_bit ?n l = of_int (sint l div 2 ^ ?n)"
    by (simp add: signed_drop_bit_int drop_bit_eq_div)
  ultimately show ?thesis using of_nat_64 [OF n] by (simp add: ashr_value_def Let_def llvm_ashr_def)
qed

end
