(* ===== verification/JitCompile.thy ===== *)
theory JitCompile
  imports JitOps ByteArrays
begin

text \<open>
  What \<open>compileOps\<close> of \<open>native/bap_jit.cpp\<close> makes of a list of operations: the checks, with the error of
  each, and the blocks of the function, by the label that each starts at, with the operations whose code it
  has. Between operations everything is in the slots, so that a block is the list of its operations
  (\<open>JitOps\<close>). The blocks within the code of one operation, and what LLVM makes of the function, are not
  kept apart.
\<close>

section \<open>Checks\<close>

datatype compile_error = Invalid_label | Duplicate_label | Follows_terminator | Destination_too_large | Move_too_large
  | Addition_too_large | Jump_too_large | Invalid_binary | Mask_too_large | Invalid_sign_extension | Invalid_select
  | Invalid_unary | Invalid_shift | Missing_label | Invalid_goto | Missing_goto_target | Invalid_branch
  | Missing_branch_target | Invalid_load | Invalid_store | Invalid_effect_slot | Empty_program | No_terminator
  | Invalid_entry | Entry_without_label | Invalid_entry_slot | Invalid_module

definition getSlot :: "nat \<Rightarrow> nat option" where
  "getSlot v = (if \<not> is_scalar v then None else if v > (2 ^ 31 - 1) div 8 then None else Some v)"

abbreviation slot_ok :: "nat \<Rightarrow> bool" where
  "slot_ok v \<equiv> getSlot v \<noteq> None"

fun op_error :: "nat list \<Rightarrow> jit_op \<Rightarrow> compile_error option" where
  "op_error labels (Set d v) = (if slot_ok d then None else Some Destination_too_large)"
| "op_error labels (Move d s) = (if slot_ok d \<and> slot_ok s then None else Some Move_too_large)"
| "op_error labels (AddImm d s v) = (if slot_ok d \<and> slot_ok s then None else Some Addition_too_large)"
| "op_error labels (Jump v) = None"
| "op_error labels (JumpSlot s) = (if slot_ok s then None else Some Jump_too_large)"
| "op_error labels (Bin b d l r) =
     (if b \<le> 21 \<and> slot_ok d \<and> slot_ok l \<and> slot_ok r then None else Some Invalid_binary)"
| "op_error labels (AndImm d s v) = (if slot_ok d \<and> slot_ok s then None else Some Mask_too_large)"
| "op_error labels (SignExtend w d s) =
     (if slot_ok w \<and> w \<noteq> 0 \<and> w \<le> 64 \<and> slot_ok d \<and> slot_ok s then None else Some Invalid_sign_extension)"
| "op_error labels (Select d q y n) =
     (if slot_ok d \<and> slot_ok q \<and> slot_ok y \<and> slot_ok n then None else Some Invalid_select)"
| "op_error labels (Neg d s) = (if slot_ok d \<and> slot_ok s then None else Some Invalid_unary)"
| "op_error labels (NotOp d s) = (if slot_ok d \<and> slot_ok s then None else Some Invalid_unary)"
| "op_error labels (Ashr w d l r) =
     (if slot_ok w \<and> w \<noteq> 0 \<and> w \<le> 64 \<and> slot_ok d \<and> slot_ok l \<and> slot_ok r then None else Some Invalid_shift)"
| "op_error labels (Label i) =
     (if \<not> slot_ok i then Some Invalid_label else if i \<notin> set labels then Some Missing_label else None)"
| "op_error labels (Goto i) =
     (if \<not> slot_ok i then Some Invalid_goto else if i \<notin> set labels then Some Missing_goto_target else None)"
| "op_error labels (Branch q y n) =
     (if \<not> (slot_ok q \<and> slot_ok y \<and> slot_ok n) then Some Invalid_branch
      else if y \<notin> set labels \<or> n \<notin> set labels then Some Missing_branch_target else None)"
| "op_error labels (MemLoad d a sz big) =
     (if slot_ok d \<and> slot_ok a \<and> slot_ok sz \<and> sz \<noteq> 0 \<and> sz \<le> 8 then None else Some Invalid_load)"
| "op_error labels (MemStore a v sz big) =
     (if slot_ok a \<and> slot_ok v \<and> slot_ok sz \<and> sz \<noteq> 0 \<and> sz \<le> 8 then None else Some Invalid_store)"
| "op_error labels (Code e pc) = (if slot_ok e then None else Some Invalid_effect_slot)"

text \<open>The slots that an operation notes, and what it adds to the bytes that stores may write.\<close>

fun op_slots :: "jit_op \<Rightarrow> nat list" where
  "op_slots (Set d v) = [d]"
| "op_slots (Move d s) = [d, s]"
| "op_slots (AddImm d s v) = [d, s]"
| "op_slots (Jump v) = []"
| "op_slots (JumpSlot s) = [s]"
| "op_slots (Bin b d l r) = [d, l, r]"
| "op_slots (AndImm d s v) = [d, s]"
| "op_slots (SignExtend w d s) = [d, s]"
| "op_slots (Select d q y n) = [d, q, y, n]"
| "op_slots (Neg d s) = [d, s]"
| "op_slots (NotOp d s) = [d, s]"
| "op_slots (Ashr w d l r) = [d, l, r]"
| "op_slots (Label i) = []"
| "op_slots (Goto i) = []"
| "op_slots (Branch q y n) = [q]"
| "op_slots (MemLoad d a sz big) = [d, a]"
| "op_slots (MemStore a v sz big) = [a, v]"
| "op_slots (Code e pc) = [e]"

fun op_stores :: "jit_op \<Rightarrow> nat" where
  "op_stores (MemStore a v sz big) = sz"
| "op_stores _ = 0"

fun is_label :: "jit_op \<Rightarrow> bool" where
  "is_label (Label i) = True"
| "is_label _ = False"

fun is_terminator :: "jit_op \<Rightarrow> bool" where
  "is_terminator (Jump v) = True"
| "is_terminator (JumpSlot s) = True"
| "is_terminator (Goto i) = True"
| "is_terminator (Branch q y n) = True"
| "is_terminator _ = False"

section \<open>Blocks\<close>

text \<open>
  \<open>b_at\<close> is the block that operations go into, None the entry; \<open>b_max\<close> is the largest slot noted, None while
  there is none (\<open>hasSlots\<close>).
\<close>

record builder =
  b_at :: "nat option"
  b_blocks :: "nat option \<Rightarrow> jit_op list"
  b_max :: "nat option"
  b_stores :: nat

definition new_builder :: builder where
  "new_builder = \<lparr>b_at = None, b_blocks = (\<lambda>_. []), b_max = None, b_stores = 0\<rparr>"

definition noteSlot :: "nat \<Rightarrow> nat option \<Rightarrow> nat option" where
  "noteSlot slot highest = Some (case highest of None \<Rightarrow> slot | Some k \<Rightarrow> max k slot)"

definition terminated :: "jit_op list \<Rightarrow> bool" where
  "terminated ops \<longleftrightarrow> ops \<noteq> [] \<and> is_terminator (last ops)"

definition add_op :: "jit_op \<Rightarrow> builder \<Rightarrow> builder" where
  "add_op op b =
     (case op of
        Label i \<Rightarrow> b\<lparr>b_at := Some i\<rparr>
      | _ \<Rightarrow> b\<lparr>b_blocks := (b_blocks b)(b_at b := b_blocks b (b_at b) @ [op]),
              b_max := fold noteSlot (op_slots op) (b_max b), b_stores := b_stores b + op_stores op\<rparr>)"

fun collect_labels :: "nat list \<Rightarrow> jit_op list \<Rightarrow> compile_error + nat list" where
  "collect_labels labels [] = Inr labels"
| "collect_labels labels (Label i # ops) =
     (if \<not> slot_ok i then Inl Invalid_label
      else if i \<in> set labels then Inl Duplicate_label
      else collect_labels (labels @ [i]) ops)"
| "collect_labels labels (op # ops) = collect_labels labels ops"

fun emit :: "nat list \<Rightarrow> jit_op list \<Rightarrow> builder \<Rightarrow> compile_error + builder" where
  "emit labels [] b = Inr b"
| "emit labels (op # ops) b =
     (if \<not> is_label op \<and> terminated (b_blocks b (b_at b)) then Inl Follows_terminator
      else case op_error labels op of
             Some e \<Rightarrow> Inl e
           | None \<Rightarrow> emit labels ops (add_op op b))"

fun entry_error :: "nat list \<Rightarrow> nat list \<Rightarrow> compile_error option" where
  "entry_error labels [] = None"
| "entry_error labels (i # is) =
     (if \<not> slot_ok i then Some Invalid_entry
      else if i \<notin> set labels then Some Entry_without_label
      else entry_error labels is)"

section \<open>Programs\<close>

text \<open>
  \<open>dispatch\<close> is the slot that says where a program with entries starts, and its entries. LLVM's verifier, which
  the code runs on the function, refuses a switch that has a case twice.
\<close>

record program =
  blocks :: "nat option \<Rightarrow> jit_op list"
  dispatch :: "(nat \<times> nat list) option"
  maxSlot :: nat
  memoryStores :: nat

definition dispatch_error :: "nat list \<Rightarrow> (nat \<times> nat list) option \<Rightarrow> compile_error option" where
  "dispatch_error labels ents =
     (case ents of
        None \<Rightarrow> None
      | Some (slot, is) \<Rightarrow>
          (case entry_error labels is of
             Some e \<Rightarrow> Some e
           | None \<Rightarrow> if distinct is then None else Some Invalid_module))"

definition slot_count :: "nat option \<Rightarrow> (nat \<times> nat list) option \<Rightarrow> nat" where
  "slot_count highest ents =
     (let used = (case highest of None \<Rightarrow> 0 | Some k \<Rightarrow> k + 1)
      in case ents of None \<Rightarrow> used | Some (slot, _) \<Rightarrow> max used (slot + 1))"

definition compileOps :: "jit_op list \<Rightarrow> (nat \<times> nat list) option \<Rightarrow> compile_error + program" where
  "compileOps ops ents =
     (case collect_labels [] ops of
        Inl e \<Rightarrow> Inl e
      | Inr labels \<Rightarrow>
          (case emit labels ops new_builder of
             Inl e \<Rightarrow> Inl e
           | Inr b \<Rightarrow>
               if ops = [] then Inl Empty_program
               else if \<not> (\<forall>k \<in> set (None # map Some labels). terminated (b_blocks b k)) then Inl No_terminator
               else case dispatch_error labels ents of
                      Some e \<Rightarrow> Inl e
                    | None \<Rightarrow> Inr \<lparr>blocks = b_blocks b, dispatch = ents,
                                   maxSlot = slot_count (b_max b) ents, memoryStores = b_stores b\<rparr>))"

definition compile :: "jit_op list \<Rightarrow> compile_error + program" where
  "compile ops = compileOps ops None"

definition compile_entries :: "jit_op list \<Rightarrow> nat list \<Rightarrow> nat \<Rightarrow> compile_error + program" where
  "compile_entries ops is slot =
     (case getSlot slot of None \<Rightarrow> Inl Invalid_entry_slot | Some s \<Rightarrow> compileOps ops (Some (s, is)))"

section \<open>Running\<close>

datatype 'c outcome = Returned u64 'c | Threw | Undefined_run

text \<open>The operations of a block up to what ends it. Falling off its end, or going to no label, is undefined.\<close>

fun exec_block :: "host \<Rightarrow> bool \<Rightarrow> jit_op list \<Rightarrow> ('x, 'e) cells \<Rightarrow> ('x, 'e) cells flow" where
  "exec_block h hb [] c = Undefined"
| "exec_block h hb (op # ops) c =
     (case exec_op h hb op c of Next c' \<Rightarrow> exec_block h hb ops c' | f \<Rightarrow> f)"

text \<open>None if the program never returns.\<close>

partial_function (option) run_blocks ::
  "host \<Rightarrow> bool \<Rightarrow> program \<Rightarrow> nat option \<Rightarrow> ('x, 'e) cells \<Rightarrow> ('x, 'e) cells outcome option" where
  "run_blocks h hb p k c =
     (case exec_block h hb (blocks p k) c of
        To i c' \<Rightarrow> run_blocks h hb p (Some i) c'
      | Leave v c' \<Rightarrow> Some (Returned v c')
      | Thrown \<Rightarrow> Some Threw
      | _ \<Rightarrow> Some Undefined_run)"

definition start_block :: "program \<Rightarrow> ('x, 'e) cells \<Rightarrow> nat option option" where
  "start_block p c =
     (case dispatch p of
        None \<Rightarrow> Some None
      | Some (slot, is) \<Rightarrow>
          (case load_slot slot c of
             None \<Rightarrow> None
           | Some selected \<Rightarrow> Some (find (\<lambda>i. of_nat (i + 1) = selected) is)))"

definition run_function :: "host \<Rightarrow> bool \<Rightarrow> program \<Rightarrow> ('x, 'e) cells \<Rightarrow> ('x, 'e) cells outcome option" where
  "run_function h hb p c =
     (case start_block p c of None \<Rightarrow> Some Undefined_run | Some k \<Rightarrow> run_blocks h hb p k c)"

end
