(* ===== verification/JitSound.thy ===== *)
theory JitSound
  imports JitCompile
begin

text \<open>
  What is shown of compiled programs: their blocks run as their operations say, by the reference semantics that
  \<open>src/Bap/Proofs/Jit.lean\<close> has as \<open>nextCfg\<close>: a program is what is left of its list, and a label is looked
  up in the whole list (\<open>run_blocks_ops\<close>); and no run of a program that was compiled, on a state with the
  slots that it says, gets to anything undefined (\<open>run_function_defined\<close>).
\<close>

section \<open>The reference semantics\<close>

fun afterLabel :: "jit_op list \<Rightarrow> nat \<Rightarrow> jit_op list option" where
  "afterLabel [] i = None"
| "afterLabel (Label j # ops) i = (if j = i then Some ops else afterLabel ops i)"
| "afterLabel (op # ops) i = afterLabel ops i"

partial_function (option) run_ops ::
  "host \<Rightarrow> bool \<Rightarrow> jit_op list \<Rightarrow> jit_op list \<Rightarrow> ('x, 'e) cells \<Rightarrow> ('x, 'e) cells outcome option" where
  "run_ops h hb prog ops c =
     (case ops of
        [] \<Rightarrow> Some Undefined_run
      | op # rest \<Rightarrow>
          (case exec_op h hb op c of
             Next c' \<Rightarrow> run_ops h hb prog rest c'
           | To i c' \<Rightarrow> (case afterLabel prog i of None \<Rightarrow> Some Undefined_run | Some t \<Rightarrow> run_ops h hb prog t c')
           | Leave v c' \<Rightarrow> Some (Returned v c')
           | Thrown \<Rightarrow> Some Threw
           | Undefined \<Rightarrow> Some Undefined_run))"

fun labels_of :: "jit_op list \<Rightarrow> nat list" where
  "labels_of [] = []"
| "labels_of (Label i # ops) = i # labels_of ops"
| "labels_of (op # ops) = labels_of ops"

section \<open>The blocks of a program\<close>

text \<open>The operations up to the first that ends a block, and that one comes before any label.\<close>

fun until_end :: "jit_op list \<Rightarrow> jit_op list" where
  "until_end [] = []"
| "until_end (op # ops) = (if is_terminator op then [op] else op # until_end ops)"

fun ended :: "jit_op list \<Rightarrow> bool" where
  "ended [] = False"
| "ended (op # ops) \<longleftrightarrow> is_terminator op \<or> \<not> is_label op \<and> ended ops"

lemma labels_of_cons: "\<not> is_label op \<Longrightarrow> labels_of (op # ops) = labels_of ops"
  by (cases op) auto

lemma afterLabel_cons: "\<not> is_label op \<Longrightarrow> afterLabel (op # ops) = afterLabel ops"
  by (cases op) (auto simp: fun_eq_iff)

lemma is_labelE: "is_label op \<Longrightarrow> (\<And>i. op = Label i \<Longrightarrow> P) \<Longrightarrow> P"
  by (cases op) auto

lemma afterLabel_None: "afterLabel ops i = None \<longleftrightarrow> i \<notin> set (labels_of ops)"
  by (induction ops i rule: afterLabel.induct) auto

lemma add_op_simps:
  "add_op (Label i) b = b\<lparr>b_at := Some i\<rparr>"
  "\<not> is_label op \<Longrightarrow> b_at (add_op op b) = b_at b"
  "\<not> is_label op \<Longrightarrow> b_blocks (add_op op b) = (b_blocks b)(b_at b := b_blocks b (b_at b) @ [op])"
  by (auto simp: add_op_def split: jit_op.splits)

lemma collect_labels_ok:
  "collect_labels ls ops = Inr ls' \<Longrightarrow> ls' = ls @ labels_of ops \<and> (distinct ls \<longrightarrow> distinct ls')"
  by (induction ls ops rule: collect_labels.induct) (auto split: if_splits)

lemma terminated_append [simp]: "terminated (ops @ [op]) = is_terminator op"
  by (simp add: terminated_def)

text \<open>Operations only ever go to the current block, and those of labels to come.\<close>

lemma emit_other:
  assumes "emit ls ops b = Inr b'" "k \<noteq> b_at b" "\<forall>i \<in> set (labels_of ops). k \<noteq> Some i"
  shows "b_blocks b' k = b_blocks b k"
  using assms
proof (induction ops arbitrary: b)
  case (Cons op ops)
  then have e: "emit ls ops (add_op op b) = Inr b'" by (auto split: if_splits option.splits)
  show ?case
  proof (cases "is_label op")
    case True
    then obtain i where "op = Label i" by (rule is_labelE)
    then show ?thesis using Cons.IH [OF e] Cons.prems(3) by (simp add: add_op_simps)
  next
    case False
    then show ?thesis using Cons.IH [OF e] Cons.prems(2,3) by (simp add: add_op_simps labels_of_cons)
  qed
qed simp

lemma emit_current:
  assumes "emit ls ops b = Inr b'" "\<forall>i \<in> set (labels_of ops). b_at b \<noteq> Some i" "terminated (b_blocks b' (b_at b))"
  shows "if terminated (b_blocks b (b_at b)) then b_blocks b' (b_at b) = b_blocks b (b_at b)
    else ended ops \<and> b_blocks b' (b_at b) = b_blocks b (b_at b) @ until_end ops"
  using assms
proof (induction ops arbitrary: b)
  case (Cons op ops)
  then have e: "emit ls ops (add_op op b) = Inr b'" by (auto split: if_splits option.splits)
  show ?case
  proof (cases "is_label op")
    case True
    then obtain i where i: "op = Label i" by (rule is_labelE)
    have "b_blocks b' (b_at b) = b_blocks b (b_at b)"
      using emit_other [OF e, of "b_at b"] Cons.prems(2) i by (simp add: add_op_simps)
    then show ?thesis using Cons.prems(3) by simp
  next
    case False
    then have nt: "\<not> terminated (b_blocks b (b_at b))" using Cons.prems(1) by (auto split: if_splits)
    show ?thesis
      using Cons.IH [OF e] Cons.prems(2,3) False nt by (auto simp: add_op_simps labels_of_cons split: if_splits)
  qed
qed simp

lemma emit_labels:
  assumes "emit ls ops b = Inr b'" "distinct (labels_of ops)" "i \<in> set (labels_of ops)"
    "\<forall>j \<in> set (labels_of ops). b_at b \<noteq> Some j \<and> b_blocks b (Some j) = []" "terminated (b_blocks b' (Some i))"
  shows "\<exists>t. afterLabel ops i = Some t \<and> ended t \<and> b_blocks b' (Some i) = until_end t"
  using assms
proof (induction ops arbitrary: b)
  case (Cons op ops)
  then have e: "emit ls ops (add_op op b) = Inr b'" by (auto split: if_splits option.splits)
  show ?case
  proof (cases "is_label op")
    case True
    then obtain j where j: "op = Label j" by (rule is_labelE)
    show ?thesis
    proof (cases "i = j")
      case True
      have cur: "if terminated (b_blocks (add_op op b) (Some j)) then b_blocks b' (Some j) = b_blocks (add_op op b) (Some j)
        else ended ops \<and> b_blocks b' (Some j) = b_blocks (add_op op b) (Some j) @ until_end ops"
      proof -
        have "\<forall>k \<in> set (labels_of ops). b_at (add_op op b) \<noteq> Some k" using Cons.prems(2) j by (auto simp: add_op_simps)
        from emit_current [OF e this] show ?thesis using Cons.prems(5) True j by (simp add: add_op_simps split: if_splits)
      qed
      have "b_blocks (add_op op b) (Some j) = []" using Cons.prems(4) j by (simp add: add_op_simps)
      then show ?thesis using cur True j by (simp add: terminated_def)
    next
      case False
      have "\<forall>k \<in> set (labels_of ops). b_at (add_op op b) \<noteq> Some k \<and> b_blocks (add_op op b) (Some k) = []"
        using Cons.prems(2,4) j by (auto simp: add_op_simps)
      then show ?thesis using Cons.IH [OF e] Cons.prems(2,3,5) j False by simp
    qed
  next
    case False
    then have "\<forall>k \<in> set (labels_of ops). b_at (add_op op b) \<noteq> Some k \<and> b_blocks (add_op op b) (Some k) = []"
      using Cons.prems(4) by (auto simp: add_op_simps labels_of_cons)
    then show ?thesis using Cons.IH [OF e] Cons.prems(2,3,5) False by (simp add: labels_of_cons afterLabel_cons)
  qed
qed simp

text \<open>Where a block starts in the operations.\<close>

definition place :: "jit_op list \<Rightarrow> nat option \<Rightarrow> jit_op list option" where
  "place ops k = (case k of None \<Rightarrow> Some ops | Some i \<Rightarrow> afterLabel ops i)"

lemma compileOps_InrD:
  assumes "compileOps ops ents = Inr p"
  obtains b where "distinct (labels_of ops)" "emit (labels_of ops) ops new_builder = Inr b"
    "\<forall>k \<in> set (None # map Some (labels_of ops)). terminated (b_blocks b k)" "dispatch_error (labels_of ops) ents = None"
    "p = \<lparr>blocks = b_blocks b, dispatch = ents, maxSlot = slot_count (b_max b) ents, memoryStores = b_stores b\<rparr>"
proof -
  obtain ls where ls: "collect_labels [] ops = Inr ls" using assms by (cases "collect_labels [] ops") (auto simp: compileOps_def)
  have l: "ls = labels_of ops" "distinct ls" using collect_labels_ok [OF ls] by auto
  obtain b where b: "emit ls ops new_builder = Inr b" using assms ls by (cases "emit ls ops new_builder") (auto simp: compileOps_def)
  show thesis
    by (rule that [of b]) (use assms ls b l in \<open>auto simp: compileOps_def split: if_splits option.splits\<close>)
qed

lemma compiled_blocks:
  assumes "compileOps ops ents = Inr p" "place ops k = Some t"
  shows "ended t \<and> blocks p k = until_end t"
  using assms(1)
proof (rule compileOps_InrD)
  fix b assume d: "distinct (labels_of ops)" and e: "emit (labels_of ops) ops new_builder = Inr b"
    and ends: "\<forall>k \<in> set (None # map Some (labels_of ops)). terminated (b_blocks b k)"
    and p: "p = \<lparr>blocks = b_blocks b, dispatch = ents, maxSlot = slot_count (b_max b) ents, memoryStores = b_stores b\<rparr>"
  show ?thesis
  proof (cases k)
    case None
    have "terminated (b_blocks b (b_at new_builder))" using ends by (simp add: new_builder_def)
    from emit_current [OF e _ this] show ?thesis
      using assms(2) None p by (simp add: new_builder_def terminated_def place_def)
  next
    case (Some i)
    then have "i \<in> set (labels_of ops)" using assms(2) afterLabel_None [of ops i] by (auto simp: place_def)
    from emit_labels [OF e d this] show ?thesis
      using assms(2) Some p ends \<open>i \<in> _\<close> by (auto simp: new_builder_def place_def)
  qed
qed

section \<open>Blocks run as their operations\<close>

text \<open>What a run is from within a block on, at the operations that are left of it.\<close>

definition finish_block ::
  "host \<Rightarrow> bool \<Rightarrow> program \<Rightarrow> jit_op list \<Rightarrow> ('x, 'e) cells \<Rightarrow> ('x, 'e) cells outcome option" where
  "finish_block h hb p ops c =
     (case exec_block h hb ops c of
        To i c' \<Rightarrow> run_blocks h hb p (Some i) c'
      | Leave v c' \<Rightarrow> Some (Returned v c')
      | Thrown \<Rightarrow> Some Threw
      | _ \<Rightarrow> Some Undefined_run)"

lemma run_blocks_finish: "run_blocks h hb p k c = finish_block h hb p (blocks p k) c"
  by (subst run_blocks.simps) (simp add: finish_block_def)

lemma finish_block_Cons:
  "finish_block h hb p (op # ops) c =
     (case exec_op h hb op c of
        Next c' \<Rightarrow> finish_block h hb p ops c'
      | To i c' \<Rightarrow> run_blocks h hb p (Some i) c'
      | Leave v c' \<Rightarrow> Some (Returned v c')
      | Thrown \<Rightarrow> Some Threw
      | Undefined \<Rightarrow> Some Undefined_run)"
  by (simp add: finish_block_def split: flow.split)

lemma not_Next:
  "is_terminator op \<Longrightarrow> exec_op h hb op c \<noteq> Next c'"
  by (cases op) (auto split: option.splits)

lemma exec_To:
  assumes "exec_op h hb op c = To i c'"
  shows "is_terminator op \<and> (op = Goto i \<or> (\<exists>q y n. op = Branch q y n \<and> (i = y \<or> i = n)))"
proof (cases op)
  case (Code e pc)
  then show ?thesis using assms by (auto simp: code_site_def Let_def split: if_splits prod.splits bool.splits option.splits)
qed (use assms in \<open>auto simp: going_on_def split: option.splits if_splits prod.splits\<close>)

text \<open>Where the operations of a program that was compiled go is a label that they have.\<close>

lemma emit_valid: "emit ls ops b = Inr b' \<Longrightarrow> op \<in> set ops \<Longrightarrow> op_error ls op = None"
  by (induction ops arbitrary: b) (auto split: if_splits option.splits)

lemma compiled_valid: "compileOps ops ents = Inr p \<Longrightarrow> op \<in> set ops \<Longrightarrow> op_error (labels_of ops) op = None"
  by (erule compileOps_InrD) (blast dest: emit_valid)

lemma afterLabel_subset: "afterLabel ops i = Some t \<Longrightarrow> set t \<subseteq> set ops"
proof (induction ops)
  case (Cons op ops)
  then show ?case by (cases "is_label op") (auto simp: afterLabel_cons elim!: is_labelE split: if_splits)
qed simp

lemma place_subset: "place ops k = Some t \<Longrightarrow> set t \<subseteq> set ops"
  by (auto simp: place_def dest: afterLabel_subset split: option.splits)

lemma until_end_subset: "set (until_end ops) \<subseteq> set ops"
  by (induction ops) auto

lemma goes_to_place:
  assumes "compileOps ops ents = Inr p" "op \<in> set ops" "exec_op h hb op c = To i c'"
  obtains t where "place ops (Some i) = Some t"
proof -
  have "i \<in> set (labels_of ops)"
    using exec_To [OF assms(3)] compiled_valid [OF assms(1,2)] by (auto split: if_splits)
  then show thesis using that afterLabel_None [of ops i] by (auto simp: place_def)
qed

lemma run_ops_block:
  assumes "ended t"
  shows "run_ops h hb prog t c =
    (case exec_block h hb (until_end t) c of
       To i c' \<Rightarrow> (case afterLabel prog i of None \<Rightarrow> Some Undefined_run | Some t' \<Rightarrow> run_ops h hb prog t' c')
     | Leave v c' \<Rightarrow> Some (Returned v c')
     | Thrown \<Rightarrow> Some Threw
     | _ \<Rightarrow> Some Undefined_run)"
  using assms
proof (induction t arbitrary: c)
  case (Cons op ops)
  show ?case
    by (subst run_ops.simps)
      (use Cons not_Next [of op h hb c] in \<open>auto split: flow.split\<close>)
qed simp

lemma block_targets:
  assumes "exec_block h hb ops c = To i c'"
  shows "\<exists>op \<in> set ops. \<exists>c1. exec_op h hb op c1 = To i c'"
  using assms by (induction ops arbitrary: c) (auto split: flow.splits)

lemma run_blocks_run_ops:
  assumes "run_blocks h hb p k c = Some r" "compileOps ops ents = Inr p" "place ops k = Some t"
  shows "run_ops h hb ops t c = Some r"
proof -
  have "compileOps ops ents = Inr p \<longrightarrow> (\<forall>t. place ops k = Some t \<longrightarrow> run_ops h hb ops t c = Some r)"
  proof (rule run_blocks.raw_induct [where P = "\<lambda>h hb p k c r. compileOps ops ents = Inr p \<longrightarrow>
      (\<forall>t. place ops k = Some t \<longrightarrow> run_ops h hb ops t c = Some r)", OF _ assms(1)], intro impI allI)
    fix run h hb p k c r t
    assume IH: "\<And>h hb p k c r. run h hb p k c = Some r \<Longrightarrow>
        compileOps ops ents = Inr p \<longrightarrow> (\<forall>t. place ops k = Some t \<longrightarrow> run_ops h hb ops t c = Some r)"
      and run: "(case exec_block h hb (blocks p k) c of To i c' \<Rightarrow> run h hb p (Some i) c' | Leave v c' \<Rightarrow> Some (Returned v c')
        | Thrown \<Rightarrow> Some Threw | _ \<Rightarrow> Some Undefined_run) = Some r"
      and comp: "compileOps ops ents = Inr p" and t: "place ops k = Some t"
    have b: "ended t" "blocks p k = until_end t" using compiled_blocks [OF comp t] by auto
    show "run_ops h hb ops t c = Some r"
    proof (cases "exec_block h hb (until_end t) c")
      case (To i c')
      then obtain op c1 where op: "op \<in> set (until_end t)" "exec_op h hb op c1 = To i c'" using block_targets by blast
      then have "op \<in> set ops" using until_end_subset place_subset [OF t] by blast
      from goes_to_place [OF comp this op(2)] obtain t' where t': "place ops (Some i) = Some t'" .
      have "run_ops h hb ops t' c' = Some r" using IH [of h hb p "Some i" c' r] run To b(2) comp t' by simp
      then show ?thesis using t' To by (simp add: run_ops_block [OF b(1)] place_def)
    qed (use run b in \<open>auto simp: run_ops_block\<close>)
  qed
  then show ?thesis using assms(2,3) by blast
qed

lemma run_ops_finish:
  assumes "run_ops h hb ops t c = Some r" "compileOps ops ents = Inr p" "ended t" "set t \<subseteq> set ops"
  shows "finish_block h hb p (until_end t) c = Some r"
proof -
  have "prog = ops \<longrightarrow> ended t \<longrightarrow> set t \<subseteq> set ops \<longrightarrow> finish_block h hb p (until_end t) c = Some r"
    if "run_ops h hb prog t c = Some r" for prog
  proof (rule run_ops.raw_induct [where P = "\<lambda>h hb prog t c r. prog = ops \<longrightarrow> ended t \<longrightarrow> set t \<subseteq> set ops \<longrightarrow>
      finish_block h hb p (until_end t) c = Some r", OF _ that], intro impI)
    fix run h hb prog t c r
    assume IH: "\<And>h hb prog t c r. run h hb prog t c = Some r \<Longrightarrow> prog = ops \<longrightarrow> ended t \<longrightarrow> set t \<subseteq> set ops \<longrightarrow>
        finish_block h hb p (until_end t) c = Some r"
      and run: "(case t of [] \<Rightarrow> Some Undefined_run | op # rest \<Rightarrow>
        (case exec_op h hb op c of Next c' \<Rightarrow> run h hb prog rest c'
         | To i c' \<Rightarrow> (case afterLabel prog i of None \<Rightarrow> Some Undefined_run | Some t \<Rightarrow> run h hb prog t c')
         | Leave v c' \<Rightarrow> Some (Returned v c') | Thrown \<Rightarrow> Some Threw | Undefined \<Rightarrow> Some Undefined_run)) = Some r"
      and prog: "prog = ops" and t: "ended t" "set t \<subseteq> set ops"
    obtain op rest where op: "t = op # rest" using t(1) by (cases t) auto
    show "finish_block h hb p (until_end t) c = Some r"
    proof (cases "exec_op h hb op c")
      case (Next c')
      then have "\<not> is_terminator op" using not_Next by metis
      then show ?thesis using IH [of h hb prog rest c' r] run op Next prog t by (simp add: finish_block_Cons)
    next
      case (To i c')
      have "op \<in> set ops" using op t(2) by simp
      from goes_to_place [OF assms(2) this To] obtain t' where t': "place ops (Some i) = Some t'" .
      have b: "ended t'" "blocks p (Some i) = until_end t'" using compiled_blocks [OF assms(2) t'] by auto
      have "finish_block h hb p (until_end t') c' = Some r"
        using IH [of h hb prog t' c' r] run op To prog t' b(1) place_subset [OF t'] by (simp add: place_def)
      then show ?thesis using op To b(2) exec_To [OF To] by (simp add: finish_block_Cons run_blocks_finish)
    qed (use run op in \<open>auto simp: finish_block_Cons\<close>)
  qed
  then show ?thesis using assms by blast
qed

lemma run_blocks_ops:
  assumes "compileOps ops ents = Inr p" "place ops k = Some t"
  shows "run_blocks h hb p k c = run_ops h hb ops t c"
proof (rule option_Some_eqI)
  fix r
  have b: "ended t" "blocks p k = until_end t" using compiled_blocks [OF assms] by auto
  show "run_blocks h hb p k c = Some r \<longleftrightarrow> run_ops h hb ops t c = Some r"
    using run_blocks_run_ops [OF _ assms] run_ops_finish [OF _ assms(1) b(1) place_subset [OF assms(2)]] b(2)
    by (auto simp: run_blocks_finish)
qed

section \<open>Nothing undefined\<close>

definition noted_slot :: "nat option \<Rightarrow> nat \<Rightarrow> bool" where
  "noted_slot highest s \<longleftrightarrow> (\<exists>k. highest = Some k \<and> s \<le> k)"

lemma noteSlot_noted:
  "noted_slot (fold noteSlot ss m) s \<longleftrightarrow> noted_slot m s \<or> (\<exists>s' \<in> set ss. s \<le> s')"
proof (induction ss arbitrary: m)
  case (Cons x ss)
  have "noted_slot (noteSlot x m) s \<longleftrightarrow> noted_slot m s \<or> s \<le> x"
    by (cases m) (auto simp: noteSlot_def noted_slot_def)
  then show ?case using Cons by auto
qed simp

lemma add_op_max: "b_max (add_op op b) = fold noteSlot (op_slots op) (b_max b)"
  by (cases op) (auto simp: add_op_def)

lemma emit_max:
  "emit ls ops b = Inr b' \<Longrightarrow> (noted_slot (b_max b) s \<or> (\<exists>op \<in> set ops. s \<in> set (op_slots op))) \<Longrightarrow> noted_slot (b_max b') s"
proof (induction ops arbitrary: b)
  case (Cons op ops)
  then have e: "emit ls ops (add_op op b) = Inr b'" by (auto split: if_splits option.splits)
  show ?case using Cons.IH [OF e] Cons.prems(2) by (auto simp: add_op_max noteSlot_noted)
qed auto

lemma compiled_slots:
  assumes "compileOps ops ents = Inr p" "op \<in> set ops" "s \<in> set (op_slots op)"
  shows "s < maxSlot p"
  using assms(1)
proof (rule compileOps_InrD)
  fix b assume "emit (labels_of ops) ops new_builder = Inr b"
    "p = \<lparr>blocks = b_blocks b, dispatch = ents, maxSlot = slot_count (b_max b) ents, memoryStores = b_stores b\<rparr>"
  moreover from this(1) have "noted_slot (b_max b) s" by (rule emit_max) (use assms(2,3) in blast)
  ultimately show ?thesis by (auto simp: noted_slot_def slot_count_def Let_def split: option.split)
qed

text \<open>A step of a run keeps what a run relies on.\<close>

definition run_ok :: "nat \<Rightarrow> ('x, 'e) cells \<Rightarrow> bool" where
  "run_ok n c \<longleftrightarrow> cells_ok c \<and> length (slots c) = n"

fun flow_ok :: "nat \<Rightarrow> ('x, 'e) cells flow \<Rightarrow> bool" where
  "flow_ok n (Next c) = run_ok n c"
| "flow_ok n (Leave v c) = run_ok n c"
| "flow_ok n (To i c) = run_ok n c"
| "flow_ok n Thrown = True"
| "flow_ok n Undefined = False"

lemma slots_update_ok: "cells_ok c \<Longrightarrow> cells_ok (c\<lparr>slots := ss\<rparr>)"
  by (simp add: cells_ok_def entries_ok_def quiet_ok_def)

lemma store_slot_ok:
  "run_ok n c \<Longrightarrow> d < n \<Longrightarrow> \<exists>c'. store_slot d v c = Some c' \<and> run_ok n c'"
  by (auto simp: store_slot_def run_ok_def slots_update_ok)

lemma load_slot_ok: "run_ok n c \<Longrightarrow> d < n \<Longrightarrow> load_slot d c = Some (slots c ! d)"
  by (simp add: load_slot_def run_ok_def)

lemma going_on_store: "run_ok n c \<Longrightarrow> d < n \<Longrightarrow> flow_ok n (going_on (store_slot d v c))"
  using store_slot_ok [of n c d v] by (auto simp: going_on_def)

lemma bin_value_defined: "b \<le> 21 \<Longrightarrow> \<exists>v. bin_value b x y = Some v"
  using bin_number_all [of b] bin_value_denotes by metis

lemma code_site_ok:
  assumes "run_ok n c" "e < n"
  shows "flow_ok n (code_site e pc c)"
proof -
  obtain stop c1 where n: "code_notify pc c = (stop, c1)" by fastforce
  have "cells_ok c1 \<and> kept c c1" using assms(1) code_notify_ok [OF _ n] by (simp add: run_ok_def)
  then have "run_ok n c1" using assms(1) by (simp add: run_ok_def kept_def)
  then show ?thesis using assms store_slot_ok [of n c1 e 3] cells_ok_flags(3) n
    by (auto simp: code_site_def Let_def run_ok_def split: bool.split option.split)
qed

lemma exec_op_ok:
  assumes "op_error ls op = None" "\<And>s. s \<in> set (op_slots op) \<Longrightarrow> s < n" "run_ok n c"
  shows "flow_ok n (exec_op h hb op c)"
proof (cases op)
  case (Bin b d l r)
  then have "b \<le> 21" using assms(1) by (auto split: if_splits)
  then obtain v where "bin_value b (slots c ! l) (slots c ! r) = Some v" using bin_value_defined by blast
  then show ?thesis using Bin assms going_on_store [OF assms(3)] by (simp add: load_slot_ok [OF assms(3)])
next
  case (SignExtend w d s)
  then have "0 < w" "w \<le> 64" using assms(1) by (auto split: if_splits)
  then show ?thesis
    using SignExtend assms going_on_store [OF assms(3)] by (simp add: load_slot_ok [OF assms(3)] sign_extend_denotes)
next
  case (Ashr w d l r)
  then have "0 < w" "w \<le> 64" using assms(1) by (auto split: if_splits)
  then show ?thesis
    using Ashr assms going_on_store [OF assms(3)] by (simp add: load_slot_ok [OF assms(3)] ashr_denotes)
next
  case (MemLoad d a sz big)
  then have sz: "0 < sz" "sz \<le> 8" using assms(1) by (auto split: if_splits)
  have ok: "cells_ok c" using assms(3) by (simp add: run_ok_def)
  obtain v c1 where l: "access_load h hb (slots c ! a) sz big c = Some (v, c1)" "cells_ok c1"
      "kept (memory_notify False (slots c ! a) (of_nat sz) 0 c) c1"
    using access_load_ok [OF ok sz refl] by blast
  then have "run_ok n c1" using assms(3) memory_notify_ok [OF ok] by (simp add: run_ok_def kept_def)
  then show ?thesis using MemLoad assms(2) l(1) going_on_store [of n c1 d v] by (simp add: load_slot_ok [OF assms(3)])
next
  case (MemStore a s sz big)
  then have sz: "0 < sz" "sz \<le> 8" using assms(1) by (auto split: if_splits)
  have ok: "cells_ok c" using assms(3) by (simp add: run_ok_def)
  show ?thesis
  proof (cases "access_store h hb (slots c ! a) sz big (slots c ! s) c")
    case (Some c1)
    then obtain c2 where "stored_cells (slots c ! a) sz big (slots c ! s) c2 c1"
        "kept (memory_notify True (slots c ! a) (of_nat sz) (slots c ! s) c) c2"
      using access_store_ok [OF ok sz refl] by blast
    then have "run_ok n c1" using assms(3) memory_notify_ok [OF ok] by (simp add: run_ok_def kept_def stored_cells_def)
    then show ?thesis using MemStore assms(2) Some by (simp add: load_slot_ok [OF assms(3)])
  qed (use MemStore assms(2) in \<open>simp add: load_slot_ok [OF assms(3)]\<close>)
qed (use assms going_on_store [OF assms(3)] code_site_ok [OF assms(3)] in \<open>simp_all add: load_slot_ok [OF assms(3)]\<close>)


definition ops_ok :: "nat \<Rightarrow> nat list \<Rightarrow> jit_op list \<Rightarrow> bool" where
  "ops_ok n ls ops \<longleftrightarrow> (\<forall>op \<in> set ops. op_error ls op = None \<and> (\<forall>s \<in> set (op_slots op). s < n))"

text \<open>
  What a program that was compiled has at every place that it gets to: an end before the next label, and
  operations that are valid for the state.
\<close>

definition good_ops :: "nat \<Rightarrow> jit_op list \<Rightarrow> jit_op list \<Rightarrow> bool" where
  "good_ops n prog t \<longleftrightarrow> ended t \<and> ops_ok n (labels_of prog) t"

definition good_prog :: "nat \<Rightarrow> jit_op list \<Rightarrow> bool" where
  "good_prog n prog \<longleftrightarrow> (\<forall>i t. afterLabel prog i = Some t \<longrightarrow> good_ops n prog t)"

lemma good_opsE:
  assumes "good_ops n prog t"
  obtains op rest where "t = op # rest" "op_error (labels_of prog) op = None" "\<And>s. s \<in> set (op_slots op) \<Longrightarrow> s < n"
    "\<not> is_terminator op \<Longrightarrow> good_ops n prog rest"
  using assms by (cases t) (auto simp: good_ops_def ops_ok_def)

lemma good_target:
  assumes "good_prog n prog" "op_error (labels_of prog) op = None" "op = Goto i \<or> (\<exists>q y z. op = Branch q y z \<and> (i = y \<or> i = z))"
  obtains t where "afterLabel prog i = Some t" "good_ops n prog t"
proof -
  have "i \<in> set (labels_of prog)" using assms(2,3) by (auto split: if_splits)
  then show thesis using that assms(1) afterLabel_None [of prog i] by (auto simp: good_prog_def)
qed

text \<open>What every operation keeps, a run that returns keeps, and none gets to anything undefined.\<close>

lemma run_ops_invariant:
  assumes "run_ops h hb prog t c = Some r" "good_prog n prog" "good_ops n prog t" "run_ok n c" "I c"
    and step: "\<And>op c d. op_error (labels_of prog) op = None \<Longrightarrow> run_ok n c \<Longrightarrow> I c \<Longrightarrow>
      d \<in> set_flow (exec_op h hb op c) \<Longrightarrow> I d"
  shows "r \<noteq> Undefined_run \<and> (\<forall>v c'. r = Returned v c' \<longrightarrow> run_ok n c' \<and> I c')"
proof -
  have "h' = h \<longrightarrow> hb' = hb \<longrightarrow> prog' = prog \<longrightarrow> good_ops n prog t \<longrightarrow> run_ok n c \<longrightarrow> I c \<longrightarrow>
      r \<noteq> Undefined_run \<and> (\<forall>v c'. r = Returned v c' \<longrightarrow> run_ok n c' \<and> I c')"
    if "run_ops h' hb' prog' t c = Some r" for h' hb' prog'
  proof (rule run_ops.raw_induct [where P = "\<lambda>h' hb' prog' t c r. h' = h \<longrightarrow> hb' = hb \<longrightarrow> prog' = prog \<longrightarrow> good_ops n prog t \<longrightarrow>
      run_ok n c \<longrightarrow> I c \<longrightarrow> r \<noteq> Undefined_run \<and> (\<forall>v c'. r = Returned v c' \<longrightarrow> run_ok n c' \<and> I c')", OF _ that], intro impI)
    fix run h' hb' prog' t c r
    assume IH: "\<And>h' hb' prog' t c r. run h' hb' prog' t c = Some r \<Longrightarrow> h' = h \<longrightarrow> hb' = hb \<longrightarrow> prog' = prog \<longrightarrow>
        good_ops n prog t \<longrightarrow> run_ok n c \<longrightarrow> I c \<longrightarrow> r \<noteq> Undefined_run \<and> (\<forall>v c'. r = Returned v c' \<longrightarrow> run_ok n c' \<and> I c')"
      and run: "(case t of [] \<Rightarrow> Some Undefined_run | op # rest \<Rightarrow>
        (case exec_op h' hb' op c of Next c' \<Rightarrow> run h' hb' prog' rest c'
         | To i c' \<Rightarrow> (case afterLabel prog' i of None \<Rightarrow> Some Undefined_run | Some t \<Rightarrow> run h' hb' prog' t c')
         | Leave v c' \<Rightarrow> Some (Returned v c') | Thrown \<Rightarrow> Some Threw | Undefined \<Rightarrow> Some Undefined_run)) = Some r"
      and same: "h' = h" "hb' = hb" "prog' = prog" and g: "good_ops n prog t" and c: "run_ok n c" "I c"
    from g obtain op rest where op: "t = op # rest" "op_error (labels_of prog) op = None"
        "\<And>s. s \<in> set (op_slots op) \<Longrightarrow> s < n" "\<not> is_terminator op \<Longrightarrow> good_ops n prog rest"
      by (rule good_opsE) blast
    have f: "flow_ok n (exec_op h hb op c)" by (rule exec_op_ok [OF op(2,3) c(1)])
    have I: "I d" if "d \<in> set_flow (exec_op h hb op c)" for d by (rule step [OF op(2) c that])
    show "r \<noteq> Undefined_run \<and> (\<forall>v c'. r = Returned v c' \<longrightarrow> run_ok n c' \<and> I c')"
    proof (cases "exec_op h hb op c")
      case (Next c1)
      then have "\<not> is_terminator op" using not_Next by metis
      then show ?thesis using IH [of h hb prog rest c1 r] run op(1,4) same f I Next by simp
    next
      case (To i c1)
      obtain t' where t': "afterLabel prog i = Some t'" "good_ops n prog t'"
        by (rule good_target [OF assms(2) op(2), of i]) (use exec_To [OF To] in blast)+
      then show ?thesis using IH [of h hb prog t' c1 r] run op(1) same f I To by simp
    qed (use run op(1) same f I in auto)
  qed
  then show ?thesis using assms(1,3-5) by blast
qed

lemma compiled_ops_ok:
  assumes "compileOps ops ents = Inr p" "maxSlot p \<le> n" "set t \<subseteq> set ops"
  shows "ops_ok n (labels_of ops) t"
  using compiled_valid [OF assms(1)] compiled_slots [OF assms(1)] assms(2,3) by (fastforce simp: ops_ok_def)

lemma compiled_good:
  assumes "compileOps ops ents = Inr p" "maxSlot p \<le> n"
  shows "good_prog n ops" "place ops k = Some t \<Longrightarrow> good_ops n ops t"
proof -
  show place: "good_ops n ops t" if "place ops k = Some t" for k t
    using compiled_blocks [OF assms(1) that] compiled_ops_ok [OF assms place_subset [OF that]] by (simp add: good_ops_def)
  show "good_prog n ops" using place [of "Some i" for i] by (auto simp: good_prog_def place_def)
qed

lemma entry_error_None: "entry_error ls is = None \<longleftrightarrow> (\<forall>i \<in> set is. slot_ok i \<and> i \<in> set ls)"
  by (induction "is") auto

lemma start_block_place:
  assumes "compileOps ops ents = Inr p" "maxSlot p \<le> length (slots c)"
  obtains k t where "start_block p c = Some k" "place ops k = Some t"
  using assms(1)
proof (rule compileOps_InrD)
  fix b assume d: "dispatch_error (labels_of ops) ents = None"
    and p: "p = \<lparr>blocks = b_blocks b, dispatch = ents, maxSlot = slot_count (b_max b) ents, memoryStores = b_stores b\<rparr>"
  show thesis
  proof (cases ents)
    case None
    then show thesis using that [of None ops] p by (simp add: start_block_def place_def)
  next
    case (Some e)
    obtain slot "is" where e: "e = (slot, is)" by (cases e)
    have slot: "slot < length (slots c)" using assms(2) p Some e by (auto simp: slot_count_def Let_def)
    let ?k = "find (\<lambda>i. of_nat (i + 1) = slots c ! slot) is"
    have st: "start_block p c = Some ?k" using p Some e slot by (simp add: start_block_def load_slot_def)
    show thesis
    proof (cases ?k)
      case None
      then show thesis using that [OF st] by (simp add: place_def)
    next
      case k: (Some i)
      then have "i \<in> set is" by (auto simp: find_Some_iff in_set_conv_nth)
      then have "i \<in> set (labels_of ops)"
        using d Some e entry_error_None [of "labels_of ops" "is"] by (auto simp: dispatch_error_def split: option.splits if_splits)
      then show thesis using that [OF st] k afterLabel_None [of ops i] by (auto simp: place_def)
    qed
  qed
qed

lemma run_function_invariant:
  assumes "compileOps ops ents = Inr p" "maxSlot p \<le> length (slots c)" "cells_ok c" "I c" "run_function h hb p c = Some r"
    and step: "\<And>op c d. op_error (labels_of ops) op = None \<Longrightarrow> cells_ok c \<Longrightarrow> I c \<Longrightarrow>
      d \<in> set_flow (exec_op h hb op c) \<Longrightarrow> I d"
  shows "r \<noteq> Undefined_run \<and> (\<forall>v c'. r = Returned v c' \<longrightarrow> cells_ok c' \<and> length (slots c') = length (slots c) \<and> I c')"
proof -
  let ?n = "length (slots c)"
  obtain k t where k: "start_block p c = Some k" "place ops k = Some t" using start_block_place [OF assms(1,2)] by blast
  have run: "run_ops h hb ops t c = Some r"
    using assms(5) k(1) run_blocks_ops [OF assms(1) k(2), of h hb c] by (simp add: run_function_def)
  have "r \<noteq> Undefined_run \<and> (\<forall>v c'. r = Returned v c' \<longrightarrow> run_ok ?n c' \<and> I c')"
    by (rule run_ops_invariant [OF run compiled_good(1) [OF assms(1,2)] compiled_good(2) [OF assms(1,2) k(2)], where I = I])
      (use assms(3,4) step in \<open>auto simp: run_ok_def\<close>)
  then show ?thesis by (simp add: run_ok_def)
qed

lemma run_function_defined:
  assumes "compileOps ops ents = Inr p" "maxSlot p \<le> length (slots c)" "cells_ok c" "run_function h hb p c = Some r"
  shows "r \<noteq> Undefined_run \<and> (\<forall>v c'. r = Returned v c' \<longrightarrow> cells_ok c' \<and> length (slots c') = length (slots c))"
  using run_function_invariant [OF assms(1-3) TrueI assms(4)] by simp

end
