(* ===== verification/BackEdges.thy ===== *)
theory BackEdges
  imports Prelude "HOL-Library.While_Combinator"
begin

text \<open>
  The search in depth of \<open>compileOps\<close> in \<open>native/bap_jit.cpp\<close> that finds the targets of the jumps back of a
  function, by a stack of blocks with the number of the successor that each is at. What is shown: it ends
  (\<open>search_ends\<close>), and the order in which it leaves the blocks goes down along every jump that isn't to one
  of the targets, so that every way round a loop goes through one (\<open>search_order\<close>); a block that only one
  jump goes to is none of them (\<open>search_single\<close>), and neither is what can only be got to from such a block, without a
  loop (\<open>search_regions\<close>).
\<close>

record 'n dfs =
  mark :: "'n \<Rightarrow> nat"
  stack :: "('n \<times> nat) list"
  targets :: "'n list"

definition visit_start :: "'n \<Rightarrow> 'n dfs" where
  "visit_start start = \<lparr>mark = (\<lambda>_. 0)(start := 1), stack = [(start, 0)], targets = []\<rparr>"

definition visit_step :: "('n \<Rightarrow> 'n list) \<Rightarrow> 'n dfs \<Rightarrow> 'n dfs" where
  "visit_step succs s =
     (case stack s of
        [] \<Rightarrow> s
      | (b, at) # rest \<Rightarrow>
          if at < length (succs b)
          then let successor = succs b ! at; s1 = s\<lparr>stack := (b, at + 1) # rest\<rparr>
               in if mark s successor = 1 then s1\<lparr>targets := targets s @ [successor]\<rparr>
                  else if mark s successor = 0
                  then s1\<lparr>mark := (mark s)(successor := 1), stack := (successor, 0) # (b, at + 1) # rest\<rparr>
                  else s1
          else s\<lparr>mark := (mark s)(b := 2), stack := rest\<rparr>)"

definition back_targets :: "('n \<Rightarrow> 'n list) \<Rightarrow> 'n \<Rightarrow> 'n list option" where
  "back_targets succs start = map_option targets (while_option (\<lambda>s. stack s \<noteq> []) (visit_step succs) (visit_start start))"

section \<open>It ends\<close>

text \<open>\<open>N\<close> has the blocks, and each jump goes to one.\<close>

definition jumps_within :: "('n \<Rightarrow> 'n list) \<Rightarrow> 'n set \<Rightarrow> bool" where
  "jumps_within succs N \<longleftrightarrow> (\<forall>b \<in> N. set (succs b) \<subseteq> N)"

lemma jumps_withinD: "jumps_within succs N \<Longrightarrow> b \<in> N \<Longrightarrow> i < length (succs b) \<Longrightarrow> succs b ! i \<in> N"
  unfolding jumps_within_def using nth_mem [of i "succs b"] by blast

definition on_stack_ok :: "('n \<Rightarrow> 'n list) \<Rightarrow> 'n set \<Rightarrow> 'n dfs \<Rightarrow> bool" where
  "on_stack_ok succs N s \<longleftrightarrow> (\<forall>b at. (b, at) \<in> set (stack s) \<longrightarrow> b \<in> N \<and> mark s b = 1 \<and> at \<le> length (succs b)) \<and>
     distinct (map fst (stack s)) \<and> (\<forall>b. mark s b \<le> 2) \<and> (\<forall>b. mark s b = 1 \<longrightarrow> b \<in> fst ` set (stack s))"

lemma visit_cases:
  assumes "stack s = (b, at) # rest"
  obtains (again) "at < length (succs b)" "mark s (succs b ! at) = 1"
      "visit_step succs s = s\<lparr>stack := (b, at + 1) # rest, targets := targets s @ [succs b ! at]\<rparr>"
    | (new) "at < length (succs b)" "mark s (succs b ! at) = 0"
      "visit_step succs s = s\<lparr>mark := (mark s)(succs b ! at := 1), stack := (succs b ! at, 0) # (b, at + 1) # rest\<rparr>"
    | (old) "at < length (succs b)" "mark s (succs b ! at) \<noteq> 0" "mark s (succs b ! at) \<noteq> 1"
      "visit_step succs s = s\<lparr>stack := (b, at + 1) # rest\<rparr>"
    | (leave) "\<not> at < length (succs b)" "visit_step succs s = s\<lparr>mark := (mark s)(b := 2), stack := rest\<rparr>"
  using assms that by (cases "at < length (succs b)") (auto simp: visit_step_def Let_def split: if_splits)

lemma on_stack_step:
  assumes "on_stack_ok succs N s" "jumps_within succs N" "stack s \<noteq> []"
  shows "on_stack_ok succs N (visit_step succs s)"
proof -
  obtain b at rest where st: "stack s = (b, at) # rest" using assms(3) by (metis neq_Nil_conv surj_pair)
  have b: "b \<in> N" using assms(1) st by (auto simp: on_stack_ok_def)
  show ?thesis using st
  proof (cases rule: visit_cases [of _ _ _ _ succs])
    case new
    then have "succs b ! at \<in> N" using jumps_withinD [OF assms(2) b] by simp
    then show ?thesis using new st assms(1) by (auto simp: on_stack_ok_def)
  next
    case leave
    then have "b \<notin> fst ` set rest" using assms(1) st by (simp add: on_stack_ok_def)
    then have "x \<noteq> b" if "(x, i) \<in> set rest" for x i using that by force
    then show ?thesis using leave st assms(1) by (auto simp: on_stack_ok_def)
  qed (use st assms(1) in \<open>auto simp: on_stack_ok_def\<close>)
qed

text \<open>Each step goes on with a successor, of a block that is new or on the stack, or leaves a block.\<close>

definition steps_left :: "('n \<Rightarrow> 'n list) \<Rightarrow> 'n set \<Rightarrow> 'n dfs \<Rightarrow> nat" where
  "steps_left succs N s = (\<Sum>b \<in> {b \<in> N. mark s b = 0}. length (succs b) + 2) +
     sum_list (map (\<lambda>(b, at). length (succs b) - at + 1) (stack s))"

lemma steps_left_step:
  assumes "on_stack_ok succs N s" "jumps_within succs N" "finite N" "stack s \<noteq> []"
  shows "steps_left succs N (visit_step succs s) < steps_left succs N s"
proof -
  obtain b at rest where st: "stack s = (b, at) # rest" using assms(4) by (metis neq_Nil_conv surj_pair)
  have b: "b \<in> N" "mark s b = 1" using assms(1) st by (auto simp: on_stack_ok_def)
  show ?thesis using st
  proof (cases rule: visit_cases [of _ _ _ _ succs])
    case new
    let ?t = "succs b ! at"
    have "?t \<in> N" by (rule jumps_withinD [OF assms(2) b(1) new(1)])
    then have "{x \<in> N. mark s x = 0} = insert ?t {x \<in> N. ((mark s)(?t := 1)) x = 0}" using new(2) by auto
    then have "(\<Sum>b \<in> {b \<in> N. mark s b = 0}. length (succs b) + 2) =
        length (succs ?t) + 2 + (\<Sum>b \<in> {x \<in> N. ((mark s)(?t := 1)) x = 0}. length (succs b) + 2)"
      using assms(3) by simp
    then show ?thesis using new st by (simp add: steps_left_def)
  next
    case leave
    have "{x \<in> N. ((mark s)(b := 2)) x = 0} = {x \<in> N. mark s x = 0}" using b(2) by auto
    then show ?thesis using leave st by (simp add: steps_left_def)
  qed (use st in \<open>simp_all add: steps_left_def\<close>)
qed

lemma search_ends:
  assumes "jumps_within succs N" "finite N" "start \<in> N"
  shows "\<exists>s. while_option (\<lambda>s. stack s \<noteq> []) (visit_step succs) (visit_start start) = Some s"
proof (rule measure_while_option_Some [of "on_stack_ok succs N" _ _ "steps_left succs N"])
  show "on_stack_ok succs N (visit_start start)" using assms(3) by (auto simp: on_stack_ok_def visit_start_def)
  show "on_stack_ok succs N (visit_step succs s) \<and> steps_left succs N (visit_step succs s) < steps_left succs N s"
    if "on_stack_ok succs N s" "stack s \<noteq> []" for s
    using on_stack_step [OF that(1) assms(1) that(2)] steps_left_step [OF that(1) assms(1,2) that(2)] by simp
qed

section \<open>The order in which it leaves the blocks\<close>

definition passed :: "'n dfs \<Rightarrow> 'n \<Rightarrow> bool" where
  "passed s v \<longleftrightarrow> v \<in> set (targets s) \<or> mark s v = 2"

text \<open>The successors that a block of the stack is past are passed, but for the one that is above it.\<close>

fun seen :: "('n \<Rightarrow> 'n list) \<Rightarrow> ('n \<Rightarrow> bool) \<Rightarrow> 'n option \<Rightarrow> ('n \<times> nat) list \<Rightarrow> bool" where
  "seen succs D over [] = True"
| "seen succs D over ((b, at) # rest) \<longleftrightarrow>
     (\<forall>i < at. D (succs b ! i) \<or> over = Some (succs b ! i)) \<and> seen succs D (Some b) rest"

lemma seen_mono:
  "seen succs D over xs \<Longrightarrow> (\<And>v. D v \<Longrightarrow> D' v) \<Longrightarrow> (\<And>v. over = Some v \<Longrightarrow> over' = Some v \<or> D' v) \<Longrightarrow> seen succs D' over' xs"
proof (induction succs D over xs arbitrary: over' rule: seen.induct)
  case (2 succs D over b at rest)
  have "D' (succs b ! i) \<or> over' = Some (succs b ! i)" if "i < at" for i
    using 2(2) 2(3) [of "succs b ! i"] 2(4) [of "succs b ! i"] that by auto
  moreover have "seen succs D' (Some b) rest" using 2(1) [of "Some b"] 2(2,3) by simp
  ultimately show ?case by simp
qed simp

definition left_ok :: "('n \<Rightarrow> 'n list) \<Rightarrow> 'n dfs \<Rightarrow> 'n list \<Rightarrow> bool" where
  "left_ok succs s F \<longleftrightarrow> distinct F \<and> set F = {b. mark s b = 2} \<and>
     (\<forall>i < length F. \<forall>v \<in> set (succs (F ! i)). v \<in> set (targets s) \<or> v \<in> set (take i F))"

lemma order_step:
  assumes "on_stack_ok succs N s" "seen succs (passed s) None (stack s)" "left_ok succs s F" "stack s \<noteq> []"
  shows "seen succs (passed (visit_step succs s)) None (stack (visit_step succs s)) \<and> (\<exists>F'. left_ok succs (visit_step succs s) F')"
proof -
  obtain b at rest where st: "stack s = (b, at) # rest" using assms(4) by (metis neq_Nil_conv surj_pair)
  have b: "mark s b = 1" and at: "at \<le> length (succs b)" using assms(1) st by (auto simp: on_stack_ok_def)
  have top: "\<And>i. i < at \<Longrightarrow> passed s (succs b ! i)" and rest: "seen succs (passed s) (Some b) rest" using assms(2) st by auto
  let ?s = "visit_step succs s"
  show ?thesis using st
  proof (cases rule: visit_cases [of _ _ _ _ succs])
    case again
    have "seen succs (passed ?s) (Some b) rest" by (rule seen_mono [OF rest]) (auto simp: again(3) passed_def)
    moreover have "left_ok succs ?s F" using assms(3) by (auto simp: left_ok_def again(3))
    ultimately show ?thesis using top by (auto simp: again(3) passed_def less_Suc_eq)
  next
    case new
    have "seen succs (passed ?s) (Some b) rest" by (rule seen_mono [OF rest]) (use new(2) in \<open>auto simp: new(3) passed_def\<close>)
    moreover have "left_ok succs ?s F" using assms(3) new(2) by (auto simp: left_ok_def new(3))
    ultimately show ?thesis using top new(2) by (auto simp: new(3) passed_def less_Suc_eq)
  next
    case old
    then have "mark s (succs b ! at) = 2" using assms(1) by (metis One_nat_def Suc_1 le_SucE le_zero_eq less_one not_le on_stack_ok_def order.antisym)
    moreover have "left_ok succs ?s F" using assms(3) by (auto simp: left_ok_def old(4))
    ultimately show ?thesis using top rest by (auto simp: old(4) passed_def [abs_def] less_Suc_eq)
  next
    case leave
    have "seen succs (passed ?s) None rest" by (rule seen_mono [OF rest]) (auto simp: leave(2) passed_def)
    moreover have "left_ok succs ?s (F @ [b])"
    proof -
      have "v \<in> set (targets s) \<or> v \<in> set F" if v: "v \<in> set (succs b)" for v
      proof -
        obtain i where "i < length (succs b)" "v = succs b ! i" using v by (auto simp: in_set_conv_nth)
        then show ?thesis using top [of i] leave(1) assms(3) by (auto simp: passed_def left_ok_def)
      qed
      then show ?thesis using assms(3) b by (auto simp: left_ok_def leave(2) nth_append less_Suc_eq)
    qed
    ultimately show ?thesis by (auto simp: leave(2))
  qed
qed

definition search_inv :: "('n \<Rightarrow> 'n list) \<Rightarrow> 'n set \<Rightarrow> 'n \<Rightarrow> 'n dfs \<Rightarrow> bool" where
  "search_inv succs N start s \<longleftrightarrow> on_stack_ok succs N s \<and> seen succs (passed s) None (stack s) \<and> (\<exists>F. left_ok succs s F) \<and>
     mark s start \<noteq> 0 \<and> (\<forall>v \<in> set (targets s). mark s v \<noteq> 0) \<and> (\<forall>v. mark s v \<noteq> 0 \<longrightarrow> v \<in> N)"

lemma visit_step_marks: "mark s v \<noteq> 0 \<Longrightarrow> mark (visit_step succs s) v \<noteq> 0"
  by (auto simp: visit_step_def Let_def split: list.split)

lemma visit_step_targets: "v \<in> set (targets (visit_step succs s)) \<Longrightarrow> v \<in> set (targets s) \<or> mark s v = 1"
  by (auto simp: visit_step_def Let_def split: list.splits if_splits)

lemma visit_step_within:
  assumes "on_stack_ok succs N s" "jumps_within succs N" "stack s \<noteq> []" "mark (visit_step succs s) v \<noteq> 0" "mark s v = 0"
  shows "v \<in> N"
proof -
  obtain b at rest where st: "stack s = (b, at) # rest" using assms(3) by (metis neq_Nil_conv surj_pair)
  have b: "b \<in> N" "mark s b = 1" using assms(1) st by (auto simp: on_stack_ok_def)
  show ?thesis using st
  proof (cases rule: visit_cases [of _ _ _ _ succs])
    case new
    then show ?thesis using assms(4,5) jumps_withinD [OF assms(2) b(1) new(1)] by (cases "v = succs b ! at") simp_all
  qed (use assms(4,5) b(2) in \<open>simp_all split: if_splits\<close>)
qed

lemma search_step:
  assumes "search_inv succs N start s" "jumps_within succs N" "stack s \<noteq> []"
  shows "search_inv succs N start (visit_step succs s)"
proof -
  obtain F where F: "left_ok succs s F" using assms(1) by (auto simp: search_inv_def)
  have i: "on_stack_ok succs N s" "seen succs (passed s) None (stack s)" using assms(1) by (auto simp: search_inv_def)
  have "mark (visit_step succs s) v \<noteq> 0" if "v \<in> set (targets (visit_step succs s))" for v
    using visit_step_targets [OF that] visit_step_marks [of s v succs] assms(1) by (auto simp: search_inv_def)
  moreover have "v \<in> N" if "mark (visit_step succs s) v \<noteq> 0" for v
    using visit_step_within [OF i(1) assms(2,3) that] assms(1) by (auto simp: search_inv_def)
  ultimately show ?thesis
    using order_step [OF i F assms(3)] on_stack_step [OF i(1) assms(2,3)] visit_step_marks [of s start succs] assms(1)
    unfolding search_inv_def by blast
qed

lemma search_result:
  assumes "jumps_within succs N" "start \<in> N"
    "while_option (\<lambda>s. stack s \<noteq> []) (visit_step succs) (visit_start start) = Some s"
  shows "search_inv succs N start s \<and> stack s = []"
proof -
  have "search_inv succs N start (visit_start start)" using assms(2)
    by (auto simp: search_inv_def on_stack_ok_def visit_start_def left_ok_def intro!: exI [of _ "[]"])
  from while_option_rule [where P = "search_inv succs N start", OF _ assms(3) this] while_option_stop [OF assms(3)]
  show ?thesis using search_step [OF _ assms(1)] by blast
qed

text \<open>
  A number for each block, which goes down along each jump of a block that can be reached, unless it is to a
  target of a jump back.
\<close>

lemma search_order:
  assumes "jumps_within succs N" "finite N" "start \<in> N"
  obtains ts F where "back_targets succs start = Some ts" "distinct F" "start \<in> set F" "set ts \<subseteq> set F" "set F \<subseteq> N"
    "\<And>b v. b \<in> set F \<Longrightarrow> v \<in> set (succs b) \<Longrightarrow> v \<in> set F"
    "\<And>i j. i < length F \<Longrightarrow> j < length F \<Longrightarrow> F ! j \<in> set (succs (F ! i)) \<Longrightarrow> F ! j \<notin> set ts \<Longrightarrow> j < i"
proof -
  obtain s where w: "while_option (\<lambda>s. stack s \<noteq> []) (visit_step succs) (visit_start start) = Some s"
    using search_ends [OF assms] by blast
  note r = search_result [OF assms(1,3) w]
  obtain F where F: "left_ok succs s F" using r by (auto simp: search_inv_def)
  have two: "mark s v \<noteq> 0 \<longleftrightarrow> v \<in> set F" for v
  proof -
    have "mark s v \<noteq> 1" using r by (auto simp: search_inv_def on_stack_ok_def)
    moreover have "mark s v \<le> 2" using r by (auto simp: search_inv_def on_stack_ok_def)
    ultimately have "mark s v \<noteq> 0 \<longleftrightarrow> mark s v = 2" by linarith
    then show ?thesis using F by (simp add: left_ok_def)
  qed
  show thesis
  proof (rule that [of "targets s" F])
    show "back_targets succs start = Some (targets s)" by (simp add: back_targets_def w)
    show "distinct F" using F by (simp add: left_ok_def)
    show "start \<in> set F" "set (targets s) \<subseteq> set F" using r two by (auto simp: search_inv_def)
    show "set F \<subseteq> N" using r two by (auto simp: search_inv_def)
    show "v \<in> set F" if bv: "b \<in> set F" "v \<in> set (succs b)" for b v
    proof -
      obtain i where "i < length F" "b = F ! i" using bv(1) by (metis in_set_conv_nth)
      then have "v \<in> set (targets s) \<or> v \<in> set (take i F)" using F bv(2) by (simp add: left_ok_def)
      then show ?thesis using \<open>set (targets s) \<subseteq> set F\<close> by (auto dest: in_set_takeD)
    qed
    show "j < i" if "i < length F" "j < length F" "F ! j \<in> set (succs (F ! i))" "F ! j \<notin> set (targets s)" for i j
    proof -
      have "F ! j \<in> set (take i F)" using F that by (auto simp: left_ok_def)
      then obtain k where "k < i" "k < length F" "F ! k = F ! j" by (auto simp: in_set_conv_nth)
      then show ?thesis using \<open>distinct F\<close> that(2) by (simp add: nth_eq_iff_index_eq)
    qed
  qed
qed

section \<open>A block that one jump goes to\<close>

text \<open>The search looks at the jump once, and the block is new then.\<close>

definition single_inv :: "'n \<Rightarrow> nat \<Rightarrow> 'n \<Rightarrow> 'n dfs \<Rightarrow> bool" where
  "single_inv u i v s \<longleftrightarrow> v \<notin> set (targets s) \<and> (mark s v \<noteq> 0 \<longrightarrow> mark s u = 2 \<or> (\<exists>at. (u, at) \<in> set (stack s) \<and> i < at))"

definition single_jump :: "('n \<Rightarrow> 'n list) \<Rightarrow> 'n set \<Rightarrow> 'n \<Rightarrow> nat \<Rightarrow> 'n \<Rightarrow> bool" where
  "single_jump succs N u i v \<longleftrightarrow> (\<forall>b \<in> N. \<forall>j < length (succs b). succs b ! j = v \<longrightarrow> b = u \<and> j = i)"

lemma single_step:
  assumes "single_inv u i v s" "on_stack_ok succs N s" "single_jump succs N u i v" "stack s \<noteq> []"
  shows "single_inv u i v (visit_step succs s)"
proof -
  obtain b at rest where st: "stack s = (b, at) # rest" using assms(4) by (metis neq_Nil_conv surj_pair)
  have b: "b \<in> N" "mark s b = 1" using assms(2) st by (auto simp: on_stack_ok_def)
  have jump: "b = u \<and> at = i" if "at < length (succs b)" "succs b ! at = v"
    using assms(3) b(1) that by (simp add: single_jump_def)
  have rest: "(b, at') \<notin> set rest" for at' using assms(2) st by (force simp: on_stack_ok_def)
  show ?thesis using st
  proof (cases rule: visit_cases [of _ _ _ _ succs])
    case again
    have "succs b ! at \<noteq> v"
    proof
      assume v: "succs b ! at = v"
      then have "mark s u = 2 \<or> (\<exists>at'. (u, at') \<in> set (stack s) \<and> i < at')" using assms(1) again(2) by (auto simp: single_inv_def)
      then show False using jump [OF again(1) v] b(2) rest st by auto
    qed
    then show ?thesis using assms(1) st by (auto simp: single_inv_def again(3) intro: less_SucI)
  next
    case new
    have t: "v \<notin> set (targets (visit_step succs s))" using assms(1) by (simp add: new(3) single_inv_def)
    show ?thesis
    proof (cases "succs b ! at = v")
      case True
      then have "(u, at + 1) \<in> set (stack (visit_step succs s)) \<and> i < at + 1" using jump [OF new(1)] by (simp add: new(3))
      then show ?thesis using t unfolding single_inv_def by blast
    next
      case False
      then have "mark (visit_step succs s) v = mark s v" by (simp add: new(3))
      moreover have "\<exists>at'. (u, at') \<in> set (stack (visit_step succs s)) \<and> i < at'" if "(u, k) \<in> set (stack s)" "i < k" for k
        using that st by (auto simp: new(3) intro: less_SucI)
      moreover have "mark (visit_step succs s) u = 2" if "mark s u = 2" using that new(2) by (auto simp: new(3))
      ultimately show ?thesis using assms(1) t unfolding single_inv_def by metis
    qed
  next
    case old
    then show ?thesis using assms(1) st by (auto simp: single_inv_def intro: less_SucI)
  next
    case leave
    then show ?thesis using assms(1) st b(2) by (auto simp: single_inv_def)
  qed
qed

lemma search_single:
  assumes "jumps_within succs N" "start \<in> N" "back_targets succs start = Some ts" "single_jump succs N u i v" "v \<noteq> start"
  shows "v \<notin> set ts"
proof -
  obtain s where w: "while_option (\<lambda>s. stack s \<noteq> []) (visit_step succs) (visit_start start) = Some s" "ts = targets s"
    using assms(3) by (auto simp: back_targets_def)
  let ?I = "\<lambda>s. single_inv u i v s \<and> on_stack_ok succs N s"
  have "?I (visit_start start)" using assms(2,5) by (auto simp: single_inv_def on_stack_ok_def visit_start_def)
  moreover have "?I (visit_step succs s)" if "?I s" "stack s \<noteq> []" for s
    using single_step [OF _ _ assms(4) that(2)] on_stack_step [OF _ assms(1) that(2)] that(1) by blast
  ultimately have "?I s" using while_option_rule [where P = ?I, OF _ w(1)] by blast
  then show ?thesis using w(2) by (simp add: single_inv_def)
qed

section \<open>Blocks that are only got to from such a block\<close>

text \<open>
  Blocks with the head of their region and a rank: only one jump goes to a head, and a jump to another block of the
  region comes from a block of the region with a lower rank.
\<close>

definition regions :: "('n \<Rightarrow> 'n list) \<Rightarrow> 'n set \<Rightarrow> 'n \<Rightarrow> ('n \<Rightarrow> ('n \<times> nat) option) \<Rightarrow> bool" where
  "regions succs N start reg \<longleftrightarrow> reg start = None \<and>
     (\<forall>v h r. reg v = Some (h, r) \<longrightarrow>
        (if v = h then \<exists>u i. single_jump succs N u i v
         else \<forall>b \<in> N. v \<in> set (succs b) \<longrightarrow> (\<exists>r' < r. reg b = Some (h, r'))))"

text \<open>Each block of the stack is a successor of the one below it, down to the start.\<close>

fun linked :: "('n \<Rightarrow> 'n list) \<Rightarrow> 'n \<Rightarrow> 'n list \<Rightarrow> bool" where
  "linked succs start [] = True"
| "linked succs start [x] \<longleftrightarrow> x = start"
| "linked succs start (x # y # ys) \<longleftrightarrow> x \<in> set (succs y) \<and> linked succs start (y # ys)"

lemma linked_Cons: "linked succs start (x # xs) \<Longrightarrow> linked succs start xs"
  by (cases xs) simp_all

lemma linked_append: "linked succs start (xs @ ys) \<Longrightarrow> linked succs start ys"
  by (induction xs) (auto dest: linked_Cons)

text \<open>Below a block of a region there are blocks of it with lower ranks, down to its head.\<close>

lemma linked_region:
  assumes "regions succs N start reg"
  shows "linked succs start (x # xs) \<Longrightarrow> set (x # xs) \<subseteq> N \<Longrightarrow> reg x = Some (h, r) \<Longrightarrow>
    \<exists>as bs. x # xs = as @ h # bs \<and> (\<forall>y \<in> set as. \<exists>r' \<le> r. reg y = Some (h, r'))"
proof (induction xs arbitrary: x r)
  case Nil
  then show ?case using assms by (simp add: regions_def)
next
  case (Cons y ys)
  show ?case
  proof (cases "x = h")
    case True
    then show ?thesis by (intro exI [of _ "[]"] exI [of _ "y # ys"]) simp
  next
    case False
    moreover have "y \<in> N" "x \<in> set (succs y)" using Cons.prems by auto
    ultimately obtain r' where r': "r' < r" "reg y = Some (h, r')" using assms Cons.prems(3) unfolding regions_def by metis
    then obtain as bs where "y # ys = as @ h # bs" "\<forall>z \<in> set as. \<exists>q \<le> r'. reg z = Some (h, q)"
      using Cons.IH [of y r'] Cons.prems(1,2) linked_Cons by auto
    then show ?thesis using Cons.prems(3) r'(1) by (intro exI [of _ "x # as"] exI [of _ bs]) fastforce
  qed
qed

lemma region_not_below:
  assumes "regions succs N start reg" "linked succs start xs" "set xs \<subseteq> N" "distinct xs" "xs = b # ys"
    "v \<in> set (succs b)" "reg v = Some (h, r)" "v \<noteq> h"
  shows "v \<notin> set xs"
proof
  assume v: "v \<in> set xs"
  have "b \<in> N" using assms(3,5) by simp
  then obtain r' where r': "r' < r" "reg b = Some (h, r')" using assms(1,6-8) unfolding regions_def by metis
  then obtain as bs where ab: "xs = as @ h # bs" "\<forall>y \<in> set as. \<exists>q \<le> r'. reg y = Some (h, q)"
    using linked_region [OF assms(1), of b ys h r'] assms(2,3,5) by auto
  then have "v \<in> set bs" using v assms(7,8) r'(1) by fastforce
  then obtain cs ds where bs: "bs = cs @ v # ds" by (auto simp: in_set_conv_decomp)
  have "linked succs start ((as @ h # cs) @ v # ds)" "set (v # ds) \<subseteq> N" using assms(2,3) ab(1) bs by simp_all
  then obtain es fs where "v # ds = es @ h # fs"
    using linked_region [OF assms(1) linked_append _ assms(7)] by blast
  then have "h \<in> set (v # ds)" by simp
  then show False using assms(4) ab(1) bs by auto
qed

lemma linked_step:
  assumes "linked succs start (map fst (stack s))" "stack s \<noteq> []"
  shows "linked succs start (map fst (stack (visit_step succs s)))"
proof -
  obtain b at rest where st: "stack s = (b, at) # rest" using assms(2) by (metis neq_Nil_conv surj_pair)
  have l: "linked succs start (b # map fst rest)" using assms(1) st by simp
  from st show ?thesis using l linked_Cons [OF l]
    by (cases rule: visit_cases [of _ _ _ _ succs]) simp_all
qed

lemma search_regions:
  assumes "jumps_within succs N" "start \<in> N" "back_targets succs start = Some ts" "regions succs N start reg" "reg v \<noteq> None"
  shows "v \<notin> set ts"
proof -
  obtain h r where v: "reg v = Some (h, r)" using assms(5) by auto
  show ?thesis
  proof (cases "v = h")
    case True
    then obtain u i where "single_jump succs N u i v" using assms(4) v unfolding regions_def by metis
    moreover have "v \<noteq> start" using assms(4) v by (auto simp: regions_def)
    ultimately show ?thesis by (rule search_single [OF assms(1-3)])
  next
    case False
    obtain s where w: "while_option (\<lambda>s. stack s \<noteq> []) (visit_step succs) (visit_start start) = Some s" "ts = targets s"
      using assms(3) by (auto simp: back_targets_def)
    let ?I = "\<lambda>s. v \<notin> set (targets s) \<and> linked succs start (map fst (stack s)) \<and> on_stack_ok succs N s"
    have "?I (visit_step succs s)" if I: "?I s" and ne: "stack s \<noteq> []" for s
    proof -
      obtain b at rest where st: "stack s = (b, at) # rest" using ne by (metis neq_Nil_conv surj_pair)
      have "v \<notin> set (targets (visit_step succs s))" using st
      proof (cases rule: visit_cases [of _ _ _ _ succs])
        case again
        have N: "set (map fst (stack s)) \<subseteq> N" and d: "distinct (map fst (stack s))" using I by (auto simp: on_stack_ok_def)
        have "succs b ! at \<in> set (map fst (stack s))" using I again(2) by (auto simp: on_stack_ok_def)
        moreover have "v \<notin> set (map fst (stack s))" if "succs b ! at = v"
          using region_not_below [OF assms(4) _ N d, of b "map fst rest" v h r] I st again(1) that v False nth_mem by fastforce
        ultimately show ?thesis using I again(3) by auto
      qed (use I in simp_all)
      then show ?thesis using linked_step [OF _ ne] on_stack_step [OF _ assms(1) ne] I by blast
    qed
    moreover have "?I (visit_start start)" using assms(2) by (auto simp: visit_start_def on_stack_ok_def)
    ultimately have "?I s" using while_option_rule [where P = ?I, OF _ w(1)] by blast
    then show ?thesis using w(2) by simp
  qed
qed

end
