(* ===== verification/Loops.thy ===== *)
theory Loops
  imports Main
begin

text \<open>
  A loop that goes from state to state until it has a result, None if it never has one, and the rule that two
  loops whose states correspond, step by step, both end or both go on for ever, with results that correspond.
\<close>

partial_function (option) iterate :: "('s \<Rightarrow> 's + 'r) \<Rightarrow> 's \<Rightarrow> 'r option" where
  "iterate f s = (case f s of Inl s' \<Rightarrow> iterate f s' | Inr r \<Rightarrow> Some r)"

lemma iterate_half:
  assumes "iterate f s = Some r" "R s t" and step: "\<And>s t. R s t \<Longrightarrow> rel_sum R Q (f s) (g t)"
  shows "\<exists>r'. iterate g t = Some r' \<and> Q r r'"
proof -
  have "f' = f \<longrightarrow> (\<forall>t. R s t \<longrightarrow> (\<exists>r'. iterate g t = Some r' \<and> Q r r'))" if "iterate f' s = Some r" for f'
  proof (rule iterate.raw_induct [where P = "\<lambda>f' s r. f' = f \<longrightarrow> (\<forall>t. R s t \<longrightarrow> (\<exists>r'. iterate g t = Some r' \<and> Q r r'))", OF _ that],
      intro impI allI)
    fix run f' s r t
    assume IH: "\<And>f' s r. run f' s = Some r \<Longrightarrow> f' = f \<longrightarrow> (\<forall>t. R s t \<longrightarrow> (\<exists>r'. iterate g t = Some r' \<and> Q r r'))"
      and run: "(case f' s of Inl s' \<Rightarrow> run f' s' | Inr r \<Rightarrow> Some r) = Some r" and f: "f' = f" and R: "R s t"
    have "rel_sum R Q (f s) (g t)" by (rule step [OF R])
    then show "\<exists>r'. iterate g t = Some r' \<and> Q r r'"
    proof (cases rule: rel_sum.cases)
      case (1 s' t')
      then show ?thesis using IH [of f s' r] run f by (simp add: iterate.simps [of g t])
    next
      case (2 r1 r2)
      then show ?thesis using run f by (simp add: iterate.simps [of g t])
    qed
  qed
  then show ?thesis using assms(1,2) by blast
qed

lemma iterate_sim:
  assumes "R s t" and step: "\<And>s t. R s t \<Longrightarrow> rel_sum R Q (f s) (g t)"
  shows "rel_option Q (iterate f s) (iterate g t)"
proof (cases "iterate f s")
  case (Some r)
  then show ?thesis using iterate_half [where R = R and Q = Q and f = f and g = g, OF Some assms] by auto
next
  case None
  have "rel_sum (\<lambda>t s. R s t) (\<lambda>r' r. Q r r') (g t) (f s)" if "R s t" for s t
    using step [OF that] by (cases rule: rel_sum.cases) auto
  from iterate_half [where R = "\<lambda>t s. R s t" and Q = "\<lambda>r' r. Q r r'" and f = g and g = f, OF _ assms(1) this]
  show ?thesis using None by (cases "iterate g t") auto
qed

lemma iterate_same:
  assumes "R s t" "\<And>s t. R s t \<Longrightarrow> rel_sum R (=) (f s) (g t)"
  shows "iterate f s = iterate g t"
  using iterate_sim [where R = R and Q = "(=)", OF assms] by (simp add: option.rel_eq)

text \<open>The same for a loop whose steps may themselves go on for ever.\<close>

partial_function (option) iterate_opt :: "('s \<Rightarrow> ('s + 'r) option) \<Rightarrow> 's \<Rightarrow> 'r option" where
  "iterate_opt f s = (case f s of None \<Rightarrow> None | Some (Inl s') \<Rightarrow> iterate_opt f s' | Some (Inr r) \<Rightarrow> Some r)"

lemma iterate_opt_half:
  assumes "iterate_opt f s = Some r" "R s t" and step: "\<And>s t. R s t \<Longrightarrow> rel_option (rel_sum R Q) (f s) (g t)"
  shows "\<exists>r'. iterate_opt g t = Some r' \<and> Q r r'"
proof -
  have "f' = f \<longrightarrow> (\<forall>t. R s t \<longrightarrow> (\<exists>r'. iterate_opt g t = Some r' \<and> Q r r'))" if "iterate_opt f' s = Some r" for f'
  proof (rule iterate_opt.raw_induct [where P = "\<lambda>f' s r. f' = f \<longrightarrow> (\<forall>t. R s t \<longrightarrow> (\<exists>r'. iterate_opt g t = Some r' \<and> Q r r'))", OF _ that],
      intro impI allI)
    fix run f' s r t
    assume IH: "\<And>f' s r. run f' s = Some r \<Longrightarrow> f' = f \<longrightarrow> (\<forall>t. R s t \<longrightarrow> (\<exists>r'. iterate_opt g t = Some r' \<and> Q r r'))"
      and run: "(case f' s of None \<Rightarrow> None | Some (Inl s') \<Rightarrow> run f' s' | Some (Inr r) \<Rightarrow> Some r) = Some r" and f: "f' = f" and R: "R s t"
    obtain x y where xy: "f s = Some x" "g t = Some y" "rel_sum R Q x y" using step [OF R] run f by (cases "f s"; cases "g t") auto
    from xy(3) show "\<exists>r'. iterate_opt g t = Some r' \<and> Q r r'"
    proof (cases rule: rel_sum.cases)
      case (1 s' t')
      then show ?thesis using IH [of f s' r] run f xy(1,2) by (simp add: iterate_opt.simps [of g t])
    next
      case (2 r1 r2)
      then show ?thesis using run f xy(1,2) by (simp add: iterate_opt.simps [of g t])
    qed
  qed
  then show ?thesis using assms(1,2) by blast
qed

lemma iterate_opt_sim:
  assumes "R s t" and step: "\<And>s t. R s t \<Longrightarrow> rel_option (rel_sum R Q) (f s) (g t)"
  shows "rel_option Q (iterate_opt f s) (iterate_opt g t)"
proof (cases "iterate_opt f s")
  case (Some r)
  then show ?thesis using iterate_opt_half [where R = R and Q = Q and f = f and g = g, OF Some assms] by auto
next
  case None
  have "rel_option (rel_sum (\<lambda>t s. R s t) (\<lambda>r' r. Q r r')) (g t) (f s)" if "R s t" for s t
    using step [OF that] by (cases "f s"; cases "g t") (auto elim!: rel_sum.cases)
  from iterate_opt_half [where R = "\<lambda>t s. R s t" and Q = "\<lambda>r' r. Q r r'" and f = g and g = f, OF _ assms(1) this]
  show ?thesis using None by (cases "iterate_opt g t") auto
qed

text \<open>What every step keeps, a loop that ends keeps.\<close>

lemma iterate_opt_invariant:
  assumes "iterate_opt f s = Some r" "I s" "\<And>s s'. I s \<Longrightarrow> f s = Some (Inl s') \<Longrightarrow> I s'" "\<And>s r. I s \<Longrightarrow> f s = Some (Inr r) \<Longrightarrow> Q r"
  shows "Q r"
proof -
  have "rel_option (rel_sum (\<lambda>s t. s = t \<and> I s) (\<lambda>r r'. r = r' \<and> Q r)) (f s) (f t)" if "s = t \<and> I s" for s t
  proof (cases "f s")
    case (Some x)
    then show ?thesis using that assms(3,4) by (cases x) auto
  qed (use that in simp)
  from iterate_opt_half [OF assms(1), where R = "\<lambda>s t. s = t \<and> I s" and Q = "\<lambda>r r'. r = r' \<and> Q r" and g = f, OF _ this]
  show ?thesis using assms(2) by blast
qed

lemma iterate_invariant:
  assumes "iterate f s = Some r" "I s" "\<And>s s'. I s \<Longrightarrow> f s = Inl s' \<Longrightarrow> I s'" "\<And>s r. I s \<Longrightarrow> f s = Inr r \<Longrightarrow> Q r"
  shows "Q r"
proof -
  have "rel_sum (\<lambda>s t. s = t \<and> I s) (\<lambda>r r'. r = r' \<and> Q r) (f s) (f t)" if "s = t \<and> I s" for s t
    using that assms(3,4) by (cases "f s") auto
  from iterate_half [OF assms(1), where R = "\<lambda>s t. s = t \<and> I s" and Q = "\<lambda>r r'. r = r' \<and> Q r" and g = f, OF _ this]
  show ?thesis using assms(2) by blast
qed

text \<open>A loop whose steps all end, and each lower a measure, ends.\<close>

lemma iterate_opt_ends:
  assumes "I s" "\<And>s. I s \<Longrightarrow> f s \<noteq> None" "\<And>s s'. I s \<Longrightarrow> f s = Some (Inl s') \<Longrightarrow> I s' \<and> (m s' :: nat) < m s"
  shows "iterate_opt f s \<noteq> None"
  using assms(1)
proof (induction s rule: measure_induct_rule [of m])
  case (less s)
  obtain x where x: "f s = Some x" using assms(2) [OF less.prems] by auto
  show ?case
  proof (cases x)
    case (Inl s')
    then show ?thesis using less.IH [of s'] assms(3) [OF less.prems, of s'] x by (simp add: iterate_opt.simps [of f s])
  qed (simp add: iterate_opt.simps [of f s] x)
qed

end
