(* ===== verification/JitOptimize.thy ===== *)
theory JitOptimize
  imports JitSound BackEdges Loops
begin

text \<open>
  What \<open>compileOps\<close> of \<open>native/bap_jit.cpp\<close> makes of a program that is to be optimized, before it is given to
  the passes of LLVM: a copy of the function that doesn't leave at each block for its budget, and the
  slots on the stack, with what is left of them in the state, or in the registers of a chain, at code
  sites and at the end.

  The search for the targets of jumps back goes over all the blocks of the function. A block within the code of
  an operation has its jumps from that operation, so that it is none of the targets, and goes on to the end of
  the operations of its label: the search over labels finds the same targets. As the blocks of labels begin
  with no phi, the copy is always kept.
\<close>

section \<open>The copy without checks\<close>

record budget_copy =
  budget_slot :: nat
  checks :: nat
  check_at :: "nat option list"

definition budgetBranch :: "nat \<Rightarrow> jit_op list \<Rightarrow> bool" where
  "budgetBranch slot ops \<longleftrightarrow> ops \<noteq> [] \<and> (case last ops of Branch q y n \<Rightarrow> q = slot | _ \<Rightarrow> False)"

text \<open>Where a block of the copy goes on, its checks gone.\<close>

definition copy_succs :: "nat \<Rightarrow> jit_op list \<Rightarrow> nat option list" where
  "copy_succs slot ops =
     (if ops = [] then []
      else case last ops of
             Goto i \<Rightarrow> [Some i]
           | Branch q y n \<Rightarrow> if q = slot then [Some y] else [Some y, Some n]
           | _ \<Rightarrow> [])"

definition count_checks :: "program \<Rightarrow> nat list \<Rightarrow> nat \<Rightarrow> nat" where
  "count_checks p labels slot = length (filter (\<lambda>k. budgetBranch slot (blocks p k)) (None # map Some labels))"

definition make_copy :: "program \<Rightarrow> nat list \<Rightarrow> nat \<Rightarrow> budget_copy option" where
  "make_copy p labels slot =
     (if count_checks p labels slot = 0 then None
      else case back_targets (\<lambda>k. copy_succs slot (blocks p k)) None of
             None \<Rightarrow> None
           | Some ts \<Rightarrow> Some \<lparr>budget_slot = slot, checks = count_checks p labels slot, check_at = ts\<rparr>)"

section \<open>The slots on the stack\<close>

text \<open>The slots that an operation writes.\<close>

fun op_writes :: "jit_op \<Rightarrow> nat list" where
  "op_writes (Set d v) = [d]"
| "op_writes (Move d s) = [d]"
| "op_writes (AddImm d s v) = [d]"
| "op_writes (Bin b d l r) = [d]"
| "op_writes (AndImm d s v) = [d]"
| "op_writes (SignExtend w d s) = [d]"
| "op_writes (Select d q y n) = [d]"
| "op_writes (Neg d s) = [d]"
| "op_writes (NotOp d s) = [d]"
| "op_writes (Ashr w d l r) = [d]"
| "op_writes (MemLoad d a sz big) = [d]"
| "op_writes (Code e pc) = [e]"
| "op_writes _ = []"

record optimization =
  slot_number :: nat
  o_written :: "nat list"
  o_kept :: "u64 list option"
  o_variables :: "u64 list option"
  flushPcs :: "u64 list"
  o_copy :: "budget_copy option"

text \<open>Where a slot is between runs: in the state, or in the register of a variable where there are registers.\<close>

datatype home = In_state nat | In_register nat

fun variable_homes :: "nat \<Rightarrow> bool \<Rightarrow> u64 list \<Rightarrow> (nat \<Rightarrow> home) \<Rightarrow> nat \<Rightarrow> home" where
  "variable_homes n chained (slot # number # rest) hs =
     variable_homes n chained rest (if unat slot < n \<and> chained then hs(unat slot := In_register (unat number)) else hs)"
| "variable_homes n chained _ hs = hs"

definition homes :: "optimization \<Rightarrow> bool \<Rightarrow> nat \<Rightarrow> home" where
  "homes ot chained = variable_homes (slot_number ot) chained (case o_variables ot of None \<Rightarrow> [] | Some vs \<Rightarrow> vs) In_state"

definition load_home :: "home \<Rightarrow> ('x, 'e) cells \<Rightarrow> u64 option" where
  "load_home hm c =
     (case hm of
        In_state i \<Rightarrow> (case state_array c of None \<Rightarrow> None | Some s \<Rightarrow> if i < length s then Some (s ! i) else None)
      | In_register i \<Rightarrow> (case registers c of None \<Rightarrow> None | Some r \<Rightarrow> if i < length r then Some (r ! i) else None))"

definition store_home :: "home \<Rightarrow> u64 \<Rightarrow> ('x, 'e) cells \<Rightarrow> ('x, 'e) cells option" where
  "store_home hm v c =
     (case hm of
        In_state i \<Rightarrow>
          (case state_array c of
             None \<Rightarrow> None
           | Some s \<Rightarrow> if i < length s then Some (c\<lparr>state_array := Some (s[i := v])\<rparr>) else None)
      | In_register i \<Rightarrow>
          (case registers c of
             None \<Rightarrow> None
           | Some r \<Rightarrow> if i < length r then Some (c\<lparr>registers := Some (r[i := v])\<rparr>) else None))"

text \<open>Those that are left, of what the function writes.\<close>

definition left_slots :: "optimization \<Rightarrow> nat list" where
  "left_slots ot = filter (\<lambda>i. i \<in> set (o_written ot) \<and>
     (case o_kept ot of None \<Rightarrow> True | Some ks \<Rightarrow> \<exists>k \<in> set ks. unat k = i)) [0..<slot_number ot]"

definition promote :: "optimization \<Rightarrow> ('x, 'e) cells \<Rightarrow> ('x, 'e) cells option" where
  "promote ot c =
     (let c1 = c\<lparr>state_array := Some (slots c)\<rparr>
      in do {
        copies \<leftarrow> those (map (\<lambda>i. load_home (homes ot (registers c \<noteq> None) i) c1) [0..<slot_number ot]);
        Some (c1\<lparr>slots := copies\<rparr>)
      })"

fun write_back :: "(nat \<Rightarrow> home) \<Rightarrow> nat list \<Rightarrow> ('x, 'e) cells \<Rightarrow> ('x, 'e) cells option" where
  "write_back hs [] c = Some c"
| "write_back hs (i # is) c = do { v \<leftarrow> load_slot i c; c1 \<leftarrow> store_home (hs i) v c; write_back hs is c1 }"

definition leave_slots :: "optimization \<Rightarrow> ('x, 'e) cells \<Rightarrow> ('x, 'e) cells option" where
  "leave_slots ot c = write_back (homes ot (registers c \<noteq> None)) (left_slots ot) c"

definition flush_site :: "optimization \<Rightarrow> u64 \<Rightarrow> ('x, 'e) cells \<Rightarrow> ('x, 'e) cells option" where
  "flush_site ot pc c =
     (if pc \<in> set (flushPcs ot) then map_option (\<lambda>c1. c1\<lparr>flushedPc := pc\<rparr>) (leave_slots ot c) else Some c)"

text \<open>A code site: what it would leave is left before the call.\<close>

definition optimized_site :: "optimization \<Rightarrow> nat \<Rightarrow> u64 \<Rightarrow> ('x, 'e) cells \<Rightarrow> ('x, 'e) cells flow" where
  "optimized_site ot effectSlot pc c =
     (let observed = (codeObserver c \<noteq> None);
          fine = (error c = None);
          waits = (quietSites c \<and> \<not> leanRan c)
      in if fine \<and> \<not> observed then Next c
         else if fine \<and> waits then Next (c\<lparr>pendingSite := True, pendingPc := pc\<rparr>)
         else case flush_site ot pc c of
                None \<Rightarrow> Undefined
              | Some c0 \<Rightarrow>
                  (case code_notify pc c0 of
                     (False, c1) \<Rightarrow> Next c1
                   | (True, c1) \<Rightarrow> (case store_slot effectSlot 3 c1 of None \<Rightarrow> Undefined | Some c2 \<Rightarrow> Leave pc c2)))"

definition optimized_op :: "host \<Rightarrow> bool \<Rightarrow> optimization \<Rightarrow> jit_op \<Rightarrow> ('x, 'e) cells \<Rightarrow> ('x, 'e) cells flow" where
  "optimized_op h hb ot op c = (case op of Code e pc \<Rightarrow> optimized_site ot e pc c | _ \<Rightarrow> exec_op h hb op c)"

text \<open>In the copy, a check of the budget goes on.\<close>

definition copy_op :: "host \<Rightarrow> bool \<Rightarrow> optimization \<Rightarrow> budget_copy \<Rightarrow> jit_op \<Rightarrow> ('x, 'e) cells \<Rightarrow> ('x, 'e) cells flow" where
  "copy_op h hb ot bc op c =
     (case op of
        Branch q y n \<Rightarrow> if q = budget_slot bc then To y c else optimized_op h hb ot op c
      | _ \<Rightarrow> optimized_op h hb ot op c)"

section \<open>Running\<close>

fun exec_list :: "(jit_op \<Rightarrow> 'c \<Rightarrow> 'c flow) \<Rightarrow> jit_op list \<Rightarrow> 'c \<Rightarrow> 'c flow" where
  "exec_list f [] c = Undefined"
| "exec_list f (op # ops) c = (case f op c of Next c' \<Rightarrow> exec_list f ops c' | r \<Rightarrow> r)"

definition enough :: "budget_copy \<Rightarrow> ('x, 'e) cells \<Rightarrow> bool" where
  "enough bc c = (case load_slot (budget_slot bc) c of None \<Rightarrow> False | Some b \<Rightarrow> of_nat (checks bc) \<le> b)"

text \<open>
  \<open>fast\<close> is the copy, if a run is in it. A jump of the copy to one of the targets goes on in it while there
  is enough of the budget.
\<close>

definition stays :: "budget_copy option \<Rightarrow> nat option \<Rightarrow> ('x, 'e) cells \<Rightarrow> budget_copy option" where
  "stays fast k c =
     (case fast of None \<Rightarrow> None | Some bc \<Rightarrow> if k \<in> set (check_at bc) \<and> \<not> enough bc c then None else Some bc)"

definition leave_function :: "optimization \<Rightarrow> u64 \<Rightarrow> ('x, 'e) cells \<Rightarrow> ('x, 'e) cells outcome" where
  "leave_function ot v c =
     (case leave_slots ot c of
        None \<Rightarrow> Undefined_run
      | Some c1 \<Rightarrow>
          (case state_array c1 of None \<Rightarrow> Undefined_run | Some s \<Rightarrow> Returned v (c1\<lparr>slots := s, state_array := None\<rparr>)))"

definition copies_step ::
  "host \<Rightarrow> bool \<Rightarrow> program \<Rightarrow> optimization \<Rightarrow> budget_copy option \<times> nat option \<times> ('x, 'e) cells \<Rightarrow>
   budget_copy option \<times> nat option \<times> ('x, 'e) cells + ('x, 'e) cells outcome" where
  "copies_step h hb p ot st =
     (let (fast, k, c) = st
      in case exec_list (case fast of None \<Rightarrow> optimized_op h hb ot | Some bc \<Rightarrow> copy_op h hb ot bc) (blocks p k) c of
           To i c' \<Rightarrow> Inl (stays fast (Some i) c', Some i, c')
         | Leave v c' \<Rightarrow> Inr (leave_function ot v c')
         | Thrown \<Rightarrow> Inr Threw
         | _ \<Rightarrow> Inr Undefined_run)"

definition run_copies ::
  "host \<Rightarrow> bool \<Rightarrow> program \<Rightarrow> optimization \<Rightarrow> budget_copy option \<Rightarrow> nat option \<Rightarrow> ('x, 'e) cells \<Rightarrow>
   ('x, 'e) cells outcome option" where
  "run_copies h hb p ot fast k c = iterate (copies_step h hb p ot) (fast, k, c)"

definition run_optimized :: "host \<Rightarrow> bool \<Rightarrow> program \<Rightarrow> optimization \<Rightarrow> ('x, 'e) cells \<Rightarrow> ('x, 'e) cells outcome option" where
  "run_optimized h hb p ot c =
     (case promote ot c of
        None \<Rightarrow> Some Undefined_run
      | Some c1 \<Rightarrow>
          (case start_block p c1 of
             None \<Rightarrow> Some Undefined_run
           | Some k \<Rightarrow>
               run_copies h hb p ot
                 (case o_copy ot of None \<Rightarrow> None | Some bc \<Rightarrow> if enough bc c1 then Some bc else None) k c1))"

section \<open>Programs\<close>

text \<open>\<open>opt\<close> is None for a program that isn't optimized.\<close>

record compiled =
  function_of :: program
  opt :: "optimization option"
  direct :: bool

definition unoptimized :: "program \<Rightarrow> compiled" where
  "unoptimized p = \<lparr>function_of = p, opt = None, direct = False\<rparr>"

definition hasSlots :: "jit_op list \<Rightarrow> bool" where
  "hasSlots ops \<longleftrightarrow> (\<exists>op \<in> set ops. op_slots op \<noteq> [])"

definition optimize ::
  "jit_op list \<Rightarrow> program \<Rightarrow> u64 list option \<Rightarrow> u64 \<Rightarrow> u64 list option \<Rightarrow> u64 list \<Rightarrow> compiled" where
  "optimize ops p kept' budgetSlot vars flush =
     (if \<not> hasSlots ops then unoptimized p
      else \<lparr>function_of = p,
            opt = Some \<lparr>slot_number = maxSlot p, o_written = concat (map op_writes ops), o_kept = kept',
                        o_variables = vars, flushPcs = flush,
                        o_copy = (if dispatch p = None \<and> budgetSlot \<noteq> - 1 \<and> unat budgetSlot < maxSlot p
                                  then make_copy p (labels_of ops) (unat budgetSlot) else None)\<rparr>,
            direct = (vars \<noteq> None)\<rparr>)"

definition compile_optimized ::
  "jit_op list \<Rightarrow> u64 list \<Rightarrow> u64 \<Rightarrow> u64 list \<Rightarrow> u64 list \<Rightarrow> compile_error + compiled" where
  "compile_optimized ops kept' budgetSlot vars flush =
     (case compileOps ops None of
        Inl e \<Rightarrow> Inl e
      | Inr p \<Rightarrow> Inr (optimize ops p (Some kept') budgetSlot (Some vars) flush))"

definition compile_entries_optimized ::
  "jit_op list \<Rightarrow> nat list \<Rightarrow> nat \<Rightarrow> u64 list \<Rightarrow> u64 list \<Rightarrow> u64 list \<Rightarrow> compile_error + compiled" where
  "compile_entries_optimized ops is slot kept' vars flush =
     (case compile_entries ops is slot of
        Inl e \<Rightarrow> Inl e
      | Inr p \<Rightarrow> Inr (optimize ops p (Some kept') (- 1) (Some vars) flush))"

definition run_compiled :: "host \<Rightarrow> bool \<Rightarrow> compiled \<Rightarrow> ('x, 'e) cells \<Rightarrow> ('x, 'e) cells outcome option" where
  "run_compiled h hb k c =
     (case opt k of None \<Rightarrow> run_function h hb (function_of k) c | Some ot \<Rightarrow> run_optimized h hb (function_of k) ot c)"

lemma run_unoptimized [simp]: "run_compiled h hb (unoptimized p) c = run_function h hb p c" "function_of (unoptimized p) = p"
  "opt (unoptimized p) = None" "direct (unoptimized p) = False"
  by (simp_all add: run_compiled_def unoptimized_def)

end
