(* ===== verification/JitRun.thy ===== *)
theory JitRun
  imports JitOptimize
begin

text \<open>
  The functions of \<open>native/bap_jit.cpp\<close> that run a compiled program: \<open>bap_jit_run\<close>, \<open>bap_jit_run_memory_code\<close>,
  which has a memory image of cells, and \<open>runMemoryObject\<close>, which has a memory. A run that never returns is
  None. What is shown: without observers, what a run gives is what the operations denote, on slots and a map
  of bytes (\<open>run_function_denotes\<close>); and the cells that a run on a memory gives back are what its stores
  changed (\<open>run_function_tracks\<close>).
\<close>

section \<open>The runners\<close>

datatype 'e run_failure = Few_slots | Image_lengths_differ | Run_error "'e run_error" | Exception | Undefined_behaviour

definition new_cells :: "bool \<Rightarrow> u64 list \<Rightarrow> u64 \<Rightarrow> 'x world \<Rightarrow> ('x, 'e) cells" where
  "new_cells live state ser w = \<lparr>items = [], capacity = 0, observer = None, error = None, world = w, changes = None,
     codeObserver = None, quietSites = False, leanRan = False, pendingSite = False, pendingPc = 0,
     quietFirst = (\<lambda>_. 1), quietLast = (\<lambda>_. 0), registers = None, slots = state,
     state_array = None, slots_shown = True, serial = ser, slotsLive = live,
     flushedPc = - 1, pageEntries = no_entries\<rparr>"

definition jit_run ::
  "host \<Rightarrow> bool \<Rightarrow> compiled \<Rightarrow> u64 \<Rightarrow> u64 list \<Rightarrow> (unit run_failure + u64 \<times> u64 list) option" where
  "jit_run h hb p ser state =
     (if length state < maxSlot (function_of p) then Some (Inl Few_slots)
      else let w = \<lparr>outside = (), pages = None, quiet_filter = None\<rparr>; c = new_cells (opt p = None) state ser w :: (unit, unit) cells
           in case run_compiled h hb p c of
                None \<Rightarrow> None
              | Some (Returned v c') \<Rightarrow> Some (Inr (v, slots c'))
              | Some Threw \<Rightarrow> Some (Inl Exception)
              | Some Undefined_run \<Rightarrow> Some (Inl Undefined_behaviour))"

text \<open>
  \<open>spare\<close> is what \<open>std::vector::reserve\<close> may take beyond what it is asked for.
\<close>

definition run_memory_code ::
  "host \<Rightarrow> bool \<Rightarrow> compiled \<Rightarrow> u64 \<Rightarrow> nat \<Rightarrow> u64 list \<Rightarrow> u64 list \<Rightarrow> u8 list \<Rightarrow> ('x, 'e) memory_observer option \<Rightarrow>
   ('x, 'e) code_observer option \<Rightarrow> 'x \<Rightarrow> (('e run_failure + u64 \<times> u64 list \<times> (u64 \<times> u8) list) \<times> 'x option) option" where
  "run_memory_code h hb p ser spare state addresses vs obs cobs x =
     (if length state < maxSlot (function_of p) then Some (Inl Few_slots, Some x)
      else if length addresses \<noteq> length vs then Some (Inl Image_lengths_differ, Some x)
      else let w = \<lparr>outside = x, pages = None, quiet_filter = None\<rparr>;
               c = (new_cells (opt p = None) state ser w)\<lparr>items := zip addresses vs,
                      capacity := length addresses + memoryStores (function_of p) + spare, observer := obs, codeObserver := cobs\<rparr>
           in case run_compiled h hb p c of
                None \<Rightarrow> None
              | Some (Returned v c') \<Rightarrow>
                  Some (case error c' of
                          Some e \<Rightarrow> Inl (Run_error e)
                        | None \<Rightarrow> Inr (v, slots c', items c'), Some (outside (world c')))
              | Some Threw \<Rightarrow> Some (Inl Exception, None)
              | Some Undefined_run \<Rightarrow> Some (Inl Undefined_behaviour, None))"

definition run_memory ::
  "host \<Rightarrow> bool \<Rightarrow> compiled \<Rightarrow> u64 \<Rightarrow> nat \<Rightarrow> u64 list \<Rightarrow> u64 list \<Rightarrow> u8 list \<Rightarrow> ('x, 'e) memory_observer option \<Rightarrow>
   'x \<Rightarrow> (('e run_failure + u64 \<times> u64 list \<times> (u64 \<times> u8) list) \<times> 'x option) option" where
  "run_memory h hb p ser spare state addresses vs obs x = run_memory_code h hb p ser spare state addresses vs obs None x"

text \<open>What the stores of a run changed, for the step that is open, if one is.\<close>

definition note_changes :: "store_log \<Rightarrow> paged \<Rightarrow> paged" where
  "note_changes l m = (if stepActive m then foldl (\<lambda>m cell. noteStep (fst cell) 1 m) m (log_cells l) else m)"

definition note_world :: "('x, 'e) cells \<Rightarrow> 'x world" where
  "note_world c = (world c)\<lparr>pages := (case (pages (world c), changes c) of
      (Some m, Some l) \<Rightarrow> Some (note_changes l m) | (m, _) \<Rightarrow> m)\<rparr>"

definition run_cells :: "('x, 'e) cells \<Rightarrow> (u64 \<times> u8) list" where
  "run_cells c = (case changes c of None \<Rightarrow> [] | Some l \<Rightarrow> log_cells l)"

definition object_cells ::
  "bool \<Rightarrow> u64 list \<Rightarrow> u64 \<Rightarrow> bool \<Rightarrow> ('x, 'e) memory_observer option \<Rightarrow> ('x, 'e) code_observer option \<Rightarrow> 'x world \<Rightarrow>
   ('x, 'e) cells" where
  "object_cells live state ser quiet obs cobs w =
     (new_cells live state ser w)\<lparr>changes := Some new_log, observer := obs, codeObserver := cobs, quietSites := quiet\<rparr>"

definition runMemoryObject ::
  "host \<Rightarrow> bool \<Rightarrow> compiled \<Rightarrow> u64 \<Rightarrow> u64 list \<Rightarrow> bool \<Rightarrow> ('x, 'e) memory_observer option \<Rightarrow>
   ('x, 'e) code_observer option \<Rightarrow> 'x world \<Rightarrow>
   (('e run_failure + u64 \<times> u64 list \<times> (u64 \<times> u8) list) \<times> 'x world option) option" where
  "runMemoryObject h hb p ser state quiet obs cobs w =
     (if length state < maxSlot (function_of p) then Some (Inl Few_slots, Some w)
      else case run_compiled h hb p (object_cells (opt p = None) state ser quiet obs cobs w) of
             None \<Rightarrow> None
           | Some (Returned v c') \<Rightarrow>
               Some (case error c' of
                       Some e \<Rightarrow> Inl (Run_error e)
                     | None \<Rightarrow> Inr (v, slots c', run_cells c'), Some (note_world c'))
           | Some Threw \<Rightarrow> Some (Inl Exception, None)
           | Some Undefined_run \<Rightarrow> Some (Inl Undefined_behaviour, None))"

definition run_memory_object_code where
  "run_memory_object_code h hb p ser state obs cobs w =
     runMemoryObject h hb p ser state False obs cobs (w\<lparr>quiet_filter := None\<rparr>)"

definition run_memory_object_filtered_code where
  "run_memory_object_filtered_code h hb p ser state flt quiet obs cobs w =
     runMemoryObject h hb p ser state quiet obs cobs (w\<lparr>quiet_filter := Some flt\<rparr>)"

definition run_memory_object where
  "run_memory_object h hb p ser state obs w = run_memory_object_code h hb p ser state obs None w"

section \<open>What the operations denote\<close>

text \<open>The effect of an operation on slots and a map of bytes, as \<open>step\<close> of \<open>src/Bap/Proofs/Primus.lean\<close> has it.\<close>

type_synonym machine = "u64 list \<times> memory"

fun denote_step :: "jit_op \<Rightarrow> machine \<Rightarrow> machine" where
  "denote_step (Set d v) (s, m) = (s[d := v], m)"
| "denote_step (Move d a) (s, m) = (s[d := s ! a], m)"
| "denote_step (AddImm d a v) (s, m) = (s[d := s ! a + v], m)"
| "denote_step (Bin b d l r) (s, m) = (s[d := denoteBin (bin_ops ! b) (s ! l) (s ! r)], m)"
| "denote_step (AndImm d a v) (s, m) = (s[d := s ! a AND v], m)"
| "denote_step (SignExtend w d a) (s, m) = (s[d := of_int (signed_take_bit (w - 1) (uint (s ! a)))], m)"
| "denote_step (Select d q y n) (s, m) = (s[d := if s ! q \<noteq> 0 then s ! y else s ! n], m)"
| "denote_step (Neg d a) (s, m) = (s[d := - (s ! a)], m)"
| "denote_step (NotOp d a) (s, m) = (s[d := NOT (s ! a)], m)"
| "denote_step (Ashr w d l r) (s, m) = (s[d := of_int (sint (s ! l) div 2 ^ min (unat (s ! r)) (w - 1))], m)"
| "denote_step (MemLoad d a sz big) (s, m) = (s[d := bytes_value big (read_bytes m (s ! a) sz)], m)"
| "denote_step (MemStore a v sz big) (s, m) = (s, upd_bytes m (s ! a) (value_bytes big sz (s ! v)))"
| "denote_step _ sm = sm"

partial_function (option) denote_run :: "jit_op list \<Rightarrow> jit_op list \<Rightarrow> machine \<Rightarrow> (u64 \<times> machine) option" where
  "denote_run prog ops sm =
     (case ops of
        [] \<Rightarrow> None
      | Jump v # _ \<Rightarrow> Some (v, sm)
      | JumpSlot a # _ \<Rightarrow> Some (fst sm ! a, sm)
      | Goto i # _ \<Rightarrow> (case afterLabel prog i of None \<Rightarrow> None | Some t \<Rightarrow> denote_run prog t sm)
      | Branch q y n # _ \<Rightarrow>
          (case afterLabel prog (if fst sm ! q \<noteq> 0 then y else n) of None \<Rightarrow> None | Some t \<Rightarrow> denote_run prog t sm)
      | op # rest \<Rightarrow> denote_run prog rest (denote_step op sm))"

lemma compile_run_ops:
  assumes "compile ops = Inr p"
  shows "run_function h hb p c = run_ops h hb ops ops c"
proof -
  have c: "compileOps ops None = Inr p" using assms by (simp add: compile_def)
  then have "start_block p c = Some None" by (rule compileOps_InrD) (simp add: start_block_def)
  then show ?thesis using run_blocks_ops [OF c, of None ops] by (simp add: run_function_def place_def)
qed

section \<open>Runs without observers\<close>

definition plain :: "('x, 'e) cells \<Rightarrow> bool" where
  "plain c \<longleftrightarrow> cells_ok c \<and> observer c = None \<and> codeObserver c = None \<and> error c = None \<and> pages (world c) \<noteq> None"

definition machine_of :: "('x, 'e) cells \<Rightarrow> machine" where
  "machine_of c = (slots c, contents c)"

lemma plain_notify: "plain c \<Longrightarrow> memory_notify write a sz v c = c"
  by (simp add: plain_def memory_notify_def)

lemma plain_store_slot:
  assumes "plain c" "d < length (slots c)"
  shows "\<exists>c'. going_on (store_slot d v c) = Next c' \<and> plain c' \<and> machine_of c' = ((slots c)[d := v], contents c)"
  using assms slots_update_ok [of c]
  by (auto simp: going_on_def store_slot_def plain_def machine_of_def contents_def loadByte_def [abs_def])

lemma bin_ops_number: "b \<le> 21 \<Longrightarrow> bin_number (bin_ops ! b) = b"
proof -
  assume "b \<le> 21"
  then obtain op where "bin_number op = b" using bin_number_all by blast
  moreover have "bin_ops ! bin_number op = op" by (cases op) (simp_all add: bin_ops_def)
  ultimately show ?thesis by auto
qed

lemma keeps_pages_None: "keeps_pages w w' \<Longrightarrow> pages w' = None \<longleftrightarrow> pages w = None"
  by (simp add: keeps_pages_def)

lemma plain_load:
  assumes "plain c" "0 < sz" "sz \<le> 8" "d < length (slots c)"
  shows "\<exists>c'. (case access_load h hb base sz big c of None \<Rightarrow> Thrown | Some (v, c1) \<Rightarrow> going_on (store_slot d v c1)) = Next c' \<and>
    plain c' \<and> machine_of c' = ((slots c)[d := bytes_value big (read_bytes (contents c) base sz)], contents c)"
proof -
  have ok: "cells_ok c" "error c = None" using assms(1) by (simp_all add: plain_def)
  obtain c1 where c1: "access_load h hb base sz big c = Some (bytes_value big (read_bytes (contents c) base sz), c1)"
      "cells_ok c1" "kept c c1" "error c1 = None" "contents c1 = contents c"
    using access_load_ok [OF ok(1) assms(2,3) refl, of h hb base big] ok(2) by (auto simp: plain_notify [OF assms(1)])
  then have "plain c1" "slots c1 = slots c" using assms(1) keeps_pages_None [of "world c" "world c1"] by (simp_all add: plain_def kept_def del: not_None_eq)
  then show ?thesis using plain_store_slot [of c1 d] assms(4) c1(1,5) by simp
qed

lemma plain_store:
  assumes "plain c" "0 < sz" "sz \<le> 8"
  shows "access_store h hb base sz big v c = None \<and> \<not> (\<forall>i. h i) \<or>
    (\<exists>c'. access_store h hb base sz big v c = Some c' \<and> plain c' \<and>
       machine_of c' = (slots c, upd_bytes (contents c) base (value_bytes big sz v)))"
proof (cases "access_store h hb base sz big v c")
  case None
  then show ?thesis using access_store_granted [of c h sz hb base big v] assms by (auto simp: plain_def)
next
  case (Some c')
  have ok: "cells_ok c" using assms(1) by (simp add: plain_def)
  obtain c2 where c2: "stored_cells base sz big v c2 c'" "kept c c2" "error c2 = error c" "contents c2 = contents c"
    using access_store_ok [OF ok assms(2,3) refl Some] by (auto simp: plain_notify [OF assms(1)])
  have p2: "pages (world c2) \<noteq> None" "error c2 = None" "room_for sz c2"
    using c2(2,3) assms(1) keeps_pages_None [of "world c" "world c2"] by (simp_all add: plain_def kept_def room_for_def del: not_None_eq)
  then have "pages (world c') \<noteq> None" using c2(1) keeps_pages_None [of "world c2" "world c'"] by (simp add: stored_cells_def del: not_None_eq)
  then have "plain c'" using c2(1,2) p2 assms(1) by (simp add: plain_def kept_def stored_cells_def)
  moreover have "slots c' = slots c" using c2(1,2) by (simp add: kept_def stored_cells_def)
  moreover have "contents c' = upd_bytes (contents c) base (value_bytes big sz v)"
    using c2(1,4) p2 by (simp add: stored_cells_def)
  ultimately show ?thesis using Some by (simp add: machine_of_def)
qed

lemma exec_op_denotes:
  assumes "plain c" "op_error ls op = None" "\<And>s. s \<in> set (op_slots op) \<Longrightarrow> s < length (slots c)" "\<not> is_terminator op"
  shows "exec_op h hb op c = Thrown \<and> \<not> (\<forall>i. h i) \<or>
    (\<exists>c'. exec_op h hb op c = Next c' \<and> plain c' \<and> machine_of c' = denote_step op (machine_of c))"
proof (cases op)
  case (Bin b d l r)
  then have "b \<le> 21" using assms(2) by (auto split: if_splits)
  then have "bin_value b x y = Some (denoteBin (bin_ops ! b) x y)" for x y
    using bin_value_denotes [of "bin_ops ! b"] by (simp add: bin_ops_number)
  then show ?thesis using Bin assms(3) plain_store_slot [OF assms(1)] by (simp add: load_slot_def machine_of_def)
next
  case (SignExtend w d s)
  then have "0 < w" "w \<le> 64" using assms(2) by (auto split: if_splits)
  then show ?thesis using SignExtend assms(3) plain_store_slot [OF assms(1)]
    by (simp add: load_slot_def machine_of_def sign_extend_denotes)
next
  case (Ashr w d l r)
  then have "0 < w" "w \<le> 64" using assms(2) by (auto split: if_splits)
  then show ?thesis using Ashr assms(3) plain_store_slot [OF assms(1)]
    by (simp add: load_slot_def machine_of_def ashr_denotes)
next
  case (MemLoad d a sz big)
  then have "0 < sz" "sz \<le> 8" using assms(2) by (auto split: if_splits)
  then show ?thesis using MemLoad assms(3) plain_load [OF assms(1)] by (simp add: load_slot_def machine_of_def)
next
  case (MemStore a v sz big)
  then have sz: "0 < sz" "sz \<le> 8" using assms(2) by (auto split: if_splits)
  show ?thesis using MemStore assms(3) plain_store [OF assms(1) sz, of h hb "slots c ! a" big "slots c ! v"]
    by (auto simp: load_slot_def machine_of_def)
next
  case (Code e pc)
  then show ?thesis using assms(1) by (simp add: code_site_def plain_def Let_def machine_of_def)
qed (use assms plain_store_slot [OF assms(1)] in \<open>simp_all add: load_slot_def machine_of_def\<close>)


lemma run_ops_Cons:
  "run_ops h hb prog (op # rest) c =
     (case exec_op h hb op c of
        Next c' \<Rightarrow> run_ops h hb prog rest c'
      | To i c' \<Rightarrow> (case afterLabel prog i of None \<Rightarrow> Some Undefined_run | Some t \<Rightarrow> run_ops h hb prog t c')
      | Leave v c' \<Rightarrow> Some (Returned v c')
      | Thrown \<Rightarrow> Some Threw
      | Undefined \<Rightarrow> Some Undefined_run)"
  by (subst run_ops.simps) simp

lemma denote_run_Cons: "\<not> is_terminator op \<Longrightarrow> denote_run prog (op # rest) sm = denote_run prog rest (denote_step op sm)"
  by (subst denote_run.simps) (cases op; simp)

lemma run_ops_denotes:
  assumes "run_ops h hb prog t c = Some (Returned v c')" "good_prog n prog" "good_ops n prog t" "plain c" "length (slots c) = n"
  shows "denote_run prog t (machine_of c) = Some (v, machine_of c') \<and> plain c'"
proof -
  have "good_prog n prog \<longrightarrow> good_ops n prog t \<longrightarrow> plain c \<longrightarrow> length (slots c) = n \<longrightarrow> r = Returned v c' \<longrightarrow>
      denote_run prog t (machine_of c) = Some (v, machine_of c') \<and> plain c'" if "run_ops h hb prog t c = Some r" for r
  proof (rule run_ops.raw_induct [where P = "\<lambda>h hb prog t c r. good_prog n prog \<longrightarrow> good_ops n prog t \<longrightarrow> plain c \<longrightarrow>
      length (slots c) = n \<longrightarrow> r = Returned v c' \<longrightarrow> denote_run prog t (machine_of c) = Some (v, machine_of c') \<and> plain c'", OF _ that], intro impI)
    fix run h hb prog t c r
    assume IH: "\<And>h hb prog t c r. run h hb prog t c = Some r \<Longrightarrow> good_prog n prog \<longrightarrow> good_ops n prog t \<longrightarrow> plain c \<longrightarrow>
        length (slots c) = n \<longrightarrow> r = Returned v c' \<longrightarrow> denote_run prog t (machine_of c) = Some (v, machine_of c') \<and> plain c'"
      and run: "(case t of [] \<Rightarrow> Some Undefined_run | op # rest \<Rightarrow>
        (case exec_op h hb op c of Next c' \<Rightarrow> run h hb prog rest c'
         | To i c' \<Rightarrow> (case afterLabel prog i of None \<Rightarrow> Some Undefined_run | Some t \<Rightarrow> run h hb prog t c')
         | Leave v c' \<Rightarrow> Some (Returned v c') | Thrown \<Rightarrow> Some Threw | Undefined \<Rightarrow> Some Undefined_run)) = Some r"
      and g: "good_prog n prog" "good_ops n prog t" and c: "plain c" "length (slots c) = n" and r: "r = Returned v c'"
    from g(2) obtain op rest where op: "t = op # rest" "op_error (labels_of prog) op = None"
        "\<And>s. s \<in> set (op_slots op) \<Longrightarrow> s < n" "\<not> is_terminator op \<Longrightarrow> good_ops n prog rest"
      by (rule good_opsE) blast
    show "denote_run prog t (machine_of c) = Some (v, machine_of c') \<and> plain c'"
    proof (cases "is_terminator op")
      case False
      have "exec_op h hb op c \<noteq> Thrown" using run op(1) r by auto
      then obtain c1 where c1: "exec_op h hb op c = Next c1" "plain c1" "machine_of c1 = denote_step op (machine_of c)"
        using exec_op_denotes [OF c(1) op(2) _ False] op(3) c(2) by blast
      have "length (slots c1) = n"
        using exec_op_ok [OF op(2) op(3), of c h hb] c c1(1) by (simp add: run_ok_def plain_def)
      then show ?thesis using IH [of h hb prog rest c1 r] run op g c1 r False by (simp add: denote_run_Cons)
    next
      case True
      show ?thesis
      proof (cases op)
        case (Goto i)
        then obtain t' where t': "afterLabel prog i = Some t'" "good_ops n prog t'" using good_target [OF g(1) op(2)] by blast
        then show ?thesis using IH [of h hb prog t' c r] run op(1) g c r Goto by (subst denote_run.simps) simp
      next
        case (Branch q y z)
        define i where "i = (if slots c ! q \<noteq> 0 then y else z)"
        have "q < n" using op(3) Branch by simp
        obtain t' where t': "afterLabel prog i = Some t'" "good_ops n prog t'"
          by (rule good_target [OF g(1) op(2), of i]) (use Branch in \<open>auto simp: i_def\<close>)
        then show ?thesis using IH [of h hb prog t' c r] run op(1) g c r Branch \<open>q < n\<close>
          by (subst denote_run.simps) (simp add: load_slot_def machine_of_def i_def [symmetric])
      qed (use True run op(1,3) c r in \<open>auto simp: load_slot_def machine_of_def denote_run.simps\<close>)
    qed
  qed
  then show ?thesis using assms by blast
qed


lemma denotes_run_ops:
  fixes c :: "('x, 'e) cells"
  assumes "denote_run prog t (machine_of c) = Some (v, sm)" "good_prog n prog" "good_ops n prog t" "plain c" "length (slots c) = n"
    "\<forall>i. h i"
  shows "\<exists>c'. run_ops h hb prog t c = Some (Returned v c') \<and> machine_of c' = sm"
proof -
  have "good_prog n prog \<longrightarrow> good_ops n prog t \<longrightarrow> (\<forall>c :: ('x, 'e) cells. machine_of c = sm0 \<longrightarrow> plain c \<longrightarrow> length (slots c) = n \<longrightarrow>
      (\<exists>c'. run_ops h hb prog t c = Some (Returned (fst r) c') \<and> machine_of c' = snd r))"
    if "denote_run prog t sm0 = Some r" for r sm0
  proof (rule denote_run.raw_induct [where P = "\<lambda>prog t sm0 r. good_prog n prog \<longrightarrow> good_ops n prog t \<longrightarrow>
      (\<forall>c :: ('x, 'e) cells. machine_of c = sm0 \<longrightarrow> plain c \<longrightarrow> length (slots c) = n \<longrightarrow>
        (\<exists>c'. run_ops h hb prog t c = Some (Returned (fst r) c') \<and> machine_of c' = snd r))", OF _ that], intro impI allI)
    fix run prog t sm0 r and c :: "('x, 'e) cells"
    assume IH: "\<And>prog t sm0 r. run prog t sm0 = Some r \<Longrightarrow> good_prog n prog \<longrightarrow> good_ops n prog t \<longrightarrow>
        (\<forall>c :: ('x, 'e) cells. machine_of c = sm0 \<longrightarrow> plain c \<longrightarrow> length (slots c) = n \<longrightarrow>
          (\<exists>c'. run_ops h hb prog t c = Some (Returned (fst r) c') \<and> machine_of c' = snd r))"
      and run: "(case t of [] \<Rightarrow> None | Jump v # _ \<Rightarrow> Some (v, sm0) | JumpSlot a # _ \<Rightarrow> Some (fst sm0 ! a, sm0)
        | Goto i # _ \<Rightarrow> (case afterLabel prog i of None \<Rightarrow> None | Some t \<Rightarrow> run prog t sm0)
        | Branch q y n # _ \<Rightarrow> (case afterLabel prog (if fst sm0 ! q \<noteq> 0 then y else n) of None \<Rightarrow> None | Some t \<Rightarrow> run prog t sm0)
        | op # rest \<Rightarrow> run prog rest (denote_step op sm0)) = Some r"
      and g: "good_prog n prog" "good_ops n prog t" and c: "machine_of c = sm0" "plain c" "length (slots c) = n"
    from g(2) obtain op rest where op: "t = op # rest" "op_error (labels_of prog) op = None"
        "\<And>s. s \<in> set (op_slots op) \<Longrightarrow> s < n" "\<not> is_terminator op \<Longrightarrow> good_ops n prog rest"
      by (rule good_opsE) blast
    show "\<exists>c'. run_ops h hb prog t c = Some (Returned (fst r) c') \<and> machine_of c' = snd r"
    proof (cases "is_terminator op")
      case False
      obtain c1 where c1: "exec_op h hb op c = Next c1" "plain c1" "machine_of c1 = denote_step op (machine_of c)"
        using exec_op_denotes [OF c(2) op(2) _ False] op(3) c(3) assms(6) by blast
      have "length (slots c1) = n"
        using exec_op_ok [OF op(2) op(3), of c h hb] c c1(1) by (simp add: run_ok_def plain_def)
      moreover have "run prog rest (denote_step op sm0) = Some r" using run op(1) False by (cases op) auto
      ultimately show ?thesis using IH [of prog rest "denote_step op sm0" r] op(1,4) g(1) c1 c(1) False by (simp add: run_ops_Cons)
    next
      case True
      show ?thesis
      proof (cases op)
        case (Goto i)
        then obtain t' where t': "afterLabel prog i = Some t'" "good_ops n prog t'" using good_target [OF g(1) op(2)] by blast
        then show ?thesis using IH [of prog t' sm0 r] run op(1) g(1) c Goto by (simp add: run_ops_Cons)
      next
        case (Branch q y z)
        define i where "i = (if slots c ! q \<noteq> 0 then y else z)"
        have "q < n" using op(3) Branch by simp
        obtain t' where t': "afterLabel prog i = Some t'" "good_ops n prog t'"
          by (rule good_target [OF g(1) op(2), of i]) (use Branch in \<open>auto simp: i_def\<close>)
        have "run prog t' sm0 = Some r" using run op(1) Branch c(1) t'(1) by (auto simp: machine_of_def i_def)
        then show ?thesis using IH [of prog t' sm0 r] op(1) g(1) c Branch \<open>q < n\<close> t'
          by (simp add: run_ops_Cons load_slot_def i_def [symmetric])
      qed (use True run op(1,3) c in \<open>auto simp: load_slot_def machine_of_def run_ops_Cons\<close>)
    qed
  qed
  then show ?thesis using assms by fastforce
qed

lemma run_function_plain:
  assumes "compileOps ops None = Inr p" "maxSlot p \<le> length (slots c)" "plain c"
    "run_function h hb p c = Some (Returned v c')"
  shows "denote_run ops ops (machine_of c) = Some (v, machine_of c') \<and> plain c'"
proof -
  have s: "start_block p c = Some None" using assms(1) by (rule compileOps_InrD) (simp add: start_block_def)
  have pl: "place ops None = Some ops" by (simp add: place_def)
  have "run_ops h hb ops ops c = Some (Returned v c')"
    using assms(4) s run_blocks_ops [OF assms(1) pl, of h hb c] by (simp add: run_function_def)
  note g = compiled_good [OF assms(1,2)]
  from run_ops_denotes [OF \<open>run_ops _ _ _ _ _ = _\<close> g(1) g(2) [OF pl] assms(3) refl] show ?thesis .
qed

lemma run_function_denotes:
  assumes "compileOps ops None = Inr p" "maxSlot p \<le> length (slots c)" "plain c" "\<forall>i. h i"
  shows "(\<exists>c'. run_function h hb p c = Some (Returned v c') \<and> machine_of c' = sm) \<longleftrightarrow>
    denote_run ops ops (machine_of c) = Some (v, sm)"
proof -
  let ?n = "length (slots c)"
  have s: "start_block p c = Some None" using assms(1) by (rule compileOps_InrD) (simp add: start_block_def)
  have pl: "place ops None = Some ops" by (simp add: place_def)
  have run: "run_function h hb p c = run_ops h hb ops ops c"
    using s run_blocks_ops [OF assms(1) pl] by (simp add: run_function_def)
  note g = compiled_good [OF assms(1,2)]
  show ?thesis
    using run_function_plain [OF assms(1-3), of h hb v] denotes_run_ops [OF _ g(1) g(2) [OF pl] assms(3) refl assms(4), of v sm hb]
    unfolding run by auto
qed

section \<open>What a run on a memory changed\<close>

text \<open>Observers that leave the memory of the run as it is.\<close>

definition bystander :: "('x, 'e) memory_observer option \<Rightarrow> bool" where
  "bystander obs \<longleftrightarrow> (\<forall>f write a sz v w r w'. obs = Some f \<and> f write a sz v w = (r, w') \<longrightarrow> pages w' = pages w)"

definition code_bystander :: "('x, 'e) code_observer option \<Rightarrow> bool" where
  "code_bystander obs \<longleftrightarrow> (\<forall>f pc s w r w'. obs = Some f \<and> f pc s w = (r, w') \<longrightarrow> pages w' = pages w)"

text \<open>The log has what the memory of the run is now against what it was.\<close>

definition tracks :: "paged \<Rightarrow> ('x, 'e) cells \<Rightarrow> bool" where
  "tracks m0 c \<longleftrightarrow> bystander (observer c) \<and> code_bystander (codeObserver c) \<and>
     (\<exists>m l. pages (world c) = Some m \<and> same_step m0 m \<and> changes c = Some l \<and> log_ok l \<and>
        store_log.agrees (view m0) l (view m))"

lemma callCodeObserver_pages:
  "code_bystander (codeObserver c) \<Longrightarrow> pages (world (snd (callCodeObserver pc c))) = pages (world c)"
  by (auto simp: callCodeObserver_def Let_def code_bystander_def split: option.splits prod.splits sum.splits)

lemma call_observer_pages:
  "bystander (observer c) \<Longrightarrow> pages (world (call_observer write a sz v c)) = pages (world c)"
  by (auto simp: call_observer_def Let_def bystander_def split: option.splits prod.splits)

lemma callCodeObserver_kept:
  "observer (snd (callCodeObserver pc c)) = observer c" "codeObserver (snd (callCodeObserver pc c)) = codeObserver c"
  by (auto simp: callCodeObserver_def Let_def split: option.splits prod.splits sum.splits)

lemma memory_notify_pages:
  assumes "bystander (observer c)" "code_bystander (codeObserver c)"
  shows "pages (world (memory_notify write a sz v c)) = pages (world c)"
proof (cases rule: memory_notify_cases [of c "write" a sz v])
  case (site stop c1)
  let ?c = "c\<lparr>pendingSite := False, leanRan := True\<rparr>"
  have "pages (world c1) = pages (world c)" "observer c1 = observer c"
    using callCodeObserver_pages [of ?c "pendingPc c"] callCodeObserver_kept(1) [of "pendingPc c" ?c] site(4) assms(2) by auto
  then show ?thesis using site(5) call_observer_pages [of c1] assms(1) by simp
qed (use assms call_observer_pages [of c] in simp_all)

lemma code_notify_pages:
  "code_bystander (codeObserver c) \<Longrightarrow> pages (world (snd (code_notify pc c))) = pages (world c)"
  by (simp add: code_notify_def callCodeObserver_pages)

lemma tracks_cong:
  assumes "tracks m0 c" "pages (world c') = pages (world c)" "kept c c'"
  shows "tracks m0 c'"
  using assms by (simp add: tracks_def kept_def)

lemma tracks_slots [simp]: "tracks m0 (c\<lparr>slots := s\<rparr>) = tracks m0 c"
  by (simp add: tracks_def)

lemma tracks_notify:
  assumes "tracks m0 c" "cells_ok c"
  shows "tracks m0 (memory_notify write a sz v c)"
proof (rule tracks_cong [OF assms(1) memory_notify_pages])
  show "kept c (memory_notify write a sz v c)" using memory_notify_ok [OF assms(2)] by simp
qed (use assms(1) in \<open>simp_all add: tracks_def\<close>)


lemma tracks_steps:
  assumes "tracks m0 c" "kept c c'" "contents c' = contents c" "steps_kept c c'"
  shows "tracks m0 c'"
proof -
  obtain m l where m: "pages (world c) = Some m" "same_step m0 m" "changes c = Some l" "log_ok l"
      "store_log.agrees (view m0) l (view m)"
    using assms(1) by (auto simp: tracks_def)
  obtain m' where m': "pages (world c') = Some m'" using assms(2) m(1) keeps_pagesD [of "world c" "world c'" m] by (auto simp: kept_def)
  have "same_step m0 m'" using assms(4) m(1,2) m' by (auto simp: steps_kept_def same_step_def)
  moreover have "view m' = view m" using assms(3) m(1) m' by (simp add: contents_def)
  ultimately show ?thesis using assms(1,2) m m' by (simp add: tracks_def kept_def)
qed

lemma tracks_store:
  assumes "tracks m0 c" "stored_cells base sz big v c c'" "sz \<le> 8"
  shows "tracks m0 c'"
proof -
  obtain m l where m: "pages (world c) = Some m" "same_step m0 m" "changes c = Some l" "log_ok l"
      "store_log.agrees (view m0) l (view m)"
    using assms(1) by (auto simp: tracks_def)
  note s = assms(2) [unfolded stored_cells_def]
  obtain m' where m': "pages (world c') = Some m'" using s m(1) keeps_pagesD [of "world c" "world c'" m] by auto
  have st: "same_step m0 m'" using s m(1,2) m' by (auto simp: steps_kept_def same_step_def)
  have obs: "bystander (observer c')" "code_bystander (codeObserver c')" using assms(1) s by (simp_all add: tracks_def)
  show ?thesis
  proof (cases "error c")
    case None
    have "view m' = upd_bytes (view m) base (value_bytes big sz v)"
      using s None m(1) m' by (simp add: contents_def room_for_def)
    then have "store_log.agrees (view m0) (log_note base sz big v l) (view m')"
      using store_log.agrees_store [OF m(4) assms(3) m(5)] by simp
    then show ?thesis using s None m(3) m' st obs log_note_ok(1) [OF m(4) assms(3)] by (simp add: tracks_def)
  next
    case (Some e)
    then have "view m' = view m" using s m(1) m' by (simp add: contents_def)
    then show ?thesis using s Some m m' st obs by (simp add: tracks_def)
  qed
qed

text \<open>Cells that differ in their slots alone.\<close>

definition silent :: "('x, 'e) cells \<Rightarrow> ('x, 'e) cells \<Rightarrow> bool" where
  "silent c c' \<longleftrightarrow> (\<exists>ss. c' = c\<lparr>slots := ss\<rparr>)"

lemma silent_refl [simp]: "silent c c"
  by (auto simp: silent_def intro: exI [of _ "slots c"])

lemma silent_trans: "silent c c1 \<Longrightarrow> silent c1 c2 \<Longrightarrow> silent c c2"
  by (auto simp: silent_def)

lemma silent_tracks: "silent c d \<Longrightarrow> tracks m0 c \<Longrightarrow> tracks m0 d"
  by (auto simp: silent_def)

lemma set_going_on: "d \<in> set_flow (going_on r) \<longleftrightarrow> r = Some d"
  by (auto simp: going_on_def split: option.splits)

lemma store_slot_silent: "store_slot i v c = Some d \<Longrightarrow> silent c d"
  by (auto simp: store_slot_def silent_def split: if_splits)

text \<open>An operation that has nothing to do with memory or code sites changes slots alone.\<close>

fun pure_op :: "jit_op \<Rightarrow> bool" where
  "pure_op (MemLoad d a sz big) = False"
| "pure_op (MemStore a v sz big) = False"
| "pure_op (Code e pc) = False"
| "pure_op _ = True"

lemma exec_pure: "pure_op op \<Longrightarrow> d \<in> set_flow (exec_op h hb op c) \<Longrightarrow> silent c d"
  by (cases op) (auto simp: set_going_on bind_eq_Some_conv dest: store_slot_silent split: option.splits)

lemma code_site_tracks:
  assumes "tracks m0 c" "cells_ok c" "d \<in> set_flow (code_site e pc c)"
  shows "tracks m0 d"
proof -
  obtain stop c1 where n: "code_notify pc c = (stop, c1)" by fastforce
  have "pages (world c1) = pages (world c)" using code_notify_pages [of c pc] n assms(1) by (simp add: tracks_def)
  then have "tracks m0 c1" using tracks_cong [OF assms(1)] code_notify_ok [OF assms(2) n] by blast
  moreover have "tracks m0 (c\<lparr>pendingSite := True, pendingPc := pc\<rparr>)" using assms(1) by (simp add: tracks_def)
  ultimately show ?thesis using assms(1,3) n
    by (auto simp: code_site_def Let_def store_slot_def split: bool.splits if_splits)
qed

lemma exec_op_tracks:
  assumes "tracks m0 c" "cells_ok c" "op_error ls op = None" "d \<in> set_flow (exec_op h hb op c)"
  shows "tracks m0 d"
proof (cases op)
  case (MemLoad i a sz big)
  then have sz: "0 < sz" "sz \<le> 8" using assms(3) by (auto split: if_splits)
  obtain base where b: "load_slot a c = Some base" using MemLoad assms(4) by (auto split: option.splits)
  let ?c = "memory_notify False base (of_nat sz) 0 c"
  obtain v c1 where l: "access_load h hb base sz big c = Some (v, c1)" "kept ?c c1" "contents c1 = contents ?c" "steps_kept ?c c1"
    using access_load_ok [OF assms(2) sz refl] by blast
  then have "silent c1 d" using MemLoad assms(4) b by (auto simp: set_going_on dest: store_slot_silent)
  then show ?thesis using tracks_steps [OF tracks_notify [OF assms(1,2)] l(2-4)] silent_tracks by blast
next
  case (MemStore a s sz big)
  then have sz: "0 < sz" "sz \<le> 8" using assms(3) by (auto split: if_splits)
  obtain base v where st: "access_store h hb base sz big v c = Some d"
    using MemStore assms(4) by (auto split: option.splits)
  let ?c = "memory_notify True base (of_nat sz) v c"
  obtain c2 where c2: "stored_cells base sz big v c2 d" "kept ?c c2" "contents c2 = contents ?c" "steps_kept ?c c2"
    using access_store_ok [OF assms(2) sz refl st] by blast
  show ?thesis by (rule tracks_store [OF tracks_steps [OF tracks_notify [OF assms(1,2)] c2(2-4)] c2(1) sz(2)])
next
  case (Code e pc)
  then show ?thesis using code_site_tracks [OF assms(1,2)] assms(4) by simp
qed (use silent_tracks [OF exec_pure [OF _ assms(4)] assms(1)] in simp_all)

lemma run_function_tracks:
  assumes "compileOps ops ents = Inr p" "maxSlot p \<le> length (slots c)" "cells_ok c" "tracks m0 c"
    "run_function h hb p c = Some (Returned v c')"
  shows "tracks m0 c'"
  using run_function_invariant [OF assms(1-3), of "tracks m0", OF assms(4,5)] exec_op_tracks by blast

text \<open>Noting the changes of a run adds their addresses to the journal and leaves the bytes.\<close>

lemma note_cells_noted:
  "same_table m (foldl (\<lambda>m cell. noteStep (fst cell) 1 m) m cs) \<and>
   noted (fst ` set cs) m (foldl (\<lambda>m cell. noteStep (fst cell) 1 m) m cs) \<and>
   (stepOverflowed m \<longrightarrow> stepOverflowed (foldl (\<lambda>m cell. noteStep (fst cell) 1 m) m cs))"
proof (induction cs arbitrary: m)
  case Nil
  have "noted {} m m" by (auto simp: noted_def split: option.split)
  then show ?case by (simp add: same_table_def)
next
  case (Cons x cs)
  let ?m = "noteStep (fst x) 1 m"
  have "noted {fst x} m ?m" using noteStep_noted [of 1 "fst x" m] by simp
  then have "noted ({fst x} \<union> fst ` set cs) m (foldl (\<lambda>m cell. noteStep (fst cell) 1 m) ?m cs)"
    by (rule noted_trans) (use Cons [of ?m] in auto)
  then show ?case using Cons [of ?m] same_table_steps(1) [of m "fst x" 1] by (auto simp: same_table_def)
qed

lemma note_changes_ok:
  assumes "paged_inv m" "log_ok l"
  shows "paged_inv (note_changes l m)" "view (note_changes l m) = view m"
    "journal m = Some J \<Longrightarrow> journal (note_changes l m) = Some J' \<Longrightarrow> J' = J \<union> dom (log_map l)"
proof -
  let ?m = "foldl (\<lambda>m cell. noteStep (fst cell) 1 m) m (log_cells l)"
  note n = note_cells_noted [of m "log_cells l"]
  have dom: "fst ` set (log_cells l) = dom (log_map l)" using log_cells_ok(1) [OF assms(2)] by (force simp: dom_def image_iff)
  show "paged_inv (note_changes l m)" "view (note_changes l m) = view m"
    using n same_table_inv [of m ?m] same_table_view [of m ?m] assms(1) by (simp_all add: note_changes_def)
  show "J' = J \<union> dom (log_map l)" if j: "journal m = Some J" "journal (note_changes l m) = Some J'"
  proof -
    have "stepActive m" using j(1) by (auto simp: journal_def stepActive_def split: if_splits)
    then have "journal ?m = Some J'" using j(2) by (simp add: note_changes_def)
    then show ?thesis using n j(1) dom by (auto simp: noted_def journal_def split: if_splits)
  qed
qed


section \<open>Runs on a memory\<close>

lemma object_cells_simps [simp]:
  "slots (object_cells live state ser quiet obs cobs w) = state" "world (object_cells live state ser quiet obs cobs w) = w"
  "error (object_cells live state ser quiet obs cobs w) = None" "observer (object_cells live state ser quiet obs cobs w) = obs"
  "codeObserver (object_cells live state ser quiet obs cobs w) = cobs" "changes (object_cells live state ser quiet obs cobs w) = Some new_log"
  by (simp_all add: object_cells_def new_cells_def)

lemma runMemoryObject_iff:
  assumes "maxSlot p \<le> length state"
  shows "runMemoryObject h hb (unoptimized p) ser state quiet obs cobs w = Some (r, Some w') \<longleftrightarrow>
    (\<exists>v c'. run_function h hb p (object_cells True state ser quiet obs cobs w) = Some (Returned v c') \<and> w' = note_world c' \<and>
       r = (case error c' of Some e \<Rightarrow> Inl (Run_error e) | None \<Rightarrow> Inr (v, slots c', run_cells c')))"
proof -
  let ?f = "run_function h hb p (object_cells True state ser quiet obs cobs w)"
  consider "?f = None" | v c' where "?f = Some (Returned v c')" | "?f = Some Threw" | "?f = Some Undefined_run"
    by (cases ?f) (use outcome.exhaust in auto)
  then show ?thesis using assms by cases (auto simp: runMemoryObject_def)
qed

lemma new_cells_ok:
  assumes "world_ok w"
  shows "cells_ok (new_cells live s ser w)"
  using assms by (auto simp: cells_ok_def new_cells_def intro: no_entries_ok quiet_none)

lemma object_cells_ok:
  assumes "world_ok w" "case obs of None \<Rightarrow> True | Some f \<Rightarrow> observer_ok f" "case cobs of None \<Rightarrow> True | Some f \<Rightarrow> code_observer_ok f"
  shows "cells_ok (object_cells live state ser quiet obs cobs w)"
  using assms store_log.none_ok(1)
  by (auto simp: cells_ok_def object_cells_def new_cells_def intro: no_entries_ok quiet_none)

lemma object_cells_tracks:
  assumes "pages w = Some m" "bystander obs" "code_bystander cobs"
  shows "tracks m (object_cells live state ser quiet obs cobs w)"
  using assms store_log.none_ok(1) store_log.agrees_none [of "view m"] by (simp add: tracks_def same_step_def)

lemma note_world_pages:
  assumes "cells_ok c" "tracks m0 c"
  obtains m l where "pages (note_world c) = Some (note_changes l m)" "changes c = Some l" "log_ok l" "pages (world c) = Some m"
    "paged_inv m" "same_step m0 m" "store_log.agrees (view m0) l (view m)"
proof -
  obtain m l where "pages (world c) = Some m" "same_step m0 m" "changes c = Some l" "log_ok l"
      "store_log.agrees (view m0) l (view m)"
    using assms(2) by (auto simp: tracks_def)
  then show thesis using that [of l m] assms(1) by (simp add: note_world_def cells_ok_def world_ok_def)
qed

section \<open>Failed runs\<close>

lemma failed_page:
  assumes "cells_ok c" "error c \<noteq> None"
  shows "pageForAccess h base sz write c = Some (None, c)"
proof -
  have "pageEntries c = no_entries" using assms by (simp add: cells_ok_def)
  then show ?thesis using assms(2) tag_nonzero [of base]
    by (auto simp: pageForAccess_def Let_def no_entries_def memory_page_def split: option.split)
qed

lemma failed_access:
  assumes "cells_ok c" "error c \<noteq> None" "0 < sz" "sz \<le> 8"
  shows "access_load h hb base sz big c = Some (0, c)" "access_store h hb base sz big v c = Some c"
proof -
  have n: "notifyAccess write base sz u c = c" for "write" u
    using notifyAccess_eq [OF assms(1,3), of "write" base u] assms(2,4) by (simp add: memory_notify_def)
  show "access_load h hb base sz big c = Some (0, c)" "access_store h hb base sz big v c = Some c"
    using n failed_page [OF assms(1,2)] assms(2)
    by (simp_all add: access_load_def access_store_def Let_def load_bytes_def store_bytes_def)
qed

lemma failed_exec:
  assumes "cells_ok c" "error c \<noteq> None" "op_error ls op = None" "d \<in> set_flow (exec_op h hb op c)"
  shows "silent c d"
proof (cases op)
  case (MemLoad i a sz big)
  then have "0 < sz" "sz \<le> 8" using assms(3) by (auto split: if_splits)
  then show ?thesis using MemLoad failed_access(1) [OF assms(1,2)] assms(4)
    by (auto simp: set_going_on split: option.splits dest: store_slot_silent)
next
  case (MemStore a s sz big)
  then have "0 < sz" "sz \<le> 8" using assms(3) by (auto split: if_splits)
  then show ?thesis using MemStore failed_access(2) [OF assms(1,2)] assms(4) by (auto split: option.splits)
next
  case (Code e pc)
  then show ?thesis using assms(2,4)
    by (auto simp: code_site_def Let_def code_notify_def store_slot_def silent_def split: if_splits)
qed (use exec_pure [OF _ assms(4)] in simp_all)

lemma failed_run:
  assumes "compileOps ops ents = Inr p" "maxSlot p \<le> length (slots c)" "cells_ok c" "error c \<noteq> None"
    "run_function h hb p c = Some (Returned v c')"
  shows "silent c c'"
proof -
  have "silent c d" if "op_error (labels_of ops) op = None" "cells_ok c1" "silent c c1" "d \<in> set_flow (exec_op h hb op c1)" for op c1 d
  proof -
    have "error c1 \<noteq> None" using that(3) assms(4) by (auto simp: silent_def)
    then show ?thesis using failed_exec [OF that(2) _ that(1,4)] that(3) silent_trans by blast
  qed
  then show ?thesis using run_function_invariant [OF assms(1-3), of "silent c", OF silent_refl assms(5)] by blast
qed

end
