(* ===== verification/JitTrace.thy ===== *)
theory JitTrace
  imports JitRun
begin

text \<open>
  Runs step by step: the states that a run goes through, each of them the operations that are left and the cells,
  with the addresses that it stored to on the way. What is shown: a run ends as its last state does (\<open>run_ops_ends\<close>),
  what every operation keeps holds of every state on the way (\<open>reaches_keeps\<close>), an observer that throws in the middle
  of a run ends all effects of it (\<open>thrown_run\<close>), and the log has the addresses that the run stored to
  (\<open>reaches_logged\<close>).
\<close>

section \<open>States of a run\<close>

text \<open>The addresses that an operation stores to, if no observer fails in it.\<close>

fun op_stored :: "jit_op \<Rightarrow> ('x, 'e) cells \<Rightarrow> ('x, 'e) cells \<Rightarrow> u64 list" where
  "op_stored (MemStore a v sz big) c c1 = (if error c1 = None then map (\<lambda>i. slots c ! a + of_nat i) [0..<sz] else [])"
| "op_stored _ c c1 = []"

inductive reaches ::
  "host \<Rightarrow> bool \<Rightarrow> jit_op list \<Rightarrow> jit_op list \<Rightarrow> ('x, 'e) cells \<Rightarrow> u64 list \<Rightarrow> jit_op list \<Rightarrow> ('x, 'e) cells \<Rightarrow> bool"
  for h hb prog where
  stay: "reaches h hb prog t c [] t c"
| go_on: "exec_op h hb op c = Next c1 \<Longrightarrow> reaches h hb prog rest c1 ws t' c' \<Longrightarrow>
    reaches h hb prog (op # rest) c (op_stored op c c1 @ ws) t' c'"
| jump: "exec_op h hb op c = To i c1 \<Longrightarrow> afterLabel prog i = Some t \<Longrightarrow> reaches h hb prog t c1 ws t' c' \<Longrightarrow>
    reaches h hb prog (op # rest) c ws t' c'"

lemma reaches_run: "reaches h hb prog t c ws t' c' \<Longrightarrow> run_ops h hb prog t c = run_ops h hb prog t' c'"
  by (induction rule: reaches.induct) (simp_all add: run_ops_Cons)

text \<open>How a run ends in its last state.\<close>

definition ends_with :: "host \<Rightarrow> bool \<Rightarrow> jit_op list \<Rightarrow> jit_op list \<Rightarrow> ('x, 'e) cells \<Rightarrow> ('x, 'e) cells outcome \<Rightarrow> bool" where
  "ends_with h hb prog t c r \<longleftrightarrow>
     (case t of
        [] \<Rightarrow> r = Undefined_run
      | op # rest \<Rightarrow>
          (case exec_op h hb op c of
             Next d \<Rightarrow> False
           | To i d \<Rightarrow> afterLabel prog i = None \<and> r = Undefined_run
           | Leave v d \<Rightarrow> r = Returned v d
           | Thrown \<Rightarrow> r = Threw
           | Undefined \<Rightarrow> r = Undefined_run))"

lemma run_ops_ends:
  assumes "run_ops h hb prog t c = Some r"
  shows "\<exists>ws t' c'. reaches h hb prog t c ws t' c' \<and> ends_with h hb prog t' c' r"
proof (rule run_ops.raw_induct [where P = "\<lambda>h hb prog t c r. \<exists>ws t' c'. reaches h hb prog t c ws t' c' \<and> ends_with h hb prog t' c' r",
      OF _ assms])
  fix run h hb prog t and c :: "('a, 'b) cells" and r
  assume IH: "\<And>h hb prog t c r. run h hb prog t c = Some r \<Longrightarrow>
        \<exists>ws t' c'. reaches h hb prog t c ws t' c' \<and> ends_with h hb prog t' c' r"
    and run: "(case t of [] \<Rightarrow> Some Undefined_run | op # rest \<Rightarrow>
        (case exec_op h hb op c of Next c' \<Rightarrow> run h hb prog rest c'
         | To i c' \<Rightarrow> (case afterLabel prog i of None \<Rightarrow> Some Undefined_run | Some t \<Rightarrow> run h hb prog t c')
         | Leave v c' \<Rightarrow> Some (Returned v c') | Thrown \<Rightarrow> Some Threw | Undefined \<Rightarrow> Some Undefined_run)) = Some r"
  have here: "\<exists>ws t' c'. reaches h hb prog t c ws t' c' \<and> ends_with h hb prog t' c' r" if "ends_with h hb prog t c r"
    using that stay [of h hb prog t c] by blast
  show "\<exists>ws t' c'. reaches h hb prog t c ws t' c' \<and> ends_with h hb prog t' c' r"
  proof (cases t)
    case Nil
    then show ?thesis using run here by (simp add: ends_with_def)
  next
    case (Cons op rest)
    show ?thesis
    proof (cases "exec_op h hb op c")
      case (Next c1)
      then obtain ws t' c' where "reaches h hb prog rest c1 ws t' c'" "ends_with h hb prog t' c' r"
        using IH [of h hb prog rest c1 r] run Cons by auto
      then show ?thesis using go_on [OF Next] Cons by blast
    next
      case (To i c1)
      show ?thesis
      proof (cases "afterLabel prog i")
        case None
        then show ?thesis using run here Cons To by (simp add: ends_with_def)
      next
        case (Some u)
        then obtain ws t' c' where "reaches h hb prog u c1 ws t' c'" "ends_with h hb prog t' c' r"
          using IH [of h hb prog u c1 r] run Cons To by auto
        then show ?thesis using jump [OF To Some] Cons by blast
      qed
    qed (use run here Cons in \<open>simp_all add: ends_with_def\<close>)
  qed
qed

lemma reaches_keeps:
  assumes "reaches h hb prog t c ws t' c'" "good_prog n prog" "good_ops n prog t" "run_ok n c" "I c"
    and step: "\<And>op c d. op_error (labels_of prog) op = None \<Longrightarrow> run_ok n c \<Longrightarrow> I c \<Longrightarrow>
      d \<in> set_flow (exec_op h hb op c) \<Longrightarrow> I d"
  shows "good_ops n prog t' \<and> run_ok n c' \<and> I c'"
  using assms(1,3-5)
proof (induction rule: reaches.induct)
  case (go_on op c c1 rest ws t' c')
  from go_on.prems(1) have op: "op_error (labels_of prog) op = None" "\<And>s. s \<in> set (op_slots op) \<Longrightarrow> s < n"
      "\<not> is_terminator op \<Longrightarrow> good_ops n prog rest"
    by (auto elim: good_opsE)
  have "run_ok n c1" using exec_op_ok [OF op(1,2) go_on.prems(2), of h hb] go_on.hyps(1) by simp
  moreover have "\<not> is_terminator op" using not_Next go_on.hyps(1) by metis
  ultimately show ?case using go_on.IH op(3) step [OF op(1) go_on.prems(2,3)] go_on.hyps(1) by simp
next
  case (jump op c i c1 t ws t' c' rest)
  from jump.prems(1) have op: "op_error (labels_of prog) op = None" "\<And>s. s \<in> set (op_slots op) \<Longrightarrow> s < n"
    by (auto elim: good_opsE)
  have "run_ok n c1" using exec_op_ok [OF op(1,2) jump.prems(2), of h hb] jump.hyps(1) by simp
  moreover have "good_ops n prog t" using assms(2) jump.hyps(2) by (simp add: good_prog_def)
  ultimately show ?case using jump.IH step [OF op(1) jump.prems(2,3)] jump.hyps(1) by simp
qed simp

text \<open>Where a compiled program starts, and that what holds there holds of every state that it reaches.\<close>

definition starts_at :: "jit_op list \<Rightarrow> program \<Rightarrow> ('x, 'e) cells \<Rightarrow> jit_op list \<Rightarrow> bool" where
  "starts_at ops p c t \<longleftrightarrow> (\<exists>k. start_block p c = Some k \<and> place ops k = Some t)"

lemma starts_run:
  assumes "compileOps ops ents = Inr p" "starts_at ops p c t"
  shows "run_function h hb p c = run_ops h hb ops t c"
  using assms run_blocks_ops [OF assms(1)] by (auto simp: starts_at_def run_function_def)

lemma starts_good:
  assumes "compileOps ops ents = Inr p" "maxSlot p \<le> n" "starts_at ops p c t"
  shows "good_prog n ops" "good_ops n ops t"
  using compiled_good [OF assms(1,2)] assms(3) by (auto simp: starts_at_def)

lemma starts_somewhere:
  assumes "compileOps ops ents = Inr p" "maxSlot p \<le> length (slots c)"
  shows "\<exists>t. starts_at ops p c t"
  by (rule start_block_place [OF assms]) (auto simp: starts_at_def)

section \<open>Observers that throw\<close>

text \<open>Whether the filter of the run lets an access through without a call of the observer.\<close>

definition heard :: "bool \<Rightarrow> u64 \<Rightarrow> nat \<Rightarrow> ('x, 'e) cells \<Rightarrow> bool" where
  "heard write base sz c \<longleftrightarrow>
     (case quiet_filter (world c) of None \<Rightarrow> True | Some f \<Rightarrow> quietRange f base (of_nat sz) write = None)"

text \<open>
  The error that the Lean code which an operation calls ends it with, and the world that this code leaves: the memory
  observer of an access throws, or before it the code observer that a waiting code site calls throws or stops the
  run, or the code observer of a code site throws.
\<close>

inductive access_throws ::
  "bool \<Rightarrow> u64 \<Rightarrow> nat \<Rightarrow> u64 \<Rightarrow> ('x, 'e) cells \<Rightarrow> 'e run_error \<Rightarrow> 'x world \<Rightarrow> bool" for "write" base sz v c where
  observer_throws: "observer c = Some f \<Longrightarrow> \<not> pendingSite c \<Longrightarrow> f write base (of_nat sz) v (world c) = (Some e, w) \<Longrightarrow>
    access_throws write base sz v c (Observer_error e) w"
| site_throws: "observer c = Some f \<Longrightarrow> pendingSite c \<Longrightarrow> codeObserver c = Some g \<Longrightarrow>
    g (pendingPc c) (site_of c) (world c) = (Inl e, w) \<Longrightarrow> access_throws write base sz v c (Observer_error e) w"
| site_stops: "observer c = Some f \<Longrightarrow> pendingSite c \<Longrightarrow> codeObserver c = Some g \<Longrightarrow>
    g (pendingPc c) (site_of c) (world c) = (Inr True, w) \<Longrightarrow> access_throws write base sz v c Waiting_site_stops w"
| observer_after_site: "observer c = Some f \<Longrightarrow> pendingSite c \<Longrightarrow> codeObserver c = Some g \<Longrightarrow>
    g (pendingPc c) (site_of c) (world c) = (Inr False, w1) \<Longrightarrow> f write base (of_nat sz) v w1 = (Some e, w) \<Longrightarrow>
    access_throws write base sz v c (Observer_error e) w"

inductive op_throws :: "jit_op \<Rightarrow> ('x, 'e) cells \<Rightarrow> 'e run_error \<Rightarrow> 'x world \<Rightarrow> bool" where
  load_throws: "load_slot a c = Some base \<Longrightarrow> heard False base sz c \<Longrightarrow> access_throws False base sz 0 c e w \<Longrightarrow>
    op_throws (MemLoad d a sz big) c e w"
| store_throws: "load_slot a c = Some base \<Longrightarrow> load_slot s c = Some v \<Longrightarrow> heard True base sz c \<Longrightarrow>
    access_throws True base sz v c e w \<Longrightarrow> op_throws (MemStore a s sz big) c e w"
| code_throws: "codeObserver c = Some g \<Longrightarrow> \<not> (quietSites c \<and> \<not> leanRan c) \<Longrightarrow>
    g pc (site_of c) (world c) = (Inl e, w) \<Longrightarrow> op_throws (Code s pc) c (Observer_error e) w"

text \<open>What an error leaves of the cells: all of the run so far, and the world as the Lean code left it.\<close>

definition failed_as :: "'e run_error \<Rightarrow> 'x world \<Rightarrow> ('x, 'e) cells \<Rightarrow> ('x, 'e) cells \<Rightarrow> bool" where
  "failed_as e w c d \<longleftrightarrow> error d = Some e \<and> world d = w \<and> changes d = changes c \<and> items d = items c"

lemma failed_as_silent: "failed_as e w c d \<Longrightarrow> silent d d' \<Longrightarrow> failed_as e w c d'"
  by (auto simp: failed_as_def silent_def)

lemma site_of_forget [simp]: "site_of (forgetQuiet c) = site_of c"
  by (simp add: site_of_def forgetQuiet_def cong: option.case_cong)

lemma throws_notify:
  assumes "error c = None" "heard write base sz c" "access_throws write base sz v c e w"
  shows "failed_as e w c (memory_notify write base (of_nat sz) v c)"
proof -
  have q: "(case quiet_filter (world c) of None \<Rightarrow> None | Some f \<Rightarrow> quietRange f base (of_nat sz) write) = None"
    using assms(2) by (simp add: heard_def split: option.splits)
  have site: "site_of (c\<lparr>pendingSite := False, leanRan := True\<rparr>) = site_of c" by (simp add: site_of_def cong: option.case_cong)
  from assms(3) show ?thesis
    by cases (simp_all add: memory_notify_def q assms(1) call_observer_def callCodeObserver_def site failed_as_def)
qed

lemma notified_failed:
  assumes "cells_ok (notifyAccess write base sz v c)" "error (notifyAccess write base sz v c) \<noteq> None"
  shows "\<not> write \<Longrightarrow> v = 0 \<Longrightarrow> access_load h hb base sz big c = Some (0, notifyAccess write base sz v c)"
    "write \<Longrightarrow> access_store h hb base sz big v c = Some (notifyAccess write base sz v c)"
  using failed_page [OF assms] assms(2)
  by (simp_all add: access_load_def access_store_def Let_def load_bytes_def store_bytes_def)

lemma throws_exec:
  assumes "cells_ok c" "error c = None" "op_throws op c e w" "op_error ls op = None" "\<And>s. s \<in> set (op_slots op) \<Longrightarrow> s < length (slots c)"
  shows "\<exists>d. failed_as e w c d \<and> (exec_op h hb op c = Next d \<or> (\<exists>v. exec_op h hb op c = Leave v d))"
proof -
  have access: "cells_ok (notifyAccess write base sz v c) \<and> failed_as e w c (notifyAccess write base sz v c) \<and>
      length (slots (notifyAccess write base sz v c)) = length (slots c)"
    if "heard write base sz c" "access_throws write base sz v c e w" "0 < sz" "sz \<le> 8" for "write" base sz v
    using notifyAccess_eq [OF assms(1) that(3), of "write" base v] that throws_notify [OF assms(2) that(1,2)]
      memory_notify_ok [OF assms(1), of "write" base "of_nat sz" v] by (simp add: kept_def)
  from assms(3) show ?thesis
  proof cases
    case (load_throws a base sz d big)
    then have sz: "0 < sz" "sz \<le> 8" using assms(4) by (auto split: if_splits)
    let ?c = "notifyAccess False base sz 0 c"
    note a = access [OF load_throws(3,4) sz]
    then have "access_load h hb base sz big c = Some (0, ?c)" by (intro notified_failed(1)) (auto simp: failed_as_def)
    moreover have "store_slot d 0 ?c = Some (?c\<lparr>slots := (slots ?c)[d := 0]\<rparr>)"
      using assms(5) load_throws(1) a by (simp add: store_slot_def)
    ultimately show ?thesis using load_throws(1,2) a by (auto simp: going_on_def failed_as_def)
  next
    case (store_throws a base s v sz big)
    then have sz: "0 < sz" "sz \<le> 8" using assms(4) by (auto split: if_splits)
    note a = access [OF store_throws(4,5) sz]
    then have "access_store h hb base sz big v c = Some (notifyAccess True base sz v c)"
      by (intro notified_failed(2)) (auto simp: failed_as_def)
    then show ?thesis using store_throws(1-3) a by auto
  next
    case (code_throws g pc x s)
    let ?d = "failCells (Observer_error x) ((forgetQuiet c)\<lparr>world := w\<rparr>)"
    have "code_notify pc c = (True, ?d)"
      using code_throws assms(2) by (auto simp: code_notify_def callCodeObserver_def)
    moreover have "store_slot s 3 ?d = Some (?d\<lparr>slots := (slots c)[s := 3]\<rparr>)"
      using assms(5) code_throws(1) by (simp add: store_slot_def)
    ultimately show ?thesis using code_throws assms(2) by (auto simp: code_site_def Let_def failed_as_def)
  qed
qed

lemma failed_not_thrown:
  assumes "cells_ok c" "error c \<noteq> None" "op_error ls op = None"
  shows "exec_op h hb op c \<noteq> Thrown"
proof (cases op)
  case (MemLoad i a sz big)
  then have "0 < sz" "sz \<le> 8" using assms(3) by (auto split: if_splits)
  then show ?thesis using MemLoad failed_access(1) [OF assms(1,2)] by (auto simp: going_on_def split: option.splits)
next
  case (MemStore a s sz big)
  then have "0 < sz" "sz \<le> 8" using assms(3) by (auto split: if_splits)
  then show ?thesis using MemStore failed_access(2) [OF assms(1,2)] by (auto split: option.splits)
next
  case (Code e pc)
  then show ?thesis by (auto simp: code_site_def Let_def split: prod.splits bool.splits option.splits)
qed (auto simp: going_on_def split: option.splits)

text \<open>A run that has failed goes on for ever, or returns with nothing changed but its slots.\<close>

lemma failed_run_ops:
  assumes "good_prog n prog" "good_ops n prog t" "run_ok n c" "error c \<noteq> None"
  shows "run_ops h hb prog t c = None \<or> (\<exists>v d. run_ops h hb prog t c = Some (Returned v d) \<and> silent c d)"
proof (cases "run_ops h hb prog t c")
  case (Some r)
  have step: "silent c d" if "op_error (labels_of prog) op = None" "run_ok n c1" "silent c c1" "d \<in> set_flow (exec_op h hb op c1)" for op c1 d
  proof -
    have "error c1 \<noteq> None" using that(3) assms(4) by (auto simp: silent_def)
    then show ?thesis using failed_exec [OF _ _ that(1,4)] that(2,3) silent_trans by (auto simp: run_ok_def)
  qed
  obtain ws t' c' where e: "reaches h hb prog t c ws t' c'" "ends_with h hb prog t' c' r" using run_ops_ends [OF Some] by blast
  then have k: "good_ops n prog t'" "run_ok n c'" "silent c c'"
    using reaches_keeps [OF e(1) assms(1-3), of "silent c"] step by simp_all
  from k(1) obtain op rest where op: "t' = op # rest" "op_error (labels_of prog) op = None" by (rule good_opsE) blast
  have "error c' \<noteq> None" using k(3) assms(4) by (auto simp: silent_def)
  then have "r \<noteq> Threw" using failed_not_thrown [OF _ _ op(2), of c' h hb] k(2) e(2) op(1)
    by (auto simp: ends_with_def run_ok_def split: flow.splits)
  then show ?thesis using run_ops_invariant [OF Some assms(1-3), of "silent c"] step Some by (cases r) auto
qed simp

lemma thrown_run:
  assumes "compileOps ops ents = Inr p" "maxSlot p \<le> length (slots c0)" "cells_ok c0" "starts_at ops p c0 t"
    "reaches h hb ops t c0 ws (op # rest) c" "error c = None" "op_throws op c e w"
  shows "run_function h hb p c0 = None \<or> (\<exists>v d. run_function h hb p c0 = Some (Returned v d) \<and> failed_as e w c d)"
proof -
  let ?n = "length (slots c0)"
  note g = starts_good [OF assms(1,2,4)]
  have k: "good_ops ?n ops (op # rest)" "run_ok ?n c"
    using reaches_keeps [OF assms(5) g, of "\<lambda>_. True"] assms(3) by (simp_all add: run_ok_def)
  from k(1) have op: "op_error (labels_of ops) op = None" "\<And>s. s \<in> set (op_slots op) \<Longrightarrow> s < ?n"
      "\<not> is_terminator op \<Longrightarrow> good_ops ?n ops rest"
    by (auto elim: good_opsE)
  have run: "run_function h hb p c0 = run_ops h hb ops (op # rest) c"
    using starts_run [OF assms(1,4)] reaches_run [OF assms(5)] by simp
  from throws_exec [OF _ assms(6,7) op(1), of h hb] k(2) op(2)
  obtain d where d: "failed_as e w c d" "exec_op h hb op c = Next d \<or> (\<exists>v. exec_op h hb op c = Leave v d)"
    by (auto simp: run_ok_def)
  from d(2) show ?thesis
  proof
    assume next': "exec_op h hb op c = Next d"
    have "good_ops ?n ops rest" using op(3) not_Next next' by metis
    moreover have "run_ok ?n d" using exec_op_ok [OF op(1,2) k(2), of h hb] next' by simp
    ultimately have "run_ops h hb ops rest d = None \<or> (\<exists>v d'. run_ops h hb ops rest d = Some (Returned v d') \<and> silent d d')"
      by (rule failed_run_ops [OF g(1)]) (use d(1) in \<open>simp add: failed_as_def\<close>)
    then show ?thesis using run next' failed_as_silent [OF d(1)] by (auto simp: run_ops_Cons)
  next
    assume "\<exists>v. exec_op h hb op c = Leave v d"
    then show ?thesis using run d(1) by (auto simp: run_ops_Cons)
  qed
qed

section \<open>What the log holds\<close>

definition logged :: "('x, 'e) cells \<Rightarrow> u64 set" where
  "logged c = (case changes c of None \<Rightarrow> {} | Some l \<Rightarrow> dom (log_map l))"

lemma logged_changes: "changes d = changes c \<Longrightarrow> logged d = logged c"
  by (simp add: logged_def)

lemma range_addresses:
  fixes a :: u64
  assumes "sz \<le> 8"
  shows "{x. unat (x - a) < sz} = set (map (\<lambda>i. a + of_nat i) [0..<sz])"
proof (rule set_eqI)
  fix x
  have "x = a + of_nat (unat (x - a))" by simp
  then have "unat (x - a) < sz \<Longrightarrow> x \<in> (\<lambda>i. a + of_nat i) ` {0..<sz}" by (metis atLeastLessThan_iff image_eqI le0)
  moreover have "unat (a + of_nat i - a) = i" if "i < sz" for i using that assms by (simp add: unat_of_nat take_bit_eq_mod)
  ultimately show "x \<in> {x. unat (x - a) < sz} \<longleftrightarrow> x \<in> set (map (\<lambda>i. a + of_nat i) [0..<sz])" by auto
qed

lemma exec_logged:
  assumes "cells_ok c" "changes c \<noteq> None" "op_error ls op = None" "d \<in> set_flow (exec_op h hb op c)"
  shows "changes d \<noteq> None \<and> logged d = logged c \<union> set (op_stored op c d)"
proof (cases op)
  case (MemLoad i a sz big)
  then have sz: "0 < sz" "sz \<le> 8" using assms(3) by (auto split: if_splits)
  obtain base where b: "load_slot a c = Some base" using MemLoad assms(4) by (auto split: option.splits)
  let ?c = "memory_notify False base (of_nat sz) 0 c"
  obtain v c1 where l: "access_load h hb base sz big c = Some (v, c1)" "kept ?c c1"
    using access_load_ok [OF assms(1) sz refl] by blast
  then have "silent c1 d" using MemLoad assms(4) b by (auto simp: set_going_on dest: store_slot_silent)
  then have "changes d = changes c" using l(2) memory_notify_ok [OF assms(1)] by (auto simp: kept_def silent_def)
  then show ?thesis using MemLoad assms(2) logged_changes [of d c] by simp
next
  case (MemStore a s sz big)
  then have sz: "0 < sz" "sz \<le> 8" using assms(3) by (auto split: if_splits)
  obtain base v where st: "access_store h hb base sz big v c = Some d" "load_slot a c = Some base"
    using MemStore assms(4) by (auto split: option.splits bind_splits)
  let ?c = "memory_notify True base (of_nat sz) v c"
  obtain c2 where c2: "stored_cells base sz big v c2 d" "kept ?c c2" using access_store_ok [OF assms(1) sz refl st(1)] by blast
  have ch: "changes c2 = changes c" using c2(2) memory_notify_ok [OF assms(1)] by (simp add: kept_def)
  obtain l where l: "changes c = Some l" "log_ok l" using assms(1,2) by (auto simp: cells_ok_def)
  have base: "base = slots c ! a" using st(2) by (simp add: load_slot_def split: if_splits)
  show ?thesis
  proof (cases "error c2")
    case None
    then have "changes d = Some (log_note base sz big v l)" "error d = None" using c2(1) ch l(1) by (simp_all add: stored_cells_def)
    moreover have "dom (log_map (log_note base sz big v l)) = dom (log_map l) \<union> {x. unat (x - base) < sz}"
      unfolding log_note_ok(2) [OF l(2) sz(2)] by (auto split: if_splits)
    ultimately show ?thesis using MemStore l(1) by (simp add: logged_def range_addresses [OF sz(2)] base)
  next
    case (Some e)
    then have "changes d = changes c" "error d = Some e" using c2(1) ch by (simp_all add: stored_cells_def)
    then show ?thesis using MemStore assms(2) logged_changes [of d c] by simp
  qed
next
  case (Code e pc)
  obtain stop c1 where n: "code_notify pc c = (stop, c1)" by fastforce
  have "changes c1 = changes c" using code_notify_ok [OF assms(1) n] by (simp add: kept_def)
  then have "changes d = changes c" using Code assms(4) n
    by (auto simp: code_site_def Let_def store_slot_def split: bool.splits if_splits)
  then show ?thesis using Code assms(2) logged_changes [of d c] by simp
qed (use exec_pure [OF _ assms(4)] assms(2) in \<open>auto simp: silent_def logged_def\<close>)

lemma reaches_logged:
  assumes "reaches h hb prog t c ws t' c'" "good_prog n prog" "good_ops n prog t" "run_ok n c" "changes c \<noteq> None"
  shows "logged c' = logged c \<union> set ws"
  using assms(1,3-5)
proof (induction rule: reaches.induct)
  case (go_on op c c1 rest ws t' c')
  then have one: "reaches h hb prog (op # rest) c (op_stored op c c1 @ []) rest c1" by (intro reaches.go_on reaches.stay)
  have op: "op_error (labels_of prog) op = None" using go_on.prems(1) by (auto elim: good_opsE)
  have "good_ops n prog rest \<and> run_ok n c1" using reaches_keeps [OF one assms(2) go_on.prems(1,2), of "\<lambda>_. True"] by simp
  moreover have "changes c1 \<noteq> None \<and> logged c1 = logged c \<union> set (op_stored op c c1)"
    by (rule exec_logged [OF _ go_on.prems(3) op, where h = h and hb = hb]) (use go_on in \<open>auto simp: run_ok_def\<close>)
  ultimately show ?case using go_on.IH by auto
next
  case (jump op c i c1 t ws t' c' rest)
  then have one: "reaches h hb prog (op # rest) c [] t c1" by (intro reaches.jump [OF jump.hyps(1,2)] reaches.stay)
  have op: "op_error (labels_of prog) op = None" using jump.prems(1) by (auto elim: good_opsE)
  have "good_ops n prog t \<and> run_ok n c1" using reaches_keeps [OF one assms(2) jump.prems(1,2), of "\<lambda>_. True"] by simp
  moreover have "c1 = c" using jump.hyps(1) by (cases op) (auto simp: going_on_def code_site_def Let_def split: option.splits prod.splits bool.splits if_splits)
  ultimately show ?case using jump.IH jump.prems(3) by simp
qed simp

text \<open>A run that returns leaves the log with all that it stored to on the way to its last operation.\<close>

lemma left_logged:
  assumes "compileOps ops ents = Inr p" "maxSlot p \<le> length (slots c)" "cells_ok c" "starts_at ops p c t" "changes c = Some new_log"
    "reaches h hb ops t c ws (op # rest) c1" "exec_op h hb op c1 = Leave v c'"
  shows "run_function h hb p c = Some (Returned v c') \<and> logged c' = set ws"
proof -
  let ?n = "length (slots c)"
  note g = starts_good [OF assms(1,2,4)]
  have ok: "run_ok ?n c" using assms(3) by (simp add: run_ok_def)
  have k: "good_ops ?n ops (op # rest) \<and> run_ok ?n c1 \<and> changes c1 \<noteq> None"
  proof (rule reaches_keeps [OF assms(6) g ok])
    show "changes c \<noteq> None" using assms(5) by simp
    show "changes d \<noteq> None" if "op_error (labels_of ops) op = None" "run_ok ?n c" "changes c \<noteq> None" "d \<in> set_flow (exec_op h hb op c)" for op c d
      using exec_logged [OF _ that(3,1,4)] that(2) by (simp add: run_ok_def)
  qed
  then have "op_error (labels_of ops) op = None" by (auto elim: good_opsE)
  then have "logged c' = logged c1 \<union> set (op_stored op c1 c')"
    using exec_logged [of c1 _ op c' h hb] k assms(7) by (simp add: run_ok_def)
  moreover have "op_stored op c1 c' = []" using assms(7) by (cases op) (auto simp: going_on_def split: option.splits)
  moreover have "logged c1 = set ws"
    using reaches_logged [OF assms(6) g ok] assms(5) by (simp add: logged_def log_map_new)
  moreover have "run_function h hb p c = Some (Returned v c')"
    using starts_run [OF assms(1,4)] reaches_run [OF assms(6)] assms(7) by (simp add: run_ops_Cons)
  ultimately show ?thesis by simp
qed

lemma returned_trace:
  assumes "compileOps ops ents = Inr p" "starts_at ops p c t" "run_function h hb p c = Some (Returned v c')"
  shows "\<exists>ws op rest c1. reaches h hb ops t c ws (op # rest) c1 \<and> exec_op h hb op c1 = Leave v c'"
proof -
  have "run_ops h hb ops t c = Some (Returned v c')" using starts_run [OF assms(1,2)] assms(3) by simp
  from run_ops_ends [OF this] obtain ws t1 c1 where r: "reaches h hb ops t c ws t1 c1" "ends_with h hb ops t1 c1 (Returned v c')" by blast
  then obtain op rest where "t1 = op # rest" "exec_op h hb op c1 = Leave v c'"
    by (cases t1) (auto simp: ends_with_def split: flow.splits)
  then show ?thesis using r(1) by blast
qed

end
