(* ===== verification/JitProperties.thy ===== *)
theory JitProperties
  imports JitTrace MemoryProperties
begin

text \<open>
  What compiled programs promise: obligations 1, 4, 6 and 13 of \<open>src/Bap/Jit.lean\<close>, stated on the model of
  \<open>native/bap_jit.cpp\<close>.
\<close>

section \<open>Operations\<close>

text \<open>
  C34. The code for an operation of two slots is defined for all operands: no shift by 64 or more, no
  division by zero and no signed division that overflows gets to LLVM. What it computes is the arithmetic of
  numbers modulo \<open>2 ^ 64\<close>, for each of the 22 operations, with the results of bit vectors for a division by zero.
\<close>

theorem bin_value_arithmetic:
  "bin_value (bin_number b) l r = Some (denoteBin b l r)"
  by (rule bin_value_denotes)

text \<open>
  A sign extension gives the low bits of a word as a signed number of their width, and an arithmetic shift
  divides by a power of two and rounds down, with an amount of at most the width less one.
\<close>

lemma signed_values:
  assumes "0 < width" "width \<le> 64"
  shows "sign_extend_value width x = Some (of_int (signed_take_bit (width - 1) (uint x))) \<and>
    ashr_value width x y = Some (of_int (sint x div 2 ^ min (unat y) (width - 1)))"
  using sign_extend_denotes [OF assms] ashr_denotes [OF assms] by simp

text \<open>
  What a code site does in place, without a call, is what a call of \<open>bap_jit_code_notify\<close> would do: the same
  cells, and the same decision to go on or to leave with the pc and 3 in the effect slot.
\<close>

lemma code_site_is_notify:
  "code_site e pc c =
    (case code_notify pc c of
       (False, c1) \<Rightarrow> Next c1
     | (True, c1) \<Rightarrow> (case store_slot e 3 c1 of None \<Rightarrow> Undefined | Some c2 \<Rightarrow> Leave pc c2))"
  by (auto simp: code_site_def code_notify_def Let_def)

section \<open>Programs\<close>

text \<open>
  C11. A program that was compiled runs as its list of operations says: each operation after the one before,
  and a jump to what follows its label in the list. That holds of whether it returns at all, what it
  returns, and the cells that it leaves.
\<close>

theorem compiled_runs_ops:
  assumes "compile ops = Inr p"
  shows "run_function h hb p c = run_ops h hb ops ops c"
  by (rule compile_run_ops [OF assms])

definition sample :: "jit_op list" where
  "sample = [Set 0 3, Goto 7, Label 9, Jump 5, Label 7, AddImm 0 0 1, Branch 0 9 7]"

lemma sample_compiles: "\<exists>p. compile sample = Inr p \<and> maxSlot p = 1"
  by (simp add: compile_def compileOps_def sample_def getSlot_def is_scalar_def add_op_def new_builder_def terminated_def
      noteSlot_def dispatch_error_def slot_count_def)

definition no_memory :: "unit world" where
  "no_memory = \<lparr>outside = (), pages = None, quiet_filter = None\<rparr>"

theorem compiled_runs_ops_witness:
  "\<exists>p. compile sample = Inr p \<and> run_function granted False p (new_cells True [0] 1 no_memory :: (unit, unit) cells) =
     run_ops granted False sample sample (new_cells True [0] 1 no_memory)"
  using sample_compiles compiled_runs_ops [of sample] by blast

text \<open>
  C13. No run of a program that was compiled, on a state with the slots that it says it needs, gets to anything
  undefined, whatever its observers do and from whatever cells that are well-formed: every slot is within the
  state, every label is there, no block is without an end. It leaves well-formed cells and as many slots.
\<close>

theorem compiled_never_undefined:
  assumes "compileOps ops ents = Inr p" "maxSlot p \<le> length (slots c)" "cells_ok c" "run_function h hb p c = Some r"
  shows "r \<noteq> Undefined_run \<and> (\<forall>v c'. r = Returned v c' \<longrightarrow> cells_ok c' \<and> length (slots c') = length (slots c))"
  by (rule run_function_defined [OF assms])

lemma sample_run:
  assumes "compile sample = Inr p"
  shows "\<exists>c'. run_function h hb p (new_cells True [0] 1 no_memory :: (unit, unit) cells) = Some (Returned 5 c') \<and> slots c' = [4]"
  unfolding compile_run_ops [OF assms]
  by (simp add: sample_def run_ops_Cons going_on_def store_slot_def load_slot_def new_cells_def)

theorem compiled_never_undefined_witness:
  "\<exists>p c'. compile sample = Inr p \<and> run_function granted False p (new_cells True [0] 1 no_memory :: (unit, unit) cells) = Some (Returned 5 c') \<and>
     cells_ok c' \<and> length (slots c') = 1"
proof -
  obtain p where p: "compile sample = Inr p" "maxSlot p = 1" using sample_compiles by blast
  obtain c' where c': "run_function granted False p (new_cells True [0] 1 no_memory :: (unit, unit) cells) = Some (Returned 5 c')"
    using sample_run [OF p(1)] by blast
  have "cells_ok (new_cells True [0] 1 no_memory :: (unit, unit) cells)"
    by (rule new_cells_ok) (simp add: no_memory_def world_ok_def)
  then show ?thesis using compiled_never_undefined [of sample None p, OF _ _ _ c'] p c'
    by (auto simp: compile_def new_cells_def)
qed

lemma object_run_denotes:
  assumes "compile ops = Inr p" "maxSlot p \<le> length state" "paged_inv m" "\<forall>i. h i"
  shows "(\<exists>cs w' m'. run_memory_object_code h hb (unoptimized p) ser state None None \<lparr>outside = x :: 'x, pages = Some m, quiet_filter = None\<rparr> =
      Some (Inr (v, s, cs) :: 'e run_failure + _, Some w') \<and> pages w' = Some m' \<and> read_byte m' = f) \<longleftrightarrow>
    denote_run ops ops (state, read_byte m) = Some (v, s, f)"
proof -
  let ?w = "\<lparr>outside = x, pages = Some m, quiet_filter = None\<rparr>"
  let ?c = "object_cells True state ser False None None ?w :: ('x, 'e) cells"
  have wok: "world_ok ?w" using assms(3) by (simp add: world_ok_def)
  have ok: "cells_ok ?c" by (rule object_cells_ok [OF wok]) simp_all
  have pl: "plain ?c" using ok by (simp add: plain_def)
  have mo: "machine_of ?c = (state, read_byte m)" by (simp add: machine_of_def contents_def read_byte_fun)
  have sl: "maxSlot p \<le> length (slots ?c)" using assms(2) by simp
  have comp: "compileOps ops None = Inr p" using assms(1) by (simp add: compile_def)
  have run: "run_memory_object_code h hb (unoptimized p) ser state None None ?w = Some (Inr (v, s, cs) :: 'e run_failure + _, Some w') \<longleftrightarrow>
      (\<exists>c'. run_function h hb p ?c = Some (Returned v c') \<and> w' = note_world c' \<and> error c' = None \<and> s = slots c' \<and> cs = run_cells c')" for cs w'
    by (auto simp: run_memory_object_code_def runMemoryObject_iff [OF assms(2)] split: option.splits)
  have same: "((\<exists>m'. pages (note_world c') = Some m' \<and> read_byte m' = f) \<longleftrightarrow> contents c' = f) \<and> error c' = None"
    if r: "run_function h hb p ?c = Some (Returned v c')" for c'
  proof -
    have p': "plain c'" using run_function_plain [OF comp sl pl r] by simp
    have t: "tracks m c'" by (rule run_function_tracks [OF comp sl ok _ r]) (rule object_cells_tracks; simp add: bystander_def code_bystander_def)
    have "cells_ok c'" using p' by (simp add: plain_def)
    from note_world_pages [OF this t] obtain m' l where
      "pages (note_world c') = Some (note_changes l m')" "log_ok l" "pages (world c') = Some m'" "paged_inv m'" by blast
    then show ?thesis using p' note_changes_ok(2) [of m' l] by (simp add: plain_def contents_def read_byte_fun)
  qed
  have "(\<exists>c'. run_function h hb p ?c = Some (Returned v c') \<and> slots c' = s \<and> contents c' = f) \<longleftrightarrow>
      denote_run ops ops (state, read_byte m) = Some (v, s, f)"
    using run_function_denotes [OF comp sl pl assms(4), of hb v "(s, f)"] by (simp add: mo) (simp add: machine_of_def)
  then show ?thesis unfolding run using same by blast
qed

text \<open>
  C12. Obligation 1, for a run on a memory without observers: it returns a value, slots and a memory exactly if
  that is what the operations denote, one after another and by their labels, on the slots and the map of
  bytes that it started with.
\<close>

theorem run_object_denotes:
  assumes "compile ops = Inr p" "maxSlot p \<le> length state" "paged_inv m" "\<forall>i. h i"
  shows "(\<exists>cs w' m'. run_memory_object_code h hb (unoptimized p) ser state None None \<lparr>outside = x :: 'x, pages = Some m, quiet_filter = None\<rparr> =
      Some (Inr (v, s, cs) :: 'e run_failure + _, Some w') \<and> pages w' = Some m' \<and> read_byte m' = f) \<longleftrightarrow>
    denote_run ops ops (state, read_byte m) = Some (v, s, f)"
  by (rule object_run_denotes [OF assms])

definition stores_one :: "jit_op list" where
  "stores_one = [Set 0 7, MemStore 1 0 2 False, Jump 5]"

lemma stores_one_compiles: "\<exists>p. compile stores_one = Inr p \<and> maxSlot p = 2"
  by (simp add: compile_def compileOps_def stores_one_def getSlot_def is_scalar_def add_op_def new_builder_def terminated_def
      noteSlot_def dispatch_error_def slot_count_def)

lemma stores_one_denotes:
  "denote_run stores_one stores_one ([0, 100], read_byte new_memory) =
     Some (5, [7, 100], upd_bytes (read_byte new_memory) 100 (value_bytes False 2 7))"
  by (simp add: stores_one_def denote_run.simps)

lemma stores_one_runs:
  assumes "compile stores_one = Inr p" "maxSlot p = 2"
  shows "\<exists>cs w'. runMemoryObject granted False (unoptimized p) 1 [0, 100] False None None \<lparr>outside = (), pages = Some new_memory, quiet_filter = None\<rparr> =
    Some (Inr (5, [7, 100], cs) :: unit run_failure + _, Some w')"
  using object_run_denotes [OF assms(1) _ paged_inv_new, THEN iffD2, OF _ _ stores_one_denotes, of granted False 1 "()"] assms(2)
  by (auto simp: run_memory_object_code_def)

theorem run_object_denotes_witness:
  "\<exists>p cs w' m'. compile stores_one = Inr p \<and>
     run_memory_object_code granted False (unoptimized p) 1 [0, 100] None None \<lparr>outside = (), pages = Some new_memory, quiet_filter = None\<rparr> =
       Some (Inr (5, [7, 100], cs) :: unit run_failure + _, Some w') \<and> pages w' = Some m' \<and> read_byte m' 100 = 7"
proof -
  obtain p where p: "compile stores_one = Inr p" "maxSlot p = 2" using stores_one_compiles by blast
  from run_object_denotes [OF p(1) _ paged_inv_new, THEN iffD2, OF _ _ stores_one_denotes, of granted False 1 "()"]
  obtain cs w' m' where r: "run_memory_object_code granted False (unoptimized p) 1 [0, 100] None None \<lparr>outside = (), pages = Some new_memory, quiet_filter = None\<rparr> =
       Some (Inr (5, [7, 100], cs) :: unit run_failure + _, Some w')" "pages w' = Some m'"
       "read_byte m' = upd_bytes (read_byte new_memory) 100 (value_bytes False 2 7)"
    using p(2) by auto
  have "[0..<2] = [0, 1 :: nat]" by (simp add: upt_rec)
  then have "value_bytes False 2 7 = [7, 0]" by (simp only: value_bytes_def byte_shift_def) simp
  then have "read_byte m' 100 = 7" using r(3) by simp
  with p(1) r(1,2) show ?thesis by blast
qed

text \<open>
  C14. Obligations 6 and 13: the cells that a run on a memory gives back, written to the memory as it was, make it
  what it is, each address once, when the observers leave the memory alone; and if a step is open and its
  journal doesn't overflow, every address whose byte changed is in the journal, also of a run that failed.
\<close>

theorem run_object_changes:
  assumes "compileOps ops ents = Inr p" "maxSlot p \<le> length state" "world_ok w" "pages w = Some m"
    "case obs of None \<Rightarrow> True | Some f \<Rightarrow> observer_ok f" "case cobs of None \<Rightarrow> True | Some f \<Rightarrow> code_observer_ok f"
    "bystander obs" "code_bystander cobs" "runMemoryObject h hb (unoptimized p) ser state quiet obs cobs w = Some (r, Some w')"
  shows "\<exists>m'. pages w' = Some m' \<and> paged_inv m' \<and>
    (\<forall>v s cs. r = Inr (v, s, cs) \<longrightarrow> read_byte m' = upd_pairs (read_byte m) cs \<and> distinct (map fst cs)) \<and>
    (\<forall>J J' a. journal m = Some J \<and> journal m' = Some J' \<and> read_byte m' a \<noteq> read_byte m a \<longrightarrow> a \<in> J')"
proof -
  let ?c = "object_cells True state ser quiet obs cobs w"
  obtain v c' where c': "run_function h hb p ?c = Some (Returned v c')" "w' = note_world c'"
      "r = (case error c' of Some e \<Rightarrow> Inl (Run_error e) | None \<Rightarrow> Inr (v, slots c', run_cells c'))"
    using assms(9) by (auto simp: runMemoryObject_iff [OF assms(2)])
  have ok: "cells_ok ?c" by (rule object_cells_ok [OF assms(3,5,6)])
  have sl: "maxSlot p \<le> length (slots ?c)" using assms(2) by simp
  have "cells_ok c'" using run_function_defined [OF assms(1) sl ok c'(1)] by simp
  moreover have "tracks m c'"
    by (rule run_function_tracks [OF assms(1) sl ok object_cells_tracks [OF assms(4,7,8)] c'(1)])
  ultimately obtain m1 l where l: "pages (note_world c') = Some (note_changes l m1)" "changes c' = Some l" "log_ok l"
      "paged_inv m1" "same_step m m1" "store_log.agrees (view m) l (view m1)"
    by (rule note_world_pages)
  note n = note_changes_ok [OF l(4,3)]
  have j: "journal m1 = journal m" by (rule same_step_journal [OF l(5)])
  have v: "view m1 = upd_pairs (view m) (log_cells l)" by (rule store_log.agrees_cells [OF l(3,6)])
  have "a \<in> J'" if "journal m = Some J" "journal (note_changes l m1) = Some J'" "view m1 a \<noteq> view m a" for J J' a
  proof -
    have "log_map l a \<noteq> None" using l(6) that(3) by (auto simp: store_log.agrees_def split: option.splits)
    then show ?thesis using n(3) [of J J'] that(1,2) j by auto
  qed
  moreover have "cs = log_cells l" if "r = Inr (u, s, cs)" for u s cs
    using that c'(3) l(2) by (auto simp: run_cells_def split: option.splits)
  ultimately show ?thesis using l(1) c'(2) n(1,2) v log_cells_ok(2) [OF l(3)] by (auto simp: read_byte_fun)
qed

theorem run_object_changes_witness:
  "\<exists>p cs w' m'. compile stores_one = Inr p \<and>
     runMemoryObject granted False (unoptimized p) 1 [0, 100] False None None \<lparr>outside = (), pages = Some new_memory, quiet_filter = None\<rparr> =
       Some (Inr (5, [7, 100], cs) :: unit run_failure + _, Some w') \<and> pages w' = Some m' \<and>
     read_byte m' = upd_pairs (read_byte new_memory) cs"
proof -
  let ?w = "\<lparr>outside = (), pages = Some new_memory, quiet_filter = None\<rparr>"
  obtain p where p: "compile stores_one = Inr p" "maxSlot p = 2" using stores_one_compiles by blast
  then obtain cs w' where r: "runMemoryObject granted False (unoptimized p) 1 [0, 100] False None None ?w =
       Some (Inr (5, [7, 100], cs) :: unit run_failure + _, Some w')"
    using stores_one_runs by blast
  have "maxSlot p \<le> length [0, 100 :: u64]" using p by simp
  from run_object_changes [OF p(1) [unfolded compile_def] this _ _ _ _ _ _ r, of new_memory] show ?thesis
    using p(1) r paged_inv_new by (auto simp: world_ok_def bystander_def code_bystander_def)
qed

section \<open>Errors\<close>

text \<open>
  C15. Obligation 4: a run on a memory starts without an error and gets, whatever it did before, to an operation in which
  an observer throws: that of an access, or the code observer of a code site or of a site that waited, which fails the run
  also by stopping it. From there on no load, store or observer call takes effect, not even that of the operation
  itself, whatever the program does next. If the run returns, then with that error, with the world as the observer left
  it, and with what was stored until then written and noted in the journal of an open step.
\<close>

theorem failed_run_silent:
  assumes "compileOps ops ents = Inr p" "maxSlot p \<le> length state" "world_ok w"
    "case obs of None \<Rightarrow> True | Some f \<Rightarrow> observer_ok f" "case cobs of None \<Rightarrow> True | Some f \<Rightarrow> code_observer_ok f"
    "starts_at ops p (object_cells True state ser quiet obs cobs w) t"
    "reaches h hb ops t (object_cells True state ser quiet obs cobs w) ws (op # rest) c" "error c = None" "op_throws op c e w1"
  shows "\<exists>w'. (runMemoryObject h hb (unoptimized p) ser state quiet obs cobs w = None \<or>
      runMemoryObject h hb (unoptimized p) ser state quiet obs cobs w = Some (Inl (Run_error e), Some w')) \<and>
    w' = note_world (c\<lparr>world := w1\<rparr>) \<and> outside w' = outside w1 \<and> quiet_filter w' = quiet_filter w1 \<and>
    (\<forall>m. pages w1 = Some m \<longrightarrow> (\<exists>m'. pages w' = Some m' \<and> read_byte m' = read_byte m))"
proof -
  let ?c = "object_cells True state ser quiet obs cobs w" and ?w = "note_world (c\<lparr>world := w1\<rparr>)"
  let ?r = "runMemoryObject h hb (unoptimized p) ser state quiet obs cobs w"
  have ok: "cells_ok ?c" by (rule object_cells_ok [OF assms(3-5)])
  have sl: "maxSlot p \<le> length (slots ?c)" using assms(2) by simp
  from thrown_run [OF assms(1) sl ok assms(6-9)] have "?r = None \<or> ?r = Some (Inl (Run_error e), Some ?w)"
  proof
    assume "run_function h hb p ?c = None"
    then show ?thesis using assms(2) by (simp add: runMemoryObject_def)
  next
    assume "\<exists>v d. run_function h hb p ?c = Some (Returned v d) \<and> failed_as e w1 c d"
    then obtain v d where d: "run_function h hb p ?c = Some (Returned v d)" "failed_as e w1 c d" by blast
    then have "note_world d = ?w" by (simp add: failed_as_def note_world_def)
    then have "?r = Some (Inl (Run_error e), Some ?w)" unfolding runMemoryObject_iff [OF assms(2)] using d by (auto simp: failed_as_def)
    then show ?thesis by simp
  qed
  moreover have "read_byte (note_changes l m) = read_byte m" for l m
    using note_cells_noted [of m "log_cells l"] same_table_view [of m] by (simp add: note_changes_def read_byte_fun)
  ultimately show ?thesis by (auto simp: note_world_def split: option.splits)
qed

definition throws_once :: "(nat, unit) memory_observer" where
  "throws_once write a sz v w = (Some (), w\<lparr>outside := Suc (outside w)\<rparr>)"

theorem failed_run_silent_witness:
  "\<exists>p w'. compile stores_one = Inr p \<and>
     runMemoryObject granted False (unoptimized p) 1 [0, 100] False (Some throws_once) None \<lparr>outside = 4, pages = Some new_memory, quiet_filter = None\<rparr> =
       Some (Inl (Run_error (Observer_error ())), Some w') \<and>
     outside w' = 5 \<and> map_option (\<lambda>m. read_byte m 100) (pages w') = Some 0"
proof -
  let ?w = "\<lparr>outside = 4, pages = Some new_memory, quiet_filter = None\<rparr>"
  let ?w1 = "?w\<lparr>outside := 5\<rparr>"
  let ?c = "object_cells True [0, 100] 1 False (Some throws_once) None ?w"
  let ?c1 = "?c\<lparr>slots := [7, 100]\<rparr>"
  obtain p where p: "compile stores_one = Inr p" "maxSlot p = 2" using stores_one_compiles by blast
  then have comp: "compileOps stores_one None = Inr p" and sl: "maxSlot p \<le> length [0, 100 :: u64]" by (simp_all add: compile_def)
  have start: "starts_at stores_one p ?c stores_one"
    using comp by (rule compileOps_InrD) (simp add: starts_at_def start_block_def place_def)
  have wok: "world_ok ?w" "observer_ok throws_once"
    using paged_inv_new by (auto simp: world_ok_def observer_ok_def throws_once_def keeps_pages_def)
  have set: "exec_op granted False (Set 0 7) ?c = Next ?c1" by (simp add: going_on_def store_slot_def)
  from go_on [OF set stay] have r: "reaches granted False stores_one stores_one ?c [] [MemStore 1 0 2 False, Jump 5] ?c1"
    by (simp add: stores_one_def)
  have throws: "op_throws (MemStore 1 0 2 False) ?c1 (Observer_error ()) ?w1"
    by (rule store_throws [of _ _ 100 _ 7])
      (auto simp: load_slot_def heard_def throws_once_def object_cells_def new_cells_def intro!: observer_throws)
  have "\<exists>r. run_function granted False p ?c = Some r"
  proof -
    have left: "exec_op granted False (Jump 5) d = Leave 5 d" for d :: "(nat, unit) cells" by simp
    have "cells_ok ?c1" by (rule slots_update_ok, rule object_cells_ok [OF wok(1)]) (use wok(2) in simp_all)
    then have "\<exists>d. failed_as (Observer_error ()) ?w1 ?c1 d \<and> (exec_op granted False (MemStore 1 0 2 False) ?c1 = Next d \<or>
        (\<exists>v. exec_op granted False (MemStore 1 0 2 False) ?c1 = Leave v d))"
      by (rule throws_exec [OF _ _ throws, where ls = "[]"]) (auto simp: getSlot_def is_scalar_def)
    then obtain d where "exec_op granted False (MemStore 1 0 2 False) ?c1 = Next d \<or> (\<exists>v. exec_op granted False (MemStore 1 0 2 False) ?c1 = Leave v d)"
      by blast
    then show ?thesis unfolding compile_run_ops [OF p(1)] stores_one_def
      by (auto simp: run_ops_Cons set left simp del: exec_op.simps)
  qed
  then have some: "runMemoryObject granted False (unoptimized p) 1 [0, 100] False (Some throws_once) None ?w \<noteq> None"
    using sl by (auto simp: runMemoryObject_def split: outcome.splits)
  from failed_run_silent [OF comp sl wok(1) _ _ start r _ throws] show ?thesis
    using p(1) some wok(2) by (auto simp: read_byte_fun)
qed

fun closed_ops :: "jit_op list \<Rightarrow> bool" where
  "closed_ops [] = True"
| "closed_ops (op # ops) \<longleftrightarrow> (is_terminator op \<longrightarrow> ops = [] \<or> is_label (hd ops)) \<and> closed_ops ops"

lemma emit_closed:
  assumes "emit ls ops b = Inr b'"
  shows "closed_ops ops \<and> (terminated (b_blocks b (b_at b)) \<longrightarrow> ops = [] \<or> is_label (hd ops))"
  using assms
proof (induction ops arbitrary: b)
  case (Cons op ops)
  then have e: "emit ls ops (add_op op b) = Inr b'" by (auto split: if_splits option.splits)
  have "terminated (b_blocks (add_op op b) (b_at (add_op op b)))" if "is_terminator op"
  proof -
    have "\<not> is_label op" using that by (cases op) auto
    then show ?thesis using that by (simp add: add_op_simps)
  qed
  then show ?case using Cons.IH [OF e] Cons.prems by (auto split: if_splits)
qed simp

lemma emit_accepts:
  assumes "closed_ops ops" "\<forall>op \<in> set ops. op_error ls op = None" "distinct (labels_of ops)"
    "terminated (b_blocks b (b_at b)) \<longrightarrow> ops = [] \<or> is_label (hd ops)"
    "\<forall>i \<in> set (labels_of ops). b_at b \<noteq> Some i \<and> b_blocks b (Some i) = []"
  shows "\<exists>b'. emit ls ops b = Inr b'"
  using assms
proof (induction ops arbitrary: b)
  case (Cons op ops)
  have "\<exists>b'. emit ls ops (add_op op b) = Inr b'"
  proof (cases "is_label op")
    case True
    then obtain i where i: "op = Label i" by (rule is_labelE)
    show ?thesis by (rule Cons.IH) (use Cons.prems i in \<open>auto simp: add_op_simps terminated_def\<close>)
  next
    case False
    then show ?thesis by (intro Cons.IH) (use Cons.prems in \<open>auto simp: add_op_simps labels_of_cons\<close>)
  qed
  moreover have "is_label op \<or> \<not> terminated (b_blocks b (b_at b))" using Cons.prems(4) by auto
  ultimately show ?case using Cons.prems(2) by auto
qed simp

lemma collect_accepts:
  assumes "\<forall>i \<in> set (labels_of ops). slot_ok i" "distinct (ls @ labels_of ops)"
  shows "collect_labels ls ops = Inr (ls @ labels_of ops)"
  using assms by (induction ls ops rule: collect_labels.induct) auto

lemma emit_done:
  assumes "emit ls ops b = Inr b'" "terminated (b_blocks b (b_at b))" "\<forall>i \<in> set (labels_of ops). b_at b \<noteq> Some i"
  shows "b_blocks b' (b_at b) = b_blocks b (b_at b)"
proof (cases ops)
  case (Cons op rest)
  then have "is_label op" using assms(1,2) by (auto split: if_splits)
  then obtain i where i: "op = Label i" by (rule is_labelE)
  then have e: "emit ls rest (add_op op b) = Inr b'" using assms(1) Cons by (auto split: if_splits option.splits)
  show ?thesis using emit_other [OF e, of "b_at b"] assms(3) Cons i by (simp add: add_op_simps)
qed (use assms(1) in simp)

lemma emit_fills:
  assumes "emit ls ops b = Inr b'" "ended ops" "\<forall>i \<in> set (labels_of ops). b_at b \<noteq> Some i"
  shows "terminated (b_blocks b' (b_at b))"
  using assms
proof (induction ops arbitrary: b)
  case (Cons op ops)
  then have e: "emit ls ops (add_op op b) = Inr b'" by (auto split: if_splits option.splits)
  have nl: "\<not> is_label op" using Cons.prems(2) by (cases op) auto
  have at: "b_at (add_op op b) = b_at b" "\<forall>i \<in> set (labels_of ops). b_at (add_op op b) \<noteq> Some i"
    using nl Cons.prems(3) by (simp_all add: add_op_simps labels_of_cons)
  show ?case
  proof (cases "is_terminator op")
    case True
    then have "terminated (b_blocks (add_op op b) (b_at (add_op op b)))" using nl by (simp add: add_op_simps)
    then show ?thesis using emit_done [OF e _ at(2)] at(1) by simp
  next
    case False
    then show ?thesis using Cons.IH [OF e _ at(2)] Cons.prems(2) at(1) by simp
  qed
qed simp

lemma emit_fills_label:
  assumes "emit ls ops b = Inr b'" "distinct (labels_of ops)" "afterLabel ops i = Some t" "ended t"
  shows "terminated (b_blocks b' (Some i))"
  using assms
proof (induction ops arbitrary: b)
  case (Cons op ops)
  then have e: "emit ls ops (add_op op b) = Inr b'" by (auto split: if_splits option.splits)
  show ?case
  proof (cases "op = Label i")
    case True
    then show ?thesis using emit_fills [OF e] Cons.prems(2-4) by (auto simp: add_op_simps)
  next
    case False
    then have "afterLabel ops i = Some t" "distinct (labels_of ops)" using Cons.prems(2,3) by (cases op; auto split: if_splits)+
    then show ?thesis using Cons.IH [OF e] Cons.prems(4) by blast
  qed
qed simp

text \<open>
  C35. What \<open>compile\<close> accepts, exactly: lists that aren't empty, with no label twice, whose operations are each valid,
  in which every block, the first and that of each label, has an end before the next label, and nothing
  follows an end but a label. Everything else is an error.
\<close>

theorem compile_accepts:
  "(\<exists>p. compile ops = Inr p) \<longleftrightarrow>
    ops \<noteq> [] \<and> distinct (labels_of ops) \<and> (\<forall>op \<in> set ops. op_error (labels_of ops) op = None) \<and> closed_ops ops \<and> ended ops \<and>
    (\<forall>i t. afterLabel ops i = Some t \<longrightarrow> ended t)"
proof
  assume "\<exists>p. compile ops = Inr p"
  then obtain p where p: "compileOps ops None = Inr p" by (auto simp: compile_def)
  have "ended t" if "afterLabel ops i = Some t" for i t using compiled_blocks [OF p, of "Some i"] that by (simp add: place_def)
  moreover have "ended ops" using compiled_blocks [OF p, of None] by (simp add: place_def)
  moreover from this have "ops \<noteq> []" by auto
  moreover have "distinct (labels_of ops)" "closed_ops ops"
    using p by (auto elim!: compileOps_InrD dest: emit_closed)
  ultimately show "ops \<noteq> [] \<and> distinct (labels_of ops) \<and> (\<forall>op \<in> set ops. op_error (labels_of ops) op = None) \<and> closed_ops ops \<and>
      ended ops \<and> (\<forall>i t. afterLabel ops i = Some t \<longrightarrow> ended t)"
    using compiled_valid [OF p] by blast
next
  assume a: "ops \<noteq> [] \<and> distinct (labels_of ops) \<and> (\<forall>op \<in> set ops. op_error (labels_of ops) op = None) \<and> closed_ops ops \<and>
      ended ops \<and> (\<forall>i t. afterLabel ops i = Some t \<longrightarrow> ended t)"
  have "Label i \<in> set ops" if "i \<in> set (labels_of ops)" for i using that by (induction ops rule: labels_of.induct) auto
  then have "\<forall>i \<in> set (labels_of ops). slot_ok i" using a by (fastforce split: if_splits)
  then have ls: "collect_labels [] ops = Inr (labels_of ops)" using collect_accepts [of ops "[]"] a by simp
  obtain b where b: "emit (labels_of ops) ops new_builder = Inr b"
    using emit_accepts [of ops "labels_of ops" new_builder] a by (auto simp: new_builder_def terminated_def)
  have "terminated (b_blocks b None)" using emit_fills [OF b] a by (simp add: new_builder_def)
  moreover have "terminated (b_blocks b (Some i))" if "i \<in> set (labels_of ops)" for i
    using that emit_fills_label [OF b, of i] a afterLabel_None [of ops i] by auto
  ultimately show "\<exists>p. compile ops = Inr p" using ls b a by (simp add: compile_def compileOps_def dispatch_error_def)
qed

theorem compile_accepts_witness:
  "(\<exists>p. compile sample = Inr p) \<and> \<not> (\<exists>p. compile [Jump 1, Jump 2] = Inr p)"
  using compile_accepts [of "[Jump 1, Jump 2]"] sample_compiles by auto

section \<open>Runs that return\<close>

fun forward_ops :: "jit_op list \<Rightarrow> bool" where
  "forward_ops [] = True"
| "forward_ops (Goto i # ops) \<longleftrightarrow> i \<in> set (labels_of ops) \<and> forward_ops ops"
| "forward_ops (Branch q y n # ops) \<longleftrightarrow> y \<in> set (labels_of ops) \<and> n \<in> set (labels_of ops) \<and> forward_ops ops"
| "forward_ops (op # ops) = forward_ops ops"

lemma afterLabel_append: "i \<notin> set (labels_of us) \<Longrightarrow> afterLabel (us @ ops) i = afterLabel ops i"
proof (induction us)
  case (Cons op us)
  then show ?case by (cases op) auto
qed simp

lemma labels_of_append: "labels_of (us @ ops) = labels_of us @ labels_of ops"
  by (induction us rule: labels_of.induct) auto

lemma afterLabel_suffix: "afterLabel ops i = Some t \<Longrightarrow> \<exists>us. ops = us @ t \<and> us \<noteq> []"
proof (induction ops)
  case (Cons op ops)
  show ?case
  proof (cases "op = Label i")
    case True
    then show ?thesis using Cons.prems by (auto intro: exI [of _ "[Label i]"])
  next
    case False
    then have "afterLabel ops i = Some t" using Cons.prems by (cases op) (auto split: if_splits)
    then obtain us where "ops = us @ t" using Cons.IH by blast
    then show ?thesis by (auto intro: exI [of _ "op # us"])
  qed
qed simp

lemma forward_append: "forward_ops (us @ ops) \<Longrightarrow> forward_ops ops"
proof (induction us)
  case (Cons op us)
  then show ?case by (cases op) auto
qed simp

lemma exec_op_granted:
  assumes "op_error ls op = None" "cells_ok c" "\<forall>i. h i"
  shows "exec_op h hb op c \<noteq> Thrown"
proof (cases op)
  case (MemLoad d a sz big)
  then have "0 < sz" "sz \<le> 8" using assms(1) by (auto split: if_splits)
  then have "access_load h hb base sz big c \<noteq> None" for base using access_load_ok [OF assms(2) _ _ refl, of sz h hb base big] by auto
  then show ?thesis using MemLoad by (auto simp: going_on_def simp del: not_None_eq split: option.splits)
next
  case (MemStore a s sz big)
  then have "0 < sz" "sz \<le> 8" using assms(1) by (auto split: if_splits)
  then have "access_store h hb base sz big v c \<noteq> None" for base v
    using assms(3) by (intro access_store_granted [OF assms(2)]) simp_all
  then show ?thesis using MemStore by (auto simp del: not_None_eq split: option.splits)
next
  case (Code e pc)
  then show ?thesis by (auto simp: code_site_def Let_def split: prod.splits bool.splits option.splits)
qed (auto simp: going_on_def split: option.splits)

lemma run_ops_forward:
  assumes "\<forall>i. h i" "good_prog n prog" "distinct (labels_of prog)"
  shows "prog = us @ t \<Longrightarrow> forward_ops t \<Longrightarrow> good_ops n prog t \<Longrightarrow> run_ok n c \<Longrightarrow>
    \<exists>v c'. run_ops h hb prog t c = Some (Returned v c')"
proof (induction t arbitrary: us c rule: length_induct)
  case (1 t)
  from 1(4) obtain op rest where op: "t = op # rest" "op_error (labels_of prog) op = None"
      "\<And>s. s \<in> set (op_slots op) \<Longrightarrow> s < n" "\<not> is_terminator op \<Longrightarrow> good_ops n prog rest"
    by (rule good_opsE) blast
  have f: "flow_ok n (exec_op h hb op c)" by (rule exec_op_ok [OF op(2,3) 1(5)])
  have fw: "forward_ops rest" using 1(3) op(1) forward_append [of "[op]" rest] by simp
  show ?case
  proof (cases "exec_op h hb op c")
    case (Next c1)
    then have "\<not> is_terminator op" using not_Next by metis
    then have "good_ops n prog rest" "run_ok n c1" "length rest < length t" "prog = (us @ [op]) @ rest"
      using op(1,4) f Next 1(2) by simp_all
    then obtain v c' where "run_ops h hb prog rest c1 = Some (Returned v c')" using 1(1) fw by metis
    then show ?thesis using op(1) Next by (simp add: run_ops_Cons)
  next
    case (To i c1)
    have "i \<in> set (labels_of rest)" using exec_To [OF To] 1(3) op(1) by auto
    moreover have "i \<notin> set (labels_of (us @ [op]))"
      using assms(3) 1(2) op(1) calculation labels_of_append [of us "op # rest"] labels_of_append [of us "[op]"]
        labels_of_append [of "[op]" rest] by auto
    ultimately have al: "afterLabel prog i = afterLabel rest i" "afterLabel rest i \<noteq> None"
      using afterLabel_append [of i "us @ [op]" rest] 1(2) op(1) afterLabel_None [of rest i] by simp_all
    then obtain t' where t': "afterLabel rest i = Some t'" by auto
    then obtain vs where vs: "rest = vs @ t'" using afterLabel_suffix by blast
    have "good_ops n prog t'" using assms(2) al(1) t' by (simp add: good_prog_def)
    moreover have "forward_ops t'" using fw vs forward_append by simp
    moreover have "length t' < length t" "prog = (us @ op # vs) @ t'" using vs op(1) 1(2) by simp_all
    ultimately obtain v c' where "run_ops h hb prog t' c1 = Some (Returned v c')" using 1(1) f To by (metis flow_ok.simps(3))
    then show ?thesis using op(1) To al t' by (simp add: run_ops_Cons)
  qed (use op(1) f exec_op_granted [OF op(2) _ assms(1)] 1(5) in \<open>auto simp: run_ops_Cons run_ok_def\<close>)
qed

text \<open>
  C36. A program whose jumps all go forward returns, whatever its observers do, with memory for the pages: no such
  run goes on for ever, throws, or gets to anything undefined.
\<close>

theorem forward_program_returns:
  assumes "compile ops = Inr p" "forward_ops ops" "maxSlot p \<le> length (slots c)" "cells_ok c" "\<forall>i. h i"
  shows "\<exists>v c'. run_function h hb p c = Some (Returned v c')"
proof -
  have comp: "compileOps ops None = Inr p" using assms(1) by (simp add: compile_def)
  have pl: "place ops None = Some ops" by (simp add: place_def)
  have s: "start_block p c = Some None" using comp by (rule compileOps_InrD) (simp add: start_block_def)
  have d: "distinct (labels_of ops)" using comp by (rule compileOps_InrD)
  note g = compiled_good [OF comp assms(3)]
  have "\<exists>v c'. run_ops h hb ops ops c = Some (Returned v c')"
    by (rule run_ops_forward [OF assms(5) g(1) d _ assms(2) g(2) [OF pl]]) (use assms(4) in \<open>simp_all add: run_ok_def\<close>)
  then show ?thesis using s run_blocks_ops [OF comp pl, of h hb c] by (simp add: run_function_def)
qed

theorem forward_program_returns_witness:
  "\<exists>p v c'. compile stores_one = Inr p \<and>
     run_function granted False p (new_cells True [0, 100] 1 no_memory :: (unit, unit) cells) = Some (Returned v c')"
proof -
  obtain p where p: "compile stores_one = Inr p" "maxSlot p = 2" using stores_one_compiles by blast
  have "cells_ok (new_cells True [0, 100] 1 no_memory :: (unit, unit) cells)"
    by (rule new_cells_ok) (simp add: no_memory_def world_ok_def)
  moreover have "forward_ops stores_one" by (simp add: stores_one_def)
  moreover have "maxSlot p \<le> length (slots (new_cells True [0, 100] 1 no_memory :: (unit, unit) cells))" using p(2) by (simp add: new_cells_def)
  ultimately show ?thesis using forward_program_returns [OF p(1), of _ granted False] p(1) by simp
qed

section \<open>Memory images\<close>

definition stores_loop :: "jit_op list" where
  "stores_loop = [Goto 0, Label 0, MemStore 0 1 1 False, AddImm 0 0 1, AddImm 2 2 (- 1), Branch 2 0 1, Label 1, Jump 9]"

lemma stores_loop_compiles: "\<exists>p. compile stores_loop = Inr p \<and> maxSlot p = 3 \<and> memoryStores p = 1"
  by (simp add: compile_def compileOps_def stores_loop_def getSlot_def is_scalar_def add_op_def new_builder_def terminated_def
      noteSlot_def dispatch_error_def slot_count_def)


definition image_cells :: "u64 list \<Rightarrow> (u64 \<times> u8) list \<Rightarrow> nat \<Rightarrow> (unit, unit) cells" where
  "image_cells ss xs room = (new_cells True ss 1 no_memory)\<lparr>items := xs, capacity := room\<rparr>"

lemma image_cells_simps [simp]:
  "slots (image_cells ss xs room) = ss" "(image_cells ss xs room)\<lparr>slots := ss'\<rparr> = image_cells ss' xs room"
  "items (image_cells ss xs room) = xs" "error (image_cells ss xs room) = None"
  by (simp_all add: image_cells_def new_cells_def)

lemma image_store:
  "access_store h hb base 1 big v (image_cells ss xs room) =
     Some (storeByte base (ucast v) (image_cells ss xs room))"
proof -
  have n: "notifyAccess True base 1 v (image_cells ss xs room) = image_cells ss xs room"
    by (simp add: notifyAccess_def memory_notify_def image_cells_def new_cells_def)
  have p: "pageForAccess h base 1 True (image_cells ss xs room) = Some (None, image_cells ss xs room)"
    using tag_nonzero [of base]
    by (auto simp: pageForAccess_def Let_def image_cells_def new_cells_def no_entries_def memory_page_def no_memory_def)
  have "store_bytes h base 1 big v (image_cells ss xs room) = Some (storeByte base (ucast v) (image_cells ss xs room))"
    by (auto simp: store_bytes_def Let_def value_bytes_def byte_shift_def image_cells_def new_cells_def no_memory_def
        memory_note_def storeByte_def split: option.split)
  then show ?thesis using n p by (simp add: access_store_def hasInstruction_def Let_def)
qed

lemma image_storeByte:
  "storeByte a v (image_cells ss xs room) = image_cells ss
     (case store_item xs a v of Some ys \<Rightarrow> ys | None \<Rightarrow> if length xs < room then xs @ [(a, v)] else xs) room"
  by (auto simp: storeByte_def image_cells_def new_cells_def split: option.split)

lemma image_loop:
  assumes "0 < k" "i + k < 2 ^ 64"
  shows "run_ops h hb stores_loop (tl (tl stores_loop))
      (image_cells [a + of_nat i, v, of_nat k] (map (\<lambda>j. (a + of_nat j, ucast v)) [0..<min i room]) room) =
    Some (Returned 9 (image_cells [a + of_nat (i + k), v, 0] (map (\<lambda>j. (a + of_nat j, ucast v)) [0..<min (i + k) room]) room))"
  using assms
proof (induction k arbitrary: i)
  case (Suc k)
  let ?cells = "\<lambda>i. map (\<lambda>j. (a + of_nat j, ucast v :: u8)) [0..<min i room]"
  have "of_nat i \<noteq> (of_nat j :: u64)" if "j < i" for j
    using that Suc.prems(2) by (simp add: word_unat_eq_iff unat_of_nat take_bit_eq_mod)
  then have "a + of_nat i \<notin> fst ` set (?cells i)" by fastforce
  then have none: "store_item (?cells i) (a + of_nat i) (ucast v) = None" by (simp add: store_item_None)
  have add: "(if length (?cells i) < room then ?cells i @ [(a + of_nat i, ucast v)] else ?cells i) = ?cells (Suc i)"
    by (auto simp: min_def)
  have dec: "of_nat (Suc k) - 1 = (of_nat k :: u64)" "a + of_nat i + 1 = a + of_nat (Suc i)" by (simp_all add: algebra_simps)
  have one: "access_store h hb (a + of_nat i) (Suc 0) False v (image_cells [a + of_nat i, v, of_nat (Suc k)] (?cells i) room) =
      Some (image_cells [a + of_nat i, v, of_nat (Suc k)] (?cells (Suc i)) room)"
    using image_store [unfolded One_nat_def, of h hb "a + of_nat i" False v] none add by (simp add: image_storeByte)
  show ?case
  proof (cases k)
    case 0
    then show ?thesis using one dec
      by (simp add: stores_loop_def run_ops_Cons load_slot_def store_slot_def going_on_def ac_simps)
  next
    case (Suc l)
    have "k < 2 ^ 64" using Suc.prems(2) by simp
    then have "unat (of_nat k :: u64) = k" by (simp only: unat_of_nat take_bit_eq_mod) simp
    then have "(of_nat k :: u64) \<noteq> 0" using Suc by auto
    moreover have "run_ops h hb stores_loop (tl (tl stores_loop)) (image_cells [a + of_nat (Suc i), v, of_nat k] (?cells (Suc i)) room) =
      Some (Returned 9 (image_cells [a + of_nat (Suc i + k), v, 0] (?cells (Suc i + k)) room))"
      by (rule Suc.IH) (use Suc Suc.prems in simp_all)
    ultimately show ?thesis using one dec
      by (simp add: stores_loop_def run_ops_Cons load_slot_def store_slot_def going_on_def ac_simps)
  qed
qed simp

text \<open>The cells of an image are never more than the room that was reserved for them.\<close>

definition image_fits :: "nat \<Rightarrow> ('x, 'e) cells \<Rightarrow> bool" where
  "image_fits room c \<longleftrightarrow> length (items c) \<le> room \<and> capacity c = room"

lemma kept_image_fits: "kept c d \<Longrightarrow> image_fits room d = image_fits room c"
  by (simp add: kept_def image_fits_def)

lemma storeByte_fits: "image_fits room c \<Longrightarrow> image_fits room (storeByte a v c)"
proof (cases "store_item (items c) a v")
  case None
  assume "image_fits room c"
  then show ?thesis using None by (simp add: storeByte_def image_fits_def)
next
  case (Some xs)
  assume "image_fits room c"
  moreover have "length xs = length (items c)" using store_item_Some [OF Some] by simp
  ultimately show ?thesis using Some by (simp add: storeByte_def image_fits_def)
qed

lemma storeBytes_fits: "image_fits room c \<Longrightarrow> image_fits room (foldl (\<lambda>c i. storeByte (a + of_nat i) (bs ! i) c) c [0..<n])"
  by (induction n) (simp_all add: storeByte_fits)

lemma store_bytes_fits: "image_fits room c \<Longrightarrow> store_bytes h base sz big v c = Some d \<Longrightarrow> image_fits room d"
  using storeBytes_fits [of room c]
  by (auto simp: store_bytes_def Let_def image_fits_def split: if_splits option.splits prod.splits bool.splits)

lemma access_store_fits:
  assumes "cells_ok c" "0 < sz" "sz \<le> 8" "image_fits room c" "access_store h hb base sz big v c = Some d"
  shows "image_fits room d"
proof -
  define c1 where "c1 = notifyAccess True base sz v c"
  have "c1 = memory_notify True base (of_nat sz) v c" unfolding c1_def using assms(2,3) by (intro notifyAccess_eq [OF assms(1)]) simp_all
  then have c1: "cells_ok c1" "image_fits room c1" using memory_notify_ok [OF assms(1), of True base "of_nat sz" v] kept_image_fits assms(4) by metis+
  have "kept c1 c2" if "pageForAccess h base sz True c1 = Some (r, c2)" for r c2
    using pageForAccess_ok [OF c1(1) that] by (simp add: paged_for_def)
  then have c2: "image_fits room c2" if "pageForAccess h base sz True c1 = Some (r, c2)" for r c2 using that kept_image_fits c1(2) by blast
  have st: "image_fits room d" if "store_bytes h base sz big v c2 = Some d" "image_fits room c2" for c2 using store_bytes_fits that by blast
  have pg: "image_fits room (memory_note base sz big v (set_pages m c2))" if "image_fits room c2" for m c2 using that by (simp add: image_fits_def)
  show ?thesis
  proof (cases "hasInstruction sz")
    case False
    then show ?thesis using assms(5) st c1(2) by (simp add: access_store_def c1_def [symmetric])
  next
    case True
    obtain o' c2 where p: "pageForAccess h base sz True c1 = Some (o', c2)"
      using assms(5) True by (auto simp: access_store_def c1_def [symmetric] split: option.splits)
    then show ?thesis using assms(5) True st [of c2] pg [of c2] c2 [OF p]
      by (cases o') (auto simp: access_store_def Let_def c1_def [symmetric] split: option.splits)
  qed
qed

lemma exec_op_image_fits:
  assumes "op_error ls op = None" "cells_ok c" "image_fits room c" "d \<in> set_flow (exec_op h hb op c)"
  shows "image_fits room d"
proof (cases op)
  case (MemLoad i a sz big)
  then have sz: "0 < sz" "sz \<le> 8" using assms(1) by (auto split: if_splits)
  obtain base where b: "load_slot a c = Some base" using MemLoad assms(4) by (auto split: option.splits)
  obtain v c1 where l: "access_load h hb base sz big c = Some (v, c1)" "kept (memory_notify False base (of_nat sz) 0 c) c1"
    using access_load_ok [OF assms(2) sz refl] by blast
  then have "silent c1 d" using MemLoad assms(4) b by (auto simp: set_going_on dest: store_slot_silent)
  moreover have "image_fits room c1" using kept_image_fits [OF l(2)] kept_image_fits memory_notify_ok [OF assms(2)] assms(3) by blast
  ultimately show ?thesis by (auto simp: silent_def image_fits_def)
next
  case (MemStore a s sz big)
  then have "0 < sz" "sz \<le> 8" using assms(1) by (auto split: if_splits)
  then show ?thesis using access_store_fits [OF assms(2) _ _ assms(3)] MemStore assms(4) by (auto split: option.splits)
next
  case (Code e pc)
  obtain stop c1 where n: "code_notify pc c = (stop, c1)" by fastforce
  then have "image_fits room c1" using code_notify_ok [OF assms(2) n] kept_image_fits assms(3) by blast
  then show ?thesis using Code assms(3,4) n
    by (auto simp: code_site_def Let_def store_slot_def image_fits_def split: bool.splits if_splits)
qed (use exec_pure [OF _ assms(4)] assms(3) in \<open>auto simp: silent_def image_fits_def\<close>)

text \<open>
  C40. Obligation 6 doesn't hold of \<open>bap_jit_run_memory_code\<close>: the room for cells is that of the image and of one run of
  each store of the program, with what \<open>reserve\<close> may take beyond it, and \<open>storeByte\<close> drops what doesn't fit. No run gives
  back more cells than that. A loop that stores a byte at each of any number of addresses gives back those of the first
  rounds alone, and runs on to its end as if nothing had happened.
\<close>

theorem image_loses_stores:
  assumes "compileOps ops ents = Inr q" "maxSlot q \<le> length state"
    "case obs of None \<Rightarrow> True | Some f \<Rightarrow> observer_ok f" "case cobs of None \<Rightarrow> True | Some f \<Rightarrow> code_observer_ok f"
    "run_memory_code h hb (unoptimized q) ser spare state addresses vs obs cobs x = Some (Inr (r, s, cs), y)"
  shows "length cs \<le> length addresses + memoryStores q + spare \<and>
    (\<exists>p. compile stores_loop = Inr p \<and> (\<forall>a v n more. 0 < n \<longrightarrow>
       run_memory_code h hb (unoptimized p) 1 more [a, v, n] [] [] None None () =
         Some (Inr (9, [a + n, v, 0], map (\<lambda>i. (a + of_nat i, ucast v)) [0..<min (unat n) (1 + more)]) :: unit run_failure + _, Some ())))"
proof
  let ?room = "length addresses + memoryStores q + spare"
  let ?c = "(new_cells True state ser \<lparr>outside = x, pages = None, quiet_filter = None\<rparr>)\<lparr>items := zip addresses vs,
      capacity := ?room, observer := obs, codeObserver := cobs\<rparr>"
  have len: "length addresses = length vs" using assms(2,5) by (intro ccontr [of "length addresses = length vs"]) (simp add: run_memory_code_def)
  obtain c' where c': "run_function h hb q ?c = Some (Returned r c')" "cs = items c'"
    using assms(2,5) len by (auto simp: run_memory_code_def Let_def split: option.splits outcome.splits)
  have ok: "cells_ok ?c" using assms(3,4) by (auto simp: cells_ok_def new_cells_def world_ok_def intro: no_entries_ok quiet_none)
  have fit: "image_fits ?room ?c" using len by (simp add: image_fits_def)
  have "maxSlot q \<le> length (slots ?c)" using assms(2) by (simp add: new_cells_def)
  from run_function_invariant [OF assms(1) this ok, of "image_fits ?room", OF fit c'(1)] exec_op_image_fits have "image_fits ?room c'" by blast
  then show "length cs \<le> ?room" using c'(2) by (simp add: image_fits_def)
next
  obtain p where p: "compile stores_loop = Inr p" "maxSlot p = 3" "memoryStores p = 1" using stores_loop_compiles by blast
  have "run_memory_code h hb (unoptimized p) 1 more [a, v, n] [] [] None None () =
      Some (Inr (9, [a + n, v, 0], map (\<lambda>i. (a + of_nat i, ucast v)) [0..<min (unat n) (1 + more)]) :: unit run_failure + _, Some ())"
    if "0 < n" for a v n :: u64 and more
  proof -
    have "0 < unat n" using that by (simp add: word_less_nat_alt)
    from image_loop [OF this, of 0 h hb a v "1 + more"]
    have "run_ops h hb stores_loop (tl (tl stores_loop)) (image_cells [a, v, n] [] (1 + more)) =
        Some (Returned 9 (image_cells [a + n, v, 0] (map (\<lambda>i. (a + of_nat i, ucast v)) [0..<min (unat n) (1 + more)]) (1 + more)))"
      using unat64_less [of n] by simp
    then have "run_function h hb p (image_cells [a, v, n] [] (1 + more)) =
        Some (Returned 9 (image_cells [a + n, v, 0] (map (\<lambda>i. (a + of_nat i, ucast v)) [0..<min (unat n) (1 + more)]) (1 + more)))"
      unfolding compile_run_ops [OF p(1)] by (simp add: run_ops_Cons [of _ _ _ "Goto 0"] stores_loop_def)
    moreover have "(new_cells True [a, v, n] 1 \<lparr>outside = (), pages = None, quiet_filter = None\<rparr>)\<lparr>items := zip [] [],
        capacity := length ([] :: u64 list) + memoryStores p + more, observer := None, codeObserver := None\<rparr> = image_cells [a, v, n] [] (1 + more)"
      using p(3) by (simp add: image_cells_def new_cells_def no_memory_def)
    ultimately show ?thesis using p by (simp add: run_memory_code_def Let_def del: upt_Suc)
  qed
  then show "\<exists>p. compile stores_loop = Inr p \<and> (\<forall>a v n more. 0 < n \<longrightarrow>
       run_memory_code h hb (unoptimized p) 1 more [a, v, n] [] [] None None () =
         Some (Inr (9, [a + n, v, 0], map (\<lambda>i. (a + of_nat i, ucast v)) [0..<min (unat n) (1 + more)]) :: unit run_failure + _, Some ()))"
    using p(1) by blast
qed

theorem image_loses_stores_witness:
  "\<exists>p. compile stores_loop = Inr p \<and>
     run_memory_code granted False (unoptimized p) 1 0 [100, 7, 3] [] [] None None () =
       Some (Inr (9, [103, 7, 0], [(100, 7)]) :: unit run_failure + _, Some ())"
proof -
  obtain q where q: "compile [Jump 5] = Inr q" "maxSlot q = 0"
    by (simp add: compile_def compileOps_def add_op_def new_builder_def terminated_def dispatch_error_def slot_count_def)
  have run: "run_memory_code granted False (unoptimized q) 1 0 [] [] [] None None () =
      Some (Inr (5, [], []) :: unit run_failure + _, Some ())"
    using q(2) by (simp add: run_memory_code_def Let_def compile_run_ops [OF q(1)] run_ops_Cons new_cells_def)
  have "[0..<min (unat (3 :: u64)) (1 + 0)] = [0]" by simp
  then show ?thesis
    using image_loses_stores [OF q(1) [unfolded compile_def] _ _ _ run] q(2) by fastforce
qed

end
