(* ===== verification/LiveSites.thy ===== *)
theory LiveSites
  imports Cells
begin

text \<open>
  \<open>bap_jit_live_changes\<close> of \<open>native/bap_jit.cpp\<close>, which the code that a code site calls has the slots of the run
  by, and \<open>SiteReport\<close>, what was last said of them. What is shown: who keeps what it was told of each slot
  has, after a call, the slots that the run has now for every output that it has reached
  (\<open>live_outputs_told\<close>), and is told of nothing twice.
\<close>

record site_report =
  report_serial :: u64
  report_values :: "u64 list"
  known :: "bool list"

definition no_report :: site_report where
  "no_report = \<lparr>report_serial = 0, report_values = [], known = []\<rparr>"

definition output_slot :: "u8 list \<Rightarrow> nat \<Rightarrow> u64" where
  "output_slot outs index = getWord (take 8 (drop (index * 16) outs))"

definition output_flag :: "u8 list \<Rightarrow> nat \<Rightarrow> u64" where
  "output_flag outs index = getWord (take 8 (drop (index * 16 + 8) outs))"

text \<open>Whether the run has written an output, by its flag.\<close>

definition reached :: "u64 list \<Rightarrow> u64 \<Rightarrow> u64 \<Rightarrow> bool" where
  "reached ss slot flag \<longleftrightarrow>
     \<not> (unat slot \<ge> length ss \<or> (flag \<noteq> 0 \<and> (unat (flag - 1) \<ge> length ss \<or> ss ! unat (flag - 1) = 0)))"

definition live_output :: "u64 list \<Rightarrow> u8 list \<Rightarrow> site_report \<times> u64 list \<Rightarrow> nat \<Rightarrow> site_report \<times> u64 list" where
  "live_output ss outs st index =
     (let (report, cs) = st;
          slot = output_slot outs index;
          v = ss ! unat slot
      in if \<not> reached ss slot (output_flag outs index) then (report, cs)
         else if known report ! unat slot \<and> report_values report ! unat slot = v then (report, cs)
         else (report\<lparr>report_values := (report_values report)[unat slot := v], known := (known report)[unat slot := True]\<rparr>,
               cs @ [of_nat index, v]))"

definition start_report :: "u64 \<Rightarrow> u64 list \<Rightarrow> bool \<Rightarrow> site_report \<Rightarrow> site_report" where
  "start_report ser ss reset report =
     (if report_serial report \<noteq> ser \<or> reset
      then \<lparr>report_serial = ser, report_values = replicate (length ss) 0, known = replicate (length ss) False\<rparr>
      else report)"

text \<open>\<open>siteCells\<close> is None where no code site has called what runs now.\<close>

definition live_changes :: "u8 list \<Rightarrow> u64 \<Rightarrow> bool \<Rightarrow> site option \<Rightarrow> site_report \<Rightarrow> u8 list option \<times> site_report" where
  "live_changes outs pc reset siteCells report =
     (case siteCells of
        None \<Rightarrow> (None, report)
      | Some s \<Rightarrow>
          (case site_slots s of
             None \<Rightarrow> (None, report)
           | Some ss \<Rightarrow>
               if \<not> (site_live s \<or> site_flushed s = pc) then (None, report)
               else let (report', cs) = foldl (live_output ss outs) (start_report (site_serial s) ss reset report, [])
                                              [0..<length outs div 16]
                    in (Some (concat (map putWord cs)), report')))"

section \<open>What a client of it knows\<close>

text \<open>What was said of each slot, and what the pairs of a reply say.\<close>

definition told :: "site_report \<Rightarrow> nat \<Rightarrow> u64 option" where
  "told report i = (if i < length (known report) \<and> known report ! i then Some (report_values report ! i) else None)"

fun tell :: "u8 list \<Rightarrow> u64 list \<Rightarrow> (nat \<Rightarrow> u64 option) \<Rightarrow> nat \<Rightarrow> u64 option" where
  "tell outs (index # v # cs) f = tell outs cs (f(unat (output_slot outs (unat index)) \<mapsto> v))"
| "tell outs _ f = f"

definition report_ok :: "nat \<Rightarrow> site_report \<Rightarrow> bool" where
  "report_ok n report \<longleftrightarrow> length (report_values report) = n \<and> length (known report) = n"

lemma start_report_ok: "reset \<or> report_ok (length ss) report \<or> report_serial report \<noteq> ser \<Longrightarrow> report_ok (length ss) (start_report ser ss reset report)"
  by (auto simp: start_report_def report_ok_def)

lemma tell_append: "even (length cs) \<Longrightarrow> tell outs (cs @ ds) f = tell outs ds (tell outs cs f)"
  by (induction outs cs f rule: tell.induct) auto

text \<open>One output: it leaves what it says told, and every output that the run has reached as the run has it.\<close>

lemma live_output_told:
  assumes "report_ok (length ss) report" "even (length cs)" "index < 2 ^ 64" "live_output ss outs (report, cs) index = (report', cs')"
  shows "report_ok (length ss) report' \<and> even (length cs') \<and> tell outs cs' f = (tell outs cs f)(unat (output_slot outs index) :=
      if report' = report then tell outs cs f (unat (output_slot outs index)) else told report' (unat (output_slot outs index))) \<and>
    told report' = (if reached ss (output_slot outs index) (output_flag outs index)
      then (told report)(unat (output_slot outs index) \<mapsto> ss ! unat (output_slot outs index)) else told report)"
proof -
  let ?s = "unat (output_slot outs index)"
  have [simp]: "unat (of_nat index :: u64) = index" using assms(3) by (simp add: unat_of_nat take_bit_eq_mod)
  show ?thesis
  proof (cases "reached ss (output_slot outs index) (output_flag outs index) \<and>
      \<not> (known report ! ?s \<and> report_values report ! ?s = ss ! ?s)")
    case True
    then have s: "?s < length ss" by (simp add: reached_def)
    have r: "report' = report\<lparr>report_values := (report_values report)[?s := ss ! ?s], known := (known report)[?s := True]\<rparr>"
        "cs' = cs @ [of_nat index, ss ! ?s]"
      using assms(4) True by (auto simp: live_output_def Let_def split: if_splits)
    have told: "told report' = (told report)(?s \<mapsto> ss ! ?s)"
      using s assms(1) by (auto simp: told_def r report_ok_def nth_list_update)
    have "report' \<noteq> report"
    proof
      assume "report' = report"
      then have "known report' ! ?s = known report ! ?s" "report_values report' ! ?s = report_values report ! ?s" by simp_all
      then show False using True s assms(1) by (auto simp: r report_ok_def)
    qed
    then show ?thesis using told True assms(1,2) by (auto simp: r(2) tell_append report_ok_def r(1) fun_eq_iff)
  next
    case False
    then have r: "report' = report" "cs' = cs" using assms(4) by (auto simp: live_output_def Let_def split: if_splits)
    have "told report = (told report)(?s \<mapsto> ss ! ?s)" if "reached ss (output_slot outs index) (output_flag outs index)"
      using False that assms(1) by (auto simp: told_def report_ok_def reached_def fun_eq_iff)
    then show ?thesis using r assms(1,2) by auto
  qed
qed

text \<open>A whole call. The slots don't change while it goes on, and a slot that was told stays as it is.\<close>

lemma live_outputs_told:
  assumes "report_ok (length ss) report" "n \<le> 2 ^ 64" "foldl (live_output ss outs) (report, []) [0..<n] = (report', cs)"
  shows "report_ok (length ss) report' \<and> even (length cs) \<and> tell outs cs (told report) = told report' \<and>
    (\<forall>i < n. reached ss (output_slot outs i) (output_flag outs i) \<longrightarrow>
       told report' (unat (output_slot outs i)) = Some (ss ! unat (output_slot outs i))) \<and>
    (\<forall>s. told report' s \<noteq> told report s \<longrightarrow> told report' s = Some (ss ! s))"
  using assms(2,3)
proof (induction n arbitrary: report' cs)
  case 0
  then show ?case using assms(1) by simp
next
  case (Suc n)
  obtain r d where 1: "foldl (live_output ss outs) (report, []) [0..<n] = (r, d)" by fastforce
  then have 2: "live_output ss outs (r, d) n = (report', cs)" using Suc(3) by simp
  have IH: "report_ok (length ss) r" "even (length d)" "tell outs d (told report) = told r"
      "\<And>i. i < n \<Longrightarrow> reached ss (output_slot outs i) (output_flag outs i) \<Longrightarrow>
         told r (unat (output_slot outs i)) = Some (ss ! unat (output_slot outs i))"
      "\<And>s. told r s \<noteq> told report s \<Longrightarrow> told r s = Some (ss ! s)"
    using Suc(1) [OF _ 1] Suc(2) by (simp_all del: not_None_eq)
  have n: "n < 2 ^ 64" using Suc(2) by simp
  let ?s = "unat (output_slot outs n)"
  have step: "report_ok (length ss) report'" "even (length cs)"
      "tell outs cs (told report) = (told r)(?s := if report' = r then told r ?s else told report' ?s)"
      "told report' = (if reached ss (output_slot outs n) (output_flag outs n) then (told r)(?s \<mapsto> ss ! ?s) else told r)"
    using live_output_told [OF IH(1,2) n 2, of "told report"] IH(3) by simp_all
  have "told r = told report'" if "report' = r" using that by simp
  then have "tell outs cs (told report) = told report'" using step(3,4) by (auto simp: fun_eq_iff split: if_splits)
  moreover have "told report' (unat (output_slot outs i)) = Some (ss ! unat (output_slot outs i))"
    if "i < Suc n" "reached ss (output_slot outs i) (output_flag outs i)" for i
    using that IH(4) [of i] step(4) by (cases "i = n") (auto simp: fun_upd_def)
  moreover have "told report' s = Some (ss ! s)" if "told report' s \<noteq> told report s" for s
    using that IH(5) [of s] step(4) by (auto simp: fun_upd_def split: if_splits simp del: not_None_eq)
  ultimately show ?case using step(1,2) by (auto simp del: not_None_eq)
qed

text \<open>The words of a reply, as the caller reads them.\<close>

fun reply_words :: "u8 list \<Rightarrow> u64 list" where
  "reply_words [] = []"
| "reply_words bs = getWord (take 8 bs) # reply_words (drop 8 bs)"

lemma putWord_length [simp]: "length (putWord v) = 8"
  by (simp add: putWord_def)

lemma reply_words_concat: "reply_words (concat (map putWord cs)) = cs"
proof (induction cs)
  case (Cons v cs)
  obtain x xs where "putWord v @ concat (map putWord cs) = x # xs"
    by (metis putWord_length append_is_Nil_conv list.size(3) neq_Nil_conv zero_neq_numeral)
  then have "reply_words (putWord v @ concat (map putWord cs)) =
      getWord (take 8 (putWord v @ concat (map putWord cs))) # reply_words (drop 8 (putWord v @ concat (map putWord cs)))"
    by (metis reply_words.simps(2))
  then show ?case using Cons by (simp add: getWord_putWord)
qed simp

text \<open>
  C23. A reply about the slots of a run at a code site says what changed: who takes it together with what it was
  told before knows, of each output that the run has reached, what its slot holds now, and what is said
  differs from what was said before. Nothing is said where the slots aren't those of the run.
\<close>

theorem live_changes_tell:
  assumes "site_slots s = Some ss" "site_live s \<or> site_flushed s = pc" "length outs div 16 \<le> 2 ^ 64"
    "reset \<or> report_ok (length ss) report \<or> report_serial report \<noteq> site_serial s"
    "before = start_report (site_serial s) ss reset report"
  shows "\<exists>bytes report'. live_changes outs pc reset (Some s) report = (Some bytes, report') \<and>
    tell outs (reply_words bytes) (told before) = told report' \<and>
    (\<forall>i < length outs div 16. reached ss (output_slot outs i) (output_flag outs i) \<longrightarrow>
       told report' (unat (output_slot outs i)) = Some (ss ! unat (output_slot outs i))) \<and>
    (\<forall>i. told report' i \<noteq> told before i \<longrightarrow> told report' i = Some (ss ! i)) \<and> report_ok (length ss) report'"
proof -
  obtain r cs where f: "foldl (live_output ss outs) (before, []) [0..<length outs div 16] = (r, cs)" by fastforce
  have "report_ok (length ss) before" unfolding assms(5) by (rule start_report_ok [OF assms(4)])
  note told = live_outputs_told [OF this assms(3) f]
  have "live_changes outs pc reset (Some s) report = (Some (concat (map putWord cs)), r)"
    using assms(1,2) f by (auto simp: live_changes_def assms(5))
  then show ?thesis using told by (auto simp: reply_words_concat simp del: not_None_eq)
qed

definition sample_site :: site where
  "sample_site = \<lparr>site_slots = Some [5, 6], site_serial = 3, site_live = True, site_flushed = 0\<rparr>"

lemma sample_outputs: "output_slot (putWord 1 @ putWord 0) 0 = 1" "output_flag (putWord 1 @ putWord 0) 0 = 0"
  by (simp_all add: output_slot_def output_flag_def getWord_putWord)

theorem live_changes_tell_witness:
  "\<exists>bytes report'. live_changes (putWord 1 @ putWord 0) 7 False (Some sample_site) no_report = (Some bytes, report') \<and>
     tell (putWord 1 @ putWord 0) (reply_words bytes) (\<lambda>_. None) 1 = Some 6"
proof -
  have "told (start_report 3 [5, 6] False no_report) = (\<lambda>_. None)"
    by (auto simp: told_def start_report_def no_report_def nth_Cons' fun_eq_iff)
  moreover have "reached [5, 6] 1 0" by (simp add: reached_def)
  ultimately show ?thesis
    using live_changes_tell [of sample_site "[5, 6]" 7 "putWord 1 @ putWord 0" False no_report]
    by (simp add: sample_site_def no_report_def sample_outputs) metis
qed

end
