(* ===== verification/JitBudget.thy ===== *)
theory JitBudget
  imports JitOptimize
begin

text \<open>
  The copy that doesn't check its budget at each block does what the function does, for programs that count
  their blocks out of the budget (\<open>run_copies_same\<close>). That is a condition on the program (\<open>budgeted\<close>), of the shape that
  \<open>enterBlock\<close> of \<open>src/Bap/Primus/Lifted.lean\<close> gives an entry of a block: a check of the budget, behind it a region of
  blocks that only it goes to, which is the block alone or, with a guard, the branch around the code site, the site and
  the label behind it, and in the region one decrement of the budget at most on each way. Nothing else writes the budget.
\<close>

section \<open>What an operation leaves of the slots\<close>

lemma cells_ok_dress [simp]:
  "cells_ok (c\<lparr>state_array := A\<rparr>) = cells_ok c" "cells_ok (c\<lparr>registers := R\<rparr>) = cells_ok c"
  "cells_ok (c\<lparr>flushedPc := pc\<rparr>) = cells_ok c" "cells_ok (c\<lparr>slots := ss\<rparr>) = cells_ok c"
  "cells_ok (c\<lparr>slots := ss, state_array := A\<rparr>) = cells_ok c"
  by (simp_all add: cells_ok_def entries_ok_def quiet_ok_def)

lemma store_home_ok:
  assumes "store_home hm v c = Some c'" "run_ok n c"
  shows "run_ok n c' \<and> slots c' = slots c"
  using assms by (auto simp: store_home_def run_ok_def split: home.splits option.splits if_splits)

lemma write_back_ok: "write_back hs is c = Some c' \<Longrightarrow> run_ok n c \<Longrightarrow> run_ok n c' \<and> slots c' = slots c"
proof (induction hs "is" c rule: write_back.induct)
  case (2 hs i "is" c)
  then obtain v c1 where 1: "load_slot i c = Some v" "store_home (hs i) v c = Some c1" "write_back hs is c1 = Some c'"
    by (auto simp: bind_eq_Some_conv)
  then show ?case using 2(1) [OF 1(1,2,3)] store_home_ok [OF 1(2) 2(3)] by simp
qed simp

lemma flush_site_ok:
  assumes "flush_site ot pc c = Some c'" "run_ok n c"
  shows "run_ok n c' \<and> slots c' = slots c"
proof (cases "pc \<in> set (flushPcs ot)")
  case True
  then obtain c1 where c1: "leave_slots ot c = Some c1" "c' = c1\<lparr>flushedPc := pc\<rparr>" using assms(1) by (auto simp: flush_site_def)
  have "run_ok n c1 \<and> slots c1 = slots c" using write_back_ok [OF c1(1) [unfolded leave_slots_def] assms(2)] .
  then show ?thesis by (auto simp: c1(2) run_ok_def)
next
  case False
  then show ?thesis using assms by (simp add: flush_site_def)
qed

definition frames :: "nat \<Rightarrow> nat list \<Rightarrow> ('x, 'e) cells \<Rightarrow> ('x, 'e) cells \<Rightarrow> bool" where
  "frames n ws c c' \<longleftrightarrow> run_ok n c' \<and> (\<forall>s. s \<notin> set ws \<longrightarrow> slots c' ! s = slots c ! s)"

lemma frames_store: "run_ok n c \<Longrightarrow> store_slot d v c = Some c' \<Longrightarrow> frames n [d] c c'"
  by (auto simp: frames_def store_slot_def run_ok_def slots_update_ok split: if_splits)

lemma frames_going: "run_ok n c \<Longrightarrow> c' \<in> set_flow (going_on (store_slot d v c)) \<Longrightarrow> frames n [d] c c'"
  by (auto simp: going_on_def split: option.splits dest: frames_store)

lemma notify_frames:
  assumes "run_ok n c" "code_notify pc c = (stop, c1)"
  shows "run_ok n c1 \<and> slots c1 = slots c"
proof -
  have "cells_ok c" using assms(1) by (simp add: run_ok_def)
  from code_notify_ok [OF this assms(2)] show ?thesis using assms(1) by (simp add: run_ok_def kept_def)
qed

lemma optimized_site_cases:
  obtains (quiet) "optimized_site ot e pc c = Next c" "error c = None" "codeObserver c = None"
    | (waits) "optimized_site ot e pc c = Next (c\<lparr>pendingSite := True, pendingPc := pc\<rparr>)" "error c = None" "codeObserver c \<noteq> None"
        "quietSites c" "\<not> leanRan c"
    | (called) "optimized_site ot e pc c =
        (case flush_site ot pc c of
           None \<Rightarrow> Undefined
         | Some c0 \<Rightarrow>
             (case code_notify pc c0 of
                (False, c1) \<Rightarrow> Next c1
              | (True, c1) \<Rightarrow> (case store_slot e 3 c1 of None \<Rightarrow> Undefined | Some c2 \<Rightarrow> Leave pc c2)))"
        "\<not> (error c = None \<and> (codeObserver c = None \<or> quietSites c \<and> \<not> leanRan c))"
  unfolding optimized_site_def Let_def by argo

lemma optimized_site_frames:
  assumes "run_ok n c" "c' \<in> set_flow (optimized_site ot e pc c)"
  shows "frames n [e] c c'"
proof (cases rule: optimized_site_cases [of ot e pc c])
  case quiet
  then show ?thesis using assms by (simp add: frames_def)
next
  case waits
  then show ?thesis using assms cells_ok_flags(3) [of c] by (simp add: frames_def run_ok_def)
next
  case called
  obtain c0 where c0: "flush_site ot pc c = Some c0" using assms(2) called(1) by (cases "flush_site ot pc c") auto
  obtain stop c1 where c1: "code_notify pc c0 = (stop, c1)" by fastforce
  have ok0: "run_ok n c0" "slots c0 = slots c" using flush_site_ok [OF c0 assms(1)] by auto
  have ok1: "run_ok n c1" "slots c1 = slots c" using notify_frames [OF ok0(1) c1] ok0(2) by auto
  have "c' = c1 \<or> store_slot e 3 c1 = Some c'"
    using assms(2) called(1) c0 c1 by (cases stop; cases "store_slot e 3 c1") simp_all
  then show ?thesis using ok1 frames_store [OF ok1(1), of e 3 c'] by (auto simp: frames_def)
qed

lemma frames_trans_same: "slots c1 = slots c \<Longrightarrow> frames n ws c1 c' \<Longrightarrow> frames n ws c c'"
  by (simp add: frames_def)

lemma load_frames:
  assumes "run_ok n c" "0 < sz" "sz \<le> 8" "access_load h hb a sz big c = Some (v, c1)"
  shows "run_ok n c1 \<and> slots c1 = slots c"
proof -
  have ok: "cells_ok c" using assms(1) by (simp add: run_ok_def)
  from access_load_ok [OF ok assms(2,3) refl, of h hb a big] assms(4)
  have "cells_ok c1" "kept (memory_notify False a (of_nat sz) 0 c) c1" by auto
  then show ?thesis using memory_notify_ok [OF ok] assms(1) by (simp add: run_ok_def kept_def)
qed

lemma store_frames:
  assumes "run_ok n c" "0 < sz" "sz \<le> 8" "access_store h hb a sz big v c = Some c1"
  shows "run_ok n c1 \<and> slots c1 = slots c"
proof -
  have ok: "cells_ok c" using assms(1) by (simp add: run_ok_def)
  from access_store_ok [OF ok assms(2,3) refl assms(4)] obtain c2
    where "stored_cells a sz big v c2 c1" "kept (memory_notify True a (of_nat sz) v c) c2" by blast
  then show ?thesis using memory_notify_ok [OF ok] assms(1) by (simp add: run_ok_def kept_def stored_cells_def)
qed

lemma going_bind: "d \<in> set_flow (going_on (Option.bind r f)) \<Longrightarrow> \<exists>x. r = Some x \<and> d \<in> set_flow (going_on (f x))"
  by (cases r) (auto simp: going_on_def)

lemma optimized_frames:
  assumes "op_error ls op = None" "run_ok n c" "c' \<in> set_flow (optimized_op h hb ot op c)"
  shows "frames n (op_writes op) c c'"
proof (cases op)
  case (MemLoad d a sz big)
  then have sz: "0 < sz" "sz \<le> 8" using assms(1) by (auto split: if_splits)
  obtain base v c1 where "access_load h hb base sz big c = Some (v, c1)" "c' \<in> set_flow (going_on (store_slot d v c1))"
    using assms(3) MemLoad by (auto simp: optimized_op_def split: option.splits)
  then show ?thesis using load_frames [OF assms(2) sz] frames_going [of n c1 c' d v] frames_trans_same MemLoad by fastforce
next
  case (MemStore a s sz big)
  then have sz: "0 < sz" "sz \<le> 8" using assms(1) by (auto split: if_splits)
  obtain base v where "access_store h hb base sz big v c = Some c'"
    using assms(3) MemStore by (auto simp: optimized_op_def split: option.splits)
  then show ?thesis using store_frames [OF assms(2) sz] MemStore by (simp add: frames_def)
next
  case (Code e pc)
  then show ?thesis using optimized_site_frames [OF assms(2)] assms(3) by (simp add: optimized_op_def)
qed (use assms(2,3) in \<open>auto simp: optimized_op_def frames_def [of _ "[]"] split: option.splits dest!: going_bind dest: frames_going\<close>)

section \<open>The budget along a block\<close>

definition decs :: "nat \<Rightarrow> jit_op list \<Rightarrow> nat" where
  "decs slot ops = length (filter (\<lambda>op. op = AddImm slot slot (- 1)) ops)"

definition tame :: "nat \<Rightarrow> jit_op list \<Rightarrow> bool" where
  "tame slot ops \<longleftrightarrow> (\<forall>op \<in> set ops. slot \<in> set (op_writes op) \<longrightarrow> op = AddImm slot slot (- 1))"

fun block_shape :: "jit_op list \<Rightarrow> bool" where
  "block_shape [] = False"
| "block_shape (op # ops) \<longleftrightarrow> (if is_terminator op then ops = [] else block_shape ops)"

lemma block_shape_until: "ended t \<Longrightarrow> block_shape (until_end t)"
  by (induction t) auto

lemma block_shape_Cons: "block_shape (op # ops) \<Longrightarrow> \<not> is_terminator op \<Longrightarrow> block_shape ops \<and> ops \<noteq> []"
  by (cases ops) auto

lemma optimized_To:
  assumes "optimized_op h hb ot op c = To i c'"
  shows "op = Goto i \<and> c' = c \<or> (\<exists>q y n. op = Branch q y n \<and> (i = y \<or> i = n) \<and> c' = c)"
proof (cases op)
  case (Code e pc)
  then have "optimized_site ot e pc c = To i c'" using assms by (simp add: optimized_op_def)
  then have False
    by (cases rule: optimized_site_cases [of ot e pc c]) (auto split: option.splits prod.splits bool.splits)
  then show ?thesis ..
qed (use assms in \<open>auto simp: optimized_op_def going_on_def split: option.splits prod.splits\<close>)

lemma not_Next_optimized: "is_terminator op \<Longrightarrow> optimized_op h hb ot op c \<noteq> Next c'"
  by (cases op) (auto simp: optimized_op_def split: option.splits)

lemma copy_op_other: "\<not> (\<exists>y n. op = Branch (budget_slot bc) y n) \<Longrightarrow> copy_op h hb ot bc op c = optimized_op h hb ot op c"
  by (cases op) (auto simp: copy_op_def)

lemma dec_budget:
  assumes "optimized_op h hb ot (AddImm slot slot (- 1)) c = Next c'" "1 \<le> unat (slots c ! slot)"
  shows "unat (slots c' ! slot) = unat (slots c ! slot) - 1"
proof -
  have c': "slots c' = (slots c)[slot := slots c ! slot - 1]" "slot < length (slots c)"
    using assms(1) by (auto simp: optimized_op_def going_on_def load_slot_def store_slot_def split: if_splits)
  have "slots c ! slot \<noteq> 0" using assms(2) by (metis not_one_le_zero unat_0)
  then show ?thesis using c' by (simp add: unat_minus_one)
qed

lemma exec_list_budget:
  assumes "block_shape ops" "tame (budget_slot bc) ops" "\<And>op. op \<in> set ops \<Longrightarrow> op_error ls op = None"
    "run_ok n c" "m + decs (budget_slot bc) ops \<le> unat (slots c ! budget_slot bc)" "budget_slot bc < n"
    "budgetBranch (budget_slot bc) ops \<Longrightarrow> 1 \<le> m"
  shows "exec_list (copy_op h hb ot bc) ops c = exec_list (optimized_op h hb ot) ops c \<and>
    (\<forall>i c'. exec_list (optimized_op h hb ot) ops c = To i c' \<longrightarrow>
       run_ok n c' \<and> m \<le> unat (slots c' ! budget_slot bc) \<and> Some i \<in> set (copy_succs (budget_slot bc) ops))"
  using assms
proof (induction ops arbitrary: c)
  case (Cons op ops)
  let ?s = "budget_slot bc" and ?go = "optimized_op h hb ot op c"
  show ?case
  proof (cases "is_terminator op")
    case True
    then have ops: "ops = []" using Cons.prems(1) by simp
    have dec: "m \<le> unat (slots c ! ?s)" using Cons.prems(5) by simp
    show ?thesis
    proof (cases "\<exists>y z. op = Branch ?s y z")
      case True
      then obtain y z where op: "op = Branch ?s y z" by blast
      then have "slots c ! ?s \<noteq> 0" using dec Cons.prems(7) ops by (auto simp: budgetBranch_def)
      moreover have "?s < length (slots c)" using Cons.prems(4,6) by (simp add: run_ok_def)
      ultimately have "?go = To y c" "copy_op h hb ot bc op c = To y c"
        by (simp_all add: op optimized_op_def copy_op_def load_slot_def)
      then show ?thesis using ops op dec Cons.prems(4) by (simp add: copy_succs_def)
    next
      case False
      then have "copy_op h hb ot bc op c = ?go" by (rule copy_op_other)
      then show ?thesis using ops False dec Cons.prems(4) not_Next_optimized [OF True, of h hb ot c]
        by (auto simp: copy_succs_def dest!: optimized_To split: flow.splits)
    qed
  next
    case False
    then have same: "copy_op h hb ot bc op c = ?go" by (intro copy_op_other) auto
    note shape = block_shape_Cons [OF Cons.prems(1) False]
    show ?thesis
    proof (cases ?go)
      case (Next c1)
      then have f: "frames n (op_writes op) c c1"
        by (intro optimized_frames [OF Cons.prems(3) Cons.prems(4), where h = h and hb = hb and ot = ot]) auto
      then have ok: "run_ok n c1" by (simp add: frames_def)
      have "m + decs ?s ops \<le> unat (slots c1 ! ?s)"
      proof (cases "?s \<in> set (op_writes op)")
        case True
        then have op: "op = AddImm ?s ?s (- 1)" using Cons.prems(2) by (simp add: tame_def)
        then have "Suc (m + decs ?s ops) \<le> unat (slots c ! ?s)" using Cons.prems(5) by (simp add: decs_def)
        then show ?thesis using dec_budget [of h hb ot ?s c c1] Next op by simp
      next
        case False
        then have "slots c1 ! ?s = slots c ! ?s" using f by (simp add: frames_def)
        then show ?thesis using Cons.prems(5) by (auto simp: decs_def split: if_splits)
      qed
      moreover have "copy_succs ?s (op # ops) = copy_succs ?s ops" "budgetBranch ?s (op # ops) = budgetBranch ?s ops"
        using shape by (simp_all add: copy_succs_def budgetBranch_def)
      ultimately show ?thesis
        using Cons.IH [of c1] shape Cons.prems(2,3,6,7) ok same Next by (simp add: tame_def)
    next
      case (To i c1)
      then show ?thesis using False optimized_To [OF To] by auto
    qed (use same in simp_all)
  qed
qed simp

section \<open>The budget along the copy\<close>

definition block_names :: "nat list \<Rightarrow> nat option set" where
  "block_names labels = set (None # map Some labels)"

text \<open>
  The blocks of a region behind a check owe the budget one, until a block of it takes that off. The head of the region is
  entered from the check alone, by the jump that goes on, and the others from blocks of the region that haven't
  taken it off. Nothing else writes the budget.
\<close>

type_synonym owing = "nat option \<Rightarrow> (nat option \<times> nat) option"

definition owes :: "owing \<Rightarrow> nat option \<Rightarrow> nat" where
  "owes reg k = (if reg k = None then 0 else 1)"

definition budget_regions :: "owing \<Rightarrow> program \<Rightarrow> nat list \<Rightarrow> nat \<Rightarrow> bool" where
  "budget_regions reg p labels slot \<longleftrightarrow>
     regions (\<lambda>k. copy_succs slot (blocks p k)) (block_names labels) None reg \<and>
     (\<forall>k \<in> block_names labels. tame slot (blocks p k) \<and> decs slot (blocks p k) \<le> owes reg k) \<and>
     (\<forall>k \<in> block_names labels. \<forall>h r. reg k = Some (h, r) \<longrightarrow>
        (if k = h
         then \<exists>u \<in> block_names labels. budgetBranch slot (blocks p u) \<and>
           single_jump (\<lambda>k. copy_succs slot (blocks p k)) (block_names labels) u 0 k
         else \<forall>b \<in> block_names labels. k \<in> set (copy_succs slot (blocks p b)) \<longrightarrow> decs slot (blocks p b) = 0))"

definition budgeted :: "program \<Rightarrow> nat list \<Rightarrow> nat \<Rightarrow> bool" where
  "budgeted p labels slot \<longleftrightarrow> (\<exists>reg. budget_regions reg p labels slot)"

lemma labels_of_Label: "i \<in> set (labels_of ops) \<longleftrightarrow> Label i \<in> set ops"
  by (induction ops rule: labels_of.induct) auto

lemma compiled_block:
  assumes "compileOps ops ents = Inr p" "k \<in> block_names (labels_of ops)"
  shows "block_shape (blocks p k)" "op \<in> set (blocks p k) \<Longrightarrow> op_error (labels_of ops) op = None"
proof -
  obtain t where t: "place ops k = Some t"
    using assms(2) afterLabel_None [of ops] by (cases k) (auto simp: block_names_def place_def)
  note b = compiled_blocks [OF assms(1) t]
  show "block_shape (blocks p k)" using b block_shape_until by auto
  show "op_error (labels_of ops) op = None" if "op \<in> set (blocks p k)"
  proof (rule compiled_valid [OF assms(1)])
    show "op \<in> set ops" using that b until_end_subset [of t] place_subset [OF t] by auto
  qed
qed

lemma copy_jumps_within:
  assumes "compileOps ops ents = Inr p"
  shows "jumps_within (\<lambda>k. copy_succs slot (blocks p k)) (block_names (labels_of ops))"
  unfolding jumps_within_def
proof
  fix k assume k: "k \<in> block_names (labels_of ops)"
  show "set (copy_succs slot (blocks p k)) \<subseteq> block_names (labels_of ops)"
  proof (cases "blocks p k = []")
    case False
    then have "op_error (labels_of ops) (last (blocks p k)) = None" by (intro compiled_block(2) [OF assms k]) simp
    then show ?thesis by (auto simp: copy_succs_def block_names_def split: jit_op.splits if_splits)
  qed (simp add: copy_succs_def)
qed

lemma labels_small:
  assumes "compileOps ops ents = Inr p"
  shows "length (labels_of ops) < 2 ^ 32"
proof -
  have "i < 2 ^ 32 - 1" if "i \<in> set (labels_of ops)" for i
  proof -
    have "op_error (labels_of ops) (Label i) = None" using compiled_valid [OF assms] that labels_of_Label by blast
    then show ?thesis by (auto simp: getSlot_def split: if_splits)
  qed
  then have "set (labels_of ops) \<subseteq> {..<2 ^ 32 - 1}" by auto
  from card_mono [OF _ this] have "card (set (labels_of ops)) \<le> 2 ^ 32 - 1" by simp
  moreover have "distinct (labels_of ops)" using assms by (rule compileOps_InrD)
  ultimately show ?thesis by (simp add: distinct_card)
qed

text \<open>How many checks there are at a place of the order of the search or below.\<close>

definition checks_upto :: "nat \<Rightarrow> program \<Rightarrow> nat option list \<Rightarrow> nat \<Rightarrow> nat" where
  "checks_upto slot p F i = card {j. j \<le> i \<and> budgetBranch slot (blocks p (F ! j))}"

lemma checks_upto_mono: "i \<le> j \<Longrightarrow> checks_upto slot p F i \<le> checks_upto slot p F j"
  unfolding checks_upto_def by (rule card_mono) auto

lemma checks_upto_less:
  assumes "i < j" "budgetBranch slot (blocks p (F ! j))"
  shows "checks_upto slot p F i < checks_upto slot p F j"
  unfolding checks_upto_def
proof (rule psubset_card_mono)
  show "{k. k \<le> i \<and> budgetBranch slot (blocks p (F ! k))} \<subset> {k. k \<le> j \<and> budgetBranch slot (blocks p (F ! k))}"
    using assms by (auto intro!: psubsetI dest: leD)
qed simp

lemma checks_upto_all:
  assumes "distinct F" "set F \<subseteq> block_names labels" "distinct labels" "i < length F"
  shows "checks_upto slot p F i \<le> count_checks p labels slot"
proof -
  let ?J = "{j. j \<le> i \<and> budgetBranch slot (blocks p (F ! j))}"
  have "inj_on ((!) F) ?J" using assms(1,4) by (auto simp: inj_on_def nth_eq_iff_index_eq)
  then have "card ?J = card ((!) F ` ?J)" by (simp add: card_image)
  also have "\<dots> \<le> card (set (filter (\<lambda>k. budgetBranch slot (blocks p k)) (None # map Some labels)))"
  proof (rule card_mono)
    show "(!) F ` ?J \<subseteq> set (filter (\<lambda>k. budgetBranch slot (blocks p k)) (None # map Some labels))"
    proof (rule image_subsetI)
      fix j assume j: "j \<in> ?J"
      then have "F ! j \<in> block_names labels" using assms(2,4) nth_mem [of j F] by auto
      then show "F ! j \<in> set (filter (\<lambda>k. budgetBranch slot (blocks p k)) (None # map Some labels))"
        using j by (auto simp: block_names_def)
    qed
  qed simp
  also have "\<dots> = count_checks p labels slot"
  proof -
    have "distinct (None # map Some labels)" using assms(3) by (simp add: distinct_map)
    then show ?thesis unfolding count_checks_def by (intro distinct_card distinct_filter)
  qed
  finally show ?thesis by (simp add: checks_upto_def)
qed

lemma enough_checks:
  assumes "enough bc c" "checks bc < 2 ^ 64" "run_ok n c" "budget_slot bc < n"
  shows "checks bc \<le> unat (slots c ! budget_slot bc)"
proof -
  have "of_nat (checks bc) \<le> slots c ! budget_slot bc" using assms by (simp add: enough_def load_slot_def run_ok_def)
  then show ?thesis using assms(2) by (simp add: word_le_nat_alt unat_of_nat take_bit_eq_mod)
qed

lemma count_small:
  assumes "compileOps ops ents = Inr p"
  shows "count_checks p (labels_of ops) slot < 2 ^ 64"
proof -
  have "count_checks p (labels_of ops) slot \<le> length (None # map Some (labels_of ops))"
    unfolding count_checks_def by (rule length_filter_le)
  then show ?thesis using labels_small [OF assms] by simp
qed

text \<open>What a run in the copy has at the start of a block.\<close>

definition copy_inv :: "nat \<Rightarrow> owing \<Rightarrow> program \<Rightarrow> budget_copy \<Rightarrow> nat option list \<Rightarrow> nat option \<Rightarrow> ('x, 'e) cells \<Rightarrow> bool" where
  "copy_inv n reg p bc F k c \<longleftrightarrow> run_ok n c \<and>
     (\<exists>i < length F. F ! i = k \<and> checks_upto (budget_slot bc) p F i + owes reg k \<le> unat (slots c ! budget_slot bc))"

definition same_copy :: "nat \<Rightarrow> owing \<Rightarrow> program \<Rightarrow> budget_copy \<Rightarrow> nat option list \<Rightarrow> budget_copy option \<times> nat option \<times> ('x, 'e) cells \<Rightarrow>
    budget_copy option \<times> nat option \<times> ('x, 'e) cells \<Rightarrow> bool" where
  "same_copy n reg p bc F s t \<longleftrightarrow> s = t \<or> (\<exists>k c. s = (Some bc, k, c) \<and> t = (None, k, c) \<and> copy_inv n reg p bc F k c)"

text \<open>The order of the search, as the copy has it, and the copy.\<close>

definition copy_order :: "jit_op list \<Rightarrow> program \<Rightarrow> nat \<Rightarrow> budget_copy \<Rightarrow> nat option list \<Rightarrow> bool" where
  "copy_order ops p slot bc F \<longleftrightarrow> budget_slot bc = slot \<and> checks bc = count_checks p (labels_of ops) slot \<and>
     distinct F \<and> None \<in> set F \<and> set F \<subseteq> block_names (labels_of ops) \<and>
     (\<forall>b v. b \<in> set F \<longrightarrow> v \<in> set (copy_succs slot (blocks p b)) \<longrightarrow> v \<in> set F) \<and>
     (\<forall>i j. i < length F \<longrightarrow> j < length F \<longrightarrow> F ! j \<in> set (copy_succs slot (blocks p (F ! i))) \<longrightarrow> F ! j \<notin> set (check_at bc) \<longrightarrow> j < i) \<and>
     (\<forall>reg v. regions (\<lambda>k. copy_succs slot (blocks p k)) (block_names (labels_of ops)) None reg \<longrightarrow> reg v \<noteq> None \<longrightarrow> v \<notin> set (check_at bc))"

lemma copy_orderI:
  assumes comp: "compileOps ops None = Inr p" and copy: "make_copy p (labels_of ops) slot = Some bc"
  obtains F where "copy_order ops p slot bc F"
proof -
  let ?N = "block_names (labels_of ops)" and ?succs = "\<lambda>k. copy_succs slot (blocks p k)"
  note within = copy_jumps_within [OF comp, of slot]
  have start: "None \<in> ?N" "finite ?N" by (simp_all add: block_names_def)
  obtain ts where ts: "back_targets ?succs None = Some ts"
      "bc = \<lparr>budget_slot = slot, checks = count_checks p (labels_of ops) slot, check_at = ts\<rparr>"
    using copy by (auto simp: make_copy_def split: if_splits option.splits)
  from within start(2,1) show thesis
  proof (rule search_order)
    fix ts' F
    assume F: "back_targets ?succs None = Some ts'" "distinct F" "None \<in> set F" "set ts' \<subseteq> set F" "set F \<subseteq> ?N"
      "\<And>b v. b \<in> set F \<Longrightarrow> v \<in> set (?succs b) \<Longrightarrow> v \<in> set F"
      "\<And>i j. i < length F \<Longrightarrow> j < length F \<Longrightarrow> F ! j \<in> set (?succs (F ! i)) \<Longrightarrow> F ! j \<notin> set ts' \<Longrightarrow> j < i"
    have [simp]: "ts' = ts" using F(1) ts(1) by simp
    have "v \<notin> set ts" if "regions ?succs ?N None reg" "reg v \<noteq> None" for reg v
      by (rule search_regions [OF within start(1) ts(1) that])
    then show thesis using that [of F] F(2,3,5-7) ts(2) by (simp add: copy_order_def)
  qed
qed

lemma copy_entered:
  assumes "compileOps ops None = Inr p" "copy_order ops p slot bc F" "slot < n"
    "k \<in> set F" "run_ok n c" "enough bc c" "reg k = None"
  shows "copy_inv n reg p bc F k c"
proof -
  have bc: "budget_slot bc = slot" "checks bc = count_checks p (labels_of ops) slot" and F: "distinct F" "set F \<subseteq> block_names (labels_of ops)"
    using assms(2) by (simp_all add: copy_order_def)
  have d: "distinct (labels_of ops)" using assms(1) by (rule compileOps_InrD)
  obtain i where i: "i < length F" "F ! i = k" using assms(4) by (metis in_set_conv_nth)
  have "count_checks p (labels_of ops) slot \<le> unat (slots c ! slot)"
    using enough_checks [OF assms(6) _ assms(5)] count_small [OF assms(1), of slot] assms(3) by (simp add: bc)
  then show ?thesis using i assms(5,7) checks_upto_all [OF F d i(1), of slot p] by (auto simp: copy_inv_def bc owes_def)
qed

text \<open>A jump of the copy that stays in it.\<close>

lemma copy_goes_on:
  assumes comp: "compileOps ops None = Inr p" and o: "copy_order ops p slot bc F" and b: "budget_regions reg p (labels_of ops) slot"
    and n: "slot < n" and i: "i < length F" and run: "run_ok n c"
    and left: "checks_upto slot p F i + (owes reg (F ! i) - decs slot (blocks p (F ! i))) \<le> unat (slots c ! slot)"
    and v: "v \<in> set (copy_succs slot (blocks p (F ! i)))" "stays (Some bc) v c = Some bc"
  shows "copy_inv n reg p bc F v c"
proof -
  have bc: "budget_slot bc = slot" using o by (simp add: copy_order_def)
  have vF: "v \<in> set F" using o i v(1) nth_mem [OF i] unfolding copy_order_def by blast
  then have vN: "v \<in> block_names (labels_of ops)" and iN: "F ! i \<in> block_names (labels_of ops)"
    using o nth_mem [OF i] by (auto simp: copy_order_def)
  have regs: "regions (\<lambda>k. copy_succs slot (blocks p k)) (block_names (labels_of ops)) None reg" using b by (simp add: budget_regions_def)
  show ?thesis
  proof (cases "v \<in> set (check_at bc)")
    case True
    then have "reg v = None" using o regs unfolding copy_order_def by blast
    moreover have "enough bc c" using True v(2) by (auto simp: stays_def split: if_splits)
    ultimately show ?thesis by (intro copy_entered [OF comp o n vF run])
  next
    case False
    obtain j where j: "j < length F" "F ! j = v" using vF by (metis in_set_conv_nth)
    then have ji: "j < i" using o i v(1) False unfolding copy_order_def by blast
    have mono: "checks_upto slot p F j \<le> checks_upto slot p F i" using checks_upto_mono [of j i slot p F] ji by simp
    have "checks_upto slot p F j + owes reg v \<le> checks_upto slot p F i + (owes reg (F ! i) - decs slot (blocks p (F ! i)))"
    proof (cases "reg v")
      case None
      then show ?thesis using mono by (simp add: owes_def)
    next
      case (Some hr)
      obtain h r where hr: "reg v = Some (h, r)" using Some by (cases hr) simp
      show ?thesis
      proof (cases "v = h")
        case True
        then obtain u where u: "budgetBranch slot (blocks p u)"
            "single_jump (\<lambda>k. copy_succs slot (blocks p k)) (block_names (labels_of ops)) u 0 v"
          using b vN hr unfolding budget_regions_def by metis
        obtain m where "m < length (copy_succs slot (blocks p (F ! i)))" "copy_succs slot (blocks p (F ! i)) ! m = v"
          using v(1) by (metis in_set_conv_nth)
        then have "F ! i = u" using u(2) iN by (auto simp: single_jump_def)
        then show ?thesis using checks_upto_less [OF ji, of slot p F] u(1) by (simp add: owes_def)
      next
        case False
        then have "\<exists>r' < r. reg (F ! i) = Some (h, r')" using regs hr iN v(1) unfolding regions_def by metis
        moreover have "decs slot (blocks p (F ! i)) = 0" using b vN hr iN v(1) False unfolding budget_regions_def by metis
        ultimately show ?thesis using mono by (auto simp: owes_def)
      qed
    qed
    then show ?thesis using j run left by (auto simp: copy_inv_def bc)
  qed
qed

lemma copies_step_same:
  assumes comp: "compileOps ops None = Inr p" and o: "copy_order ops p slot bc F" and b: "budget_regions reg p (labels_of ops) slot"
    and n: "slot < n" and s: "same_copy n reg p bc F s t"
  shows "rel_sum (same_copy n reg p bc F) (=) (copies_step h hb p ot s) (copies_step h hb p ot t)"
proof (cases "s = t")
  case True
  then show ?thesis by (auto intro!: sum.rel_refl simp: same_copy_def)
next
  case False
  have bc: "budget_slot bc = slot" using o by (simp add: copy_order_def)
  from False obtain k c i where st: "s = (Some bc, k, c)" "t = (None, k, c)" "run_ok n c" "i < length F" "F ! i = k"
      "checks_upto slot p F i + owes reg k \<le> unat (slots c ! slot)"
    using s by (auto simp: same_copy_def copy_inv_def bc)
  have k: "k \<in> block_names (labels_of ops)" using o st(4,5) nth_mem [OF st(4)] by (auto simp: copy_order_def)
  have pos: "1 \<le> checks_upto slot p F i" if "budgetBranch slot (blocks p k)"
    using that st(5) card_gt_0_iff [of "{j. j \<le> i \<and> budgetBranch slot (blocks p (F ! j))}"]
    by (auto simp: checks_upto_def Suc_le_eq)
  have tame: "tame slot (blocks p k)" "decs slot (blocks p k) \<le> owes reg k" using b k by (simp_all add: budget_regions_def)
  let ?m = "checks_upto slot p F i + (owes reg k - decs slot (blocks p k))"
  have "?m + decs slot (blocks p k) \<le> unat (slots c ! slot)" using st(6) tame(2) by linarith
  with exec_list_budget [OF compiled_block(1) [OF comp k] _ _ st(3), of bc "labels_of ops" ?m h hb ot]
  have e: "exec_list (copy_op h hb ot bc) (blocks p k) c = exec_list (optimized_op h hb ot) (blocks p k) c"
      "\<And>j c'. exec_list (optimized_op h hb ot) (blocks p k) c = To j c' \<Longrightarrow>
         run_ok n c' \<and> ?m \<le> unat (slots c' ! slot) \<and> Some j \<in> set (copy_succs slot (blocks p k))"
    using tame(1) n pos compiled_block(2) [OF comp k] by (simp_all add: bc trans_le_add1)
  show ?thesis
  proof (cases "exec_list (optimized_op h hb ot) (blocks p k) c")
    case (To j c')
    note e2 = e(2) [OF To]
    have "same_copy n reg p bc F (stays (Some bc) (Some j) c', Some j, c') (None, Some j, c')"
    proof (cases "stays (Some bc) (Some j) c'")
      case (Some x)
      then have "x = bc" by (auto simp: stays_def split: if_splits)
      then have "copy_inv n reg p bc F (Some j) c'"
        using copy_goes_on [OF comp o b n st(4), of c' "Some j"] e2 Some st(5) by simp
      then show ?thesis using Some \<open>x = bc\<close> by (simp add: same_copy_def)
    qed (simp add: same_copy_def)
    then show ?thesis using To e(1) by (simp add: st copies_step_def stays_def [of None])
  qed (use e(1) in \<open>simp_all add: st copies_step_def\<close>)
qed

lemma run_copies_same:
  assumes "compileOps ops None = Inr p" "make_copy p (labels_of ops) slot = Some bc" "budgeted p (labels_of ops) slot"
    "slot < n" "run_ok n c" "enough bc c"
  shows "run_copies h hb p ot (Some bc) None c = run_copies h hb p ot None None c"
proof -
  obtain F where F: "copy_order ops p slot bc F" using copy_orderI [OF assms(1,2)] by blast
  obtain reg where reg: "budget_regions reg p (labels_of ops) slot" using assms(3) by (auto simp: budgeted_def)
  then have "reg None = None" by (simp add: budget_regions_def regions_def)
  moreover have "None \<in> set F" using F by (simp add: copy_order_def)
  ultimately have "same_copy n reg p bc F (Some bc, None, c) (None, None, c)"
    using copy_entered [OF assms(1) F assms(4) _ assms(5,6)] by (simp add: same_copy_def)
  then show ?thesis unfolding run_copies_def
    by (rule iterate_same [where R = "same_copy n reg p bc F"]) (rule copies_step_same [OF assms(1) F reg assms(4)])
qed

end
