(* ===== verification/JitPromote.thy ===== *)
theory JitPromote
  imports JitBudget
begin

text \<open>
  Optimized code, which has the slots on the stack, does what code that isn't does (\<open>run_optimized_same\<close>): the
  same value, memory, log and calls of observers, and the same slots where it is to leave them, for code
  observers that don't look at the slots. What one that does is shown at a site that was told of is what the run has
  there (\<open>flushed_slots\<close>).
\<close>

section \<open>Cells that differ in where their slots are\<close>

definition dress :: "('x, 'e) cells \<Rightarrow> ('x, 'e) cells \<Rightarrow> ('x, 'e) cells" where
  "dress d c = c\<lparr>registers := registers d, slots := slots d, state_array := state_array d, slots_shown := slots_shown d,
     serial := serial d, slotsLive := slotsLive d, flushedPc := flushedPc d\<rparr>"

lemma dress_fields [simp]:
  "items (dress d c) = items c" "capacity (dress d c) = capacity c" "observer (dress d c) = observer c"
  "error (dress d c) = error c" "world (dress d c) = world c" "changes (dress d c) = changes c"
  "codeObserver (dress d c) = codeObserver c" "quietSites (dress d c) = quietSites c" "leanRan (dress d c) = leanRan c"
  "pendingSite (dress d c) = pendingSite c" "pendingPc (dress d c) = pendingPc c" "quietFirst (dress d c) = quietFirst c"
  "quietLast (dress d c) = quietLast c" "pageEntries (dress d c) = pageEntries c"
  "slots (dress d c) = slots d" "registers (dress d c) = registers d" "state_array (dress d c) = state_array d"
  by (simp_all add: dress_def)

lemma dress_dress [simp]: "dress d (dress d' c) = dress d c" "dress (dress d c') c = dress d c" "dress c c = c"
  by (simp_all add: dress_def)

text \<open>An update of anything else is the same before and after.\<close>

lemma dress_updates:
  "(dress d c)\<lparr>items := a1\<rparr> = dress d (c\<lparr>items := a1\<rparr>)"
  "(dress d c)\<lparr>error := a2\<rparr> = dress d (c\<lparr>error := a2\<rparr>)"
  "(dress d c)\<lparr>world := a3\<rparr> = dress d (c\<lparr>world := a3\<rparr>)"
  "(dress d c)\<lparr>changes := a4\<rparr> = dress d (c\<lparr>changes := a4\<rparr>)"
  "(dress d c)\<lparr>leanRan := a5\<rparr> = dress d (c\<lparr>leanRan := a5\<rparr>)"
  "(dress d c)\<lparr>pendingSite := a6\<rparr> = dress d (c\<lparr>pendingSite := a6\<rparr>)"
  "(dress d c)\<lparr>pendingPc := a7\<rparr> = dress d (c\<lparr>pendingPc := a7\<rparr>)"
  "(dress d c)\<lparr>quietFirst := a8\<rparr> = dress d (c\<lparr>quietFirst := a8\<rparr>)"
  "(dress d c)\<lparr>quietLast := a9\<rparr> = dress d (c\<lparr>quietLast := a9\<rparr>)"
  "(dress d c)\<lparr>pageEntries := a10\<rparr> = dress d (c\<lparr>pageEntries := a10\<rparr>)"
  by (simp_all add: dress_def)

definition site_blind :: "('x, 'e) code_observer option \<Rightarrow> bool" where
  "site_blind cobs \<longleftrightarrow> (\<forall>f. cobs = Some f \<longrightarrow> (\<forall>pc s s' w. f pc s w = f pc s' w))"

lemma forgetQuiet_dress: "forgetQuiet (dress d c) = dress d (forgetQuiet c)"
  by (simp add: forgetQuiet_def dress_updates)

lemma failCells_dress: "failCells e (dress d c) = dress d (failCells e c)"
  by (simp add: failCells_def dress_updates forgetQuiet_dress)

lemma callCodeObserver_dress:
  assumes "site_blind (codeObserver c)"
  shows "callCodeObserver pc (dress d c) = map_prod id (dress d) (callCodeObserver pc c)"
proof (cases "codeObserver c")
  case (Some f)
  have "f pc (site_of (dress d (forgetQuiet c))) (world c) = f pc (site_of c) (world c)"
    using assms Some by (simp add: site_blind_def)
  then show ?thesis using Some
    by (cases "f pc (site_of c) (world c)"; cases "fst (f pc (site_of c) (world c))")
      (simp_all add: callCodeObserver_def forgetQuiet_dress dress_updates failCells_dress)
qed (simp add: callCodeObserver_def)

lemma call_observer_dress: "call_observer wr a sz v (dress d c) = dress d (call_observer wr a sz v c)"
proof (cases "observer c")
  case (Some f)
  then show ?thesis
    by (cases "f wr a sz v (world c)"; cases "fst (f wr a sz v (world c))")
      (simp_all add: call_observer_def dress_updates forgetQuiet_dress failCells_dress)
qed (simp add: call_observer_def)

lemma memory_notify_dress:
  assumes "site_blind (codeObserver c)"
  shows "memory_notify wr a sz v (dress d c) = dress d (memory_notify wr a sz v c)"
proof (cases "observer c = None \<or> error c \<noteq> None")
  case False
  then have f: "observer c \<noteq> None" "error c = None" by simp_all
  define q where "q = (case quiet_filter (world c) of None \<Rightarrow> None | Some f \<Rightarrow> quietRange f a sz wr)"
  show ?thesis
  proof (cases q)
    case (Some r)
    then show ?thesis using f by (simp add: memory_notify_def q_def dress_updates del: not_None_eq)
  next
    case None
    let ?c = "c\<lparr>pendingSite := False, leanRan := True\<rparr>"
    obtain stop c1 where c1: "callCodeObserver (pendingPc c) ?c = (stop, c1)" by fastforce
    have "callCodeObserver (pendingPc c) (dress d ?c) = (stop, dress d c1)"
      using callCodeObserver_dress [of ?c "pendingPc c" d] assms c1 by simp
    then show ?thesis using None c1 f
      by (cases stop) (simp_all add: memory_notify_def q_def [symmetric] dress_updates call_observer_dress failCells_dress del: not_None_eq)
  qed
qed (auto simp: memory_notify_def)

lemma code_notify_dress:
  assumes "site_blind (codeObserver c)"
  shows "code_notify pc (dress d c) = map_prod id (dress d) (code_notify pc c)"
  using callCodeObserver_dress [OF assms] by (simp add: code_notify_def dress_updates)

lemma notifyAccess_dress:
  assumes "site_blind (codeObserver c)"
  shows "notifyAccess wr a sz v (dress d c) = dress d (notifyAccess wr a sz v c)"
  using memory_notify_dress [OF assms] by (simp add: notifyAccess_def Let_def)

lemma set_pages_dress: "set_pages m (dress d c) = dress d (set_pages m c)"
  by (simp add: set_pages_def dress_updates)

lemma memory_note_dress: "memory_note a sz big v (dress d c) = dress d (memory_note a sz big v c)"
  by (simp add: memory_note_def dress_updates)

lemma memory_page_dress:
  "memory_page h a wr (dress d c) = map_option (map_prod id (dress d)) (memory_page h a wr c)"
proof (cases "pages (world c)")
  case (Some m)
  then show ?thesis
    by (cases "find_page m a"; cases "ensure h a m"; cases "fst (ensure h a m)")
      (simp_all add: memory_page_def Let_def set_pages_dress dress_updates)
qed (simp add: memory_page_def)

lemma pageForAccess_dress:
  "pageForAccess h a sz wr (dress d c) = map_option (map_prod id (dress d)) (pageForAccess h a sz wr c)"
  by (simp add: pageForAccess_def Let_def memory_page_dress)

lemma load_bytes_dress: "load_bytes a sz big (dress d c) = load_bytes a sz big c"
  by (simp add: load_bytes_def loadByte_def split: option.split)

lemma storeByte_dress: "storeByte a v (dress d c) = dress d (storeByte a v c)"
  by (simp add: storeByte_def dress_updates split: option.split)

lemma storeBytes_dress: "foldl (\<lambda>c i. storeByte (f i) (g i) c) (dress d c) is = dress d (foldl (\<lambda>c i. storeByte (f i) (g i) c) c is)"
  by (induction "is" arbitrary: c) (simp_all add: storeByte_dress)

lemma store_bytes_dress: "store_bytes h a sz big v (dress d c) = map_option (dress d) (store_bytes h a sz big v c)"
proof (cases "pages (world c)")
  case (Some m)
  then show ?thesis
    by (cases "store h a (value_bytes big sz v) m"; cases "fst (store h a (value_bytes big sz v) m)")
      (simp_all add: store_bytes_def Let_def set_pages_dress memory_note_dress)
qed (simp add: store_bytes_def Let_def storeBytes_dress memory_note_dress)

lemma access_load_dress:
  assumes "site_blind (codeObserver c)"
  shows "access_load h hb a sz big (dress d c) = map_option (map_prod id (dress d)) (access_load h hb a sz big c)"
proof -
  let ?c = "notifyAccess False a sz 0 c"
  have n: "notifyAccess False a sz 0 (dress d c) = dress d ?c" by (rule notifyAccess_dress [OF assms])
  show ?thesis
  proof (cases "pageForAccess h a sz False ?c")
    case None
    then show ?thesis by (simp add: access_load_def n pageForAccess_dress load_bytes_dress Let_def)
  next
    case (Some r)
    obtain q c2 where r: "r = (q, c2)" by (cases r)
    then show ?thesis using Some
      by (cases q; cases "pages (world c2)") (simp_all add: access_load_def n pageForAccess_dress load_bytes_dress Let_def)
  qed
qed

lemma access_store_dress:
  assumes "site_blind (codeObserver c)"
  shows "access_store h hb a sz big v (dress d c) = map_option (dress d) (access_store h hb a sz big v c)"
proof -
  let ?c = "notifyAccess True a sz v c"
  have n: "notifyAccess True a sz v (dress d c) = dress d ?c" by (rule notifyAccess_dress [OF assms])
  show ?thesis
  proof (cases "pageForAccess h a sz True ?c")
    case None
    then show ?thesis by (simp add: access_store_def n pageForAccess_dress store_bytes_dress Let_def)
  next
    case (Some r)
    obtain q c2 where r: "r = (q, c2)" by (cases r)
    then show ?thesis using Some
      by (cases q; cases "pages (world c2)")
        (simp_all add: access_store_def n pageForAccess_dress store_bytes_dress Let_def set_pages_dress memory_note_dress)
  qed
qed

section \<open>Homes\<close>

definition dressed :: "('x, 'e) cells \<Rightarrow> ('x, 'e) cells \<Rightarrow> bool" where
  "dressed c d \<longleftrightarrow> d = dress d c"

lemma dressed_refl [simp]: "dressed c c"
  by (simp add: dressed_def)

lemma dressed_trans: "dressed c d \<Longrightarrow> dressed d e \<Longrightarrow> dressed c e"
  unfolding dressed_def by (metis dress_dress(1))

lemma dressed_slots [simp]: "dressed c (d\<lparr>slots := s\<rparr>) = dressed c d" "dressed (c\<lparr>slots := s\<rparr>) d = dressed c d"
  "dressed c (d\<lparr>flushedPc := pc\<rparr>) = dressed c d" "dressed c (d\<lparr>slots := s, state_array := A\<rparr>) = dressed c d"
  "dressed c (d\<lparr>state_array := A\<rparr>) = dressed c d"
  by (simp_all add: dressed_def dress_def) (cases c; cases d; simp)+

text \<open>What a run leaves at the homes of slots: those that it is to leave, and the rest as it was.\<close>

definition home_frame :: "(nat \<Rightarrow> home) \<Rightarrow> nat list \<Rightarrow> ('x, 'e) cells \<Rightarrow> ('x, 'e) cells \<Rightarrow> bool" where
  "home_frame hs is d0 d \<longleftrightarrow> (\<forall>hm. load_home hm d = None \<longleftrightarrow> load_home hm d0 = None) \<and>
     (\<forall>hm. hm \<notin> hs ` set is \<longrightarrow> load_home hm d = load_home hm d0) \<and> (registers d = None \<longleftrightarrow> registers d0 = None) \<and>
     (state_array d = None \<longleftrightarrow> state_array d0 = None)"

lemma home_frame_refl [simp]: "home_frame hs is d d"
  by (simp add: home_frame_def)

definition home_stored :: "home \<Rightarrow> u64 \<Rightarrow> ('x, 'e) cells \<Rightarrow> ('x, 'e) cells \<Rightarrow> bool" where
  "home_stored hm v d d' \<longleftrightarrow> dressed d d' \<and> slots d' = slots d \<and>
     (\<forall>hm'. load_home hm' d' = (if hm' = hm then Some v else load_home hm' d)) \<and>
     (registers d' = None \<longleftrightarrow> registers d = None) \<and> (state_array d' = None \<longleftrightarrow> state_array d = None)"

lemma store_home_ex:
  assumes "load_home hm d \<noteq> None"
  shows "\<exists>d'. store_home hm v d = Some d' \<and> home_stored hm v d d'"
proof (cases hm)
  case (In_state i)
  then obtain s where s: "state_array d = Some s" "i < length s" using assms by (auto simp: load_home_def split: option.splits if_splits)
  show ?thesis
    by (rule exI [of _ "d\<lparr>state_array := Some (s[i := v])\<rparr>"])
      (use s In_state in \<open>auto simp: home_stored_def store_home_def load_home_def dressed_def dress_def split: home.split option.split\<close>)
next
  case (In_register i)
  then obtain s where s: "registers d = Some s" "i < length s" using assms by (auto simp: load_home_def split: option.splits if_splits)
  show ?thesis
    by (rule exI [of _ "d\<lparr>registers := Some (s[i := v])\<rparr>"])
      (use s In_register in \<open>auto simp: home_stored_def store_home_def load_home_def dressed_def dress_def split: home.split option.split\<close>)
qed

lemma write_back_ex:
  assumes "home_frame hs all d0 d" "set is \<subseteq> set all" "inj_on hs (set all)" "distinct is"
    "\<And>i. i \<in> set is \<Longrightarrow> i < length (slots d) \<and> load_home (hs i) d0 \<noteq> None"
  shows "\<exists>d'. write_back hs is d = Some d' \<and> dressed d d' \<and> slots d' = slots d \<and> home_frame hs all d0 d' \<and>
    (\<forall>i \<in> set is. load_home (hs i) d' = Some (slots d ! i)) \<and> (\<forall>i \<in> set all - set is. load_home (hs i) d' = load_home (hs i) d)"
  using assms
proof (induction "is" arbitrary: d)
  case (Cons i "is")
  have i: "i < length (slots d)" "load_home (hs i) d \<noteq> None" "i \<in> set all"
    using Cons.prems by (auto simp: home_frame_def)
  obtain d1 where st: "store_home (hs i) (slots d ! i) d = Some d1" "home_stored (hs i) (slots d ! i) d d1"
    using store_home_ex [OF i(2)] by blast
  have d1: "dressed d d1" "slots d1 = slots d" "\<And>hm'. load_home hm' d1 = (if hm' = hs i then Some (slots d ! i) else load_home hm' d)"
      "registers d1 = None \<longleftrightarrow> registers d = None" "state_array d1 = None \<longleftrightarrow> state_array d = None"
    using st(2) by (simp_all add: home_stored_def)
  have f: "home_frame hs all d0 d1" using Cons.prems(1) i d1(3-5) by (auto simp: home_frame_def)
  from Cons.IH [OF f _ Cons.prems(3)] obtain d' where d': "write_back hs is d1 = Some d'" "dressed d1 d'" "slots d' = slots d1"
      "home_frame hs all d0 d'" "\<And>i. i \<in> set is \<Longrightarrow> load_home (hs i) d' = Some (slots d1 ! i)"
      "\<And>i. i \<in> set all - set is \<Longrightarrow> load_home (hs i) d' = load_home (hs i) d1"
    using Cons.prems(2,4,5) d1(2) by auto
  have "load_home (hs i) d' = Some (slots d ! i)" using d'(6) [of i] d1(3) i(3) Cons.prems(4) by simp
  moreover have "load_home (hs j) d' = load_home (hs j) d" if "j \<in> set all - set (i # is)" for j
    using d'(6) [of j] d1(3) that i(3) Cons.prems(3) by (auto simp: inj_on_def)
  ultimately show ?case using st(1) d1(2) d'(1-5) dressed_trans [OF d1(1) d'(2)] i(1) by (auto simp: load_slot_def)
qed simp

section \<open>Operations on the stack\<close>

text \<open>\<open>d\<close> is at the same place of a run as \<open>c\<close>, with its slots on the stack; \<open>d0\<close> is what its homes had at the start.\<close>

definition promoted :: "optimization \<Rightarrow> (nat \<Rightarrow> home) \<Rightarrow> ('x, 'e) cells \<Rightarrow> ('x, 'e) cells \<Rightarrow> ('x, 'e) cells \<Rightarrow> bool" where
  "promoted ot hs d0 c d \<longleftrightarrow> dressed c d \<and> slots d = take (slot_number ot) (slots c) \<and> slot_number ot \<le> length (slots c) \<and>
     home_frame hs (left_slots ot) d0 d \<and> site_blind (codeObserver c) \<and> cells_ok c"

text \<open>What has to hold of the homes at the start of a run.\<close>

definition homes_ok :: "optimization \<Rightarrow> (nat \<Rightarrow> home) \<Rightarrow> ('x, 'e) cells \<Rightarrow> bool" where
  "homes_ok ot hs d0 \<longleftrightarrow> hs = homes ot (registers d0 \<noteq> None) \<and> inj_on hs {..<slot_number ot} \<and> state_array d0 \<noteq> None \<and>
     (\<forall>i < slot_number ot. load_home (hs i) d0 \<noteq> None)"

lemma left_slots_sub: "set (left_slots ot) \<subseteq> {..<slot_number ot}"
  by (auto simp: left_slots_def)

lemma leave_slots_ex:
  assumes "promoted ot hs d0 c d" "homes_ok ot hs d0"
  shows "\<exists>d'. leave_slots ot d = Some d' \<and> promoted ot hs d0 c d' \<and> (\<forall>i \<in> set (left_slots ot). load_home (hs i) d' = Some (slots c ! i))"
proof -
  have p: "dressed c d" "slots d = take (slot_number ot) (slots c)" "slot_number ot \<le> length (slots c)" "home_frame hs (left_slots ot) d0 d"
    using assms(1) by (simp_all add: promoted_def)
  have hs: "homes ot (registers d \<noteq> None) = hs" using p(4) assms(2) by (simp add: home_frame_def homes_ok_def)
  have "inj_on hs {..<slot_number ot}" using assms(2) unfolding homes_ok_def by blast
  then have "inj_on hs (set (left_slots ot))" using left_slots_sub by (rule inj_on_subset)
  moreover have "distinct (left_slots ot)" by (simp add: left_slots_def)
  moreover have "i < length (slots d) \<and> load_home (hs i) d0 \<noteq> None" if "i \<in> set (left_slots ot)" for i
    using that left_slots_sub [of ot] p(2,3) assms(2) unfolding homes_ok_def by auto
  ultimately obtain d' where d': "write_back hs (left_slots ot) d = Some d'" "dressed d d'" "slots d' = slots d"
      "home_frame hs (left_slots ot) d0 d'" "\<forall>i \<in> set (left_slots ot). load_home (hs i) d' = Some (slots d ! i)"
    using write_back_ex [OF p(4) subset_refl] by blast
  have "slots d ! i = slots c ! i" if "i \<in> set (left_slots ot)" for i using that left_slots_sub [of ot] p(2) by auto
  then have "\<forall>i \<in> set (left_slots ot). load_home (hs i) d' = Some (slots c ! i)" using d'(5) by simp
  moreover have "promoted ot hs d0 c d'"
    using assms(1) d'(3,4) dressed_trans [OF p(1) d'(2)] by (simp add: promoted_def)
  ultimately show ?thesis using d'(1) hs by (simp add: leave_slots_def)
qed

lemma cells_ok_dress_all [simp]: "cells_ok (dress d c) = cells_ok c"
  by (simp add: cells_ok_def entries_ok_def quiet_ok_def)

lemma home_frame_flushed [simp]: "home_frame hs is d0 (d\<lparr>flushedPc := pc\<rparr>) = home_frame hs is d0 d"
  "home_frame hs is d0 (d\<lparr>slots := s\<rparr>) = home_frame hs is d0 d"
  by (simp_all add: home_frame_def load_home_def split: home.split cong: home.case_cong)

lemma flush_site_ex:
  assumes "promoted ot hs d0 c d" "homes_ok ot hs d0"
  shows "\<exists>d'. flush_site ot pc d = Some d' \<and> promoted ot hs d0 c d'"
proof (cases "pc \<in> set (flushPcs ot)")
  case True
  obtain d' where "leave_slots ot d = Some d'" "promoted ot hs d0 c d'" using leave_slots_ex [OF assms] by blast
  then show ?thesis using True by (simp add: flush_site_def promoted_def)
next
  case False
  then show ?thesis using assms(1) by (simp add: flush_site_def)
qed

lemma promoted_load: "promoted ot hs d0 c d \<Longrightarrow> i < slot_number ot \<Longrightarrow> load_slot i d = load_slot i c"
  by (simp add: promoted_def load_slot_def)

lemma promoted_store:
  assumes "promoted ot hs d0 c d" "i < slot_number ot"
  shows "\<exists>c' d'. store_slot i v c = Some c' \<and> store_slot i v d = Some d' \<and> promoted ot hs d0 c' d'"
proof -
  have "take (slot_number ot) ((slots c)[i := v]) = (take (slot_number ot) (slots c))[i := v]"
    by (simp add: take_update_swap)
  then show ?thesis using assms by (simp add: store_slot_def promoted_def)
qed

lemma promoted_going:
  assumes "promoted ot hs d0 c d" "i < slot_number ot"
  shows "rel_flow (promoted ot hs d0) (going_on (store_slot i v c)) (going_on (store_slot i v d))"
  using promoted_store [OF assms, of v] by (auto simp: going_on_def)

lemma load_home_dress [simp]: "load_home hm (dress d c) = load_home hm d"
  by (cases hm) (simp_all add: load_home_def)

lemma home_frame_dress [simp]: "home_frame hs is d0 (dress d c) = home_frame hs is d0 d"
  by (simp add: home_frame_def)

lemma promoted_dress:
  assumes "promoted ot hs d0 c d" "cells_ok c'" "codeObserver c' = codeObserver c" "slots c' = slots c"
  shows "promoted ot hs d0 c' (dress d c')"
  using assms by (simp add: promoted_def dressed_def)

lemma promoted_site:
  assumes "promoted ot hs d0 c d" "homes_ok ot hs d0" "e < slot_number ot"
  shows "rel_flow (promoted ot hs d0) (code_site e pc c) (optimized_site ot e pc d)"
proof -
  have d: "d = dress d c" and ok: "cells_ok c" and blind: "site_blind (codeObserver c)" using assms(1) by (simp_all add: promoted_def dressed_def)
  have same: "error d = error c" "codeObserver d = codeObserver c" "quietSites d = quietSites c" "leanRan d = leanRan c"
    by (subst d, simp)+
  show ?thesis
  proof (cases rule: optimized_site_cases [of ot e pc d])
    case quiet
    then show ?thesis using assms(1) same by (simp add: code_site_def)
  next
    case waits
    have "promoted ot hs d0 (c\<lparr>pendingSite := True, pendingPc := pc\<rparr>) (dress d (c\<lparr>pendingSite := True, pendingPc := pc\<rparr>))"
      by (rule promoted_dress [OF assms(1)]) (use cells_ok_flags(3) [OF ok] in simp_all)
    then have "promoted ot hs d0 (c\<lparr>pendingSite := True, pendingPc := pc\<rparr>) (d\<lparr>pendingSite := True, pendingPc := pc\<rparr>)"
      using d by (metis dress_updates(6,7))
    then show ?thesis using waits same by (simp add: code_site_def)
  next
    case called
    obtain d1 where d1: "flush_site ot pc d = Some d1" "promoted ot hs d0 c d1" using flush_site_ex [OF assms(1,2)] by blast
    obtain stop c1 where c1: "code_notify pc c = (stop, c1)" by fastforce
    have k: "cells_ok c1" "kept c c1" using code_notify_ok [OF ok c1] by simp_all
    have "code_notify pc d1 = (stop, dress d1 c1)"
      using code_notify_dress [OF blind, of pc d1] c1 d1(2) by (simp add: promoted_def dressed_def)
    moreover have p1: "promoted ot hs d0 c1 (dress d1 c1)"
      by (rule promoted_dress [OF d1(2)]) (use k in \<open>simp_all add: kept_def\<close>)
    moreover obtain c2 d2 where "store_slot e 3 c1 = Some c2" "store_slot e 3 (dress d1 c1) = Some d2" "promoted ot hs d0 c2 d2"
      using promoted_store [OF p1 assms(3)] by blast
    moreover have "code_site e pc c = (case code_notify pc c of (False, c1) \<Rightarrow> Next c1
        | (True, c1) \<Rightarrow> (case store_slot e 3 c1 of None \<Rightarrow> Undefined | Some c2 \<Rightarrow> Leave pc c2))"
      using called(2) same by (auto simp: code_site_def)
    ultimately show ?thesis using called(1) d1(1) c1 by (cases stop) simp_all
  qed
qed

lemma promoted_slot:
  "promoted ot hs d0 c d \<Longrightarrow> i < slot_number ot \<Longrightarrow> load_slot i c = Some (slots c ! i) \<and> load_slot i d = Some (slots c ! i)"
  by (simp add: promoted_def load_slot_def)

lemma promoted_op:
  assumes p: "promoted ot hs d0 c d" "homes_ok ot hs d0" and op: "op_error ls op = None" "\<And>s. s \<in> set (op_slots op) \<Longrightarrow> s < slot_number ot"
  shows "rel_flow (promoted ot hs d0) (exec_op h hb op c) (optimized_op h hb ot op d)"
proof (cases op)
  case (Code e pc)
  then show ?thesis using promoted_site [OF p] op(2) by (simp add: optimized_op_def)
next
  case (MemLoad x a sz big)
  have d: "d = dress d c" and ok: "cells_ok c" and blind: "site_blind (codeObserver c)" using p(1) by (simp_all add: promoted_def dressed_def)
  have sz: "0 < sz" "sz \<le> 8" using op(1) MemLoad by (auto split: if_splits)
  have ad: "a < slot_number ot" "x < slot_number ot" using op(2) MemLoad by simp_all
  obtain base where base: "load_slot a c = Some base" "load_slot a d = Some base"
    using promoted_load [OF p(1) ad(1)] p(1) ad(1) by (auto simp: load_slot_def promoted_def)
  obtain v c1 where l: "access_load h hb base sz big c = Some (v, c1)" "cells_ok c1" "kept (memory_notify False base (of_nat sz) 0 c) c1"
    using access_load_ok [OF ok sz refl, of h hb base big] by blast
  then have "promoted ot hs d0 c1 (dress d c1)"
    using memory_notify_ok [OF ok, of False base "of_nat sz" 0] by (intro promoted_dress [OF p(1)]) (simp_all add: kept_def)
  moreover have "access_load h hb base sz big d = Some (v, dress d c1)"
    by (subst d) (simp add: access_load_dress [OF blind] l(1))
  ultimately show ?thesis using MemLoad base l(1) promoted_going [OF _ ad(2)] by (simp add: optimized_op_def)
next
  case (MemStore a s sz big)
  have d: "d = dress d c" and ok: "cells_ok c" and blind: "site_blind (codeObserver c)" using p(1) by (simp_all add: promoted_def dressed_def)
  have sz: "0 < sz" "sz \<le> 8" using op(1) MemStore by (auto split: if_splits)
  have ad: "a < slot_number ot" "s < slot_number ot" using op(2) MemStore by simp_all
  obtain base v where base: "load_slot a c = Some base" "load_slot a d = Some base" "load_slot s c = Some v" "load_slot s d = Some v"
    using promoted_load [OF p(1)] p(1) ad by (auto simp: load_slot_def promoted_def)
  have dstore: "access_store h hb base sz big v d = map_option (dress d) (access_store h hb base sz big v c)"
    by (subst d) (simp add: access_store_dress [OF blind])
  show ?thesis
  proof (cases "access_store h hb base sz big v c")
    case None
    then show ?thesis using MemStore base dstore by (simp add: optimized_op_def)
  next
    case (Some c1)
    obtain c2 where "stored_cells base sz big v c2 c1" "kept (memory_notify True base (of_nat sz) v c) c2"
      using access_store_ok [OF ok sz refl Some] by blast
    then have "promoted ot hs d0 c1 (dress d c1)"
      using memory_notify_ok [OF ok, of True base "of_nat sz" v] by (intro promoted_dress [OF p(1)]) (simp_all add: kept_def stored_cells_def)
    then show ?thesis using MemStore base dstore Some by (simp add: optimized_op_def)
  qed
next
  case (Branch q y n)
  have "q < slot_number ot" using op(2) Branch by simp
  then have "load_slot q d = load_slot q c" "load_slot q c \<noteq> None"
    using promoted_load [OF p(1)] p(1) by (simp_all add: load_slot_def promoted_def)
  then show ?thesis using Branch p(1) by (auto simp: optimized_op_def)
next
  case (JumpSlot q)
  have "q < slot_number ot" using op(2) JumpSlot by simp
  then have "load_slot q d = load_slot q c" "load_slot q c \<noteq> None"
    using promoted_load [OF p(1)] p(1) by (simp_all add: load_slot_def promoted_def)
  then show ?thesis using JumpSlot p(1) by (auto simp: optimized_op_def)
next
  case (Bin b x l r)
  then have "b \<le> 21" using op(1) by (auto split: if_splits)
  then obtain v where "bin_value b (slots c ! l) (slots c ! r) = Some v" using bin_value_defined by blast
  moreover have "l < slot_number ot" "r < slot_number ot" "x < slot_number ot" using op(2) Bin by simp_all
  ultimately show ?thesis using Bin promoted_slot [OF p(1)] promoted_going [OF p(1)] by (simp add: optimized_op_def)
next
  case (SignExtend w x s)
  then have "0 < w" "w \<le> 64" using op(1) by (auto split: if_splits)
  moreover have "s < slot_number ot" "x < slot_number ot" using op(2) SignExtend by simp_all
  ultimately show ?thesis using SignExtend promoted_slot [OF p(1)] promoted_going [OF p(1)]
    by (simp add: optimized_op_def sign_extend_denotes)
next
  case (Ashr w x l r)
  then have "0 < w" "w \<le> 64" using op(1) by (auto split: if_splits)
  moreover have "l < slot_number ot" "r < slot_number ot" "x < slot_number ot" using op(2) Ashr by simp_all
  ultimately show ?thesis using Ashr promoted_slot [OF p(1)] promoted_going [OF p(1)]
    by (simp add: optimized_op_def ashr_denotes)
qed (use p(1) op(2) promoted_slot [OF p(1)] promoted_going [OF p(1)] in \<open>simp_all add: optimized_op_def\<close>)

lemma promoted_list:
  assumes "promoted ot hs d0 c d" "homes_ok ot hs d0" "ops_ok (slot_number ot) ls ops"
  shows "rel_flow (promoted ot hs d0) (exec_block h hb ops c) (exec_list (optimized_op h hb ot) ops d)"
  using assms
proof (induction ops arbitrary: c d)
  case (Cons op ops)
  have "rel_flow (promoted ot hs d0) (exec_op h hb op c) (optimized_op h hb ot op d)"
    by (rule promoted_op [OF Cons.prems(1,2), of ls]) (use Cons.prems(3) in \<open>simp_all add: ops_ok_def\<close>)
  moreover have "ops_ok (slot_number ot) ls ops" using Cons.prems(3) by (simp add: ops_ok_def)
  ultimately show ?case using Cons.IH Cons.prems(2) by (cases rule: flow.rel_cases) simp_all
qed simp

section \<open>Runs on the stack\<close>

definition block_step :: "host \<Rightarrow> bool \<Rightarrow> program \<Rightarrow> nat option \<times> ('x, 'e) cells \<Rightarrow>
    nat option \<times> ('x, 'e) cells + ('x, 'e) cells outcome" where
  "block_step h hb p st =
     (let (k, c) = st
      in case exec_block h hb (blocks p k) c of
           To i c' \<Rightarrow> Inl (Some i, c')
         | Leave v c' \<Rightarrow> Inr (Returned v c')
         | Thrown \<Rightarrow> Inr Threw
         | _ \<Rightarrow> Inr Undefined_run)"

lemma run_blocks_iterate: "run_blocks h hb p k c = iterate (block_step h hb p) (k, c)"
proof (rule option_Some_eqI)
  fix r
  have "iterate (block_step h hb p) (k, c) = Some r" if "run_blocks h hb p k c = Some r"
  proof (rule run_blocks.raw_induct [where P = "\<lambda>h hb p k c r. iterate (block_step h hb p) (k, c) = Some r", OF _ that])
    fix run h hb p k c r
    assume IH: "\<And>h hb p k c r. run h hb p k c = Some r \<Longrightarrow> iterate (block_step h hb p) (k, c) = Some r"
      and run: "(case exec_block h hb (blocks p k) c of To i c' \<Rightarrow> run h hb p (Some i) c' | Leave v c' \<Rightarrow> Some (Returned v c')
        | Thrown \<Rightarrow> Some Threw | _ \<Rightarrow> Some Undefined_run) = Some r"
    then show "iterate (block_step h hb p) (k, c) = Some r"
      by (subst iterate.simps) (auto simp: block_step_def split: flow.splits)
  qed
  moreover have "f = block_step h hb p \<longrightarrow> (\<forall>k c. s = (k, c) \<longrightarrow> run_blocks h hb p k c = Some r)" if "iterate f s = Some r" for f s
  proof (rule iterate.raw_induct [where P = "\<lambda>f s r. f = block_step h hb p \<longrightarrow> (\<forall>k c. s = (k, c) \<longrightarrow> run_blocks h hb p k c = Some r)", OF _ that],
      intro impI allI)
    fix run f s r k c
    assume IH: "\<And>f s r. run f s = Some r \<Longrightarrow> f = block_step h hb p \<longrightarrow> (\<forall>k c. s = (k, c) \<longrightarrow> run_blocks h hb p k c = Some r)"
      and run: "(case f s of Inl s' \<Rightarrow> run f s' | Inr r \<Rightarrow> Some r) = Some r" and f: "f = block_step h hb p" "s = (k, c)"
    then show "run_blocks h hb p k c = Some r"
      by (subst run_blocks.simps) (auto simp: block_step_def split: flow.splits)
  qed
  ultimately show "run_blocks h hb p k c = Some r \<longleftrightarrow> iterate (block_step h hb p) (k, c) = Some r" by blast
qed

text \<open>
  What a run leaves: everything as code that isn't optimized does, its slots at the homes of those that it is
  to leave, and the other homes as they were.
\<close>

definition left_behind :: "optimization \<Rightarrow> (nat \<Rightarrow> home) \<Rightarrow> ('x, 'e) cells \<Rightarrow> ('x, 'e) cells \<Rightarrow> ('x, 'e) cells \<Rightarrow> bool" where
  "left_behind ot hs d0 c e \<longleftrightarrow> dressed c e \<and> state_array e = None \<and> cells_ok c \<and>
     home_frame hs (left_slots ot) d0 (e\<lparr>state_array := Some (slots e)\<rparr>) \<and>
     (\<forall>i \<in> set (left_slots ot). load_home (hs i) (e\<lparr>state_array := Some (slots e)\<rparr>) = Some (slots c ! i))"

lemma load_home_slots [simp]: "load_home hm (d\<lparr>slots := s\<rparr>) = load_home hm d"
  by (cases hm) (simp_all add: load_home_def)

lemma leave_function_ok:
  assumes "promoted ot hs d0 c d" "homes_ok ot hs d0"
  shows "\<exists>e. leave_function ot v d = Returned v e \<and> left_behind ot hs d0 c e"
proof -
  obtain d' where d': "leave_slots ot d = Some d'" "promoted ot hs d0 c d'"
      "\<forall>i \<in> set (left_slots ot). load_home (hs i) d' = Some (slots c ! i)" using leave_slots_ex [OF assms] by blast
  obtain s where s: "state_array d' = Some s"
    using d'(2) assms(2) by (cases "state_array d'") (auto simp: promoted_def home_frame_def homes_ok_def)
  let ?e = "d'\<lparr>slots := s, state_array := None\<rparr>"
  have e: "?e\<lparr>state_array := Some (slots ?e)\<rparr> = d'\<lparr>slots := s\<rparr>" using s by (cases d') simp
  have "left_behind ot hs d0 c ?e" unfolding left_behind_def e using d'(2,3) by (simp add: promoted_def)
  then show ?thesis using d'(1) s by (simp add: leave_function_def)
qed

definition at_same :: "jit_op list \<Rightarrow> optimization \<Rightarrow> (nat \<Rightarrow> home) \<Rightarrow> ('x, 'e) cells \<Rightarrow> nat option \<times> ('x, 'e) cells \<Rightarrow>
    budget_copy option \<times> nat option \<times> ('x, 'e) cells \<Rightarrow> bool" where
  "at_same ops ot hs d0 s t \<longleftrightarrow> (\<exists>k c d. s = (k, c) \<and> t = (None, k, d) \<and> k \<in> block_names (labels_of ops) \<and> promoted ot hs d0 c d)"

lemma block_goes:
  assumes "compileOps ops ents = Inr p" "k \<in> block_names (labels_of ops)" "exec_block h hb (blocks p k) c = To i c'"
  shows "Some i \<in> block_names (labels_of ops)"
proof -
  obtain op c1 where op: "op \<in> set (blocks p k)" "exec_op h hb op c1 = To i c'" using block_targets [OF assms(3)] by blast
  have "op_error (labels_of ops) op = None" by (rule compiled_block(2) [OF assms(1,2) op(1)])
  then show ?thesis using exec_To [OF op(2)] by (auto simp: block_names_def split: if_splits)
qed

lemma compiled_block_ok:
  assumes "compileOps ops ents = Inr p" "k \<in> block_names (labels_of ops)"
  shows "ops_ok (maxSlot p) (labels_of ops) (blocks p k)"
proof -
  obtain t where t: "place ops k = Some t"
    using assms(2) afterLabel_None [of ops] by (cases k) (auto simp: block_names_def place_def)
  have "set (blocks p k) \<subseteq> set ops"
    using compiled_blocks [OF assms(1) t] until_end_subset [of t] place_subset [OF t] by auto
  then show ?thesis by (rule compiled_ops_ok [OF assms(1) order_refl])
qed

lemma run_copies_plain:
  assumes comp: "compileOps ops ents = Inr p" "slot_number ot = maxSlot p" and k: "k \<in> block_names (labels_of ops)"
    and d: "promoted ot hs d0 c d" "homes_ok ot hs d0"
  shows "rel_option (rel_outcome (left_behind ot hs d0)) (run_blocks h hb p k c) (run_copies h hb p ot None k d)"
  unfolding run_blocks_iterate run_copies_def
proof (rule iterate_sim [where R = "at_same ops ot hs d0"])
  show "at_same ops ot hs d0 (k, c) (None, k, d)" using k d by (simp add: at_same_def)
next
  fix s t
  assume "at_same ops ot hs d0 s t"
  then obtain k c d where st: "s = (k, c)" "t = (None, k, d)" "k \<in> block_names (labels_of ops)" "promoted ot hs d0 c d"
    by (auto simp: at_same_def)
  have "rel_flow (promoted ot hs d0) (exec_block h hb (blocks p k) c) (exec_list (optimized_op h hb ot) (blocks p k) d)"
    by (rule promoted_list [OF st(4) d(2)]) (use compiled_block_ok [OF comp(1) st(3)] comp(2) in simp)
  then show "rel_sum (at_same ops ot hs d0) (rel_outcome (left_behind ot hs d0)) (block_step h hb p s) (copies_step h hb p ot t)"
  proof (cases rule: flow.rel_cases)
    case (Leave v c' v' d')
    then show ?thesis using leave_function_ok [OF _ d(2), of c' d' v] st by (auto simp: block_step_def copies_step_def)
  next
    case (To i c' i' d')
    then show ?thesis using block_goes [OF comp(1) st(3)] st by (simp add: block_step_def copies_step_def stays_def at_same_def)
  qed (use st in \<open>simp_all add: block_step_def copies_step_def\<close>)
qed

text \<open>A whole run, with the copy that doesn't check its budget or without.\<close>

definition copy_fine :: "jit_op list \<Rightarrow> program \<Rightarrow> optimization \<Rightarrow> bool" where
  "copy_fine ops p ot \<longleftrightarrow> (\<forall>bc. o_copy ot = Some bc \<longrightarrow> dispatch p = None \<and> budget_slot bc < maxSlot p \<and>
     make_copy p (labels_of ops) (budget_slot bc) = Some bc \<and> budgeted p (labels_of ops) (budget_slot bc))"

lemma start_block_names:
  assumes "compileOps ops ents = Inr p" "maxSlot p \<le> length (slots c)"
  obtains k where "start_block p c = Some k" "k \<in> block_names (labels_of ops)"
proof -
  obtain k t where k: "start_block p c = Some k" "place ops k = Some t" using start_block_place [OF assms] by blast
  then have "k \<in> block_names (labels_of ops)"
    using afterLabel_None [of ops "the k"] by (cases k) (simp_all add: block_names_def place_def)
  then show thesis using that k(1) by blast
qed

lemma start_block_same:
  assumes "compileOps ops ents = Inr p" "\<And>i. i < maxSlot p \<Longrightarrow> load_slot i d = load_slot i c"
  shows "start_block p d = start_block p c"
  using assms(1)
proof (rule compileOps_InrD)
  fix b assume p: "p = \<lparr>blocks = b_blocks b, dispatch = ents, maxSlot = slot_count (b_max b) ents, memoryStores = b_stores b\<rparr>"
  show ?thesis
  proof (cases ents)
    case (Some e)
    obtain slot "is" where e: "e = (slot, is)" by (cases e)
    have "load_slot slot d = load_slot slot c" using assms(2) [of slot] p Some e by (auto simp: slot_count_def Let_def)
    then show ?thesis using p Some e by (simp add: start_block_def)
  qed (simp add: start_block_def p)
qed

lemma cells_ok_dressed: "dressed c d \<Longrightarrow> cells_ok d = cells_ok c"
  unfolding dressed_def by (metis cells_ok_dress_all)

lemma those_map: "(\<And>i. i \<in> set is \<Longrightarrow> f i = Some (g i)) \<Longrightarrow> those (map f is) = Some (map g is)"
  by (induction "is") simp_all

lemma run_optimized_same:
  assumes comp: "compileOps ops ents = Inr p" "slot_number ot = maxSlot p" "copy_fine ops p ot"
    and d0: "d0 = d\<lparr>state_array := Some (slots d)\<rparr>" "homes_ok ot hs d0"
    and c: "dressed c d" "maxSlot p \<le> length (slots c)" "cells_ok c" "site_blind (codeObserver c)"
      "\<And>i. i < maxSlot p \<Longrightarrow> load_home (hs i) d0 = Some (slots c ! i)"
  shows "rel_option (rel_outcome (left_behind ot hs d0)) (run_function h hb p c) (run_optimized h hb p ot d)"
proof -
  let ?d = "d0\<lparr>slots := take (maxSlot p) (slots c)\<rparr>"
  have hs: "hs = homes ot (registers d \<noteq> None)" using d0 by (simp add: homes_ok_def)
  have "map (\<lambda>i. slots c ! i) [0..<maxSlot p] = take (maxSlot p) (slots c)" using c(2) by (intro nth_equalityI) simp_all
  then have pr: "promote ot d = Some ?d"
    using those_map [of "[0..<maxSlot p]" "\<lambda>i. load_home (hs i) d0" "\<lambda>i. slots c ! i"] c(5) by (simp add: promote_def Let_def hs d0(1) comp(2))
  have p: "promoted ot hs d0 c ?d" using c d0(1) comp(2) by (simp add: promoted_def)
  obtain k where k: "start_block p c = Some k" "k \<in> block_names (labels_of ops)" using start_block_names [OF comp(1) c(2)] by blast
  have "start_block p ?d = Some k"
    using start_block_same [OF comp(1), of ?d c] promoted_load [OF p] comp(2) k(1) by simp
  then have run: "run_optimized h hb p ot d = run_copies h hb p ot
      (case o_copy ot of None \<Rightarrow> None | Some bc \<Rightarrow> if enough bc ?d then Some bc else None) k ?d"
    by (simp add: run_optimized_def pr)
  have "run_optimized h hb p ot d = run_copies h hb p ot None k ?d"
  proof (cases "\<exists>bc. o_copy ot = Some bc \<and> enough bc ?d")
    case True
    then obtain bc where bc: "o_copy ot = Some bc" "enough bc ?d" by blast
    have f: "dispatch p = None" "budget_slot bc < maxSlot p" "make_copy p (labels_of ops) (budget_slot bc) = Some bc"
        "budgeted p (labels_of ops) (budget_slot bc)" using comp(3) bc(1) by (simp_all add: copy_fine_def)
    have "k = None" using k(1) f(1) by (simp add: start_block_def)
    have "ents = None" using comp(1) f(1) by (auto elim!: compileOps_InrD)
    then have c': "compileOps ops None = Inr p" using comp(1) by simp
    have "run_ok (maxSlot p) ?d" using cells_ok_dressed [OF c(1)] c(2,3) d0(1) by (simp add: run_ok_def)
    from run_copies_same [OF c' f(3,4,2) this bc(2), of h hb ot] show ?thesis using run bc \<open>k = None\<close> by simp
  qed (use run in \<open>auto split: option.splits\<close>)
  moreover have "run_function h hb p c = run_blocks h hb p k c" using k(1) by (simp add: run_function_def)
  ultimately show ?thesis using run_copies_plain [OF comp(1,2) k(2) p d0(2), of h hb] by simp
qed

lemma write_back_shown: "write_back hs is d = Some d' \<Longrightarrow> slots_shown d' = slots_shown d"
proof (induction hs "is" d rule: write_back.induct)
  case (2 hs i "is" d)
  then obtain v d1 where 1: "load_slot i d = Some v" "store_home (hs i) v d = Some d1" "write_back hs is d1 = Some d'"
    by (auto simp: bind_eq_Some_conv)
  have "slots_shown d1 = slots_shown d" using 1(2) by (auto simp: store_home_def split: home.splits option.splits if_splits)
  then show ?case using 2(1) [OF 1] by simp
qed simp

text \<open>What the code that a site calls is shown, at a site that was told of: the slots that are left, as the run has them.\<close>

lemma flushed_slots:
  assumes "promoted ot hs d0 c d" "homes_ok ot hs d0" "registers d0 = None" "pc \<in> set (flushPcs ot)" "slots_shown d"
    "flush_site ot pc d = Some d'"
  shows "\<exists>A. site_slots (site_of d') = Some A \<and> site_flushed (site_of d') = pc \<and> (\<forall>i \<in> set (left_slots ot). A ! i = slots c ! i)"
proof -
  obtain d1 where d1: "leave_slots ot d = Some d1" "promoted ot hs d0 c d1"
      "\<forall>i \<in> set (left_slots ot). load_home (hs i) d1 = Some (slots c ! i)" using leave_slots_ex [OF assms(1,2)] by blast
  have d': "d' = d1\<lparr>flushedPc := pc\<rparr>" using assms(4,6) d1(1) by (simp add: flush_site_def)
  have "variable_homes n False vs f = f" for n vs f by (induction n False vs f rule: variable_homes.induct) simp_all
  then have hs: "hs = In_state" using assms(2,3) by (auto simp: homes_ok_def homes_def)
  obtain A where A: "state_array d1 = Some A"
    using d1(2) assms(2) by (cases "state_array d1") (auto simp: promoted_def home_frame_def homes_ok_def)
  have "A ! i = slots c ! i" if "i \<in> set (left_slots ot)" for i
    using d1(3) that A by (auto simp: hs load_home_def split: if_splits)
  moreover have "slots_shown d1 = slots_shown d"
    using write_back_shown [OF d1(1) [unfolded leave_slots_def]] .
  ultimately show ?thesis using assms(5) A by (simp add: site_of_def d')
qed

end
