(* ===== verification/OptimizeProperties.thy ===== *)
theory OptimizeProperties
  imports JitPromote JitProperties
begin

text \<open>
  What optimized programs promise: obligation 1 of \<open>src/Bap/Jit.lean\<close> for \<open>compileOptimized\<close>.
\<close>

lemma variable_homes_unchained [simp]: "variable_homes n False vs hs = hs"
  by (induction n False vs hs rule: variable_homes.induct) simp_all

lemma unchained_homes_ok:
  assumes "registers c = None" "slot_number ot \<le> length (slots c)"
  shows "homes_ok ot In_state (c\<lparr>state_array := Some (slots c)\<rparr>)"
  using assms by (auto simp: homes_ok_def homes_def load_home_def inj_on_def)

text \<open>What a run on its own leaves: the slots that it is to leave, and the others as they were.\<close>

definition leaves_kept :: "optimization \<Rightarrow> ('x, 'e) cells \<Rightarrow> ('x, 'e) cells \<Rightarrow> ('x, 'e) cells \<Rightarrow> bool" where
  "leaves_kept ot c c' e \<longleftrightarrow> world e = world c' \<and> error e = error c' \<and> changes e = changes c' \<and> items e = items c' \<and>
     length (slots e) = length (slots c) \<and>
     (\<forall>i < length (slots c). slots e ! i = (if i \<in> set (left_slots ot) then slots c' ! i else slots c ! i))"

lemma left_behind_kept:
  assumes "left_behind ot In_state (c\<lparr>state_array := Some (slots c)\<rparr>) c' e"
  shows "leaves_kept ot c c' e"
proof -
  let ?e = "e\<lparr>state_array := Some (slots e)\<rparr>" and ?c = "c\<lparr>state_array := Some (slots c)\<rparr>"
  have d: "dressed c' e" and f: "home_frame In_state (left_slots ot) ?c ?e"
    and l: "\<And>i. i \<in> set (left_slots ot) \<Longrightarrow> load_home (In_state i) ?e = Some (slots c' ! i)"
    using assms by (simp_all add: left_behind_def)
  have iff: "i < length (slots e) \<longleftrightarrow> i < length (slots c)" for i
  proof -
    have "load_home (In_state i) ?e = None \<longleftrightarrow> load_home (In_state i) ?c = None" using f by (simp add: home_frame_def)
    then show ?thesis by (simp add: load_home_def split: if_splits)
  qed
  have len: "length (slots e) = length (slots c)" using iff [of "length (slots e)"] iff [of "length (slots c)"] by simp
  have "slots e ! i = (if i \<in> set (left_slots ot) then slots c' ! i else slots c ! i)" if "i < length (slots c)" for i
  proof (cases "i \<in> set (left_slots ot)")
    case True
    then show ?thesis using l [OF True] that len by (simp add: load_home_def)
  next
    case False
    then have "load_home (In_state i) ?e = load_home (In_state i) ?c" using f by (auto simp: home_frame_def)
    then show ?thesis using False that len by (simp add: load_home_def)
  qed
  moreover have "world e = world c'" "error e = error c'" "changes e = changes c'" "items e = items c'"
    using d unfolding dressed_def by (metis dress_fields)+
  ultimately show ?thesis using len by (simp add: leaves_kept_def)
qed

lemma make_copy_slot: "make_copy p ls slot = Some bc \<Longrightarrow> budget_slot bc = slot"
  by (auto simp: make_copy_def split: if_splits option.splits)

lemma optimized_run:
  assumes "compile_optimized ops ks b vars flush = Inr k" "opt k = Some ot" "b \<noteq> - 1 \<Longrightarrow> budgeted (function_of k) (labels_of ops) (unat b)"
    "cells_ok c" "registers c = None" "maxSlot (function_of k) \<le> length (slots c)" "site_blind (codeObserver c)"
  shows "rel_option (rel_outcome (leaves_kept ot c)) (run_function h hb (function_of k) c) (run_compiled h hb k c)"
proof -
  obtain p where p: "compileOps ops None = Inr p" "k = optimize ops p (Some ks) b (Some vars) flush"
    using assms(1) by (auto simp: compile_optimized_def split: sum.splits)
  have f: "function_of k = p" "slot_number ot = maxSlot p" using p(2) assms(2) by (auto simp: optimize_def split: if_splits)
  have "copy_fine ops p ot" unfolding copy_fine_def
  proof (intro allI impI)
    fix bc assume "o_copy ot = Some bc"
    then have bc: "make_copy p (labels_of ops) (unat b) = Some bc" "b \<noteq> - 1" "dispatch p = None" "unat b < maxSlot p"
      using p(2) assms(2) by (auto simp: optimize_def split: if_splits)
    then show "dispatch p = None \<and> budget_slot bc < maxSlot p \<and> make_copy p (labels_of ops) (budget_slot bc) = Some bc \<and>
        budgeted p (labels_of ops) (budget_slot bc)" using assms(3) f(1) make_copy_slot by metis
  qed
  from run_optimized_same [OF p(1) f(2) this refl unchained_homes_ok [OF assms(5)] dressed_refl, of h hb]
  have "rel_option (rel_outcome (left_behind ot In_state (c\<lparr>state_array := Some (slots c)\<rparr>))) (run_function h hb p c) (run_optimized h hb p ot c)"
    using assms(4,6,7) f by (simp add: load_home_def)
  moreover have "run_compiled h hb k c = run_optimized h hb p ot c" using assms(2) f(1) by (simp add: run_compiled_def)
  ultimately show ?thesis
    using f(1) left_behind_kept by (auto elim!: option.rel_mono_strong outcome.rel_mono_strong)
qed

text \<open>
  C16. Obligation 1 of optimized programs that run on their own, not in a chain: a run does what the run of the same
  operations without optimizing does. It returns or not, throws or not, with the same value, memory, error, log and cells,
  and leaves the slots that it was told to keep as that run does and the others as they were. This is for code
  observers that don't look at the slots, and, where a slot for the budget is given, for programs that take one off it
  behind each check of it at most and write it nowhere else (\<open>budgeted\<close>).
\<close>

theorem compile_optimized_same:
  assumes "compile_optimized ops ks b vars flush = Inr k" "opt k = Some ot"
    "b \<noteq> - 1 \<longrightarrow> budgeted (function_of k) (labels_of ops) (unat b)"
    "cells_ok c" "registers c = None" "maxSlot (function_of k) \<le> length (slots c)" "site_blind (codeObserver c)"
  shows "rel_option (rel_outcome (leaves_kept ot c)) (run_function h hb (function_of k) c) (run_compiled h hb k c)"
  using optimized_run [OF assms(1,2) _ assms(4-7)] assms(3) by blast

text \<open>A loop that enters its block as \<open>enterBlock\<close> does with a guard around the code site: the budget is slot 1.\<close>

definition counted :: "jit_op list" where
  "counted = [Set 0 2, Goto 1, Label 1, Branch 1 2 3, Label 3, Jump 7, Label 2, Branch 2 5 6, Label 5, Code 3 77, Goto 6,
     Label 6, AddImm 1 1 (- 1), AddImm 0 0 (- 1), Branch 0 1 4, Label 4, Jump 9]"

definition counted_region :: owing where
  "counted_region k = (if k = Some 2 then Some (Some 2, 0) else if k = Some 5 then Some (Some 2, 1)
     else if k = Some 6 then Some (Some 2, 2) else None)"

definition counted_blocks :: "nat option \<Rightarrow> jit_op list" where
  "counted_blocks k = (case k of None \<Rightarrow> [Set 0 2, Goto 1] | Some i \<Rightarrow>
     if i = 1 then [Branch 1 2 3] else if i = 2 then [Branch 2 5 6] else if i = 3 then [Jump 7]
     else if i = 4 then [Jump 9] else if i = 5 then [Code 3 77, Goto 6]
     else if i = 6 then [AddImm 1 1 (- 1), AddImm 0 0 (- 1), Branch 0 1 4] else [])"

lemma counted_compiles:
  "\<exists>p. compileOps counted None = Inr p \<and> maxSlot p = 4 \<and> dispatch p = None \<and> blocks p = counted_blocks"
  by (simp add: compileOps_def counted_def getSlot_def is_scalar_def add_op_def new_builder_def terminated_def
      noteSlot_def dispatch_error_def slot_count_def fun_eq_iff counted_blocks_def split: option.split)

lemma counted_names: "block_names (labels_of counted) = {None, Some 1, Some 2, Some 3, Some 4, Some 5, Some 6}"
  by (auto simp: block_names_def counted_def)

lemma counted_budgeted:
  assumes "blocks p = counted_blocks"
  shows "budgeted p (labels_of counted) 1"
proof -
  let ?succs = "\<lambda>k. copy_succs 1 (blocks p k)" and ?N = "block_names (labels_of counted)"
  have single: "single_jump ?succs ?N (Some 1) 0 (Some 2)"
    unfolding single_jump_def counted_names assms by (auto simp: copy_succs_def counted_blocks_def less_Suc_eq)
  have regs: "regions ?succs ?N None counted_region" unfolding regions_def
  proof (intro conjI allI impI)
    fix v h r assume v: "counted_region v = Some (h, r)"
    show "if v = h then \<exists>u i. single_jump ?succs ?N u i v
      else \<forall>b \<in> ?N. v \<in> set (?succs b) \<longrightarrow> (\<exists>r' < r. counted_region b = Some (h, r'))"
      using v single unfolding counted_names assms
      by (auto simp: counted_region_def copy_succs_def counted_blocks_def split: if_splits)
  qed (simp add: counted_region_def)
  have "budget_regions counted_region p (labels_of counted) 1" unfolding budget_regions_def
  proof (intro conjI ballI allI impI regs)
    fix k assume "k \<in> ?N"
    then show "tame 1 (blocks p k)" "decs 1 (blocks p k) \<le> owes counted_region k"
      unfolding counted_names assms by (auto simp: tame_def decs_def owes_def counted_region_def counted_blocks_def)
    fix h r assume "counted_region k = Some (h, r)"
    then show "if k = h then \<exists>u \<in> ?N. budgetBranch 1 (blocks p u) \<and> single_jump ?succs ?N u 0 k
        else \<forall>b \<in> ?N. k \<in> set (?succs b) \<longrightarrow> decs 1 (blocks p b) = 0"
      using single unfolding counted_names assms
      by (auto simp: counted_region_def copy_succs_def counted_blocks_def decs_def budgetBranch_def split: if_splits)
  qed
  then show ?thesis by (auto simp: budgeted_def)
qed

definition counted_cells :: "u64 list \<Rightarrow> (unit, unit) cells" where
  "counted_cells ss = new_cells False ss 1 no_memory"

lemma counted_cells_simps [simp]:
  "slots (counted_cells ss) = ss" "(counted_cells ss)\<lparr>slots := ss'\<rparr> = counted_cells ss'"
  "code_site e pc (counted_cells ss) = Next (counted_cells ss)"
  by (simp_all add: counted_cells_def new_cells_def code_site_def)

lemma counted_labels:
  "afterLabel counted 1 = Some (drop 3 counted)" "afterLabel counted 2 = Some (drop 7 counted)" "afterLabel counted 5 = Some (drop 9 counted)"
    "afterLabel counted 6 = Some (drop 12 counted)" "afterLabel counted 4 = Some (drop 16 counted)"
  by (simp_all add: counted_def)

lemma counted_parts:
  "counted = Set 0 2 # Goto 1 # drop 2 counted" "drop 3 counted = Branch 1 2 3 # drop 4 counted" "drop 7 counted = Branch 2 5 6 # drop 8 counted"
  "drop 9 counted = Code 3 77 # Goto 6 # drop 11 counted" "drop 12 counted = AddImm 1 1 (- 1) # AddImm 0 0 (- 1) # Branch 0 1 4 # drop 15 counted"
  "drop 16 counted = [Jump 9]"
  by (simp_all add: counted_def)

lemma counted_round:
  assumes "b \<noteq> 0"
  shows "run_ops h hb counted (drop 3 counted) (counted_cells [n, b, 1, 0]) =
   (if n = 1 then Some (Returned 9 (counted_cells [n - 1, b - 1, 1, 0])) else run_ops h hb counted (drop 3 counted) (counted_cells [n - 1, b - 1, 1, 0]))"
proof -
  have "run_ops h hb counted (drop 3 counted) (counted_cells [n, b, 1, 0]) = run_ops h hb counted (drop 7 counted) (counted_cells [n, b, 1, 0])"
    unfolding counted_parts(2) run_ops_Cons [of _ _ _ "Branch 1 2 3"] using assms by (simp add: load_slot_def counted_labels)
  also have "\<dots> = run_ops h hb counted (drop 9 counted) (counted_cells [n, b, 1, 0])"
    unfolding counted_parts(3) run_ops_Cons [of _ _ _ "Branch 2 5 6"] by (simp add: load_slot_def counted_labels)
  also have "\<dots> = run_ops h hb counted (drop 12 counted) (counted_cells [n, b, 1, 0])"
    unfolding counted_parts(4) by (simp add: run_ops_Cons counted_labels)
  also have "\<dots> = (case afterLabel counted (if n \<noteq> 1 then 1 else 4) of None \<Rightarrow> Some Undefined_run | Some t \<Rightarrow> run_ops h hb counted t (counted_cells [n - 1, b - 1, 1, 0]))"
    unfolding counted_parts(5) by (simp add: run_ops_Cons [of _ _ _ "AddImm _ _ _"] run_ops_Cons [of _ _ _ "Branch _ _ _"] load_slot_def store_slot_def going_on_def)
  also have "\<dots> = (if n = 1 then Some (Returned 9 (counted_cells [n - 1, b - 1, 1, 0])) else run_ops h hb counted (drop 3 counted) (counted_cells [n - 1, b - 1, 1, 0]))"
    by (simp add: counted_labels counted_labels(1) [unfolded One_nat_def] counted_parts(6) run_ops_Cons [of _ _ _ "Jump _"])
  finally show ?thesis .
qed

lemma counted_run:
  "run_ops h hb counted counted (counted_cells [0, 5, 1, 0]) = Some (Returned 9 (counted_cells [0, 3, 1, 0]))"
proof -
  have "run_ops h hb counted counted (counted_cells [0, 5, 1, 0]) = run_ops h hb counted (drop 3 counted) (counted_cells [2, 5, 1, 0])"
    by (subst (2) counted_parts(1)) (simp add: run_ops_Cons going_on_def store_slot_def counted_labels counted_labels(1) [unfolded One_nat_def])
  then show ?thesis by (simp add: counted_round)
qed

theorem compile_optimized_same_witness:
  "\<exists>k e. compile_optimized counted [0] 1 [] [] = Inr k \<and>
     run_compiled granted False k (new_cells False [0, 5, 1, 0] 1 no_memory :: (unit, unit) cells) = Some (Returned 9 e) \<and> slots e = [0, 5, 1, 0]"
proof -
  let ?c = "new_cells False [0, 5, 1, 0] 1 no_memory :: (unit, unit) cells"
  obtain p where p: "compileOps counted None = Inr p" "maxSlot p = 4" "dispatch p = None" "blocks p = counted_blocks"
    using counted_compiles by blast
  have slots: "hasSlots counted" by (simp add: hasSlots_def counted_def)
  define k where "k = optimize counted p (Some [0]) 1 (Some []) []"
  have k: "compile_optimized counted [0] 1 [] [] = Inr k" by (simp add: compile_optimized_def p(1) k_def)
  define ot where "ot = the (opt k)"
  have ot: "opt k = Some ot" "function_of k = p" by (simp_all add: ot_def k_def optimize_def slots)
  have "slot_number ot = 4" "o_written ot = [0, 3, 1, 0]" "o_kept ot = Some [0]"
    by (simp_all add: ot_def k_def optimize_def slots p(2)) (simp add: counted_def)
  moreover have "[0..<4] = [0, 1, 2, 3 :: nat]" by (simp add: upt_rec)
  ultimately have left: "left_slots ot = [0]" by (simp add: left_slots_def)
  note b = counted_budgeted [OF p(4)]
  have ok: "cells_ok ?c" by (rule new_cells_ok) (simp add: no_memory_def world_ok_def)
  have c: "?c = counted_cells [0, 5, 1, 0]" by (simp add: counted_cells_def)
  obtain c' where run: "run_function granted False p ?c = Some (Returned 9 c')" "slots c' = [0, 3, 1, 0]"
    using compile_run_ops [of counted p granted False ?c] p(1) counted_run by (simp add: compile_def c)
  have "rel_option (rel_outcome (leaves_kept ot ?c)) (run_function granted False (function_of k) ?c) (run_compiled granted False k ?c)"
    by (rule compile_optimized_same [OF k ot(1)])
      (use b ok ot(2) p(2) in \<open>simp_all add: new_cells_def site_blind_def\<close>)
  then obtain e where e: "run_compiled granted False k ?c = Some (Returned 9 e)" "leaves_kept ot ?c c' e"
    using run(1) ot(2) by (auto simp: option_rel_Some1 elim!: outcome.rel_cases [of _ "Returned 9 c'"])
  have l: "length (slots e) = 4" "\<And>i. i < 4 \<Longrightarrow> slots e ! i = (if i = 0 then [0, 3, 1, 0] ! i else [0, 5, 1, 0] ! i)"
    using e(2) run(2) left by (simp_all add: leaves_kept_def c)
  have "slots e = [0, 5, 1, 0]"
  proof (rule nth_equalityI)
    fix i assume "i < length (slots e)"
    then show "slots e ! i = [0, 5, 1, 0] ! i" using l(1) l(2) [of i] by (cases "i = 0") simp_all
  qed (use l(1) in simp)
  then show ?thesis using k e(1) by blast
qed

end
