(* ===== verification/ChainEntries.thy ===== *)
theory ChainEntries
  imports JitOptimize "HOL-Library.State_Monad"
begin

text \<open>
  \<open>ChainEntry\<close> and \<open>Chain\<close> of \<open>native/bap_jit.cpp\<close>: the ranges that native code goes on to from one to the next,
  and \<open>bap_jit_chain_create\<close>, \<open>bap_jit_chain_clear\<close>, \<open>bap_jit_chain_holds\<close>, \<open>bap_jit_chain_optimizing\<close> and
  \<open>bap_jit_chain_add\<close>, which reads a range from an array of words.

  An entry of the map has an address, \<open>node\<close>, which is new each time that one is put there: what points to one
  that is gone is then told from what points to the one at the same pc now. Programs are objects of Lean, with an
  address, and the chain holds references to them, which \<open>references\<close> counts.
\<close>

section \<open>Entries\<close>

definition none_word :: u64 where
  "none_word = - 1"

record chain_output =
  out_variable :: u64
  out_slot :: u64
  out_width :: u64
  out_flag :: u64

record chain_entry =
  node :: nat
  program_object :: nat
  code :: compiled
  entry_id :: u64
  slotCount :: nat
  effectSlot :: u64
  budgetSlot :: u64
  observedSlot :: u64
  executions :: u64
  optimizeAt :: u64
  layout :: "(u64 \<times> u64) list"
  required :: "u64 list"
  zeroed :: "u64 list"
  outputs :: "chain_output list"
  flagged :: "chain_output list"
  flags :: "(u64 \<times> u64) list"
  checkpoints :: "(u64 \<times> chain_output list) list"
  lastNext :: u64
  lastTarget :: "nat option"
  entry_direct :: bool
  outputsSaid :: u64
  readyIn :: u64
  touched :: bool
  runs :: u64
  executed :: u64

record chain =
  entries :: "(u64 \<times> chain_entry) list"
  run_number :: u64
  next_node :: nat
  references :: "nat \<Rightarrow> int"

definition chain_create :: chain where
  "chain_create = \<lparr>entries = [], run_number = 0, next_node = 0, references = (\<lambda>_. 0)\<rparr>"

definition inc_ref :: "nat \<Rightarrow> chain \<Rightarrow> chain" where
  "inc_ref a ch = ch\<lparr>references := (references ch)(a := references ch a + 1)\<rparr>"

definition dec_ref :: "nat \<Rightarrow> chain \<Rightarrow> chain" where
  "dec_ref a ch = ch\<lparr>references := (references ch)(a := references ch a - 1)\<rparr>"

definition chain_clear :: "chain \<Rightarrow> chain" where
  "chain_clear ch = (foldl (\<lambda>ch entry. dec_ref (program_object (snd entry)) ch) ch (entries ch))\<lparr>entries := []\<rparr>"

definition find_entry :: "chain \<Rightarrow> u64 \<Rightarrow> chain_entry option" where
  "find_entry ch pc = map_of (entries ch) pc"

text \<open>What is at an address, and a change of it in place.\<close>

definition entry_at :: "chain \<Rightarrow> nat \<Rightarrow> chain_entry option" where
  "entry_at ch n = map_option snd (find (\<lambda>entry. node (snd entry) = n) (entries ch))"

definition put_entry :: "nat \<Rightarrow> (chain_entry \<Rightarrow> chain_entry) \<Rightarrow> chain \<Rightarrow> chain" where
  "put_entry n f ch = ch\<lparr>entries := map (\<lambda>(pc, e). (pc, if node e = n then f e else e)) (entries ch)\<rparr>"

definition chain_holds :: "chain \<Rightarrow> u64 \<Rightarrow> nat \<Rightarrow> bool" where
  "chain_holds ch pc object = (case find_entry ch pc of None \<Rightarrow> False | Some e \<Rightarrow> program_object e = object)"

definition chain_optimizing :: "u64 \<Rightarrow> u64 \<Rightarrow> chain \<Rightarrow> chain" where
  "chain_optimizing pc extra ch =
     (case find_entry ch pc of
        None \<Rightarrow> ch
      | Some e \<Rightarrow> put_entry (node e) (\<lambda>e. e\<lparr>optimizeAt := executions e + extra\<rparr>) ch)"

section \<open>Reading an entry\<close>

record reader =
  words_left :: "u64 list"
  bad :: bool

definition next_word :: "(reader, u64) state" where
  "next_word = State (\<lambda>r. case words_left r of [] \<Rightarrow> (0, r\<lparr>bad := True\<rparr>) | w # ws \<Rightarrow> (w, r\<lparr>words_left := ws\<rparr>))"

definition is_bad :: "(reader, bool) state" where
  "is_bad = State (\<lambda>r. (bad r, r))"

fun read_times :: "nat \<Rightarrow> (reader, 'a) state \<Rightarrow> (reader, 'a list) state" where
  "read_times 0 f = State_Monad.return []"
| "read_times (Suc n) f =
     do { b \<leftarrow> is_bad;
          if b then State_Monad.return [] else do { x \<leftarrow> f; xs \<leftarrow> read_times n f; State_Monad.return (x # xs) } }"

definition read_counted :: "(reader, 'a) state \<Rightarrow> (reader, 'a list) state" where
  "read_counted f = do { n \<leftarrow> next_word; read_times (unat n) f }"

definition read_pair :: "(reader, u64 \<times> u64) state" where
  "read_pair = do { a \<leftarrow> next_word; b \<leftarrow> next_word; State_Monad.return (a, b) }"

definition read_output :: "(reader, chain_output) state" where
  "read_output =
     do { v \<leftarrow> next_word; slot \<leftarrow> next_word; width \<leftarrow> next_word;
          State_Monad.return \<lparr>out_variable = v, out_slot = slot, out_width = width, out_flag = none_word\<rparr> }"

definition read_outputs :: "(reader, chain_output list) state" where
  "read_outputs = read_counted read_output"

definition read_checkpoint :: "(reader, u64 \<times> chain_output list) state" where
  "read_checkpoint = do { pc \<leftarrow> next_word; os \<leftarrow> read_outputs; State_Monad.return (pc, os) }"

text \<open>A checkpoint that is there again has its outputs after those that it has.\<close>

fun put_checkpoint :: "u64 \<times> chain_output list \<Rightarrow> (u64 \<times> chain_output list) list \<Rightarrow> (u64 \<times> chain_output list) list" where
  "put_checkpoint (pc, os) [] = [(pc, os)]"
| "put_checkpoint (pc, os) ((pc', os') # cps) =
     (if pc' = pc then (pc', os' @ os) # cps else (pc', os') # put_checkpoint (pc, os) cps)"

definition read_entry :: "u64 \<Rightarrow> (reader, chain_entry) state" where
  "read_entry eid =
     do { count \<leftarrow> next_word; effect \<leftarrow> next_word; budget \<leftarrow> next_word; observed \<leftarrow> next_word;
          executions' \<leftarrow> next_word; optimizeAt' \<leftarrow> next_word;
          zeroed' \<leftarrow> read_counted next_word;
          layout' \<leftarrow> read_counted read_pair;
          required' \<leftarrow> read_counted next_word;
          outputs' \<leftarrow> read_outputs;
          flags' \<leftarrow> read_counted read_pair;
          checkpoints' \<leftarrow> read_counted read_checkpoint;
          State_Monad.return \<lparr>node = 0, program_object = 0, code = unoptimized \<lparr>blocks = (\<lambda>_. []), dispatch = None, maxSlot = 0, memoryStores = 0\<rparr>,
            entry_id = eid, slotCount = unat count, effectSlot = effect, budgetSlot = budget, observedSlot = observed,
            executions = executions', optimizeAt = optimizeAt', layout = layout', required = required', zeroed = zeroed',
            outputs = outputs', flagged = [], flags = flags', checkpoints = foldl (\<lambda>cps cp. put_checkpoint cp cps) [] checkpoints',
            lastNext = none_word, lastTarget = None, entry_direct = False, outputsSaid = 0, readyIn = 0, touched = False,
            runs = 0, executed = 0\<rparr> }"

section \<open>Checking and adding it\<close>

definition fits :: "nat \<Rightarrow> u64 \<Rightarrow> bool" where
  "fits n slot \<longleftrightarrow> slot = none_word \<or> unat slot < n"

definition output_fits :: "nat \<Rightarrow> chain_output \<Rightarrow> bool" where
  "output_fits n out \<longleftrightarrow> unat (out_slot out) < n \<and> out_width out \<noteq> 0 \<and> out_width out \<le> 64"

definition entry_fits :: "compiled \<Rightarrow> chain_entry \<Rightarrow> bool" where
  "entry_fits p e \<longleftrightarrow> maxSlot (function_of p) \<le> slotCount e \<and> fits (slotCount e) (effectSlot e) \<and> fits (slotCount e) (budgetSlot e) \<and>
     fits (slotCount e) (observedSlot e) \<and> list_all (\<lambda>binding. unat (snd binding) < slotCount e) (layout e) \<and>
     list_all (output_fits (slotCount e)) (outputs e) \<and> list_all (\<lambda>flag. unat (snd flag) < slotCount e) (flags e) \<and>
     list_all (\<lambda>slot. unat slot < slotCount e) (zeroed e) \<and>
     list_all (\<lambda>cp. list_all (output_fits (slotCount e)) (snd cp)) (checkpoints e)"

definition flagOf :: "(u64 \<times> u64) list \<Rightarrow> chain_output \<Rightarrow> chain_output" where
  "flagOf fs out = (case map_of fs (out_slot out) of None \<Rightarrow> out | Some flag \<Rightarrow> out\<lparr>out_flag := flag\<rparr>)"

definition flag_outputs :: "chain_entry \<Rightarrow> chain_entry" where
  "flag_outputs e =
     (let os = map (flagOf (flags e)) (outputs e)
      in e\<lparr>outputs := os, flagged := filter (\<lambda>out. out_flag out \<noteq> none_word) os,
           checkpoints := map (\<lambda>(pc, os). (pc, map (flagOf (flags e)) os)) (checkpoints e)\<rparr>)"

definition erase_entry :: "u64 \<Rightarrow> chain \<Rightarrow> chain" where
  "erase_entry pc ch =
     (case find_entry ch pc of
        None \<Rightarrow> ch
      | Some e \<Rightarrow>
          (dec_ref (program_object e) (ch\<lparr>entries := map (\<lambda>(pc, e). (pc, e\<lparr>lastTarget := None\<rparr>)) (entries ch)\<rparr>))
            \<lparr>entries := filter (\<lambda>entry. fst entry \<noteq> pc) (map (\<lambda>(pc, e). (pc, e\<lparr>lastTarget := None\<rparr>)) (entries ch))\<rparr>)"

text \<open>None is the error, which leaves the chain as it was.\<close>

definition chain_add :: "u64 \<Rightarrow> u64 \<Rightarrow> nat \<Rightarrow> compiled \<Rightarrow> u64 list \<Rightarrow> chain \<Rightarrow> chain option" where
  "chain_add pc eid object p data ch =
     (let (e, r) = run_state (read_entry eid) \<lparr>words_left = data, bad = False\<rparr>
      in if bad r \<or> words_left r \<noteq> [] \<or> \<not> entry_fits p e then None
         else let ch1 = inc_ref object (erase_entry pc ch);
                  e1 = (flag_outputs e)\<lparr>node := next_node ch1, program_object := object, code := p, entry_direct := direct p\<rparr>
              in Some (ch1\<lparr>entries := (pc, e1) # entries ch1, next_node := next_node ch1 + 1\<rparr>))"

section \<open>Reading what was written\<close>

text \<open>That a reader takes these words and gives this, whatever comes after them.\<close>

definition reads :: "'a \<Rightarrow> u64 list \<Rightarrow> (reader, 'a) state \<Rightarrow> bool" where
  "reads x ws f \<longleftrightarrow> (\<forall>rest. run_state f \<lparr>words_left = ws @ rest, bad = False\<rparr> = (x, \<lparr>words_left = rest, bad = False\<rparr>))"

lemma reads_next: "reads w [w] next_word"
  by (simp add: reads_def next_word_def)

lemma reads_return: "reads x [] (State_Monad.return x)"
  by (simp add: reads_def)

lemma reads_bind: "reads x ws f \<Longrightarrow> reads y vs (g x) \<Longrightarrow> reads y (ws @ vs) (f \<bind> g)"
  by (simp add: reads_def State_Monad.bind_def)

lemma reads_bind_next: "reads y vs (g w) \<Longrightarrow> reads y (w # vs) (next_word \<bind> g)"
  using reads_bind [OF reads_next, of y vs g w] by simp

lemma reads_times:
  "(\<And>x. x \<in> set xs \<Longrightarrow> reads x (enc x) f) \<Longrightarrow> reads xs (concat (map enc xs)) (read_times (length xs) f)"
proof (induction xs)
  case (Cons x xs)
  have "reads (x # xs) (enc x @ concat (map enc xs) @ []) (do { x \<leftarrow> f; xs \<leftarrow> read_times (length xs) f; State_Monad.return (x # xs) })"
    by (rule reads_bind [where x = x], use Cons in simp, rule reads_bind [where x = xs], use Cons in simp, rule reads_return)
  then show ?case by (simp add: reads_def is_bad_def State_Monad.bind_def)
qed (simp add: reads_return)

definition counted_words :: "('a \<Rightarrow> u64 list) \<Rightarrow> 'a list \<Rightarrow> u64 list" where
  "counted_words enc xs = of_nat (length xs) # concat (map enc xs)"

lemma reads_counted:
  assumes "length xs < 2 ^ 64" "\<And>x. x \<in> set xs \<Longrightarrow> reads x (enc x) f"
  shows "reads xs (counted_words enc xs) (read_counted f)"
proof -
  have "unat (of_nat (length xs) :: u64) = length xs" using assms(1) by (simp add: unat_of_nat take_bit_eq_mod)
  then show ?thesis unfolding read_counted_def counted_words_def
    by (intro reads_bind_next) (use reads_times [of xs enc f] assms(2) in simp)
qed

text \<open>The words of an entry, as \<open>src/Bap/Primus/Lifted.lean\<close> writes them.\<close>

definition pair_words :: "u64 \<times> u64 \<Rightarrow> u64 list" where
  "pair_words p = [fst p, snd p]"

definition output_words :: "chain_output \<Rightarrow> u64 list" where
  "output_words out = [out_variable out, out_slot out, out_width out]"

definition checkpoint_words :: "u64 \<times> chain_output list \<Rightarrow> u64 list" where
  "checkpoint_words cp = fst cp # counted_words output_words (snd cp)"

definition entry_words :: "chain_entry \<Rightarrow> u64 list" where
  "entry_words e = [of_nat (slotCount e), effectSlot e, budgetSlot e, observedSlot e, executions e, optimizeAt e] @
     counted_words (\<lambda>w. [w]) (zeroed e) @ counted_words pair_words (layout e) @ counted_words (\<lambda>w. [w]) (required e) @
     counted_words output_words (outputs e) @ counted_words pair_words (flags e) @ counted_words checkpoint_words (checkpoints e)"

text \<open>An entry as it is before it is added: small enough to count, its outputs with no flags, its checkpoints apart.\<close>

definition plain_entry :: "chain_entry \<Rightarrow> bool" where
  "plain_entry e \<longleftrightarrow> slotCount e < 2 ^ 64 \<and> length (zeroed e) < 2 ^ 64 \<and> length (layout e) < 2 ^ 64 \<and> length (required e) < 2 ^ 64 \<and>
     length (outputs e) < 2 ^ 64 \<and> length (flags e) < 2 ^ 64 \<and> length (checkpoints e) < 2 ^ 64 \<and>
     (\<forall>cp \<in> set (checkpoints e). length (snd cp) < 2 ^ 64) \<and> distinct (map fst (checkpoints e)) \<and>
     (\<forall>out \<in> set (outputs e). out_flag out = none_word) \<and> (\<forall>cp \<in> set (checkpoints e). \<forall>out \<in> set (snd cp). out_flag out = none_word)"

lemma reads_pair: "reads p (pair_words p) read_pair"
proof -
  have "reads (fst p, snd p) (fst p # snd p # []) read_pair" unfolding read_pair_def by (intro reads_bind_next reads_return)
  then show ?thesis by (simp add: pair_words_def)
qed

lemma reads_output: "out_flag out = none_word \<Longrightarrow> reads out (output_words out) read_output"
proof -
  assume f: "out_flag out = none_word"
  have "reads \<lparr>out_variable = out_variable out, out_slot = out_slot out, out_width = out_width out, out_flag = none_word\<rparr>
      (out_variable out # out_slot out # out_width out # []) read_output"
    unfolding read_output_def by (intro reads_bind_next reads_return)
  then show ?thesis using f by (cases out) (simp add: output_words_def)
qed

lemma reads_outputs:
  "length os < 2 ^ 64 \<Longrightarrow> \<forall>out \<in> set os. out_flag out = none_word \<Longrightarrow> reads os (counted_words output_words os) read_outputs"
  unfolding read_outputs_def by (intro reads_counted) (simp_all add: reads_output)

lemma reads_checkpoint:
  assumes "length (snd cp) < 2 ^ 64" "\<forall>out \<in> set (snd cp). out_flag out = none_word"
  shows "reads cp (checkpoint_words cp) read_checkpoint"
proof -
  have "reads (fst cp, snd cp) (fst cp # counted_words output_words (snd cp) @ []) read_checkpoint"
    unfolding read_checkpoint_def by (intro reads_bind_next reads_bind [OF reads_outputs [OF assms]] reads_return)
  then show ?thesis by (simp add: checkpoint_words_def)
qed

lemma put_checkpoints: "distinct (map fst (done @ cps)) \<Longrightarrow> foldl (\<lambda>cps cp. put_checkpoint cp cps) done cps = done @ cps"
proof (induction cps arbitrary: "done")
  case (Cons cp cps)
  have "put_checkpoint cp done = done @ [cp]" if "fst cp \<notin> fst ` set done" for "done"
    using that by (induction cp "done" rule: put_checkpoint.induct) auto
  then show ?case using Cons by simp
qed simp

text \<open>What reading makes of an entry: its own fields, and nothing of what adding and running put there.\<close>

definition entry_read :: "u64 \<Rightarrow> chain_entry \<Rightarrow> chain_entry" where
  "entry_read eid e = e\<lparr>node := 0, program_object := 0, code := unoptimized \<lparr>blocks = (\<lambda>_. []), dispatch = None, maxSlot = 0, memoryStores = 0\<rparr>,
     entry_id := eid, flagged := [], lastNext := none_word, lastTarget := None, entry_direct := False, outputsSaid := 0, readyIn := 0,
     touched := False, runs := 0, executed := 0\<rparr>"

lemma reads_entry:
  assumes "plain_entry e"
  shows "reads (entry_read eid e) (entry_words e) (read_entry eid)"
proof -
  have n: "unat (of_nat (slotCount e) :: u64) = slotCount e" using assms by (simp add: plain_entry_def unat_of_nat take_bit_eq_mod)
  have cps: "foldl (\<lambda>cps cp. put_checkpoint cp cps) [] (checkpoints e) = checkpoints e"
    using put_checkpoints [of "[]" "checkpoints e"] assms by (simp add: plain_entry_def)
  note c = reads_counted [OF _ reads_next] reads_counted [OF _ reads_pair]
  have r: "reads (zeroed e) (counted_words (\<lambda>w. [w]) (zeroed e)) (read_counted next_word)"
      "reads (layout e) (counted_words pair_words (layout e)) (read_counted read_pair)"
      "reads (required e) (counted_words (\<lambda>w. [w]) (required e)) (read_counted next_word)"
      "reads (outputs e) (counted_words output_words (outputs e)) read_outputs"
      "reads (flags e) (counted_words pair_words (flags e)) (read_counted read_pair)"
      "reads (checkpoints e) (counted_words checkpoint_words (checkpoints e)) (read_counted read_checkpoint)"
    using assms c reads_outputs [of "outputs e"] reads_counted [of "checkpoints e" checkpoint_words read_checkpoint]
      reads_checkpoint by (auto simp: plain_entry_def)
  have "reads (entry_read eid e) (of_nat (slotCount e) # effectSlot e # budgetSlot e # observedSlot e # executions e # optimizeAt e #
     counted_words (\<lambda>w. [w]) (zeroed e) @ counted_words pair_words (layout e) @ counted_words (\<lambda>w. [w]) (required e) @
     counted_words output_words (outputs e) @ counted_words pair_words (flags e) @ counted_words checkpoint_words (checkpoints e) @ []) (read_entry eid)"
    unfolding read_entry_def
    by (intro reads_bind_next reads_bind [OF r(1)] reads_bind [OF r(2)] reads_bind [OF r(3)] reads_bind [OF r(4)] reads_bind [OF r(5)]
        reads_bind [OF r(6)]) (cases e, use n cps in \<open>simp add: entry_read_def reads_return\<close>)
  then show ?thesis by (simp add: entry_words_def)
qed

section \<open>Chains that are well-formed\<close>

text \<open>
  Each entry at its pc and with an address of its own, every pointer to an entry that is there and at the pc that it
  was found at, a reference for each entry, and entries whose slots are within their states.
\<close>

definition flag_fits :: "nat \<Rightarrow> chain_output \<Rightarrow> bool" where
  "flag_fits n out \<longleftrightarrow> fits n (out_flag out) \<and> output_fits n out"

definition entry_ok :: "chain_entry \<Rightarrow> bool" where
  "entry_ok e \<longleftrightarrow> entry_fits (code e) e \<and> entry_direct e = direct (code e) \<and>
     flagged e = filter (\<lambda>out. out_flag out \<noteq> none_word) (outputs e) \<and>
     (\<forall>out \<in> set (outputs e). flag_fits (slotCount e) out) \<and>
     (\<forall>cp \<in> set (checkpoints e). \<forall>out \<in> set (snd cp). flag_fits (slotCount e) out)"

definition pointers_ok :: "(u64 \<times> chain_entry) list \<Rightarrow> bool" where
  "pointers_ok es \<longleftrightarrow> (\<forall>(pc, e) \<in> set es. \<forall>n. lastTarget e = Some n \<longrightarrow> (\<exists>e'. (lastNext e, e') \<in> set es \<and> node e' = n))"

definition holds_count :: "(u64 \<times> chain_entry) list \<Rightarrow> nat \<Rightarrow> int" where
  "holds_count es a = int (length (filter (\<lambda>entry. program_object (snd entry) = a) es))"

definition chain_ok :: "chain \<Rightarrow> bool" where
  "chain_ok ch \<longleftrightarrow> distinct (map fst (entries ch)) \<and> distinct (map (\<lambda>entry. node (snd entry)) (entries ch)) \<and>
     (\<forall>(pc, e) \<in> set (entries ch). node e < next_node ch \<and> entry_ok e) \<and> pointers_ok (entries ch) \<and>
     references ch = holds_count (entries ch)"

lemma chain_create_ok: "chain_ok chain_create"
  by (simp add: chain_ok_def chain_create_def pointers_ok_def holds_count_def fun_eq_iff)

lemma dec_refs:
  "references (foldl (\<lambda>ch entry. dec_ref (program_object (snd entry)) ch) ch es) a = references ch a - holds_count es a"
  "entries (foldl (\<lambda>ch entry. dec_ref (program_object (snd entry)) ch) ch es) = entries ch"
  by (induction es arbitrary: ch) (auto simp: dec_ref_def holds_count_def)

lemma chain_clear_ok: "chain_ok ch \<Longrightarrow> chain_ok (chain_clear ch) \<and> (\<forall>a. references (chain_clear ch) a = 0)"
  by (simp add: chain_ok_def chain_clear_def pointers_ok_def holds_count_def fun_eq_iff dec_refs(1) [unfolded holds_count_def])

lemma find_entry_in: "find_entry ch pc = Some e \<Longrightarrow> (pc, e) \<in> set (entries ch)"
  by (simp add: find_entry_def map_of_SomeD)

text \<open>A change of an entry in place that leaves its pc, address and slots, and its pointer or sets it to what is there.\<close>

definition harmless :: "(chain_entry \<Rightarrow> chain_entry) \<Rightarrow> bool" where
  "harmless f \<longleftrightarrow> (\<forall>e. node (f e) = node e \<and> program_object (f e) = program_object e \<and> (entry_ok e \<longrightarrow> entry_ok (f e)))"

definition points_to :: "(u64 \<times> chain_entry) list \<Rightarrow> chain_entry \<Rightarrow> bool" where
  "points_to es e \<longleftrightarrow> (\<forall>n. lastTarget e = Some n \<longrightarrow> (\<exists>e'. (lastNext e, e') \<in> set es \<and> node e' = n))"

lemma pointers_ok_iff: "pointers_ok es \<longleftrightarrow> (\<forall>(pc, e) \<in> set es. points_to es e)"
  by (simp add: pointers_ok_def points_to_def)

lemma put_entry_map:
  assumes "harmless f"
  shows "map fst (entries (put_entry n f ch)) = map fst (entries ch)"
    "map (\<lambda>entry. node (snd entry)) (entries (put_entry n f ch)) = map (\<lambda>entry. node (snd entry)) (entries ch)"
    "map (\<lambda>entry. program_object (snd entry)) (entries (put_entry n f ch)) = map (\<lambda>entry. program_object (snd entry)) (entries ch)"
    "map (\<lambda>entry. (fst entry, node (snd entry))) (entries (put_entry n f ch)) = map (\<lambda>entry. (fst entry, node (snd entry))) (entries ch)"
  using assms by (auto simp: put_entry_def harmless_def)

lemma holds_count_map: "holds_count es a = int (length (filter (\<lambda>x. x = a) (map (\<lambda>entry. program_object (snd entry)) es)))"
  by (simp add: holds_count_def filter_map o_def)

lemma points_to_map:
  "map (\<lambda>entry. (fst entry, node (snd entry))) es = map (\<lambda>entry. (fst entry, node (snd entry))) es' \<Longrightarrow> points_to es e = points_to es' e"
proof -
  assume "map (\<lambda>entry. (fst entry, node (snd entry))) es = map (\<lambda>entry. (fst entry, node (snd entry))) es'"
  then have "(\<lambda>entry. (fst entry, node (snd entry))) ` set es = (\<lambda>entry. (fst entry, node (snd entry))) ` set es'"
    by (metis set_map)
  moreover have in_map: "(\<exists>e'. (pc, e') \<in> set xs \<and> node e' = n) \<longleftrightarrow> (pc, n) \<in> (\<lambda>entry. (fst entry, node (snd entry))) ` set xs" for pc n xs
    by force
  ultimately show ?thesis unfolding points_to_def in_map by simp
qed

lemma put_entry_ok:
  assumes "chain_ok ch" "harmless f" "\<And>pc e. (pc, e) \<in> set (entries ch) \<Longrightarrow> node e = n \<Longrightarrow> points_to (entries ch) (f e)"
  shows "chain_ok (put_entry n f ch)"
proof -
  have "holds_count (entries (put_entry n f ch)) = holds_count (entries ch)"
    by (rule ext) (simp add: holds_count_map put_entry_map [OF assms(2)])
  moreover have "pointers_ok (entries (put_entry n f ch))"
    using assms(1,3) unfolding pointers_ok_iff points_to_map [OF put_entry_map(4) [OF assms(2)]]
    by (auto simp: put_entry_def chain_ok_def pointers_ok_iff)
  moreover have "node e < next_node ch \<and> entry_ok e" if "(pc, e) \<in> set (entries (put_entry n f ch))" for pc e
    using that assms(1,2) by (fastforce simp: put_entry_def chain_ok_def harmless_def split: if_splits)
  moreover have "references (put_entry n f ch) = references ch" "next_node (put_entry n f ch) = next_node ch" by (simp_all add: put_entry_def)
  ultimately show ?thesis using assms(1) unfolding chain_ok_def put_entry_map [OF assms(2)] by auto
qed

lemma chain_optimizing_ok:
  assumes "chain_ok ch"
  shows "chain_ok (chain_optimizing pc extra ch)"
proof (cases "find_entry ch pc")
  case (Some e)
  have "points_to (entries ch) e" if "(pc, e) \<in> set (entries ch)" for pc e using assms that by (auto simp: chain_ok_def pointers_ok_iff)
  then have "chain_ok (put_entry (node e) (\<lambda>e. e\<lparr>optimizeAt := executions e + extra\<rparr>) ch)"
    by (intro put_entry_ok [OF assms]) (auto simp: harmless_def entry_ok_def entry_fits_def points_to_def)
  then show ?thesis using Some by (simp add: chain_optimizing_def)
qed (use assms in \<open>simp add: chain_optimizing_def\<close>)

lemma flag_outputs_ok:
  assumes "entry_fits p e" "\<forall>out \<in> set (outputs e). out_flag out = none_word" "\<forall>cp \<in> set (checkpoints e). \<forall>out \<in> set (snd cp). out_flag out = none_word"
  shows "entry_ok ((flag_outputs e)\<lparr>node := n, program_object := a, code := p, entry_direct := direct p\<rparr>)"
proof -
  have flag: "flag_fits (slotCount e) (flagOf (flags e) out)" if "output_fits (slotCount e) out" "out_flag out = none_word" for out
  proof (cases "map_of (flags e) (out_slot out)")
    case (Some flag)
    then have "(out_slot out, flag) \<in> set (flags e)" by (rule map_of_SomeD)
    then have "unat flag < slotCount e" using assms(1) by (auto simp: entry_fits_def list_all_iff)
    then show ?thesis using that Some by (simp add: flagOf_def flag_fits_def fits_def output_fits_def)
  qed (use that in \<open>simp add: flagOf_def flag_fits_def fits_def output_fits_def\<close>)
  have fit: "output_fits m (flagOf fs out) = output_fits m out" for m fs out
    by (simp add: flagOf_def output_fits_def split: option.split)
  show ?thesis unfolding entry_ok_def
  proof (intro conjI)
    show "entry_fits (code ((flag_outputs e)\<lparr>node := n, program_object := a, code := p, entry_direct := direct p\<rparr>))
        ((flag_outputs e)\<lparr>node := n, program_object := a, code := p, entry_direct := direct p\<rparr>)"
      using assms(1) by (auto simp: entry_fits_def flag_outputs_def Let_def list_all_iff fit)
  qed (use assms flag in \<open>fastforce simp: flag_outputs_def Let_def entry_fits_def list_all_iff\<close>)+
qed

lemma distinct_map_filter: "distinct (map f xs) \<Longrightarrow> distinct (map f (filter P xs))"
  by (induction xs) auto

lemma holds_count_erase:
  assumes "distinct (map fst es)" "map_of es pc = Some e"
  shows "holds_count (filter (\<lambda>entry. fst entry \<noteq> pc) (map (\<lambda>(pc, e). (pc, e\<lparr>lastTarget := None\<rparr>)) es)) =
    (holds_count es)(program_object e := holds_count es (program_object e) - 1)"
  using assms
proof (induction es)
  case (Cons x es)
  obtain q y where x: "x = (q, y)" by (cases x)
  show ?case
  proof (cases "q = pc")
    case True
    then have "e = y" "pc \<notin> fst ` set es" using Cons.prems x by simp_all
    then have "filter (\<lambda>entry. fst entry \<noteq> pc) (map (\<lambda>(pc, e). (pc, e\<lparr>lastTarget := None\<rparr>)) es) = map (\<lambda>(pc, e). (pc, e\<lparr>lastTarget := None\<rparr>)) es"
      by (force simp: filter_id_conv)
    moreover have "holds_count (map (\<lambda>(pc, e). (pc, e\<lparr>lastTarget := None\<rparr>)) es) = holds_count es"
      by (rule ext) (simp add: holds_count_map o_def case_prod_beta)
    ultimately show ?thesis using True x \<open>e = y\<close> by (auto simp: holds_count_def fun_eq_iff)
  next
    case False
    have step: "holds_count ((p, z) # zs) = (holds_count zs)(program_object z := holds_count zs (program_object z) + 1)" for p z zs
      by (auto simp: holds_count_def fun_eq_iff)
    have "map_of es pc = Some e" "distinct (map fst es)" using Cons.prems x False by simp_all
    then show ?thesis using Cons.IH x False by (simp add: step fun_eq_iff)
  qed
qed simp

text \<open>What reading gives has no flags and no pointer yet.\<close>

lemma read_times_all:
  assumes "run_state (read_times n f) r = (xs, r')" "\<And>r x r'. run_state f r = (x, r') \<Longrightarrow> P x"
  shows "\<forall>x \<in> set xs. P x"
  using assms(1)
proof (induction n arbitrary: r xs)
  case (Suc n)
  obtain x r1 where 1: "run_state f r = (x, r1)" by fastforce
  obtain ys r2 where 2: "run_state (read_times n f) r1 = (ys, r2)" by fastforce
  show ?case using Suc 1 2 assms(2) [OF 1] by (auto simp: is_bad_def State_Monad.bind_def split: if_splits)
qed simp

lemma read_counted_all:
  assumes "run_state (read_counted f) r = (xs, r')" "\<And>r x r'. run_state f r = (x, r') \<Longrightarrow> P x"
  shows "\<forall>x \<in> set xs. P x"
  using assms(1) read_times_all [OF _ assms(2)] by (force simp: read_counted_def State_Monad.bind_def split: prod.splits)

lemma read_outputs_flags: "run_state read_outputs r = (os, r') \<Longrightarrow> \<forall>out \<in> set os. out_flag out = none_word"
  unfolding read_outputs_def
  by (erule read_counted_all) (auto simp: read_output_def State_Monad.bind_def split: prod.splits)

lemma put_checkpoint_flags:
  "\<forall>cp \<in> set cps. \<forall>out \<in> set (snd cp). P out \<Longrightarrow> \<forall>out \<in> set (snd cp). P out \<Longrightarrow>
   \<forall>cp \<in> set (put_checkpoint cp cps). \<forall>out \<in> set (snd cp). P out"
  by (induction cp cps rule: put_checkpoint.induct) auto

lemma put_checkpoints_flags:
  "\<forall>cp \<in> set cps. \<forall>out \<in> set (snd cp). P out \<Longrightarrow> \<forall>cp \<in> set new. \<forall>out \<in> set (snd cp). P out \<Longrightarrow>
   \<forall>cp \<in> set (foldl (\<lambda>cps cp. put_checkpoint cp cps) cps new). \<forall>out \<in> set (snd cp). P out"
proof (induction new arbitrary: cps)
  case (Cons cp new)
  have p: "\<forall>out \<in> set (snd cp). P out" "\<forall>cp \<in> set new. \<forall>out \<in> set (snd cp). P out"
    using Cons.prems(2) unfolding list.set(2) by blast+
  show ?case using Cons.IH [OF put_checkpoint_flags [OF Cons.prems(1) p(1)] p(2)] by (simp only: foldl_Cons)
qed simp

lemma bindE:
  assumes "run_state (f \<bind> g) r = (y, r')"
  obtains x r1 where "run_state f r = (x, r1)" "run_state (g x) r1 = (y, r')"
  using assms by (cases "run_state f r") (simp add: State_Monad.bind_def)

lemma read_entry_fields:
  assumes "run_state (read_entry eid) r = (e, r')"
  shows "lastTarget e = None" "\<exists>r1 r2. run_state read_outputs r1 = (outputs e, r2)"
    "\<exists>r1 cps r2. run_state (read_counted read_checkpoint) r1 = (cps, r2) \<and> checkpoints e = foldl (\<lambda>cps cp. put_checkpoint cp cps) [] cps"
  using assms unfolding read_entry_def by (elim bindE, simp only: run_state_return prod.inject, fastforce)+

lemmas read_entry_pointer = read_entry_fields(1)

lemma read_entry_flags:
  assumes "run_state (read_entry eid) r = (e, r')"
  shows "\<forall>out \<in> set (outputs e). out_flag out = none_word"
    "\<forall>cp \<in> set (checkpoints e). \<forall>out \<in> set (snd cp). out_flag out = none_word"
proof -
  show "\<forall>out \<in> set (outputs e). out_flag out = none_word" using read_entry_fields(2) [OF assms] read_outputs_flags by blast
  obtain r1 cps r2 where c: "run_state (read_counted read_checkpoint) r1 = (cps, r2)"
      "checkpoints e = foldl (\<lambda>cps cp. put_checkpoint cp cps) [] cps" using read_entry_fields(3) [OF assms] by blast
  have "\<forall>out \<in> set (snd cp). out_flag out = none_word" if "run_state read_checkpoint r = (cp, r')" for r cp r'
    using that read_outputs_flags by (auto simp: read_checkpoint_def State_Monad.bind_def split: prod.splits)
  then have "\<forall>cp \<in> set cps. \<forall>out \<in> set (snd cp). out_flag out = none_word"
    by (rule read_counted_all [where P = "\<lambda>cp. \<forall>out \<in> set (snd cp). out_flag out = none_word", OF c(1)])
  from put_checkpoints_flags [of "[]" "\<lambda>out. out_flag out = none_word", OF _ this]
  show "\<forall>cp \<in> set (checkpoints e). \<forall>out \<in> set (snd cp). out_flag out = none_word" unfolding c(2) by simp
qed

text \<open>Erasing leaves no pointer, and one reference less.\<close>

lemma erase_entry_ok:
  assumes "chain_ok ch"
  shows "chain_ok (erase_entry pc ch)" "find_entry (erase_entry pc ch) pc = None"
    "pc' \<noteq> pc \<Longrightarrow> find_entry (erase_entry pc ch) pc' = None \<longleftrightarrow> find_entry ch pc' = None"
proof -
  let ?clear = "\<lambda>(pc, e). (pc, e\<lparr>lastTarget := None\<rparr>)" and ?es = "entries ch"
  let ?left = "filter (\<lambda>entry. fst entry \<noteq> pc) (map ?clear ?es)"
  show "chain_ok (erase_entry pc ch)"
  proof (cases "find_entry ch pc")
    case (Some e)
    have er: "entries (erase_entry pc ch) = ?left" "next_node (erase_entry pc ch) = next_node ch"
        "references (erase_entry pc ch) = (references ch)(program_object e := references ch (program_object e) - 1)"
      using Some by (simp_all add: erase_entry_def dec_ref_def)
    have "pointers_ok ?left" by (auto simp: pointers_ok_def)
    moreover have "holds_count ?left = (holds_count ?es)(program_object e := holds_count ?es (program_object e) - 1)"
      using holds_count_erase Some assms by (simp add: chain_ok_def find_entry_def)
    moreover have "distinct (map fst ?left)" "distinct (map (\<lambda>entry. node (snd entry)) ?left)"
    proof -
      have "map fst (map ?clear ?es) = map fst ?es" "map (\<lambda>entry. node (snd entry)) (map ?clear ?es) = map (\<lambda>entry. node (snd entry)) ?es"
        by auto
      then have d: "distinct (map fst (map ?clear ?es))" "distinct (map (\<lambda>entry. node (snd entry)) (map ?clear ?es))"
        using assms by (simp_all only: chain_ok_def)
      show "distinct (map fst ?left)" "distinct (map (\<lambda>entry. node (snd entry)) ?left)"
        by (rule distinct_map_filter [OF d(1)], rule distinct_map_filter [OF d(2)])
    qed
    moreover have "node e < next_node ch \<and> entry_ok e" if "(pc', e) \<in> set ?left" for pc' e
      using that assms by (auto simp: chain_ok_def entry_ok_def entry_fits_def)
    ultimately show ?thesis using assms by (auto simp: chain_ok_def er)
  qed (use assms in \<open>simp add: erase_entry_def\<close>)
  show "find_entry (erase_entry pc ch) pc = None"
    by (auto simp: erase_entry_def find_entry_def map_of_eq_None_iff split: option.split)
  show "find_entry (erase_entry pc ch) pc' = None \<longleftrightarrow> find_entry ch pc' = None" if "pc' \<noteq> pc"
    using that by (force simp: erase_entry_def find_entry_def map_of_eq_None_iff split: option.split)
qed

lemma chain_add_ok:
  assumes "chain_ok ch" "chain_add pc eid object p data ch = Some ch'"
  shows "chain_ok ch'"
proof -
  obtain e r where r: "run_state (read_entry eid) \<lparr>words_left = data, bad = False\<rparr> = (e, r)" by fastforce
  let ?ch = "inc_ref object (erase_entry pc ch)"
  let ?e = "(flag_outputs e)\<lparr>node := next_node ?ch, program_object := object, code := p, entry_direct := direct p\<rparr>"
  have a: "entry_fits p e" "ch' = ?ch\<lparr>entries := (pc, ?e) # entries ?ch, next_node := next_node ?ch + 1\<rparr>"
    using assms(2) r by (auto simp: chain_add_def Let_def split: if_splits)
  note er = erase_entry_ok [OF assms(1), where pc = pc]
  have e: "entry_ok ?e" using flag_outputs_ok [OF a(1)] read_entry_flags [OF r] by blast
  have n: "lastTarget ?e = None" using read_entry_pointer [OF r] by (simp add: flag_outputs_def Let_def)
  have ch: "entries ?ch = entries (erase_entry pc ch)" "next_node ?ch = next_node (erase_entry pc ch)"
      "references ?ch = (references (erase_entry pc ch))(object := references (erase_entry pc ch) object + 1)" by (simp_all add: inc_ref_def)
  have "pc \<notin> fst ` set (entries ?ch)" using er(2) by (simp add: find_entry_def map_of_eq_None_iff ch)
  moreover have "node x < next_node ?ch" if "(q, x) \<in> set (entries ?ch)" for q x
    using er(1) that by (auto simp: chain_ok_def ch)
  moreover have "pointers_ok ((pc, ?e) # entries ?ch)"
    using er(1) n by (fastforce simp: chain_ok_def pointers_ok_def ch)
  moreover have "holds_count ((pc, ?e) # entries ?ch) = (holds_count (entries ?ch))(object := holds_count (entries ?ch) object + 1)"
    by (auto simp: holds_count_def fun_eq_iff)
  ultimately show ?thesis
    using er(1) e unfolding a(2) by (fastforce simp: chain_ok_def ch less_Suc_eq)
qed

end
