(* ===== verification/ChainRun.thy ===== *)
theory ChainRun
  imports ChainEntries JitRun JitPromote
begin

text \<open>
  \<open>bap_jit_run_chain\<close> of \<open>native/bap_jit.cpp\<close>: a run of a range of a chain and of those that it goes on to. A turn
  of its loop, \<open>chain_step\<close>, is the run of one range, what that wrote and how much of the budget it took, and
  the state that the next range starts with. The loop ends with the state of the run (\<open>Ended\<close>), with the error of an
  observer (\<open>Chain_failed\<close>) or with an exception; a range that never returns is None, and an access outside an array or
  to an entry that is gone is \<open>Chain_undefined\<close>. Observers are taken to leave the chain of the run alone.
\<close>

section \<open>The variables between ranges\<close>

record variables =
  regs :: "u64 list"
  bound :: "nat list"
  dirty :: "u64 list"

definition resize :: "nat \<Rightarrow> 'a \<Rightarrow> 'a list \<Rightarrow> 'a list" where
  "resize n x xs = take n xs @ replicate (n - length xs) x"

text \<open>As \<open>variable + 1\<close> wraps, the variable with all ones has no register after this.\<close>

definition ensure_variable :: "u64 \<Rightarrow> variables \<Rightarrow> variables" where
  "ensure_variable v vs =
     (if length (regs vs) \<le> unat v
      then vs\<lparr>regs := resize (unat (v + 1)) 0 (regs vs), bound := resize (unat (v + 1)) 0 (bound vs)\<rparr>
      else vs)"

definition bind_variable :: "u64 \<Rightarrow> u64 \<Rightarrow> variables \<Rightarrow> variables option" where
  "bind_variable v x vs =
     (let vs1 = ensure_variable v vs
      in if unat v < length (regs vs1) \<and> unat v < length (bound vs1)
         then Some (vs1\<lparr>regs := (regs vs1)[unat v := x], bound := (bound vs1)[unat v := 1]\<rparr>)
         else None)"

fun bind_variables :: "u64 list \<Rightarrow> u64 list \<Rightarrow> variables \<Rightarrow> variables option" where
  "bind_variables [] xs vs = Some vs"
| "bind_variables (v # us) [] vs = None"
| "bind_variables (v # us) (x # xs) vs =
     (case bind_variable v x vs of None \<Rightarrow> None | Some vs1 \<Rightarrow> bind_variables us xs vs1)"

definition start_variables :: "u64 \<Rightarrow> variables" where
  "start_variables count =
     (let vs = \<lparr>regs = [], bound = [], dirty = []\<rparr> in if count \<noteq> 0 then ensure_variable (count - 1) vs else vs)"

definition cut :: "u64 \<Rightarrow> u64 \<Rightarrow> u64" where
  "cut width x = (if width < 64 then x AND (push_bit (unat width) 1 - 1) else x)"

text \<open>An output whose flag says so, or that has none, is written: \<open>copy\<close> is whether its value is in a slot.\<close>

definition is_written :: "u64 list \<Rightarrow> chain_output \<Rightarrow> bool" where
  "is_written st out \<longleftrightarrow> out_flag out = none_word \<or> st ! unat (out_flag out) \<noteq> 0"

definition mark_output :: "bool \<Rightarrow> u64 list \<Rightarrow> chain_output \<Rightarrow> variables \<Rightarrow> variables option" where
  "mark_output copy st out vs =
     (let v = unat (out_variable out); vs1 = ensure_variable (out_variable out) vs
      in if \<not> is_written st out then Some vs
         else if length (regs vs1) \<le> v \<or> length (bound vs1) \<le> v then None
         else Some (vs1\<lparr>regs := (if copy then (regs vs1)[v := cut (out_width out) (st ! unat (out_slot out))] else regs vs1),
                        dirty := (if bound vs1 ! v \<noteq> 2 then dirty vs1 @ [out_variable out] else dirty vs1),
                        bound := (bound vs1)[v := 2]\<rparr>))"

fun mark_outputs :: "bool \<Rightarrow> u64 list \<Rightarrow> chain_output list \<Rightarrow> variables \<Rightarrow> variables option" where
  "mark_outputs copy st [] vs = Some vs"
| "mark_outputs copy st (out # os) vs =
     (case mark_output copy st out vs of None \<Rightarrow> None | Some vs1 \<Rightarrow> mark_outputs copy st os vs1)"

definition is_bound :: "variables \<Rightarrow> u64 \<Rightarrow> bool" where
  "is_bound vs v \<longleftrightarrow> unat v < length (bound vs) \<and> bound vs ! unat v \<noteq> 0"

section \<open>The run\<close>

text \<open>\<open>current\<close> is the address of the entry of the range, and \<open>went\<close> what its run gave.\<close>

record ('x, 'e) chain_run =
  variables_of :: variables
  current :: nat
  first_range :: bool
  touched_nodes :: "nat list"
  run_state_array :: "u64 list"
  spare :: "u64 list"
  budget :: u64
  chained :: u64
  went :: u64
  run_cells_of :: "('x, 'e) cells"
  chain_of :: chain

datatype ('x, 'e) chain_end =
  Ended "('x, 'e) chain_run"
| Chain_failed "'e run_error" "('x, 'e) chain_run"
| Chain_threw "('x, 'e) chain_run"
| Chain_undefined

definition outputsAt :: "chain_entry \<Rightarrow> u64 \<Rightarrow> chain_output list" where
  "outputsAt e pc = (case map_of (checkpoints e) pc of Some os \<Rightarrow> os | None \<Rightarrow> outputs e)"

definition mark_written :: "bool \<Rightarrow> chain_entry \<Rightarrow> ('x, 'e) chain_run \<Rightarrow> ('x, 'e) chain_run option" where
  "mark_written copy e s =
     (let said = (\<not> copy \<and> map_of (checkpoints e) (went s) = None);
          run = run_number (chain_of s);
          os = (if said \<and> outputsSaid e = run then flagged e else outputsAt e (went s));
          ch = (if said then put_entry (node e) (\<lambda>e. e\<lparr>outputsSaid := run\<rparr>) (chain_of s) else chain_of s)
      in case mark_outputs copy (run_state_array s) os (variables_of s) of
           None \<Rightarrow> None
         | Some vs \<Rightarrow> Some (s\<lparr>variables_of := vs, chain_of := ch\<rparr>))"

definition slot_value :: "u64 \<Rightarrow> u64 \<Rightarrow> ('x, 'e) chain_run \<Rightarrow> u64" where
  "slot_value slot x s = (if slot = none_word then x else run_state_array s ! unat slot)"

definition ran_chained :: "chain_entry \<Rightarrow> ('x, 'e) chain_run \<Rightarrow> u64" where
  "ran_chained e s =
     (let left = slot_value (budgetSlot e) (budget s) s in if left \<le> budget s then budget s - left else 0)"

definition count_entry :: "u64 \<Rightarrow> chain_entry \<Rightarrow> chain_entry" where
  "count_entry n e = e\<lparr>executions := executions e + n, touched := True, runs := runs e + 1, executed := executed e + n\<rparr>"

definition count_range :: "chain_entry \<Rightarrow> ('x, 'e) chain_run \<Rightarrow> ('x, 'e) chain_run" where
  "count_range e s =
     s\<lparr>chain_of := put_entry (node e) (count_entry ((if first_range s then 0 else 1) + ran_chained e s)) (chain_of s),
       touched_nodes := (if touched e then touched_nodes s else touched_nodes s @ [node e]),
       first_range := False\<rparr>"

definition to_lean :: "chain_entry \<Rightarrow> ('x, 'e) chain_run \<Rightarrow> bool" where
  "to_lean e s \<longleftrightarrow> slot_value (effectSlot e) 0 s \<noteq> 1 \<or> leanRan (run_cells_of s) \<or> budgetSlot e = none_word \<or>
     budget s - ran_chained e s < 1"

text \<open>The range where a run went, which its entry remembers.\<close>

definition find_target :: "chain_entry \<Rightarrow> ('x, 'e) chain_run \<Rightarrow> (nat \<times> chain) option" where
  "find_target e s =
     (case (if lastNext e = went s then lastTarget e else None) of
        Some n \<Rightarrow> Some (n, chain_of s)
      | None \<Rightarrow>
          (case find_entry (chain_of s) (went s) of
             None \<Rightarrow> None
           | Some t \<Rightarrow>
               Some (node t, put_entry (node e) (\<lambda>e. e\<lparr>lastNext := went s, lastTarget := Some (node t)\<rparr>) (chain_of s))))"

definition to_optimize :: "chain_entry \<Rightarrow> bool" where
  "to_optimize t \<longleftrightarrow> optimizeAt t \<noteq> none_word \<and> optimizeAt t \<le> executions t + 1"

definition ready_range :: "chain_entry \<Rightarrow> ('x, 'e) chain_run \<Rightarrow> ('x, 'e) chain_run option" where
  "ready_range t s =
     (let run = run_number (chain_of s)
      in if readyIn t = run then Some s
         else if list_all (is_bound (variables_of s)) (required t)
         then Some (s\<lparr>chain_of := put_entry (node t) (\<lambda>e. e\<lparr>readyIn := run\<rparr>) (chain_of s)\<rparr>)
         else None)"

definition put_slot :: "u64 \<Rightarrow> u64 \<Rightarrow> u64 list \<Rightarrow> u64 list" where
  "put_slot slot x st = (if slot = none_word then st else st[unat slot := x])"

definition put_layout :: "variables \<Rightarrow> (u64 \<times> u64) list \<Rightarrow> u64 list \<Rightarrow> u64 list" where
  "put_layout vs bindings st =
     foldl (\<lambda>st binding. if is_bound vs (fst binding) then st[unat (snd binding) := regs vs ! unat (fst binding)] else st) st bindings"

definition start_slots :: "chain_entry \<Rightarrow> u64 \<Rightarrow> variables \<Rightarrow> u64 list \<Rightarrow> u64 list" where
  "start_slots t b vs st =
     (let st1 = foldl (\<lambda>st slot. st[unat slot := 0]) (resize (slotCount t) 0 st) (zeroed t);
          st2 = (if entry_direct t then st1 else put_layout vs (layout t) st1)
      in put_slot (observedSlot t) 0 (put_slot (budgetSlot t) b st2))"

definition enter_range :: "chain_entry \<Rightarrow> u64 \<Rightarrow> ('x, 'e) chain_run \<Rightarrow> ('x, 'e) chain_run" where
  "enter_range t used s =
     (let b = budget s - used - 1;
          b = (if optimizeAt t \<noteq> none_word then min b (optimizeAt t - (executions t + 1)) else b)
      in s\<lparr>chained := chained s + (used + 1), budget := b, current := node t,
           run_state_array := start_slots t b (variables_of s) (spare s), spare := run_state_array s\<rparr>)"

definition go_on :: "chain_entry \<Rightarrow> ('x, 'e) chain_run \<Rightarrow> ('x, 'e) chain_run + ('x, 'e) chain_end" where
  "go_on e s =
     (case find_target e s of
        None \<Rightarrow> Inr (Ended s)
      | Some (n, ch) \<Rightarrow>
          (case entry_at ch n of
             None \<Rightarrow> Inr Chain_undefined
           | Some t \<Rightarrow>
               let s1 = s\<lparr>chain_of := ch\<rparr>
               in if to_optimize t then Inr (Ended s1)
                  else case (if entry_direct e then Some s1 else mark_written True e s1) of
                         None \<Rightarrow> Inr Chain_undefined
                       | Some s2 \<Rightarrow>
                           (case ready_range t s2 of
                              None \<Rightarrow> Inr (Ended s2)
                            | Some s3 \<Rightarrow> Inl (enter_range t (ran_chained e s) s3))))"

definition after_range :: "chain_entry \<Rightarrow> ('x, 'e) chain_run \<Rightarrow> ('x, 'e) chain_run + ('x, 'e) chain_end" where
  "after_range e s =
     (case error (run_cells_of s) of
        Some err \<Rightarrow> Inr (Chain_failed err s)
      | None \<Rightarrow>
          (case (if entry_direct e then mark_written False e s else Some s) of
             None \<Rightarrow> Inr Chain_undefined
           | Some s1 \<Rightarrow> if to_lean e s1 then Inr (Ended (count_range e s1)) else go_on e (count_range e s1)))"

text \<open>A program that has its variables in the registers writes them there.\<close>

definition range_cells :: "chain_entry \<Rightarrow> ('x, 'e) chain_run \<Rightarrow> ('x, 'e) cells" where
  "range_cells e s = (run_cells_of s)\<lparr>pendingSite := False, slots := run_state_array s,
     registers := (if entry_direct e then Some (regs (variables_of s)) else None)\<rparr>"

definition range_ran :: "u64 \<Rightarrow> ('x, 'e) cells \<Rightarrow> ('x, 'e) chain_run \<Rightarrow> ('x, 'e) chain_run" where
  "range_ran v c s = s\<lparr>went := v, run_cells_of := c, run_state_array := slots c,
     variables_of := (case registers c of None \<Rightarrow> variables_of s | Some rs \<Rightarrow> (variables_of s)\<lparr>regs := rs\<rparr>)\<rparr>"

definition chain_step :: "host \<Rightarrow> bool \<Rightarrow> ('x, 'e) chain_run \<Rightarrow> (('x, 'e) chain_run + ('x, 'e) chain_end) option" where
  "chain_step h hb s =
     (case entry_at (chain_of s) (current s) of
        None \<Rightarrow> Some (Inr Chain_undefined)
      | Some e \<Rightarrow>
          (case run_compiled h hb (code e) (range_cells e s) of
             None \<Rightarrow> None
           | Some (Returned v c) \<Rightarrow> Some (after_range e (range_ran v c s))
           | Some Threw \<Rightarrow> Some (Inr (Chain_threw s))
           | Some Undefined_run \<Rightarrow> Some (Inr Chain_undefined)))"

section \<open>Its start and its end\<close>

datatype 'e chain_failure =
  No_chain_start | Chain_few_slots | Chain_error "'e run_error" | Chain_exception | Chain_undefined_behaviour

definition first_run ::
  "u64 \<Rightarrow> u64 list \<Rightarrow> bool \<Rightarrow> ('x, 'e) memory_observer option \<Rightarrow> ('x, 'e) code_observer option \<Rightarrow> 'x world \<Rightarrow>
   variables \<Rightarrow> nat \<Rightarrow> u64 \<Rightarrow> chain \<Rightarrow> ('x, 'e) chain_run" where
  "first_run ser state quiet obs cobs w vs n b ch =
     \<lparr>variables_of = vs, current = n, first_range = True, touched_nodes = [], run_state_array = state, spare = [],
      budget = b, chained = 0, went = 0,
      run_cells_of = (object_cells False [] ser quiet obs cobs w)\<lparr>slots_shown := False\<rparr>,
      chain_of = ch\<lparr>run_number := run_number ch + 1\<rparr>\<rparr>"

definition rest_entry :: "chain_entry \<Rightarrow> chain_entry" where
  "rest_entry e = e\<lparr>touched := False, runs := 0, executed := 0\<rparr>"

definition take_back :: "chain_entry \<Rightarrow> chain_entry" where
  "take_back e = rest_entry (e\<lparr>executions := executions e - min (executions e) (executed e)\<rparr>)"

definition for_touched :: "(chain_entry \<Rightarrow> chain_entry) \<Rightarrow> ('x, 'e) chain_run \<Rightarrow> chain" where
  "for_touched f s = foldl (\<lambda>ch n. put_entry n f ch) (chain_of s) (touched_nodes s)"

definition all_chained :: "chain_entry \<Rightarrow> ('x, 'e) chain_run \<Rightarrow> u64" where
  "all_chained e s = chained s +
     (if budgetSlot e \<noteq> none_word \<and> run_state_array s ! unat (budgetSlot e) \<le> budget s
      then budget s - run_state_array s ! unat (budgetSlot e) else 0)"

definition dirty_words :: "variables \<Rightarrow> u64 list" where
  "dirty_words vs = concat (map (\<lambda>v. [v, regs vs ! unat v]) (dirty vs))"

definition touched_words :: "('x, 'e) chain_run \<Rightarrow> u64 list" where
  "touched_words s = concat (map (\<lambda>n. case entry_at (chain_of s) n of
      None \<Rightarrow> [] | Some e \<Rightarrow> [entry_id e, runs e, executed e]) (touched_nodes s))"

definition run_info :: "chain_entry \<Rightarrow> ('x, 'e) chain_run \<Rightarrow> u64 list" where
  "run_info e s =
     [entry_id e, all_chained e s, if entry_direct e then 1 else 0, of_nat (length (dirty (variables_of s)))] @
     dirty_words (variables_of s) @ of_nat (length (touched_nodes s)) # touched_words s"

type_synonym chain_result = "u64 \<times> u64 list \<times> (u64 \<times> u8) list \<times> u64 list"

definition end_chain :: "('x, 'e) chain_end \<Rightarrow> chain \<Rightarrow> ('e chain_failure + chain_result) \<times> 'x world option \<times> chain" where
  "end_chain r ch0 =
     (case r of
        Ended s \<Rightarrow>
          (case entry_at (chain_of s) (current s) of
             None \<Rightarrow> (Inl Chain_undefined_behaviour, None, ch0)
           | Some e \<Rightarrow> (Inr (went s, run_state_array s, run_cells (run_cells_of s), run_info e s),
               Some (note_world (run_cells_of s)), for_touched rest_entry s))
      | Chain_failed err s \<Rightarrow> (Inl (Chain_error err), Some (note_world (run_cells_of s)), for_touched take_back s)
      | Chain_threw s \<Rightarrow> (Inl Chain_exception, None, chain_of s)
      | Chain_undefined \<Rightarrow> (Inl Chain_undefined_behaviour, None, ch0))"

definition run_chain_with ::
  "(('x, 'e) chain_run \<Rightarrow> (('x, 'e) chain_run + ('x, 'e) chain_end) option) \<Rightarrow> nat \<Rightarrow> u64 \<Rightarrow> u64 list \<Rightarrow> memory_filter \<Rightarrow> bool \<Rightarrow>
   ('x, 'e) memory_observer option \<Rightarrow> ('x, 'e) code_observer option \<Rightarrow> u64 \<Rightarrow> u64 \<Rightarrow> u64 \<Rightarrow> u64 list \<Rightarrow> u64 list \<Rightarrow> u64 \<Rightarrow>
   'x world \<Rightarrow> chain \<Rightarrow> (('e chain_failure + chain_result) \<times> 'x world option \<times> chain) option" where
  "run_chain_with step object ser state flt quiet obs cobs firstId firstPc firstBudget vars vals count w ch =
     (case bind_variables vars vals (start_variables count) of
        None \<Rightarrow> Some (Inl Chain_undefined_behaviour, None, ch)
      | Some vs \<Rightarrow>
          (case find_entry ch firstPc of
             None \<Rightarrow> Some (Inl No_chain_start, Some w, ch)
           | Some e \<Rightarrow>
               if entry_id e \<noteq> firstId \<or> program_object e \<noteq> object then Some (Inl No_chain_start, Some w, ch)
               else if length state < slotCount e then Some (Inl Chain_few_slots, Some w, ch)
               else map_option (\<lambda>r. end_chain r ch)
                      (iterate_opt step
                        (first_run ser state quiet obs cobs (w\<lparr>quiet_filter := Some flt\<rparr>) vs (node e) firstBudget ch))))"

definition run_chain where
  "run_chain h hb = run_chain_with (chain_step h hb)"

end
