(* ===== verification/ChainRegisters.thy ===== *)
theory ChainRegisters
  imports ChainRun
begin

text \<open>
  A program leaves as many registers as it was given: only the optimized code of a range writes any, each in its place.
\<close>

definition register_count :: "('x, 'e) cells \<Rightarrow> nat option" where
  "register_count c = map_option length (registers c)"

lemma forgetQuiet_registers [simp]: "registers (forgetQuiet c) = registers c"
  by (simp add: forgetQuiet_def)

lemma failCells_registers [simp]: "registers (failCells e c) = registers c"
  by (simp add: failCells_def)

lemma callCodeObserver_registers [simp]: "registers (snd (callCodeObserver pc c)) = registers c"
  by (auto simp: callCodeObserver_def Let_def split: option.splits prod.splits sum.splits)

lemma call_observer_registers [simp]: "registers (call_observer wr a sz v c) = registers c"
  by (auto simp: call_observer_def Let_def split: option.splits prod.splits)

lemma memory_notify_registers [simp]: "registers (memory_notify wr a sz v c) = registers c"
proof -
  have "registers c1 = registers c" if "callCodeObserver pc (c\<lparr>pendingSite := False, leanRan := True\<rparr>) = (b, c1)" for pc b c1
    using callCodeObserver_registers [of pc "c\<lparr>pendingSite := False, leanRan := True\<rparr>"] that by simp
  then show ?thesis by (auto simp: memory_notify_def split: option.splits prod.splits bool.splits)
qed

lemma code_notify_registers [simp]: "registers (snd (code_notify pc c)) = registers c"
  by (simp add: code_notify_def)

lemma notifyAccess_registers [simp]: "registers (notifyAccess wr a sz v c) = registers c"
  by (simp add: notifyAccess_def Let_def)

lemma memory_page_registers: "memory_page h a wr c = Some (p, c') \<Longrightarrow> registers c' = registers c"
  by (auto simp: memory_page_def Let_def set_pages_def split: option.splits if_splits prod.splits)

lemma pageForAccess_registers: "pageForAccess h a sz wr c = Some (p, c') \<Longrightarrow> registers c' = registers c"
  by (auto simp: pageForAccess_def Let_def dest: memory_page_registers split: if_splits)

lemma storeBytes_registers [simp]: "registers (foldl (\<lambda>c i. storeByte (f i) (g i) c) c is) = registers c"
  by (induction "is" arbitrary: c) (auto simp: storeByte_def split: option.splits)

lemma store_bytes_registers: "store_bytes h a sz big v c = Some c' \<Longrightarrow> registers c' = registers c"
  by (auto simp: store_bytes_def Let_def memory_note_def set_pages_def split: option.splits if_splits prod.splits bool.splits)

lemma access_load_registers: "access_load h hb a sz big c = Some (v, c') \<Longrightarrow> registers c' = registers c"
  by (auto simp: access_load_def Let_def dest!: pageForAccess_registers split: option.splits if_splits)

lemma access_store_registers: "access_store h hb a sz big v c = Some c' \<Longrightarrow> registers c' = registers c"
  by (auto simp: access_store_def Let_def memory_note_def set_pages_def dest!: pageForAccess_registers store_bytes_registers
      split: option.splits if_splits)

lemma silent_registers: "silent c d \<Longrightarrow> registers d = registers c"
  by (auto simp: silent_def)

lemma code_site_registers: "d \<in> set_flow (code_site e pc c) \<Longrightarrow> registers d = registers c"
  using code_notify_registers [of pc c]
  by (auto simp: code_site_def Let_def store_slot_def simp del: code_notify_registers split: prod.splits bool.splits if_splits)

lemma exec_pure_registers: "d \<in> set_flow (exec_op h hb op c) \<Longrightarrow> pure_op op \<Longrightarrow> registers d = registers c"
  using exec_pure silent_registers by blast

lemma exec_op_registers: "d \<in> set_flow (exec_op h hb op c) \<Longrightarrow> registers d = registers c"
proof (cases op)
  case (MemLoad i a sz big)
  assume "d \<in> set_flow (exec_op h hb op c)"
  then obtain b v c1 where "access_load h hb b sz big c = Some (v, c1)" "silent c1 d"
    using MemLoad store_slot_silent by (fastforce simp: set_going_on split: option.splits)
  then show ?thesis using access_load_registers silent_registers by metis
next
  case (MemStore a s sz big)
  assume "d \<in> set_flow (exec_op h hb op c)"
  then show ?thesis using MemStore by (auto dest: access_store_registers split: option.splits)
next
  case (Code e pc)
  assume "d \<in> set_flow (exec_op h hb op c)"
  then show ?thesis using Code code_site_registers by simp
qed (erule exec_pure_registers, simp)+

lemma store_home_count: "store_home hm v c = Some c' \<Longrightarrow> register_count c' = register_count c"
  by (auto simp: store_home_def register_count_def split: home.splits option.splits if_splits)

lemma write_back_count: "write_back hs is c = Some c' \<Longrightarrow> register_count c' = register_count c"
  by (induction "is" arbitrary: c) (auto simp: bind_eq_Some_conv dest!: store_home_count)

lemma flush_site_count: "flush_site ot pc c = Some c' \<Longrightarrow> register_count c' = register_count c"
  by (auto simp: flush_site_def leave_slots_def register_count_def dest!: write_back_count split: if_splits)

lemma optimized_site_count: "d \<in> set_flow (optimized_site ot e pc c) \<Longrightarrow> register_count d = register_count c"
proof -
  assume d: "d \<in> set_flow (optimized_site ot e pc c)"
  have n: "register_count c1 = register_count c" if "flush_site ot pc c = Some c0" "code_notify pc c0 = (b, c1)" for c0 b c1
    using flush_site_count [OF that(1)] code_notify_registers [of pc c0] that(2) by (simp add: register_count_def)
  show ?thesis using d n
    by (auto simp: optimized_site_def Let_def store_slot_def register_count_def split: if_splits option.splits prod.splits bool.splits)
qed

lemma optimized_op_count: "d \<in> set_flow (optimized_op h hb ot op c) \<Longrightarrow> register_count d = register_count c"
  by (cases op) (auto simp: optimized_op_def register_count_def [of d] register_count_def [of c] simp del: exec_op.simps
      dest!: exec_op_registers optimized_site_count [unfolded register_count_def])

lemma copy_op_count: "d \<in> set_flow (copy_op h hb ot bc op c) \<Longrightarrow> register_count d = register_count c"
  by (cases op) (auto simp: copy_op_def split: if_splits dest: optimized_op_count)

lemma exec_list_count:
  "d \<in> set_flow (exec_list f ops c) \<Longrightarrow> (\<And>op c d. d \<in> set_flow (f op c) \<Longrightarrow> register_count d = register_count c) \<Longrightarrow>
   register_count d = register_count c"
proof (induction ops arbitrary: c)
  case (Cons op ops)
  show ?case
  proof (cases "f op c")
    case (Next c1)
    then have "register_count c1 = register_count c" using Cons.prems(2) [of c1 op c] by simp
    then show ?thesis using Cons.IH [of c1] Cons.prems Next by simp
  qed (use Cons.prems(1) Cons.prems(2) [of d op c] in auto)
qed simp

lemma exec_block_count: "d \<in> set_flow (exec_block h hb ops c) \<Longrightarrow> registers d = registers c"
proof (induction ops arbitrary: c)
  case (Cons op ops)
  show ?case
  proof (cases "exec_op h hb op c")
    case (Next c1)
    then have "registers c1 = registers c" using exec_op_registers [of c1 h hb op c] by simp
    then show ?thesis using Cons Next by simp
  qed (use Cons.prems exec_op_registers [of _ h hb op c] in auto)
qed simp

lemma run_function_count: "run_function h hb p c = Some (Returned v c') \<Longrightarrow> register_count c' = register_count c"
proof -
  assume run: "run_function h hb p c = Some (Returned v c')"
  then obtain k where k: "iterate (block_step h hb p) (k, c) = Some (Returned v c')"
    by (auto simp: run_function_def run_blocks_iterate split: option.splits)
  have "\<forall>x d. Returned v c' = Returned x d \<longrightarrow> register_count d = register_count c"
  proof (rule iterate_invariant [where I = "\<lambda>s. register_count (snd s) = register_count c", OF k])
    show "register_count (snd s') = register_count c"
      if "register_count (snd s) = register_count c" "block_step h hb p s = Inl s'" for s s'
      using that exec_block_count [of "snd s'" h hb "blocks p (fst s)" "snd s"]
      by (auto simp: block_step_def register_count_def split: prod.splits flow.splits)
    show "\<forall>x d. r = Returned x d \<longrightarrow> register_count d = register_count c"
      if "register_count (snd s) = register_count c" "block_step h hb p s = Inr r" for s r
      using that exec_block_count [of _ h hb "blocks p (fst s)" "snd s"]
      by (auto simp: block_step_def register_count_def split: prod.splits flow.splits)
  qed simp
  then show ?thesis by simp
qed

lemma run_optimized_count: "run_optimized h hb p ot c = Some (Returned v c') \<Longrightarrow> register_count c' = register_count c"
proof -
  assume "run_optimized h hb p ot c = Some (Returned v c')"
  then obtain c1 fast k where c1: "promote ot c = Some c1" "iterate (copies_step h hb p ot) (fast, k, c1) = Some (Returned v c')"
    by (auto simp: run_optimized_def run_copies_def split: option.splits)
  have p: "register_count c1 = register_count c" using c1(1) by (auto simp: promote_def Let_def bind_eq_Some_conv register_count_def)
  have step: "register_count d = register_count (snd (snd s))"
    if "d \<in> set_flow (exec_list (case fst s of None \<Rightarrow> optimized_op h hb ot | Some bc \<Rightarrow> copy_op h hb ot bc) (blocks p (fst (snd s))) (snd (snd s)))" for s d
    using exec_list_count [OF that] optimized_op_count copy_op_count by (cases "fst s") fastforce+
  have leave: "register_count d = register_count d0" if "leave_function ot x d0 = Returned y d" for x y d d0
    using that by (auto simp: leave_function_def leave_slots_def register_count_def dest!: write_back_count split: option.splits)
  have "\<forall>x d. Returned v c' = Returned x d \<longrightarrow> register_count d = register_count c"
  proof (rule iterate_invariant [where I = "\<lambda>s. register_count (snd (snd s)) = register_count c", OF c1(2)])
    show "register_count (snd (snd s')) = register_count c"
      if "register_count (snd (snd s)) = register_count c" "copies_step h hb p ot s = Inl s'" for s s'
      using that step [of "snd (snd s')" s] by (auto simp: copies_step_def split: prod.splits flow.splits)
    show "\<forall>x d. r = Returned x d \<longrightarrow> register_count d = register_count c"
      if "register_count (snd (snd s)) = register_count c" "copies_step h hb p ot s = Inr r" for s r
      using that step [of _ s] leave by (fastforce simp: copies_step_def split: prod.splits flow.splits)
  qed (use p in simp)
  then show ?thesis by simp
qed

lemma run_compiled_count: "run_compiled h hb p c = Some (Returned v c') \<Longrightarrow> register_count c' = register_count c"
  by (auto simp: run_compiled_def run_function_count run_optimized_count split: option.splits)

end
