(* ===== verification/ChainPlain.thy ===== *)
theory ChainPlain
  imports ChainRegisters
begin

text \<open>
  What an entry of a chain remembers, \<open>lastTarget\<close>, \<open>outputsSaid\<close> and \<open>readyIn\<close>, changes nothing of what a run
  does. \<open>plain_step\<close> is a turn of the loop that remembers nothing: it searches the chain each time, marks all the
  outputs of a range, and asks for all that the next one needs. A turn of \<open>bap_jit_run_chain\<close> is this on
  the chain with what it remembers left out (\<open>chain_step_plain\<close>), as long as what it remembers is right
  (\<open>run_inv\<close>), which it stays.
\<close>

section \<open>The loop that remembers nothing\<close>

definition forget_entry :: "chain_entry \<Rightarrow> chain_entry" where
  "forget_entry e = e\<lparr>lastNext := none_word, lastTarget := None, outputsSaid := 0, readyIn := 0\<rparr>"

definition forget_chain :: "chain \<Rightarrow> chain" where
  "forget_chain ch = ch\<lparr>entries := map (\<lambda>(pc, e). (pc, forget_entry e)) (entries ch)\<rparr>"

definition forget_run :: "('x, 'e) chain_run \<Rightarrow> ('x, 'e) chain_run" where
  "forget_run s = s\<lparr>chain_of := forget_chain (chain_of s)\<rparr>"

fun forget_end :: "('x, 'e) chain_end \<Rightarrow> ('x, 'e) chain_end" where
  "forget_end (Ended s) = Ended (forget_run s)"
| "forget_end (Chain_failed err s) = Chain_failed err (forget_run s)"
| "forget_end (Chain_threw s) = Chain_threw (forget_run s)"
| "forget_end Chain_undefined = Chain_undefined"

definition plain_written :: "bool \<Rightarrow> chain_entry \<Rightarrow> ('x, 'e) chain_run \<Rightarrow> ('x, 'e) chain_run option" where
  "plain_written copy e s =
     map_option (\<lambda>vs. s\<lparr>variables_of := vs\<rparr>) (mark_outputs copy (run_state_array s) (outputsAt e (went s)) (variables_of s))"

definition plain_go_on :: "chain_entry \<Rightarrow> ('x, 'e) chain_run \<Rightarrow> ('x, 'e) chain_run + ('x, 'e) chain_end" where
  "plain_go_on e s =
     (case find_entry (chain_of s) (went s) of
        None \<Rightarrow> Inr (Ended s)
      | Some t \<Rightarrow>
          if to_optimize t then Inr (Ended s)
          else case (if entry_direct e then Some s else plain_written True e s) of
                 None \<Rightarrow> Inr Chain_undefined
               | Some s1 \<Rightarrow>
                   if list_all (is_bound (variables_of s1)) (required t) then Inl (enter_range t (ran_chained e s) s1)
                   else Inr (Ended s1))"

definition plain_after :: "chain_entry \<Rightarrow> ('x, 'e) chain_run \<Rightarrow> ('x, 'e) chain_run + ('x, 'e) chain_end" where
  "plain_after e s =
     (case error (run_cells_of s) of
        Some err \<Rightarrow> Inr (Chain_failed err s)
      | None \<Rightarrow>
          (case (if entry_direct e then plain_written False e s else Some s) of
             None \<Rightarrow> Inr Chain_undefined
           | Some s1 \<Rightarrow> if to_lean e s1 then Inr (Ended (count_range e s1)) else plain_go_on e (count_range e s1)))"

definition plain_step :: "host \<Rightarrow> bool \<Rightarrow> ('x, 'e) chain_run \<Rightarrow> (('x, 'e) chain_run + ('x, 'e) chain_end) option" where
  "plain_step h hb s =
     (case entry_at (chain_of s) (current s) of
        None \<Rightarrow> Some (Inr Chain_undefined)
      | Some e \<Rightarrow>
          (case run_compiled h hb (code e) (range_cells e s) of
             None \<Rightarrow> None
           | Some (Returned v c) \<Rightarrow> Some (plain_after e (range_ran v c s))
           | Some Threw \<Rightarrow> Some (Inr (Chain_threw s))
           | Some Undefined_run \<Rightarrow> Some (Inr Chain_undefined)))"

section \<open>Entries by their address\<close>

definition keeps_node :: "(chain_entry \<Rightarrow> chain_entry) \<Rightarrow> bool" where
  "keeps_node f \<longleftrightarrow> (\<forall>e. node (f e) = node e)"

lemma keeps_nodeI [intro]: "(\<And>e. node (f e) = node e) \<Longrightarrow> keeps_node f"
  by (simp add: keeps_node_def)

lemma find_map_keep: "(\<And>x. P (f x) = P x) \<Longrightarrow> find P (map f xs) = map_option f (find P xs)"
  by (induction xs) auto

lemma entry_at_set:
  assumes "keeps_node f"
  shows "entry_at (put_entry n f ch) m = map_option (\<lambda>e. if node e = n then f e else e) (entry_at ch m)"
proof -
  have "find (\<lambda>entry. node (snd entry) = m) (map (\<lambda>(pc, e). (pc, if node e = n then f e else e)) (entries ch)) =
      map_option (\<lambda>(pc, e). (pc, if node e = n then f e else e)) (find (\<lambda>entry. node (snd entry) = m) (entries ch))"
    by (rule find_map_keep) (use assms in \<open>auto simp: keeps_node_def\<close>)
  then show ?thesis by (cases "find (\<lambda>entry. node (snd entry) = m) (entries ch)") (auto simp: entry_at_def put_entry_def)
qed

lemma map_of_map_snd: "map_of (map (\<lambda>(k, e). (k, f e)) es) pc = map_option f (map_of es pc)"
  by (induction es) auto

lemma find_entry_set: "find_entry (put_entry n f ch) pc = map_option (\<lambda>e. if node e = n then f e else e) (find_entry ch pc)"
  by (simp add: find_entry_def put_entry_def map_of_map_snd)

lemma put_entry_fields [simp]:
  "run_number (put_entry n f ch) = run_number ch" "next_node (put_entry n f ch) = next_node ch" "references (put_entry n f ch) = references ch"
  by (simp_all add: put_entry_def)

lemma entry_at_in: "entry_at ch n = Some e \<Longrightarrow> node e = n \<and> (\<exists>pc. (pc, e) \<in> set (entries ch))"
proof -
  assume "entry_at ch n = Some e"
  then obtain pc where "find (\<lambda>entry. node (snd entry) = n) (entries ch) = Some (pc, e)" by (auto simp: entry_at_def)
  then show ?thesis by (metis (mono_tags, lifting) find_Some_iff nth_mem snd_conv)
qed

lemma entry_at_node:
  assumes "chain_ok ch" "(pc, e) \<in> set (entries ch)"
  shows "entry_at ch (node e) = Some e"
proof -
  have d: "distinct (map (\<lambda>entry. node (snd entry)) (entries ch))" using assms(1) by (simp add: chain_ok_def)
  have "find (\<lambda>entry. node (snd entry) = node e) es = Some (pc, e)"
    if "distinct (map (\<lambda>entry. node (snd entry)) es)" "(pc, e) \<in> set es" for es
    using that by (induction es) (auto simp: image_iff)
  then show ?thesis using d assms(2) by (simp add: entry_at_def)
qed

lemma same_node:
  assumes "chain_ok ch" "(pc, x) \<in> set (entries ch)" "(pc', y) \<in> set (entries ch)" "node x = node y"
  shows "x = y"
  using entry_at_node [OF assms(1,2)] entry_at_node [OF assms(1,3)] assms(4) by (metis option.inject)

lemma entry_at_find: "chain_ok ch \<Longrightarrow> find_entry ch pc = Some e \<Longrightarrow> entry_at ch (node e) = Some e"
  using entry_at_node find_entry_in by blast

lemma find_entry_pc:
  assumes "chain_ok ch" "(pc, e) \<in> set (entries ch)"
  shows "find_entry ch pc = Some e"
  using assms by (simp add: chain_ok_def find_entry_def)

lemma forget_fields [simp]:
  "node (forget_entry e) = node e" "code (forget_entry e) = code e" "entry_id (forget_entry e) = entry_id e"
  "program_object (forget_entry e) = program_object e" "slotCount (forget_entry e) = slotCount e"
  "effectSlot (forget_entry e) = effectSlot e" "budgetSlot (forget_entry e) = budgetSlot e" "observedSlot (forget_entry e) = observedSlot e"
  "executions (forget_entry e) = executions e" "optimizeAt (forget_entry e) = optimizeAt e" "layout (forget_entry e) = layout e"
  "required (forget_entry e) = required e" "zeroed (forget_entry e) = zeroed e" "outputs (forget_entry e) = outputs e"
  "checkpoints (forget_entry e) = checkpoints e" "entry_direct (forget_entry e) = entry_direct e" "touched (forget_entry e) = touched e"
  "runs (forget_entry e) = runs e" "executed (forget_entry e) = executed e"
  by (simp_all add: forget_entry_def)

lemma forget_run_fields [simp]:
  "variables_of (forget_run s) = variables_of s" "current (forget_run s) = current s" "first_range (forget_run s) = first_range s"
  "touched_nodes (forget_run s) = touched_nodes s" "run_state_array (forget_run s) = run_state_array s" "spare (forget_run s) = spare s"
  "budget (forget_run s) = budget s" "chained (forget_run s) = chained s" "went (forget_run s) = went s"
  "run_cells_of (forget_run s) = run_cells_of s" "chain_of (forget_run s) = forget_chain (chain_of s)"
  by (simp_all add: forget_run_def)

lemma forget_chain_finds [simp]:
  "find_entry (forget_chain ch) pc = map_option forget_entry (find_entry ch pc)"
  "entry_at (forget_chain ch) n = map_option forget_entry (entry_at ch n)"
proof -
  show "find_entry (forget_chain ch) pc = map_option forget_entry (find_entry ch pc)"
    by (simp add: find_entry_def forget_chain_def map_of_map_snd)
  have "find (\<lambda>entry. node (snd entry) = n) (map (\<lambda>(pc, e). (pc, forget_entry e)) (entries ch)) =
      map_option (\<lambda>(pc, e). (pc, forget_entry e)) (find (\<lambda>entry. node (snd entry) = n) (entries ch))"
    by (rule find_map_keep) auto
  then show "entry_at (forget_chain ch) n = map_option forget_entry (entry_at ch n)"
    by (cases "find (\<lambda>entry. node (snd entry) = n) (entries ch)") (auto simp: entry_at_def forget_chain_def)
qed

text \<open>A change of what is remembered is none of the rest, and other changes are the same.\<close>

lemma forget_set_entry:
  "(\<And>e. forget_entry (f e) = forget_entry e) \<Longrightarrow> forget_chain (put_entry n f ch) = forget_chain ch"
  "(\<And>e. forget_entry (f e) = f (forget_entry e)) \<Longrightarrow> forget_chain (put_entry n f ch) = put_entry n f (forget_chain ch)"
  by (simp_all add: forget_chain_def put_entry_def o_def case_prod_beta if_distrib [of forget_entry] cong: if_cong)

lemma forget_run_update:
  "forget_chain ch = forget_chain (chain_of s) \<Longrightarrow> forget_run (s\<lparr>chain_of := ch\<rparr>) = forget_run s"
  "forget_run (s\<lparr>variables_of := vs\<rparr>) = (forget_run s)\<lparr>variables_of := vs\<rparr>"
  by (simp_all add: forget_run_def)

section \<open>Variables that only grow\<close>

definition vars_ok :: "variables \<Rightarrow> bool" where
  "vars_ok vs \<longleftrightarrow> length (bound vs) = length (regs vs)"

definition said :: "variables \<Rightarrow> chain_output \<Rightarrow> bool" where
  "said vs out \<longleftrightarrow> unat (out_variable out) < length (bound vs) \<and> bound vs ! unat (out_variable out) = 2"

definition vars_grow :: "variables \<Rightarrow> variables \<Rightarrow> bool" where
  "vars_grow vs vs' \<longleftrightarrow> length (bound vs) \<le> length (bound vs') \<and>
     (\<forall>i < length (bound vs). bound vs ! i \<noteq> 0 \<longrightarrow> bound vs' ! i \<noteq> 0) \<and>
     (\<forall>i < length (bound vs). bound vs ! i = 2 \<longrightarrow> bound vs' ! i = 2)"

lemma vars_grow_refl [simp]: "vars_grow vs vs"
  by (simp add: vars_grow_def)

lemma vars_grow_trans: "vars_grow us vs \<Longrightarrow> vars_grow vs ws \<Longrightarrow> vars_grow us ws"
  unfolding vars_grow_def by (meson le_trans less_le_trans)

lemma vars_grow_said: "vars_grow vs vs' \<Longrightarrow> said vs out \<Longrightarrow> said vs' out"
  by (auto simp: vars_grow_def said_def)

lemma vars_grow_bound: "vars_grow vs vs' \<Longrightarrow> is_bound vs v \<Longrightarrow> is_bound vs' v"
  by (auto simp: vars_grow_def is_bound_def)

lemma unat_next: "v \<noteq> - 1 \<Longrightarrow> unat (v + 1 :: u64) = unat v + 1"
  using unatSuc [of v] by (metis Suc_eq_plus1 add.commute add_eq_0_iff)

lemma ensure_grows:
  assumes "vars_ok vs" "unat v < length (regs (ensure_variable v vs))"
  shows "vars_ok (ensure_variable v vs)" "vars_grow vs (ensure_variable v vs)" "dirty (ensure_variable v vs) = dirty vs"
proof -
  have "v \<noteq> - 1" if "length (regs vs) \<le> unat v"
  proof
    assume "v = - 1"
    then have "regs (ensure_variable v vs) = []" using that by (simp add: ensure_variable_def resize_def)
    then show False using assms(2) by simp
  qed
  then have "length (regs vs) \<le> unat v \<Longrightarrow> unat (v + 1) = unat v + 1" by (simp add: unat_next)
  then show "vars_ok (ensure_variable v vs)" "vars_grow vs (ensure_variable v vs)" "dirty (ensure_variable v vs) = dirty vs"
    using assms(1) by (auto simp: ensure_variable_def resize_def vars_ok_def vars_grow_def nth_append)
qed

lemma mark_output_grows:
  assumes "mark_output copy st out vs = Some vs'" "vars_ok vs"
  shows "vars_ok vs' \<and> vars_grow vs vs' \<and> (is_written st out \<longrightarrow> said vs' out)"
proof (cases "is_written st out")
  case True
  let ?v = "out_variable out" and ?vs = "ensure_variable (out_variable out) vs"
  have "unat ?v < length (regs ?vs)" "unat ?v < length (bound ?vs)"
    using assms(1) True by (auto simp: mark_output_def Let_def split: if_splits)
  note e = ensure_grows [OF assms(2) this(1)] this
  have "vars_grow ?vs vs'" using assms(1) True e(4,5)
    by (auto simp: mark_output_def Let_def vars_grow_def nth_list_update split: if_splits)
  moreover have "bound vs' = (bound ?vs)[unat ?v := 2]" "length (regs vs') = length (regs ?vs)"
    using assms(1) True by (auto simp: mark_output_def Let_def split: if_splits)
  ultimately show ?thesis using e vars_grow_trans [OF e(2)] by (simp add: vars_ok_def said_def)
qed (use assms in \<open>simp add: mark_output_def Let_def\<close>)

lemma mark_outputs_grows:
  "mark_outputs copy st os vs = Some vs' \<Longrightarrow> vars_ok vs \<Longrightarrow>
   vars_ok vs' \<and> vars_grow vs vs' \<and> (\<forall>out \<in> set os. is_written st out \<longrightarrow> said vs' out)"
proof (induction os arbitrary: vs)
  case (Cons out os)
  then obtain vs1 where vs1: "mark_output copy st out vs = Some vs1" "mark_outputs copy st os vs1 = Some vs'"
    by (auto split: option.splits)
  note m = mark_output_grows [OF vs1(1) Cons.prems(2)]
  then have "vars_ok vs' \<and> vars_grow vs1 vs' \<and> (\<forall>out \<in> set os. is_written st out \<longrightarrow> said vs' out)" using Cons.IH [OF vs1(2)] by blast
  then show ?case using m vars_grow_trans [of vs vs1 vs'] vars_grow_said [of vs1 vs' out] by auto
qed simp

text \<open>To say again that an output was written changes nothing.\<close>

lemma mark_said: "vars_ok vs \<Longrightarrow> said vs out \<Longrightarrow> mark_output False st out vs = Some vs"
  by (simp add: mark_output_def Let_def said_def vars_ok_def ensure_variable_def list_update_same_conv)

lemma mark_flagged:
  "vars_ok vs \<Longrightarrow> \<forall>out \<in> set os. out_flag out = none_word \<longrightarrow> said vs out \<Longrightarrow>
   mark_outputs False st (filter (\<lambda>out. out_flag out \<noteq> none_word) os) vs = mark_outputs False st os vs"
proof (induction os arbitrary: vs)
  case (Cons out os)
  have step: "mark_outputs False st (filter (\<lambda>out. out_flag out \<noteq> none_word) os) vs1 = mark_outputs False st os vs1"
    if "mark_output False st out vs = Some vs1" for vs1
    using Cons.IH [of vs1] mark_output_grows [OF that Cons.prems(1)] Cons.prems(2) vars_grow_said by (metis list.set_intros(2))
  show ?case using step Cons.prems mark_said [of vs out st] by (auto split: option.split)
qed simp

section \<open>What is remembered is right\<close>

definition known_ok :: "u64 \<Rightarrow> variables \<Rightarrow> chain_entry \<Rightarrow> bool" where
  "known_ok run vs e \<longleftrightarrow> readyIn e \<le> run \<and> outputsSaid e \<le> run \<and> (readyIn e = run \<longrightarrow> list_all (is_bound vs) (required e)) \<and>
     (outputsSaid e = run \<longrightarrow> (\<forall>out \<in> set (outputs e). out_flag out = none_word \<longrightarrow> said vs out))"

definition run_inv :: "('x, 'e) chain_run \<Rightarrow> bool" where
  "run_inv s \<longleftrightarrow> chain_ok (chain_of s) \<and> vars_ok (variables_of s) \<and>
     (\<forall>(pc, e) \<in> set (entries (chain_of s)). known_ok (run_number (chain_of s)) (variables_of s) e)"

fun end_inv :: "('x, 'e) chain_end \<Rightarrow> bool" where
  "end_inv (Ended s) = run_inv s"
| "end_inv (Chain_failed err s) = run_inv s"
| "end_inv (Chain_threw s) = run_inv s"
| "end_inv Chain_undefined = True"

lemma known_ok_grows: "vars_grow vs vs' \<Longrightarrow> known_ok run vs e \<Longrightarrow> known_ok run vs' e"
  by (auto simp: known_ok_def list_all_iff vars_grow_bound vars_grow_said)

lemma run_inv_vars:
  "run_inv s \<Longrightarrow> vars_ok vs \<Longrightarrow> vars_grow (variables_of s) vs \<Longrightarrow> run_inv (s\<lparr>variables_of := vs\<rparr>)"
  using known_ok_grows by (auto simp: run_inv_def)

lemma run_inv_same:
  "run_inv s \<Longrightarrow> variables_of s' = variables_of s \<Longrightarrow> chain_of s' = chain_of s \<Longrightarrow> run_inv s'"
  by (simp add: run_inv_def)

text \<open>A change of an entry in place, under which what it knows stays right.\<close>

lemma run_inv_set:
  assumes "run_inv s" "harmless f"
    "\<And>pc e. (pc, e) \<in> set (entries (chain_of s)) \<Longrightarrow> node e = n \<Longrightarrow>
       points_to (entries (chain_of s)) (f e) \<and> known_ok (run_number (chain_of s)) (variables_of s) (f e)"
  shows "run_inv (s\<lparr>chain_of := put_entry n f (chain_of s)\<rparr>)"
proof -
  have "chain_ok (put_entry n f (chain_of s))" using put_entry_ok [OF _ assms(2)] assms(1,3) by (auto simp: run_inv_def)
  moreover have "known_ok (run_number (chain_of s)) (variables_of s) e" if "(pc, e) \<in> set (entries (put_entry n f (chain_of s)))" for pc e
    using that assms(1,3) by (auto simp: put_entry_def run_inv_def split: if_splits)
  ultimately show ?thesis using assms(1) by (auto simp: run_inv_def)
qed

lemma run_inv_points: "run_inv s \<Longrightarrow> (pc, e) \<in> set (entries (chain_of s)) \<Longrightarrow> points_to (entries (chain_of s)) e"
  by (auto simp: run_inv_def chain_ok_def pointers_ok_iff)

section \<open>A turn\<close>

lemma points_to_forget:
  assumes "forget_chain ch = forget_chain ch'"
  shows "points_to (entries ch) e = points_to (entries ch') e"
proof (rule points_to_map)
  have f: "map (\<lambda>entry. (fst entry, node (snd entry))) (entries (forget_chain ch)) = map (\<lambda>entry. (fst entry, node (snd entry))) (entries ch)" for ch
    by (auto simp: forget_chain_def)
  then show "map (\<lambda>entry. (fst entry, node (snd entry))) (entries ch) = map (\<lambda>entry. (fst entry, node (snd entry))) (entries ch')"
    using f [of ch] f [of ch'] assms by simp
qed

lemma outputsAt_forget [simp]: "outputsAt (forget_entry e) pc = outputsAt e pc"
  by (simp add: outputsAt_def split: option.split)

lemma written_copy: "mark_written True e s = plain_written True e s"
  by (simp add: mark_written_def plain_written_def Let_def split: option.split)

lemma plain_written_forget: "map_option forget_run (plain_written copy e s) = plain_written copy (forget_entry e) (forget_run s)"
  by (simp add: plain_written_def option.map_comp o_def forget_run_update)

lemma plain_written_inv: "plain_written copy e s = Some s' \<Longrightarrow> run_inv s \<Longrightarrow> run_inv s' \<and> (\<exists>vs. s' = s\<lparr>variables_of := vs\<rparr>)"
proof -
  assume w: "plain_written copy e s = Some s'" and i: "run_inv s"
  obtain vs where vs: "mark_outputs copy (run_state_array s) (outputsAt e (went s)) (variables_of s) = Some vs" "s' = s\<lparr>variables_of := vs\<rparr>"
    using w by (auto simp: plain_written_def)
  have "vars_ok (variables_of s)" using i by (simp add: run_inv_def)
  then show ?thesis using mark_outputs_grows [OF vs(1)] run_inv_vars [OF i] vs(2) by blast
qed

lemma said_marks:
  assumes "mark_outputs False st os vs = Some vs'" "vars_ok vs" "out \<in> set os" "out_flag out = none_word"
  shows "said vs' out"
  using mark_outputs_grows [OF assms(1,2)] assms(3,4) by (simp add: is_written_def)

lemma harmless_known: "harmless (\<lambda>e. e\<lparr>outputsSaid := r\<rparr>)" "harmless (\<lambda>e. e\<lparr>readyIn := r\<rparr>)"
    "harmless (\<lambda>e. e\<lparr>lastNext := pc, lastTarget := p\<rparr>)" "harmless (count_entry n)"
  by (simp_all add: harmless_def entry_ok_def entry_fits_def count_entry_def)

text \<open>What marks outputs where they are in registers: all of them, or those with flags as the others are marked.\<close>

lemma written_main:
  assumes "run_inv s" "(pc, e) \<in> set (entries (chain_of s))" "map_of (checkpoints e) (went s) = None"
  shows "mark_written False e s = map_option (\<lambda>s1. s1\<lparr>chain_of := put_entry (node e) (\<lambda>e. e\<lparr>outputsSaid := run_number (chain_of s)\<rparr>) (chain_of s)\<rparr>)
    (plain_written False e s)"
proof -
  have k: "vars_ok (variables_of s)" "known_ok (run_number (chain_of s)) (variables_of s) e" "entry_ok e"
    using assms(1,2) by (auto simp: run_inv_def chain_ok_def)
  have "mark_outputs False (run_state_array s) (if outputsSaid e = run_number (chain_of s) then flagged e else outputs e) (variables_of s) =
      mark_outputs False (run_state_array s) (outputs e) (variables_of s)"
    using k mark_flagged [OF k(1)] by (auto simp: known_ok_def entry_ok_def)
  then show ?thesis using assms(3) by (auto simp: mark_written_def plain_written_def Let_def outputsAt_def split: option.splits)
qed

lemma written_plain:
  assumes "run_inv s" "(pc, e) \<in> set (entries (chain_of s))"
  shows "map_option forget_run (mark_written copy e s) = plain_written copy (forget_entry e) (forget_run s)"
    "mark_written copy e s = Some s' \<Longrightarrow> run_inv s' \<and> forget_chain (chain_of s') = forget_chain (chain_of s)"
proof -
  have "map_option forget_run (mark_written copy e s) = plain_written copy (forget_entry e) (forget_run s) \<and>
    (mark_written copy e s = Some s' \<longrightarrow> run_inv s' \<and> forget_chain (chain_of s') = forget_chain (chain_of s))"
  proof (cases "\<not> copy \<and> map_of (checkpoints e) (went s) = None")
    case False
    then have "mark_written copy e s = plain_written copy e s"
      by (auto simp: mark_written_def plain_written_def Let_def split: option.split)
    then show ?thesis using plain_written_forget [of copy e s] plain_written_inv [of copy e s s'] assms(1) by auto
  next
    case True
    let ?f = "\<lambda>e. e\<lparr>outputsSaid := run_number (chain_of s)\<rparr>"
    have w: "mark_written copy e s = map_option (\<lambda>s1. s1\<lparr>chain_of := put_entry (node e) ?f (chain_of s)\<rparr>) (plain_written False e s)"
      using written_main [OF assms] True by simp
    have fc: "forget_chain (put_entry (node e) ?f (chain_of s)) = forget_chain (chain_of s)"
      by (rule forget_set_entry(1)) (simp add: forget_entry_def)
    show ?thesis
    proof (cases "plain_written False e s")
      case (Some s1)
      then obtain vs where vs: "s1 = s\<lparr>variables_of := vs\<rparr>" "mark_outputs False (run_state_array s) (outputs e) (variables_of s) = Some vs"
        using True by (auto simp: plain_written_def outputsAt_def)
      have i: "run_inv s1" using plain_written_inv [OF Some assms(1)] by simp
      have "run_inv (s1\<lparr>chain_of := put_entry (node e) ?f (chain_of s1)\<rparr>)"
      proof (rule run_inv_set [OF i harmless_known(1)], intro conjI)
        fix q x assume x: "(q, x) \<in> set (entries (chain_of s1))" "node x = node e"
        have ch: "chain_ok (chain_of s)" "chain_of s1 = chain_of s" using assms(1) vs(1) by (simp_all add: run_inv_def)
        have e: "x = e" by (rule same_node [OF ch(1) _ assms(2) x(2)]) (use x(1) ch(2) in simp)
        show "points_to (entries (chain_of s1)) (?f x)" using run_inv_points [OF i x(1)] by (simp add: points_to_def)
        show "known_ok (run_number (chain_of s1)) (variables_of s1) (?f x)"
          using i x(1) said_marks [OF vs(2)] assms(1) e by (auto simp: run_inv_def known_ok_def vs(1))
      qed
      then have r: "run_inv (s1\<lparr>chain_of := put_entry (node e) ?f (chain_of s)\<rparr>)" by (simp add: vs(1))
      have c: "chain_of s1 = chain_of s" by (simp add: vs(1))
      define s2 where "s2 = s1\<lparr>chain_of := put_entry (node e) ?f (chain_of s)\<rparr>"
      have "forget_run s2 = forget_run s1" unfolding s2_def by (rule forget_run_update(1)) (simp add: fc c)
      moreover have "mark_written copy e s = Some s2" using w Some by (simp add: s2_def)
      moreover have "Some (forget_run s1) = plain_written copy (forget_entry e) (forget_run s)"
        using plain_written_forget [of False e s] True Some by simp
      moreover have "run_inv s2" "forget_chain (chain_of s2) = forget_chain (chain_of s)" using r fc by (simp_all add: s2_def)
      ultimately show ?thesis by auto
    qed (use w plain_written_forget [of False e s] True in simp)
  qed
  then show "map_option forget_run (mark_written copy e s) = plain_written copy (forget_entry e) (forget_run s)"
    "mark_written copy e s = Some s' \<Longrightarrow> run_inv s' \<and> forget_chain (chain_of s') = forget_chain (chain_of s)" by blast+
qed

lemma find_target_plain:
  assumes "run_inv s" "points_to (entries (chain_of s)) e"
  shows "find_entry (chain_of s) (went s) = None \<Longrightarrow> find_target e s = None"
    "find_entry (chain_of s) (went s) = Some t \<Longrightarrow> \<exists>ch t'. find_target e s = Some (node t, ch) \<and> entry_at ch (node t) = Some t' \<and>
       forget_entry t' = forget_entry t \<and> forget_chain ch = forget_chain (chain_of s) \<and> run_inv (s\<lparr>chain_of := ch\<rparr>)"
proof -
  have ok: "chain_ok (chain_of s)" using assms(1) by (simp add: run_inv_def)
  have last: "\<exists>t. find_entry (chain_of s) (went s) = Some t \<and> node t = n" if n: "lastNext e = went s" "lastTarget e = Some n" for n
  proof -
    obtain e' where "(lastNext e, e') \<in> set (entries (chain_of s))" "node e' = n" using assms(2) n(2) unfolding points_to_def by blast
    then show ?thesis using find_entry_pc [OF ok, of "lastNext e" e'] n(1) by simp
  qed
  show "find_target e s = None" if "find_entry (chain_of s) (went s) = None"
    using that last by (auto simp: find_target_def split: option.splits)
  show "\<exists>ch t'. find_target e s = Some (node t, ch) \<and> entry_at ch (node t) = Some t' \<and>
       forget_entry t' = forget_entry t \<and> forget_chain ch = forget_chain (chain_of s) \<and> run_inv (s\<lparr>chain_of := ch\<rparr>)"
    if t: "find_entry (chain_of s) (went s) = Some t"
  proof (cases "lastNext e = went s \<and> lastTarget e \<noteq> None")
    case True
    then obtain n where n: "lastTarget e = Some n" by auto
    then have "node t = n" using last True t by auto
    then show ?thesis using True t n assms(1) entry_at_find [OF ok t] by (auto simp: find_target_def)
  next
    case False
    let ?f = "\<lambda>e. e\<lparr>lastNext := went s, lastTarget := Some (node t)\<rparr>"
    let ?ch = "put_entry (node e) ?f (chain_of s)"
    have "find_target e s = Some (node t, ?ch)" using False t by (auto simp: find_target_def)
    moreover have "entry_at ?ch (node t) = Some (if node t = node e then ?f t else t)"
      using entry_at_find [OF ok t] by (subst entry_at_set) auto
    moreover have "run_inv (s\<lparr>chain_of := ?ch\<rparr>)"
    proof (rule run_inv_set [OF assms(1) harmless_known(3)], intro conjI)
      fix q x assume x: "(q, x) \<in> set (entries (chain_of s))"
      show "points_to (entries (chain_of s)) (?f x)" using find_entry_in [OF t] by (auto simp: points_to_def)
      show "known_ok (run_number (chain_of s)) (variables_of s) (?f x)" using assms(1) x by (auto simp: run_inv_def known_ok_def)
    qed
    moreover have "forget_chain ?ch = forget_chain (chain_of s)" by (rule forget_set_entry(1)) (simp add: forget_entry_def)
    ultimately show ?thesis by (auto simp: forget_entry_def)
  qed
qed

lemma ready_range_plain:
  assumes "run_inv s" "entry_at (chain_of s) n = Some t"
  shows "ready_range t s = None \<longleftrightarrow> \<not> list_all (is_bound (variables_of s)) (required t)"
    "ready_range t s = Some s' \<Longrightarrow> run_inv s' \<and> forget_run s' = forget_run s"
proof -
  obtain pc where t: "(pc, t) \<in> set (entries (chain_of s))" using entry_at_in [OF assms(2)] by blast
  have k: "known_ok (run_number (chain_of s)) (variables_of s) t" using assms(1) t by (auto simp: run_inv_def)
  then show "ready_range t s = None \<longleftrightarrow> \<not> list_all (is_bound (variables_of s)) (required t)"
    by (auto simp: ready_range_def Let_def known_ok_def)
  let ?f = "\<lambda>e. e\<lparr>readyIn := run_number (chain_of s)\<rparr>"
  show "run_inv s' \<and> forget_run s' = forget_run s" if s': "ready_range t s = Some s'"
  proof (cases "readyIn t = run_number (chain_of s)")
    case False
    then have s'': "s' = s\<lparr>chain_of := put_entry (node t) ?f (chain_of s)\<rparr>" "list_all (is_bound (variables_of s)) (required t)"
      using s' by (auto simp: ready_range_def Let_def split: if_splits)
    have "run_inv (s\<lparr>chain_of := put_entry (node t) ?f (chain_of s)\<rparr>)"
    proof (rule run_inv_set [OF assms(1) harmless_known(2)], intro conjI)
      fix q x assume x: "(q, x) \<in> set (entries (chain_of s))" "node x = node t"
      have "x = t" by (rule same_node [OF _ x(1) t x(2)]) (use assms(1) in \<open>simp add: run_inv_def\<close>)
      then show "known_ok (run_number (chain_of s)) (variables_of s) (?f x)" using k s''(2) by (simp add: known_ok_def)
      show "points_to (entries (chain_of s)) (?f x)" using run_inv_points [OF assms(1) x(1)] by (simp add: points_to_def)
    qed
    moreover have "forget_chain (put_entry (node t) ?f (chain_of s)) = forget_chain (chain_of s)"
      by (rule forget_set_entry(1)) (simp add: forget_entry_def)
    ultimately show ?thesis using s''(1) by (simp add: forget_run_def)
  qed (use s' assms(1) in \<open>simp add: ready_range_def Let_def\<close>)
qed

lemma count_entry_forget: "forget_entry (count_entry n e) = count_entry n (forget_entry e)"
  by (simp add: count_entry_def forget_entry_def)

lemma ran_chained_forget [simp]:
  "ran_chained e (s\<lparr>chain_of := ch\<rparr>) = ran_chained e s" "ran_chained (forget_entry e) s = ran_chained e s"
  "ran_chained e (forget_run s) = ran_chained e s"
  by (simp_all add: ran_chained_def slot_value_def Let_def)

lemma to_lean_forget [simp]: "to_lean (forget_entry e) (forget_run s) = to_lean e s"
  by (simp add: to_lean_def slot_value_def)

lemma count_range_forget: "forget_run (count_range e s) = count_range (forget_entry e) (forget_run s)"
  using forget_set_entry(2) [of "count_entry ((if first_range s then 0 else 1) + ran_chained e s)", OF count_entry_forget]
  by (simp add: count_range_def forget_run_def)

lemma count_range_inv:
  assumes "run_inv s"
  shows "run_inv (count_range e s)"
proof -
  have "run_inv (s\<lparr>chain_of := put_entry (node e) (count_entry ((if first_range s then 0 else 1) + ran_chained e s)) (chain_of s)\<rparr>)"
    by (rule run_inv_set [OF assms harmless_known(4)])
      (use assms run_inv_points [OF assms] in \<open>auto simp: count_entry_def points_to_def known_ok_def run_inv_def\<close>)
  then show ?thesis by (rule run_inv_same) (simp_all add: count_range_def)
qed

lemma count_range_points:
  "points_to (entries (chain_of (count_range e s))) x = points_to (entries (chain_of s)) x"
  by (rule points_to_map) (simp add: count_range_def put_entry_map(4) [OF harmless_known(4)])

lemma enter_range_forget:
  assumes "forget_entry t' = forget_entry t"
  shows "forget_run (enter_range t' u s) = enter_range (forget_entry t) u (forget_run s)"
proof -
  have "enter_range (forget_entry t') u s = enter_range t' u s" for t' and s :: "('a, 'b) chain_run"
    by (simp add: enter_range_def start_slots_def Let_def)
  moreover have "forget_run (enter_range t u s) = enter_range t u (forget_run s)"
    by (simp add: enter_range_def start_slots_def Let_def forget_run_def)
  ultimately show ?thesis using assms by metis
qed

lemma enter_range_inv: "run_inv s \<Longrightarrow> run_inv (enter_range t u s)"
  by (erule run_inv_same) (simp_all add: enter_range_def Let_def)

lemma to_optimize_forget [simp]: "to_optimize (forget_entry t) = to_optimize t"
  by (simp add: to_optimize_def)

lemma go_on_plain:
  assumes "run_inv s" "points_to (entries (chain_of s)) e"
  shows "map_sum forget_run forget_end (go_on e s) = plain_go_on (forget_entry e) (forget_run s) \<and>
    (\<forall>s'. go_on e s = Inl s' \<longrightarrow> run_inv s') \<and> (\<forall>r. go_on e s = Inr r \<longrightarrow> end_inv r)"
proof (cases "find_entry (chain_of s) (went s)")
  case None
  then show ?thesis using find_target_plain(1) [OF assms] assms(1) by (simp add: go_on_def plain_go_on_def)
next
  case (Some t)
  obtain ch t' where t': "find_target e s = Some (node t, ch)" "entry_at ch (node t) = Some t'"
      "forget_entry t' = forget_entry t" "forget_chain ch = forget_chain (chain_of s)" "run_inv (s\<lparr>chain_of := ch\<rparr>)"
    using find_target_plain(2) [OF assms Some] by blast
  define s1 where "s1 = s\<lparr>chain_of := ch\<rparr>"
  have s1: "forget_run s1 = forget_run s" "run_inv s1" "chain_of s1 = ch" "ran_chained e s1 = ran_chained e s"
    using t'(4,5) forget_run_update(1) by (simp_all add: s1_def ran_chained_def slot_value_def Let_def)
  have opt: "to_optimize t' = to_optimize t" "required t' = required t"
    using arg_cong [OF t'(3), of to_optimize] arg_cong [OF t'(3), of required] by simp_all
  show ?thesis
  proof (cases "to_optimize t")
    case True
    then show ?thesis using t'(1,2) opt s1 Some by (simp add: go_on_def plain_go_on_def s1_def [symmetric])
  next
    case False
    let ?w = "if entry_direct e then Some s1 else mark_written True e s1"
    have w: "map_option forget_run ?w = (if entry_direct e then Some (forget_run s) else plain_written True (forget_entry e) (forget_run s))"
      using plain_written_forget [of True e s1] s1(1) by (simp add: written_copy)
    have i: "run_inv s2 \<and> chain_of s2 = ch" if "?w = Some s2" for s2
      using that plain_written_inv [of True e s1 s2] s1(2,3) by (auto simp: written_copy split: if_splits)
    have go: "go_on e s = (case ?w of None \<Rightarrow> Inr Chain_undefined | Some s2 \<Rightarrow>
        (case ready_range t' s2 of None \<Rightarrow> Inr (Ended s2) | Some s3 \<Rightarrow> Inl (enter_range t' (ran_chained e s) s3)))"
      using t'(1,2) opt False by (simp add: go_on_def s1_def [symmetric])
    have plain: "plain_go_on (forget_entry e) (forget_run s) = (case map_option forget_run ?w of None \<Rightarrow> Inr Chain_undefined | Some s2 \<Rightarrow>
        (if list_all (is_bound (variables_of s2)) (required t) then Inl (enter_range (forget_entry t) (ran_chained e s) s2) else Inr (Ended s2)))"
      unfolding w using Some False by (auto simp: plain_go_on_def split: option.split)
    show ?thesis
    proof (cases ?w)
      case None
      then show ?thesis unfolding go plain by simp
    next
      case (Some s2)
      have s2: "run_inv s2" "entry_at (chain_of s2) (node t) = Some t'" using i [OF Some] t'(2) by simp_all
      note r = ready_range_plain [OF s2]
      show ?thesis
      proof (cases "ready_range t' s2")
        case None
        then show ?thesis unfolding go plain using Some r(1) s2(1) opt(2) by simp
      next
        case (Some s3)
        note r3 = r(2) [OF Some]
        have "list_all (is_bound (variables_of s2)) (required t)" using r(1) Some opt(2) by auto
        then show ?thesis unfolding go plain
          using \<open>?w = Some s2\<close> Some r3 enter_range_forget [OF t'(3), of "ran_chained e s" s3] enter_range_inv [of s3] by simp
      qed
    qed
  qed
qed

lemma after_range_plain:
  assumes "run_inv s" "(pc, e) \<in> set (entries (chain_of s))"
  shows "map_sum forget_run forget_end (after_range e s) = plain_after (forget_entry e) (forget_run s) \<and>
    (\<forall>s'. after_range e s = Inl s' \<longrightarrow> run_inv s') \<and> (\<forall>r. after_range e s = Inr r \<longrightarrow> end_inv r)"
proof (cases "error (run_cells_of s)")
  case None
  let ?w = "if entry_direct e then mark_written False e s else Some s"
  have w: "map_option forget_run ?w = (if entry_direct e then plain_written False (forget_entry e) (forget_run s) else Some (forget_run s))"
    using written_plain(1) [OF assms] by simp
  have after: "after_range e s = (case ?w of None \<Rightarrow> Inr Chain_undefined
      | Some s1 \<Rightarrow> if to_lean e s1 then Inr (Ended (count_range e s1)) else go_on e (count_range e s1))"
    using None by (simp add: after_range_def)
  have plain: "plain_after (forget_entry e) (forget_run s) = (case map_option forget_run ?w of None \<Rightarrow> Inr Chain_undefined
      | Some s1 \<Rightarrow> if to_lean (forget_entry e) s1 then Inr (Ended (count_range (forget_entry e) s1)) else plain_go_on (forget_entry e) (count_range (forget_entry e) s1))"
    using None w by (simp add: plain_after_def)
  show ?thesis
  proof (cases ?w)
    case (Some s1)
    have s1: "run_inv s1" "forget_chain (chain_of s1) = forget_chain (chain_of s)"
      using Some written_plain(2) [OF assms, of False s1] assms(1) by (auto split: if_splits)
    have "points_to (entries (chain_of (count_range e s1))) e"
      using count_range_points points_to_forget [OF s1(2)] run_inv_points [OF assms] by blast
    note g = go_on_plain [OF count_range_inv [OF s1(1), of e] this]
    show ?thesis unfolding after plain using Some g count_range_forget [of e s1] count_range_inv [OF s1(1), of e] by simp
  qed (simp add: after plain)
qed (use assms(1) in \<open>simp add: after_range_def plain_after_def\<close>)

lemma range_ran_inv:
  assumes "run_inv s" "run_compiled h hb (code e) (range_cells e s) = Some (Returned v c)"
  shows "run_inv (range_ran v c s)"
proof -
  let ?vs = "variables_of (range_ran v c s)"
  have "register_count c = register_count (range_cells e s)" by (rule run_compiled_count [OF assms(2)])
  then have "length (regs ?vs) = length (regs (variables_of s))" "bound ?vs = bound (variables_of s)"
    by (auto simp: range_ran_def range_cells_def register_count_def split: option.splits if_splits)
  then have "vars_ok ?vs" "vars_grow (variables_of s) ?vs" using assms(1) by (simp_all add: run_inv_def vars_ok_def vars_grow_def)
  then have "run_inv (s\<lparr>variables_of := ?vs\<rparr>)" by (rule run_inv_vars [OF assms(1)])
  then show ?thesis by (rule run_inv_same) (simp_all add: range_ran_def)
qed

lemma range_forget [simp]:
  "range_cells (forget_entry e) (forget_run s) = range_cells e s" "forget_run (range_ran v c s) = range_ran v c (forget_run s)"
  by (simp_all add: range_cells_def range_ran_def forget_run_def split: option.split)

lemma chain_step_plain:
  assumes "run_inv s"
  shows "map_option (map_sum forget_run forget_end) (chain_step h hb s) = plain_step h hb (forget_run s)"
    "chain_step h hb s = Some (Inl s') \<Longrightarrow> run_inv s'"
    "chain_step h hb s = Some (Inr r) \<Longrightarrow> end_inv r"
proof -
  have "map_option (map_sum forget_run forget_end) (chain_step h hb s) = plain_step h hb (forget_run s) \<and>
    (chain_step h hb s = Some (Inl s') \<longrightarrow> run_inv s') \<and> (chain_step h hb s = Some (Inr r) \<longrightarrow> end_inv r)"
  proof (cases "entry_at (chain_of s) (current s)")
    case (Some e)
    then obtain pc where e: "(pc, e) \<in> set (entries (chain_of s))" using entry_at_in by blast
    consider "run_compiled h hb (code e) (range_cells e s) = None" | "run_compiled h hb (code e) (range_cells e s) = Some Threw"
      | "run_compiled h hb (code e) (range_cells e s) = Some Undefined_run"
      | v c where "run_compiled h hb (code e) (range_cells e s) = Some (Returned v c)"
      by (metis not_None_eq outcome.exhaust)
    then show ?thesis
    proof cases
      case 4
      have "(pc, e) \<in> set (entries (chain_of (range_ran v c s)))" using e by (simp add: range_ran_def)
      from after_range_plain [OF range_ran_inv [OF assms 4] this] show ?thesis using Some 4
        by (simp add: chain_step_def plain_step_def)
    qed (use assms in \<open>auto simp: chain_step_def plain_step_def Some\<close>)
  qed (auto simp: chain_step_def plain_step_def)
  then show "map_option (map_sum forget_run forget_end) (chain_step h hb s) = plain_step h hb (forget_run s)"
    "chain_step h hb s = Some (Inl s') \<Longrightarrow> run_inv s'" "chain_step h hb s = Some (Inr r) \<Longrightarrow> end_inv r" by blast+
qed

section \<open>Whole runs\<close>

lemma loop_plain:
  assumes "run_inv s"
  shows "map_option forget_end (iterate_opt (chain_step h hb) s) = iterate_opt (plain_step h hb) (forget_run s)"
proof -
  have "rel_option (rel_sum (\<lambda>s t. t = forget_run s \<and> run_inv s) (\<lambda>r r'. r' = forget_end r)) (chain_step h hb s) (plain_step h hb t)"
    if "t = forget_run s \<and> run_inv s" for s t :: "('a, 'b) chain_run"
  proof (cases "chain_step h hb s")
    case (Some x)
    have "plain_step h hb t = Some (map_sum forget_run forget_end x)" using that Some chain_step_plain(1) [of s h hb] by simp
    then show ?thesis using that Some chain_step_plain(2) [of s h hb] by (cases x) auto
  qed (use that chain_step_plain(1) [of s h hb] in auto)
  note step = this
  have "rel_option (\<lambda>r r'. r' = forget_end r) (iterate_opt (chain_step h hb) s) (iterate_opt (plain_step h hb) (forget_run s))"
    by (rule iterate_opt_sim [where R = "\<lambda>s t. t = forget_run s \<and> run_inv s"]) (use assms step in simp_all)
  then show ?thesis by (cases "iterate_opt (chain_step h hb) s"; cases "iterate_opt (plain_step h hb) (forget_run s)") simp_all
qed

lemma set_entries_forget:
  "(\<And>e. forget_entry (f e) = f (forget_entry e)) \<Longrightarrow>
   forget_chain (foldl (\<lambda>ch n. put_entry n f ch) ch ns) = foldl (\<lambda>ch n. put_entry n f ch) (forget_chain ch) ns"
  by (induction ns arbitrary: ch) (simp_all add: forget_set_entry(2))

definition forget_result :: "('r \<times> 'w \<times> chain) \<Rightarrow> ('r \<times> 'w \<times> chain)" where
  "forget_result r = (fst r, fst (snd r), forget_chain (snd (snd r)))"

lemma run_info_forget: "run_info (forget_entry e) (forget_run s) = run_info e s"
proof -
  have "touched_words (forget_run s) = touched_words s"
    unfolding touched_words_def by (intro arg_cong [where f = concat]) (auto split: option.split)
  then show ?thesis by (simp add: run_info_def all_chained_def)
qed

lemma end_chain_forget: "end_chain (forget_end r) (forget_chain ch) = forget_result (end_chain r ch)"
proof (cases r)
  case (Ended s)
  have "for_touched rest_entry (forget_run s) = forget_chain (for_touched rest_entry s)"
    by (simp add: for_touched_def set_entries_forget rest_entry_def forget_entry_def)
  then show ?thesis using Ended run_info_forget [of _ s]
    by (auto simp: end_chain_def forget_result_def split: option.split)
next
  case (Chain_failed err s)
  have "for_touched take_back (forget_run s) = forget_chain (for_touched take_back s)"
    by (simp add: for_touched_def set_entries_forget take_back_def rest_entry_def forget_entry_def)
  then show ?thesis using Chain_failed by (simp add: end_chain_def forget_result_def)
qed (simp_all add: end_chain_def forget_result_def)

text \<open>What is remembered is of earlier runs when one starts.\<close>

definition rested :: "chain \<Rightarrow> bool" where
  "rested ch \<longleftrightarrow> chain_ok ch \<and> run_number ch \<noteq> - 1 \<and>
     (\<forall>(pc, e) \<in> set (entries ch). readyIn e \<le> run_number ch \<and> outputsSaid e \<le> run_number ch)"

lemma bind_variables_ok: "bind_variables us xs vs = Some vs' \<Longrightarrow> vars_ok vs \<Longrightarrow> vars_ok vs'"
proof (induction us xs vs rule: bind_variables.induct)
  case (3 v us x xs vs)
  obtain vs1 where vs1: "bind_variable v x vs = Some vs1" "bind_variables us xs vs1 = Some vs'" using "3.prems" by (auto split: option.splits)
  have "vars_ok vs1" using vs1(1) "3.prems"(2)
    by (auto simp: bind_variable_def Let_def ensure_variable_def resize_def vars_ok_def split: if_splits)
  then show ?case using "3.IH" vs1 by blast
qed simp_all

lemma start_variables_ok: "vars_ok (start_variables count)"
  by (simp add: start_variables_def Let_def ensure_variable_def resize_def vars_ok_def)

lemma first_run_inv:
  assumes "rested ch" "vars_ok vs"
  shows "run_inv (first_run ser state quiet obs cobs w vs n b ch)"
proof -
  have less: "run_number ch < run_number ch + 1"
    using assms(1) unat_next [of "run_number ch"] by (simp add: rested_def word_less_nat_alt)
  have "known_ok (run_number ch + 1) vs e" if "(pc, e) \<in> set (entries ch)" for pc e
  proof -
    have "readyIn e < run_number ch + 1" "outputsSaid e < run_number ch + 1"
      using assms(1) that less by (auto simp: rested_def intro: le_less_trans)
    then show ?thesis by (auto simp: known_ok_def less_imp_le)
  qed
  moreover have "chain_ok (ch\<lparr>run_number := run_number ch + 1\<rparr>)" using assms(1) by (simp add: rested_def chain_ok_def)
  ultimately show ?thesis using assms(2) by (auto simp: run_inv_def first_run_def)
qed

lemma run_chain_plain:
  assumes "rested ch"
  shows "map_option forget_result (run_chain h hb object ser state flt quiet obs cobs firstId firstPc firstBudget vars vals count w ch) =
    run_chain_with (plain_step h hb) object ser state flt quiet obs cobs firstId firstPc firstBudget vars vals count w (forget_chain ch)"
proof (cases "bind_variables vars vals (start_variables count)")
  case (Some vs)
  have ok: "vars_ok vs" by (rule bind_variables_ok [OF Some start_variables_ok])
  have first: "forget_run (first_run ser state quiet obs cobs w' vs n firstBudget ch) = first_run ser state quiet obs cobs w' vs n firstBudget (forget_chain ch)" for w' n
    by (simp add: first_run_def forget_run_def forget_chain_def)
  show ?thesis
  proof (cases "find_entry ch firstPc")
    case (Some e)
    let ?s = "first_run ser state quiet obs cobs (w\<lparr>quiet_filter := Some flt\<rparr>) vs (node e) firstBudget ch"
    have "map_option (\<lambda>r. end_chain r (forget_chain ch)) (iterate_opt (plain_step h hb) (forget_run ?s)) =
        map_option forget_result (map_option (\<lambda>r. end_chain r ch) (iterate_opt (chain_step h hb) ?s))"
      by (simp add: option.map_comp o_def end_chain_forget flip: loop_plain [OF first_run_inv [OF assms ok]])
    then show ?thesis using Some \<open>bind_variables _ _ _ = Some vs\<close> first
      by (auto simp: run_chain_def run_chain_with_def forget_result_def)
  qed (simp add: run_chain_def run_chain_with_def forget_result_def Some)
qed (simp add: run_chain_def run_chain_with_def forget_result_def)

end
