(* ===== verification/ChainCounts.thy ===== *)
theory ChainCounts
  imports ChainPlain
begin

text \<open>
  What a run of a chain counts. The blocks that each range ran, \<open>executed\<close>, add up to those of the run, \<open>chained\<close>,
  which are no more than its budget; the runs of an entry that fails are taken back from its \<open>executions\<close>;
  and, as each turn of the loop takes some of the budget, a run ends if each of its ranges does.
\<close>

section \<open>What a turn counts\<close>

definition blocks_run :: "chain_entry \<Rightarrow> ('x, 'e) chain_run \<Rightarrow> u64" where
  "blocks_run e s = (if first_range s then 0 else 1) + ran_chained e s"

definition counted_in :: "chain_entry \<Rightarrow> u64 \<Rightarrow> ('x, 'e) chain_run \<Rightarrow> ('x, 'e) chain_run \<Rightarrow> bool" where
  "counted_in e n s s' \<longleftrightarrow> chain_of s' = put_entry (node e) (count_entry ((if first_range s then 0 else 1) + n)) (chain_of s) \<and>
     touched_nodes s' = (if touched e then touched_nodes s else touched_nodes s @ [node e]) \<and> \<not> first_range s'"

lemma ran_chained_le: "ran_chained e s \<le> budget s"
  by (simp add: ran_chained_def Let_def word_sub_le)

lemma plain_written_fields:
  "plain_written copy e s = Some s' \<Longrightarrow> \<exists>vs. s' = s\<lparr>variables_of := vs\<rparr>"
  by (auto simp: plain_written_def)

lemma ran_chained_variables [simp]: "ran_chained e (s\<lparr>variables_of := vs\<rparr>) = ran_chained e s"
  by (simp add: ran_chained_def slot_value_def Let_def)

lemma count_range_counted:
  "counted_in e (ran_chained e s) s (count_range e (s\<lparr>variables_of := vs\<rparr>))"
  "budget (count_range e s) = budget s" "chained (count_range e s) = chained s" "current (count_range e s) = current s"
  "ran_chained e (count_range e s) = ran_chained e s"
  by (simp_all add: counted_in_def count_range_def ran_chained_def slot_value_def Let_def)

text \<open>The turns that end a run, and those that go on.\<close>

lemma plain_go_on_cases:
  obtains (go) t vs where "plain_go_on e s = Inl (enter_range t (ran_chained e s) (s\<lparr>variables_of := vs\<rparr>))"
      "find_entry (chain_of s) (went s) = Some t"
  | (stay) vs where "plain_go_on e s = Inr (Ended (s\<lparr>variables_of := vs\<rparr>))"
  | (undefined) "plain_go_on e s = Inr Chain_undefined"
proof -
  have s: "s = s\<lparr>variables_of := variables_of s\<rparr>" by simp
  show thesis
  proof (cases "find_entry (chain_of s) (went s)")
    case None
    then show ?thesis using stay [of "variables_of s"] by (simp add: plain_go_on_def)
  next
    case (Some t)
    let ?w = "if entry_direct e then Some s else plain_written True e s"
    show ?thesis
    proof (cases "to_optimize t")
      case True
      then show ?thesis using stay [of "variables_of s"] Some by (simp add: plain_go_on_def)
    next
      case False
      show ?thesis
      proof (cases ?w)
        case None
        then show ?thesis using undefined Some False by (auto simp: plain_go_on_def split: if_splits)
      next
        case (Some s1)
        then obtain vs where "s1 = s\<lparr>variables_of := vs\<rparr>" using plain_written_fields s by (metis option.inject)
        then show ?thesis using go [of t vs] stay [of vs] Some False \<open>find_entry (chain_of s) (went s) = Some t\<close>
          by (cases "list_all (is_bound vs) (required t)") (auto simp: plain_go_on_def split: if_splits)
      qed
    qed
  qed
qed

definition goes :: "chain_entry \<Rightarrow> ('x, 'e) chain_run \<Rightarrow> ('x, 'e) chain_run \<Rightarrow> bool" where
  "goes e s s' \<longleftrightarrow> (\<exists>n. n \<le> budget s \<and> counted_in e n s s' \<and> unat (budget s') + 1 \<le> unat (budget s) - unat n \<and>
     chained s' = chained s + (n + 1) \<and> (\<exists>pc t. find_entry (chain_of s') pc = Some t \<and> current s' = node t))"

definition ends :: "chain_entry \<Rightarrow> ('x, 'e) chain_run \<Rightarrow> ('x, 'e) chain_run \<Rightarrow> bool" where
  "ends e s s' \<longleftrightarrow> (\<exists>n. n \<le> budget s \<and> counted_in e n s s' \<and> budget s' = budget s \<and> chained s' = chained s \<and> current s' = current s \<and>
     ran_chained e s' = n)"

definition stopped :: "('x, 'e) chain_run \<Rightarrow> ('x, 'e) chain_run \<Rightarrow> bool" where
  "stopped s s' \<longleftrightarrow> chain_of s' = chain_of s \<and> touched_nodes s' = touched_nodes s"

lemma enter_range_budget:
  assumes "\<not> budget s - n < 1" "n \<le> budget s"
  shows "unat (budget (enter_range t n s)) + 1 \<le> unat (budget s) - unat n"
proof -
  have "unat (budget s - n) = unat (budget s) - unat n" using assms(2) by (simp add: unat_sub)
  moreover have w: "budget s - n \<noteq> 0" using assms(1) by simp
  then have "unat (budget s - n - 1) + 1 = unat (budget s - n)"
    using unat_minus_one [OF w] unat_eq_0 [of "budget s - n"] by (cases "unat (budget s - n)") simp_all
  moreover have "budget (enter_range t n s) \<le> budget s - n - 1" by (simp add: enter_range_def Let_def)
  ultimately show ?thesis by (simp add: word_le_nat_alt)
qed

lemma counted_variables: "counted_in e n s (s'\<lparr>variables_of := vs\<rparr>) = counted_in e n s s'"
  by (simp add: counted_in_def)

lemma enter_range_fields [simp]:
  "chain_of (enter_range t n s) = chain_of s" "touched_nodes (enter_range t n s) = touched_nodes s"
  "first_range (enter_range t n s) = first_range s" "chained (enter_range t n s) = chained s + (n + 1)" "current (enter_range t n s) = node t"
  by (simp_all add: enter_range_def Let_def)

lemma plain_after_counts:
  "plain_after e s = Inl s' \<Longrightarrow> goes e s s'"
  "plain_after e s = Inr (Ended s') \<Longrightarrow> ends e s s'"
  "plain_after e s = Inr (Chain_failed err s') \<Longrightarrow> s' = s"
  "plain_after e s \<noteq> Inr (Chain_threw s')"
proof -
  consider err where "error (run_cells_of s) = Some err" | "error (run_cells_of s) = None" "plain_after e s = Inr Chain_undefined"
    | vs where "error (run_cells_of s) = None" "plain_after e s = (let s1 = s\<lparr>variables_of := vs\<rparr>
        in if to_lean e s1 then Inr (Ended (count_range e s1)) else plain_go_on e (count_range e s1))"
  proof -
    have w: "\<exists>vs. s1 = s\<lparr>variables_of := vs\<rparr>" if "(if entry_direct e then plain_written False e s else Some s) = Some s1" for s1
    proof (cases "entry_direct e")
      case False
      then have "s1 = s\<lparr>variables_of := variables_of s\<rparr>" using that by simp
      then show ?thesis ..
    qed (use that plain_written_fields [of False e s s1] in simp)
    show thesis
    proof (cases "if entry_direct e then plain_written False e s else Some s")
      case None
      then show ?thesis using that(1,2) by (cases "error (run_cells_of s)") (auto simp: plain_after_def)
    next
      case (Some s1)
      then obtain vs where "s1 = s\<lparr>variables_of := vs\<rparr>" using w by blast
      then show ?thesis using that(1) that(3) [of vs] Some by (cases "error (run_cells_of s)") (auto simp: plain_after_def Let_def)
    qed
  qed
  then have "(\<forall>s'. plain_after e s = Inl s' \<longrightarrow> goes e s s') \<and> (\<forall>s'. plain_after e s = Inr (Ended s') \<longrightarrow> ends e s s') \<and>
    (\<forall>err s'. plain_after e s = Inr (Chain_failed err s') \<longrightarrow> s' = s) \<and> (\<forall>s'. plain_after e s \<noteq> Inr (Chain_threw s'))"
  proof cases
    case (3 vs)
    let ?n = "ran_chained e s"
    define s1 where "s1 = s\<lparr>variables_of := vs\<rparr>"
    define s2 where "s2 = count_range e s1"
    have n: "ran_chained e s1 = ?n" "budget s1 = budget s" "chained s1 = chained s" "current s1 = current s" by (simp_all add: s1_def)
    have c: "counted_in e ?n s s2" using count_range_counted(1) [of e s vs] by (simp add: s1_def s2_def)
    have s2: "budget s2 = budget s" "chained s2 = chained s" "current s2 = current s" "ran_chained e s2 = ?n"
      by (simp_all add: s2_def count_range_counted n)
    have end': "ends e s (s2\<lparr>variables_of := vs'\<rparr>)" for vs'
      unfolding ends_def using c s2 ran_chained_le [of e s] by (intro exI [of _ ?n]) (simp add: counted_variables)
    have after: "plain_after e s = (if to_lean e s1 then Inr (Ended s2) else plain_go_on e s2)"
      using 3(2) by (simp add: Let_def s1_def [symmetric] s2_def [symmetric])
    show ?thesis
    proof (cases "to_lean e s1")
      case True
      then show ?thesis using after end' [of "variables_of s2"] by simp
    next
      case False
      have b: "\<not> budget s - ?n < 1" using False n by (auto simp: to_lean_def)
      show ?thesis
      proof (cases rule: plain_go_on_cases [of e s2])
        case (go t vs')
        have "goes e s (enter_range t ?n (s2\<lparr>variables_of := vs'\<rparr>))"
          unfolding goes_def
        proof (rule exI [of _ ?n], intro conjI)
          show "counted_in e ?n s (enter_range t ?n (s2\<lparr>variables_of := vs'\<rparr>))" using c by (simp add: counted_in_def)
          show "unat (budget (enter_range t ?n (s2\<lparr>variables_of := vs'\<rparr>))) + 1 \<le> unat (budget s) - unat ?n"
            using enter_range_budget [of "s2\<lparr>variables_of := vs'\<rparr>" ?n t] b ran_chained_le [of e s] s2(1) by simp
          show "\<exists>pc t'. find_entry (chain_of (enter_range t ?n (s2\<lparr>variables_of := vs'\<rparr>))) pc = Some t' \<and>
              current (enter_range t ?n (s2\<lparr>variables_of := vs'\<rparr>)) = node t'" using go(2) by auto
        qed (use s2 ran_chained_le [of e s] in simp_all)
        then show ?thesis using after False go(1) s2(4) by simp
      next
        case (stay vs')
        then show ?thesis using after False end' by simp
      qed (use after False in simp)
    qed
  qed (simp_all add: plain_after_def)
  then show "plain_after e s = Inl s' \<Longrightarrow> goes e s s'" "plain_after e s = Inr (Ended s') \<Longrightarrow> ends e s s'"
    "plain_after e s = Inr (Chain_failed err s') \<Longrightarrow> s' = s" "plain_after e s \<noteq> Inr (Chain_threw s')" by blast+
qed

text \<open>The same of a turn, where the run of the range comes first.\<close>

lemma range_ran_fields [simp]:
  "chain_of (range_ran v c s) = chain_of s" "touched_nodes (range_ran v c s) = touched_nodes s" "first_range (range_ran v c s) = first_range s"
  "budget (range_ran v c s) = budget s" "chained (range_ran v c s) = chained s" "current (range_ran v c s) = current s"
  by (simp_all add: range_ran_def)

lemma counted_ran [simp]: "counted_in e n (range_ran v c s) s' = counted_in e n s s'"
  by (simp add: counted_in_def)

lemma plain_step_counts:
  assumes "entry_at (chain_of s) (current s) = Some e"
  shows "plain_step h hb s = Some (Inl s') \<Longrightarrow> goes e s s'"
    "plain_step h hb s = Some (Inr (Ended s')) \<Longrightarrow> ends e s s'"
    "plain_step h hb s = Some (Inr (Chain_failed err s')) \<Longrightarrow> stopped s s'"
    "plain_step h hb s = Some (Inr (Chain_threw s')) \<Longrightarrow> stopped s s'"
proof -
  have g: "goes e (range_ran v c s) s' \<Longrightarrow> goes e s s'" "ends e (range_ran v c s) s' \<Longrightarrow> ends e s s'" for v c
    by (simp_all add: goes_def ends_def)
  show "plain_step h hb s = Some (Inl s') \<Longrightarrow> goes e s s'" "plain_step h hb s = Some (Inr (Ended s')) \<Longrightarrow> ends e s s'"
    "plain_step h hb s = Some (Inr (Chain_failed err s')) \<Longrightarrow> stopped s s'" "plain_step h hb s = Some (Inr (Chain_threw s')) \<Longrightarrow> stopped s s'"
    using assms g plain_after_counts [of e] by (fastforce simp: plain_step_def stopped_def split: option.splits outcome.splits)+
qed

section \<open>What a run has counted\<close>

definition total :: "chain \<Rightarrow> nat" where
  "total ch = sum_list (map (\<lambda>entry. unat (executed (snd entry))) (entries ch))"

text \<open>An entry with what a run has counted of it so far, against what it was at its start.\<close>

definition counted_entry :: "chain_entry \<Rightarrow> chain_entry \<Rightarrow> bool" where
  "counted_entry e0 e \<longleftrightarrow>
     e = e0\<lparr>executions := executions e0 + executed e, touched := touched e, runs := runs e, executed := executed e\<rparr> \<and>
     (\<not> touched e \<longrightarrow> runs e = 0 \<and> executed e = 0)"

definition counted_chain :: "chain \<Rightarrow> chain \<Rightarrow> nat list \<Rightarrow> bool" where
  "counted_chain ch0 ch ns \<longleftrightarrow> ch = ch0\<lparr>entries := entries ch\<rparr> \<and>
     list_all2 (\<lambda>x y. fst x = fst y \<and> counted_entry (snd x) (snd y)) (entries ch0) (entries ch) \<and>
     distinct (map (\<lambda>entry. node (snd entry)) (entries ch)) \<and> distinct ns \<and>
     (\<forall>(pc, e) \<in> set (entries ch). touched e \<longleftrightarrow> node e \<in> set ns)"

definition count_inv :: "chain \<Rightarrow> nat \<Rightarrow> ('x, 'e) chain_run \<Rightarrow> bool" where
  "count_inv ch0 b s \<longleftrightarrow> counted_chain ch0 (chain_of s) (touched_nodes s) \<and> entry_at (chain_of s) (current s) \<noteq> None \<and>
     total (chain_of s) + unat (budget s) + (if first_range s then 0 else 1) \<le> b \<and>
     chained s = of_nat (total (chain_of s)) + (if first_range s then 0 else 1)"

lemma total_set:
  assumes "distinct (map (\<lambda>entry. node (snd entry)) es)" "(pc, e) \<in> set es" "unat (executed e) + unat k < 2 ^ 64"
  shows "sum_list (map (\<lambda>entry. unat (executed (snd entry))) (map (\<lambda>(pc, x). (pc, if node x = node e then count_entry k x else x)) es)) =
    sum_list (map (\<lambda>entry. unat (executed (snd entry))) es) + unat k"
  using assms(1,2)
proof (induction es)
  case (Cons x es)
  obtain q y where x: "x = (q, y)" by (cases x)
  show ?case
  proof (cases "node y = node e")
    case True
    then have "e \<notin> snd ` set es" "node e \<notin> (\<lambda>entry. node (snd entry)) ` set es" using Cons.prems(1) x by force+
    then have y: "y = e" and "map (\<lambda>(pc, x). (pc, if node x = node e then count_entry k x else x)) es = es"
      using Cons.prems(2) x by (force intro: map_idI)+
    moreover have "unat (executed (count_entry k e)) = unat (executed e) + unat k"
      using assms(3) by (simp add: count_entry_def unat_word_ariths)
    ultimately show ?thesis using x by simp
  next
    case False
    then have "(pc, e) \<in> set es" using Cons.prems(2) x by auto
    then show ?thesis using Cons x False by simp
  qed
qed simp

lemma executed_total: "(pc, e) \<in> set (entries ch) \<Longrightarrow> unat (executed e) \<le> total ch"
  unfolding total_def by (rule member_le_sum_list) (force, simp)

lemma counted_entry_count:
  assumes "counted_entry e0 e"
  shows "counted_entry e0 (count_entry n e)"
proof -
  define x where "x = executed e"
  have e: "e = e0\<lparr>executions := executions e0 + x, touched := touched e, runs := runs e, executed := x\<rparr>"
    using assms unfolding counted_entry_def x_def by blast
  have "count_entry n e = e0\<lparr>executions := executions e0 + (x + n), touched := True, runs := runs e + 1, executed := x + n\<rparr>"
    unfolding count_entry_def by (subst (1 2 3 4) e) (simp add: add.assoc)
  then show ?thesis by (simp add: counted_entry_def)
qed

lemma counted_chain_count:
  assumes "counted_chain ch0 ch ns" "entry_at ch n = Some e"
  shows "counted_chain ch0 (put_entry n (count_entry k) ch) (if touched e then ns else ns @ [n])"
proof -
  let ?ch = "put_entry n (count_entry k) ch" and ?ns = "if touched e then ns else ns @ [n]"
  obtain pc where e: "node e = n" "(pc, e) \<in> set (entries ch)" using entry_at_in [OF assms(2)] by blast
  have es: "entries ?ch = map (\<lambda>(pc, x). (pc, if node x = n then count_entry k x else x)) (entries ch)" by (simp add: put_entry_def)
  have "list_all2 (\<lambda>x y. fst x = fst y \<and> counted_entry (snd x) (snd y)) (entries ch0) (entries ?ch)"
    unfolding es list_all2_map2
    by (rule list_all2_mono [where P = "\<lambda>x y. fst x = fst y \<and> counted_entry (snd x) (snd y)"])
      (use assms(1) counted_entry_count in \<open>auto simp: counted_chain_def split: prod.splits\<close>)
  moreover have nodes: "map (\<lambda>entry. node (snd entry)) (entries ?ch) = map (\<lambda>entry. node (snd entry)) (entries ch)"
    by (rule put_entry_map(2) [OF harmless_known(4)])
  moreover have t: "touched e \<longleftrightarrow> n \<in> set ns" using assms(1) e by (auto simp: counted_chain_def)
  moreover have "touched x \<longleftrightarrow> node x \<in> set ?ns" if x: "(q, x) \<in> set (entries ?ch)" for q x
  proof -
    obtain y where y: "(q, y) \<in> set (entries ch)" "x = (if node y = n then count_entry k y else y)" using x by (auto simp: es)
    have "touched y \<longleftrightarrow> node y \<in> set ns" using assms(1) y(1) by (auto simp: counted_chain_def)
    then show ?thesis using y(2) t by (auto simp: count_entry_def)
  qed
  moreover have "?ch = ch0\<lparr>entries := entries ?ch\<rparr>"
  proof -
    have c: "ch = ch0\<lparr>entries := entries ch\<rparr>" using assms(1) by (simp add: counted_chain_def)
    show ?thesis by (subst c) (simp add: put_entry_def)
  qed
  ultimately show ?thesis using assms(1) by (auto simp: counted_chain_def)
qed

text \<open>Counting what a range ran adds it to the total.\<close>

lemma counted_total:
  assumes "count_inv ch0 b s" "entry_at (chain_of s) (current s) = Some e" "counted_in e n s s'" "n \<le> budget s" "b < 2 ^ 64"
  shows "counted_chain ch0 (chain_of s') (touched_nodes s')"
    "total (chain_of s') = total (chain_of s) + (if first_range s then 0 else 1) + unat n"
proof -
  let ?k = "(if first_range s then 0 else 1) + n"
  obtain pc where e: "node e = current s" "(pc, e) \<in> set (entries (chain_of s))" using entry_at_in [OF assms(2)] by blast
  have s': "chain_of s' = put_entry (current s) (count_entry ?k) (chain_of s)"
      "touched_nodes s' = (if touched e then touched_nodes s else touched_nodes s @ [current s])"
    using assms(3) e(1) by (auto simp: counted_in_def)
  show "counted_chain ch0 (chain_of s') (touched_nodes s')"
    unfolding s' using counted_chain_count assms(1,2) by (simp add: count_inv_def)
  have "unat n \<le> unat (budget s)" using assms(4) by (simp add: word_le_nat_alt)
  then have sum: "total (chain_of s) + (if first_range s then 0 else 1) + unat n < 2 ^ 64"
    using assms(1,5) by (simp add: count_inv_def)
  then have k: "unat ?k = (if first_range s then 0 else 1) + unat n"
    by (cases "first_range s") (simp_all add: unat_word_ariths)
  have "unat (executed e) + unat ?k < 2 ^ 64" using sum k executed_total [OF e(2)] by simp
  then show "total (chain_of s') = total (chain_of s) + (if first_range s then 0 else 1) + unat n"
    using total_set [of "entries (chain_of s)" pc e ?k] assms(1) e k
    by (simp add: s'(1) put_entry_def total_def count_inv_def counted_chain_def)
qed

lemma goes_inv:
  assumes "count_inv ch0 b s" "entry_at (chain_of s) (current s) = Some e" "goes e s s'" "b < 2 ^ 64"
  shows "count_inv ch0 b s' \<and> unat (budget s') < unat (budget s)"
proof -
  obtain n where n: "n \<le> budget s" "counted_in e n s s'" "unat (budget s') + 1 \<le> unat (budget s) - unat n"
      "chained s' = chained s + (n + 1)" "\<exists>pc t. find_entry (chain_of s') pc = Some t \<and> current s' = node t"
    using assms(3) by (auto simp: goes_def)
  note c = counted_total [OF assms(1,2) n(2,1) assms(4)]
  obtain pc t where t: "find_entry (chain_of s') pc = Some t" "current s' = node t" using n(5) by blast
  have "entry_at (chain_of s') (current s') \<noteq> None"
    using find_entry_in [OF t(1)] t(2) by (auto simp: entry_at_def find_None_iff)
  moreover have "unat n \<le> unat (budget s)" using n(1) by (simp add: word_le_nat_alt)
  moreover have "\<not> first_range s'" using n(2) by (simp add: counted_in_def)
  ultimately show ?thesis using assms(1) n(3,4) c by (auto simp: count_inv_def)
qed

lemma counted_entry_fields:
  assumes "counted_entry e0 e"
  shows "node e = node e0" "budgetSlot e = budgetSlot e0" "executions e = executions e0 + executed e" "code e = code e0"
proof -
  define x t r where "x = executed e" and "t = touched e" and "r = runs e"
  have e: "e = e0\<lparr>executions := executions e0 + x, touched := t, runs := r, executed := x\<rparr>"
    using assms unfolding counted_entry_def x_def t_def r_def by blast
  show "node e = node e0" "budgetSlot e = budgetSlot e0" "code e = code e0" by (simp_all add: e)
  show "executions e = executions e0 + executed e" by (subst (1) e) (simp add: x_def)
qed

lemma ran_all_chained: "all_chained e s = chained s + ran_chained e s"
  by (simp add: all_chained_def ran_chained_def slot_value_def Let_def)

lemma ends_counts:
  assumes "count_inv ch0 b s" "entry_at (chain_of s) (current s) = Some e" "ends e s s'" "b < 2 ^ 64"
  shows "counted_chain ch0 (chain_of s') (touched_nodes s')" "total (chain_of s') \<le> b"
    "\<exists>e'. entry_at (chain_of s') (current s') = Some e' \<and> all_chained e' s' = of_nat (total (chain_of s'))"
proof -
  obtain n where n: "n \<le> budget s" "counted_in e n s s'" "budget s' = budget s" "chained s' = chained s" "current s' = current s" "ran_chained e s' = n"
    using assms(3) by (auto simp: ends_def)
  note c = counted_total [OF assms(1,2) n(2,1) assms(4)]
  show "counted_chain ch0 (chain_of s') (touched_nodes s')" by (rule c(1))
  have "unat n \<le> unat (budget s)" using n(1) by (simp add: word_le_nat_alt)
  then show "total (chain_of s') \<le> b" using assms(1) c(2) by (auto simp: count_inv_def)
  let ?k = "(if first_range s then 0 else 1) + n"
  have kn: "keeps_node (count_entry ?k)" by (auto simp: count_entry_def)
  have "entry_at (chain_of s') (current s') = Some (count_entry ?k e)"
    using n(2,5) assms(2) entry_at_in [OF assms(2)] by (simp add: counted_in_def entry_at_set [OF kn])
  moreover have "ran_chained (count_entry ?k e) s' = n"
    using n(6) by (simp add: ran_chained_def count_entry_def)
  moreover have "chained s' + n = of_nat (total (chain_of s'))"
    using n(4) c(2) assms(1) by (simp add: count_inv_def)
  ultimately show "\<exists>e'. entry_at (chain_of s') (current s') = Some e' \<and> all_chained e' s' = of_nat (total (chain_of s'))"
    by (auto simp: ran_all_chained)
qed

section \<open>Taking back, and the end of a run\<close>

text \<open>No run is going on: nothing is counted.\<close>

definition idle :: "chain \<Rightarrow> bool" where
  "idle ch \<longleftrightarrow> (\<forall>(pc, e) \<in> set (entries ch). \<not> touched e \<and> runs e = 0 \<and> executed e = 0)"

lemma set_entries_map:
  assumes "keeps_node f" "distinct ns"
  shows "foldl (\<lambda>ch n. put_entry n f ch) ch ns = ch\<lparr>entries := map (\<lambda>(pc, e). (pc, if node e \<in> set ns then f e else e)) (entries ch)\<rparr>"
  using assms(2)
proof (induction ns arbitrary: ch)
  case (Cons n ns)
  have "map (\<lambda>(pc, e). (pc, if node e \<in> set ns then f e else e)) (map (\<lambda>(pc, e). (pc, if node e = n then f e else e)) (entries ch)) =
      map (\<lambda>(pc, e). (pc, if node e = n \<or> node e \<in> set ns then f e else e)) (entries ch)"
    using assms(1) Cons.prems by (auto simp: keeps_node_def)
  then show ?case using Cons by (simp add: put_entry_def)
qed (simp add: case_prod_beta)

lemma counted_map:
  assumes "list_all2 (\<lambda>x y. fst x = fst y \<and> counted_entry (snd x) (snd y)) es0 es" "\<And>pc e0 pc' e. (pc, e0) \<in> set es0 \<Longrightarrow> (pc', e) \<in> set es \<Longrightarrow> counted_entry e0 e \<Longrightarrow> f e = g e0 (executed e)"
  shows "map (\<lambda>(pc, e). (pc, f e)) es = map2 (\<lambda>(pc, e0) (pc', e). (pc, g e0 (executed e))) es0 es"
  using assms
proof (induction es0 es rule: list_all2_induct)
  case (Cons x xs y ys)
  have "f (snd y) = g (snd x) (executed (snd y))"
  proof (rule Cons.prems)
    show "(fst x, snd x) \<in> set (x # xs)" "(fst y, snd y) \<in> set (y # ys)" by (simp_all only: prod.collapse list.set_intros)
  qed (use Cons.hyps(1) in simp)
  moreover have "map (\<lambda>(pc, e). (pc, f e)) ys = map2 (\<lambda>(pc, e0) (pc', e). (pc, g e0 (executed e))) xs ys"
    by (rule Cons.IH) (use Cons.prems in auto)
  ultimately show ?case using Cons.hyps(1) by (cases x; cases y) simp
qed simp

lemma counted_entryE:
  assumes "counted_entry e0 e"
  obtains x t r where "e = e0\<lparr>executions := executions e0 + x, touched := t, runs := r, executed := x\<rparr>" "\<not> t \<longrightarrow> r = 0 \<and> x = 0"
  using assms unfolding counted_entry_def by blast

lemma take_back_counted:
  assumes "counted_entry e0 e" "\<not> touched e0" "runs e0 = 0" "executed e0 = 0" "unat (executions e0) + unat (executed e) < 2 ^ 64"
  shows "(if touched e then take_back e else e) = e0"
proof -
  obtain x t r where e: "e = e0\<lparr>executions := executions e0 + x, touched := t, runs := r, executed := x\<rparr>" "\<not> t \<longrightarrow> r = 0 \<and> x = 0"
    by (rule counted_entryE [OF assms(1)])
  have "unat (executions e0 + x) = unat (executions e0) + unat x" using assms(5) by (simp add: e(1) unat_word_ariths)
  then have "x \<le> executions e0 + x" by (simp add: word_le_nat_alt)
  then show ?thesis using assms(2-4) e(2) by (simp add: e(1) take_back_def rest_entry_def min_absorb2)
qed

lemma rest_counted:
  assumes "counted_entry e0 e" "\<not> touched e0" "runs e0 = 0" "executed e0 = 0"
  shows "(if touched e then rest_entry e else e) = e0\<lparr>executions := executions e0 + executed e\<rparr>"
proof -
  obtain x t r where e: "e = e0\<lparr>executions := executions e0 + x, touched := t, runs := r, executed := x\<rparr>" "\<not> t \<longrightarrow> r = 0 \<and> x = 0"
    by (rule counted_entryE [OF assms(1)])
  show ?thesis using assms(2-4) e(2) by (simp add: e(1) rest_entry_def)
qed

lemma touched_map:
  assumes "counted_chain ch0 ch ns"
  shows "map (\<lambda>(pc, e). (pc, if node e \<in> set ns then f e else e)) (entries ch) = map (\<lambda>(pc, e). (pc, if touched e then f e else e)) (entries ch)"
  using assms by (auto simp: counted_chain_def)

lemma for_touched_map:
  assumes "counted_chain ch0 (chain_of s) (touched_nodes s)" "keeps_node f"
  shows "for_touched f s = (chain_of s)\<lparr>entries := map (\<lambda>(pc, e). (pc, if touched e then f e else e)) (entries (chain_of s))\<rparr>"
proof -
  have d: "distinct (touched_nodes s)" using assms(1) by (simp add: counted_chain_def)
  show ?thesis unfolding for_touched_def set_entries_map [OF assms(2) d] touched_map [OF assms(1)] ..
qed

lemma counted_update: "counted_chain ch0 ch ns \<Longrightarrow> ch\<lparr>entries := es\<rparr> = ch0\<lparr>entries := es\<rparr>"
proof -
  assume "counted_chain ch0 ch ns"
  then obtain x where "ch = ch0\<lparr>entries := x\<rparr>" unfolding counted_chain_def by blast
  then show ?thesis by simp
qed

lemma taken_back:
  assumes "counted_chain ch0 (chain_of s) (touched_nodes s)" "idle ch0" "total (chain_of s) \<le> b"
    "\<forall>(pc, e) \<in> set (entries ch0). unat (executions e) + b < 2 ^ 64"
  shows "for_touched take_back s = ch0"
proof -
  have l: "list_all2 (\<lambda>x y. fst x = fst y \<and> counted_entry (snd x) (snd y)) (entries ch0) (entries (chain_of s))"
    using assms(1) by (simp add: counted_chain_def)
  have "map (\<lambda>(pc, e). (pc, if touched e then take_back e else e)) (entries (chain_of s)) = map2 (\<lambda>(pc, e0) (pc', e). (pc, e0)) (entries ch0) (entries (chain_of s))"
  proof (rule counted_map [OF l, where g = "\<lambda>e0 n. e0"])
    fix pc e0 pc' e assume e: "(pc, e0) \<in> set (entries ch0)" "(pc', e) \<in> set (entries (chain_of s))" "counted_entry e0 e"
    have "unat (executions e0) + b < 2 ^ 64" using assms(4) e(1) by auto
    then show "(if touched e then take_back e else e) = e0"
      using take_back_counted [OF e(3)] assms(2,3) e(1) executed_total [OF e(2)] by (auto simp: idle_def)
  qed
  also have "\<dots> = entries ch0" using list_all2_lengthD [OF l]
    by (intro nth_equalityI) (auto simp: case_prod_beta)
  finally have m: "map (\<lambda>(pc, e). (pc, if touched e then take_back e else e)) (entries (chain_of s)) = entries ch0" .
  have "keeps_node take_back" by (auto simp: take_back_def rest_entry_def)
  then show ?thesis using for_touched_map [OF assms(1), of take_back] m counted_update [OF assms(1)] by simp
qed

section \<open>The whole loop\<close>

fun count_end :: "chain \<Rightarrow> nat \<Rightarrow> ('x, 'e) chain_end \<Rightarrow> bool" where
  "count_end ch0 b (Ended s) \<longleftrightarrow> counted_chain ch0 (chain_of s) (touched_nodes s) \<and> total (chain_of s) \<le> b \<and>
     (\<exists>e. entry_at (chain_of s) (current s) = Some e \<and> all_chained e s = of_nat (total (chain_of s)))"
| "count_end ch0 b (Chain_failed err s) \<longleftrightarrow> counted_chain ch0 (chain_of s) (touched_nodes s) \<and> total (chain_of s) \<le> b"
| "count_end ch0 b (Chain_threw s) \<longleftrightarrow> counted_chain ch0 (chain_of s) (touched_nodes s) \<and> total (chain_of s) \<le> b"
| "count_end ch0 b Chain_undefined \<longleftrightarrow> True"

lemma plain_step_count:
  assumes "count_inv ch0 b s" "b < 2 ^ 64"
  shows "plain_step h hb s = Some (Inl s') \<Longrightarrow> count_inv ch0 b s' \<and> unat (budget s') < unat (budget s)"
    "plain_step h hb s = Some (Inr r) \<Longrightarrow> count_end ch0 b r"
proof -
  obtain e where e: "entry_at (chain_of s) (current s) = Some e" using assms(1) by (auto simp: count_inv_def)
  show "count_inv ch0 b s' \<and> unat (budget s') < unat (budget s)" if "plain_step h hb s = Some (Inl s')"
    using goes_inv [OF assms(1) e _ assms(2)] plain_step_counts(1) [OF e that] by blast
  have b: "counted_chain ch0 (chain_of s) (touched_nodes s) \<and> total (chain_of s) \<le> b" using assms(1) by (simp add: count_inv_def)
  show "count_end ch0 b r" if "plain_step h hb s = Some (Inr r)"
  proof (cases r)
    case (Ended s')
    then show ?thesis using ends_counts [OF assms(1) e plain_step_counts(2) [OF e] assms(2)] that by auto
  qed (use that plain_step_counts(3,4) [OF e] b in \<open>auto simp: stopped_def\<close>)
qed

lemma first_run_count:
  assumes "idle ch" "chain_ok ch" "find_entry ch pc = Some e"
  shows "count_inv (ch\<lparr>run_number := run_number ch + 1\<rparr>) (unat b) (first_run ser state quiet obs cobs w vs (node e) b ch)"
proof -
  let ?ch = "ch\<lparr>run_number := run_number ch + 1\<rparr>"
  have "counted_entry e e" if "(pc, e) \<in> set (entries ch)" for pc e
    using assms(1) that by (auto simp: idle_def counted_entry_def)
  then have "counted_chain ?ch ?ch []"
    using assms(1,2) by (auto simp: counted_chain_def chain_ok_def idle_def list_all2_same)
  moreover have "total ?ch = 0" using assms(1) by (auto simp: total_def idle_def)
  moreover have "entry_at ?ch (node e) \<noteq> None" using entry_at_find [OF assms(2,3)] by (auto simp: entry_at_def)
  ultimately show ?thesis by (simp add: count_inv_def first_run_def)
qed

lemma forget_run_number: "forget_chain (ch\<lparr>run_number := run_number ch + 1\<rparr>) = (forget_chain ch)\<lparr>run_number := run_number (forget_chain ch) + 1\<rparr>"
  by (cases ch) (simp add: forget_chain_def)

lemma forget_idle: "idle (forget_chain ch) = idle ch"
  by (auto simp: idle_def forget_chain_def)

lemma forget_chain_ok:
  assumes "chain_ok ch"
  shows "chain_ok (forget_chain ch)"
proof -
  have f: "map fst (entries (forget_chain ch)) = map fst (entries ch)" "map (\<lambda>entry. node (snd entry)) (entries (forget_chain ch)) = map (\<lambda>entry. node (snd entry)) (entries ch)"
      "map (\<lambda>entry. program_object (snd entry)) (entries (forget_chain ch)) = map (\<lambda>entry. program_object (snd entry)) (entries ch)"
    by (auto simp: forget_chain_def)
  have "holds_count (entries (forget_chain ch)) = holds_count (entries ch)" by (rule ext) (simp add: holds_count_map f)
  moreover have "pointers_ok (entries (forget_chain ch))" by (auto simp: pointers_ok_def forget_chain_def forget_entry_def)
  moreover have "node e < next_node ch \<and> entry_ok e" if "(pc, e) \<in> set (entries (forget_chain ch))" for pc e
    using that assms by (auto simp: forget_chain_def chain_ok_def entry_ok_def entry_fits_def forget_entry_def)
  moreover have "references (forget_chain ch) = references ch" "next_node (forget_chain ch) = next_node ch" by (simp_all add: forget_chain_def)
  ultimately show ?thesis using assms unfolding chain_ok_def f by auto
qed

lemma plain_loop_count:
  assumes "iterate_opt (plain_step h hb) s = Some r" "count_inv ch0 b s" "b < 2 ^ 64"
  shows "count_end ch0 b r"
  by (rule iterate_opt_invariant [where I = "count_inv ch0 b", OF assms(1,2)]) (use plain_step_count [OF _ assms(3)] in blast)+

text \<open>What a run ends with, in the terms of the loop that remembers nothing.\<close>

lemma run_chain_end:
  assumes "rested ch" "idle ch"
    "run_chain h hb object ser state flt quiet obs cobs firstId firstPc firstBudget vars vals count w ch = Some (res, w', ch')"
    "res \<notin> {Inl No_chain_start, Inl Chain_few_slots, Inl Chain_undefined_behaviour}"
  obtains r :: "('x, 'e) chain_end" where "count_end (forget_chain (ch\<lparr>run_number := run_number ch + 1\<rparr>)) (unat firstBudget) r"
    "end_chain r (forget_chain ch) = (res, w', forget_chain ch')"
proof -
  let ?ch0 = "forget_chain (ch\<lparr>run_number := run_number ch + 1\<rparr>)"
  have ok: "chain_ok (forget_chain ch)" "idle (forget_chain ch)" using assms(1,2) forget_chain_ok by (simp_all add: rested_def forget_idle)
  have p: "run_chain_with (plain_step h hb) object ser state flt quiet obs cobs firstId firstPc firstBudget vars vals count w (forget_chain ch) =
      Some (res, w', forget_chain ch')"
    using run_chain_plain [OF assms(1), of h hb object ser state flt quiet obs cobs firstId firstPc firstBudget vars vals count w] assms(3)
    by (simp add: forget_result_def)
  obtain vs e where e: "bind_variables vars vals (start_variables count) = Some vs" "find_entry ch firstPc = Some e"
      "\<not> (entry_id e \<noteq> firstId \<or> program_object e \<noteq> object)" "\<not> length state < slotCount e"
    using assms(3,4) by (auto simp: run_chain_def run_chain_with_def split: option.splits if_splits)
  let ?s = "first_run ser state quiet obs cobs (w\<lparr>quiet_filter := Some flt\<rparr>) vs (node e) firstBudget (forget_chain ch)"
  obtain r where r: "iterate_opt (plain_step h hb) ?s = Some r" "end_chain r (forget_chain ch) = (res, w', forget_chain ch')"
    using p e by (auto simp: run_chain_with_def)
  have "find_entry (forget_chain ch) firstPc = Some (forget_entry e)" using e(2) by simp
  from first_run_count [OF ok(2,1) this]
  have "count_inv ?ch0 (unat firstBudget) ?s" unfolding forget_run_number by simp
  then have "count_end ?ch0 (unat firstBudget) r" using plain_loop_count [OF r(1)] unsigned_less [of firstBudget, where 'a = nat] by simp
  then show thesis using that r(2) by blast
qed

end
