(* ===== verification/ChainProperties.thy ===== *)
theory ChainProperties
  imports ChainCounts OptimizeProperties
begin

text \<open>
  What chains promise: obligation 17 of \<open>src/Bap/Jit.lean\<close>, as far as \<open>bap_jit_run_chain\<close> is concerned.
\<close>

section \<open>Chains that operations make\<close>

definition settled :: "chain \<Rightarrow> bool" where
  "settled ch \<longleftrightarrow> chain_ok ch \<and> (\<forall>(pc, e) \<in> set (entries ch). readyIn e \<le> run_number ch \<and> outputsSaid e \<le> run_number ch)"

lemma settled_rested: "settled ch \<Longrightarrow> run_number ch \<noteq> - 1 \<Longrightarrow> rested ch"
  by (simp add: settled_def rested_def)

lemma run_inv_settled: "run_inv s \<Longrightarrow> settled (chain_of s)"
  by (auto simp: run_inv_def settled_def known_ok_def)

lemma harmless_rest: "harmless rest_entry" "harmless take_back"
  by (simp_all add: harmless_def rest_entry_def take_back_def entry_ok_def entry_fits_def)

text \<open>A change in place of what a chain doesn't point with or remember.\<close>

lemma settled_set:
  assumes "settled ch" "harmless f" "\<And>e. lastNext (f e) = lastNext e \<and> lastTarget (f e) = lastTarget e \<and> readyIn (f e) = readyIn e \<and> outputsSaid (f e) = outputsSaid e"
  shows "settled (put_entry n f ch)"
proof -
  have "points_to (entries ch) (f e)" if "(pc, e) \<in> set (entries ch)" for pc e
    using assms(1,3) that by (auto simp: settled_def chain_ok_def pointers_ok_iff points_to_def)
  then have "chain_ok (put_entry n f ch)" using put_entry_ok [OF _ assms(2)] assms(1) by (simp add: settled_def)
  then show ?thesis using assms(1,3) by (fastforce simp: settled_def put_entry_def)
qed

lemma settled_touched:
  assumes "settled (chain_of s)" "f = rest_entry \<or> f = take_back"
  shows "settled (for_touched f s)"
proof -
  have "settled (foldl (\<lambda>ch n. put_entry n f ch) ch ns)" if "settled ch" for ch ns
    using that
  proof (induction ns arbitrary: ch)
    case (Cons n ns)
    have "settled (put_entry n f ch)"
      by (rule settled_set [OF Cons.prems]) (use assms(2) harmless_rest in \<open>auto simp: rest_entry_def take_back_def\<close>)
    then show ?case using Cons.IH by simp
  qed simp
  then show ?thesis using assms(1) by (simp add: for_touched_def)
qed

lemma run_chain_settled:
  assumes "settled ch" "run_number ch \<noteq> - 1"
    "run_chain h hb object ser state flt quiet obs cobs firstId firstPc firstBudget vars vals vcount w ch = Some (res, w', ch')"
  shows "settled ch'"
proof (cases "ch' = ch")
  case False
  have r: "rested ch" by (rule settled_rested [OF assms(1,2)])
  obtain vs e where e: "bind_variables vars vals (start_variables vcount) = Some vs" "find_entry ch firstPc = Some e"
      "\<not> (entry_id e \<noteq> firstId \<or> program_object e \<noteq> object)" "\<not> length state < slotCount e"
    using assms(3) False by (auto simp: run_chain_def run_chain_with_def split: option.splits if_splits)
  let ?s = "first_run ser state quiet obs cobs (w\<lparr>quiet_filter := Some flt\<rparr>) vs (node e) firstBudget ch"
  obtain r where r: "iterate_opt (chain_step h hb) ?s = Some r" "end_chain r ch = (res, w', ch')"
    using assms(3) e by (auto simp: run_chain_def run_chain_with_def)
  have "run_inv ?s" by (rule first_run_inv [OF \<open>rested ch\<close> bind_variables_ok [OF e(1) start_variables_ok]])
  then have "end_inv r"
    by (rule iterate_opt_invariant [where I = run_inv, OF r(1)]) (use chain_step_plain(2,3) in blast)+
  then show ?thesis using r(2) False settled_touched run_inv_settled
    by (cases r) (auto simp: end_chain_def split: option.splits)
qed (use assms(1) in simp)

datatype chain_op =
  Add u64 u64 nat compiled "u64 list"
| Clear
| Optimizing u64 u64

definition chain_do :: "chain_op \<Rightarrow> chain \<Rightarrow> chain" where
  "chain_do op ch =
     (case op of
        Add pc eid object p data \<Rightarrow> (case chain_add pc eid object p data ch of None \<Rightarrow> ch | Some ch' \<Rightarrow> ch')
      | Clear \<Rightarrow> chain_clear ch
      | Optimizing pc n \<Rightarrow> chain_optimizing pc n ch)"

text \<open>The chains that Lean can make: runs of the chain are among what it does, fewer than \<open>2 ^ 64\<close> of them.\<close>

inductive reached_chain :: "chain \<Rightarrow> bool" where
  create: "reached_chain chain_create"
| does: "reached_chain ch \<Longrightarrow> reached_chain (chain_do op ch)"
| runs: "reached_chain ch \<Longrightarrow> run_number ch \<noteq> - 1 \<Longrightarrow>
    run_chain h hb object ser state flt quiet (obs :: (unit, unit) memory_observer option) cobs firstId firstPc firstBudget vars vals vcount w ch =
      Some (res, w', ch') \<Longrightarrow> reached_chain ch'"

lemma read_entry_fresh:
  assumes "run_state (read_entry eid) r = (e, r')"
  shows "readyIn e = 0" "outputsSaid e = 0"
  using assms unfolding read_entry_def by (elim bindE, simp only: run_state_return prod.inject, fastforce)+

lemma chain_add_settled:
  assumes "settled ch" "chain_add pc eid object p data ch = Some ch'"
  shows "settled ch'"
proof -
  obtain e r where r: "run_state (read_entry eid) \<lparr>words_left = data, bad = False\<rparr> = (e, r)" by fastforce
  let ?ch = "inc_ref object (erase_entry pc ch)"
  let ?e = "(flag_outputs e)\<lparr>node := next_node ?ch, program_object := object, code := p, entry_direct := direct p\<rparr>"
  have ch': "ch' = ?ch\<lparr>entries := (pc, ?e) # entries ?ch, next_node := next_node ?ch + 1\<rparr>"
    using assms(2) r by (auto simp: chain_add_def Let_def split: if_splits)
  have "run_number ?ch = run_number ch"
    by (auto simp: inc_ref_def erase_entry_def dec_ref_def split: option.split)
  moreover have "readyIn x \<le> run_number ch \<and> outputsSaid x \<le> run_number ch" if "(q, x) \<in> set (entries ?ch)" for q x
    using assms(1) that by (auto simp: settled_def inc_ref_def erase_entry_def dec_ref_def split: option.splits)
  moreover have "readyIn ?e = 0" "outputsSaid ?e = 0" using read_entry_fresh [OF r] by (simp_all add: flag_outputs_def Let_def)
  moreover have "chain_ok ch'" by (rule chain_add_ok [OF _ assms(2)]) (use assms(1) in \<open>simp add: settled_def\<close>)
  ultimately show ?thesis by (auto simp: settled_def ch')
qed

lemma chain_do_settled:
  assumes "settled ch"
  shows "settled (chain_do op ch)"
proof (cases op)
  case (Add pc eid object p data)
  then show ?thesis using chain_add_settled assms by (auto simp: chain_do_def split: option.split)
next
  case Clear
  have "chain_ok (chain_clear ch)" using chain_clear_ok assms by (simp add: settled_def)
  then show ?thesis using Clear by (simp add: chain_do_def settled_def chain_clear_def)
next
  case (Optimizing pc n)
  show ?thesis
  proof (cases "find_entry ch pc")
    case (Some e)
    have "settled (put_entry (node e) (\<lambda>e. e\<lparr>optimizeAt := executions e + n\<rparr>) ch)"
      by (rule settled_set [OF assms]) (simp_all add: harmless_def entry_ok_def entry_fits_def)
    then show ?thesis using Optimizing Some by (simp add: chain_do_def chain_optimizing_def)
  qed (use assms Optimizing in \<open>simp add: chain_do_def chain_optimizing_def\<close>)
qed

lemma reached_settled: "reached_chain ch \<Longrightarrow> settled ch"
proof (induction rule: reached_chain.induct)
  case create
  then show ?case using chain_create_ok by (simp add: settled_def chain_create_def)
next
  case (does ch op)
  then show ?case using chain_do_settled by blast
next
  case (runs ch)
  then show ?case using run_chain_settled [OF runs.IH runs.hyps(2,3)] by blast
qed

section \<open>Properties\<close>

text \<open>
  C21. Whatever Lean does with a chain, each entry is at one pc and at an address of its own, what an entry remembers
  of where it went is an entry that is there, the slots that an entry names are within its state, and
  a program has a reference for each entry that has it, none after \<open>clear\<close>.
\<close>

theorem chains_well_formed:
  assumes "reached_chain ch"
  shows "chain_ok ch \<and> references (chain_clear ch) = (\<lambda>_. 0)"
  using reached_settled [OF assms] chain_clear_ok [of ch] by (auto simp: settled_def)

text \<open>
  C17. A run of a chain gives the same result, the same world and the same chain, but for what entries remember, as one that
  remembers nothing: that searches the chain at each range, marks each output, and asks for each variable
  that a range needs.
\<close>

theorem run_chain_remembers:
  assumes "reached_chain ch" "run_number ch \<noteq> - 1"
  shows "map_option forget_result (run_chain h hb object ser state flt quiet obs cobs firstId firstPc firstBudget vars vals vcount w ch) =
    run_chain_with (plain_step h hb) object ser state flt quiet obs cobs firstId firstPc firstBudget vars vals vcount w (forget_chain ch)"
  by (rule run_chain_plain [OF settled_rested [OF reached_settled [OF assms(1)] assms(2)]])


text \<open>
  C18. What a run says that it did adds up: each entry's executions have what its ranges ran, and all of that together is the
  number of blocks that the run says that it went on to, which is no more than its budget.
\<close>

theorem run_chain_counts:
  fixes w :: "'x world" and obs :: "('x, 'e) memory_observer option"
  assumes "reached_chain ch" "run_number ch \<noteq> - 1" "idle ch"
    "run_chain h hb object ser state flt quiet obs cobs firstId firstPc firstBudget vars vals vcount w ch = Some (Inr (v, st, cs, info), w', ch')"
  shows "\<exists>ns. length ns = length (entries ch) \<and>
    forget_chain ch' = (forget_chain ch)\<lparr>run_number := run_number ch + 1,
      entries := map2 (\<lambda>(pc, e) n. (pc, e\<lparr>executions := executions e + of_nat n\<rparr>)) (entries (forget_chain ch)) ns\<rparr> \<and>
    sum_list ns = unat (info ! 1) \<and> sum_list ns \<le> unat firstBudget"
proof -
  have r: "rested ch" using settled_rested reached_settled assms(1,2) by blast
  let ?ch0 = "forget_chain (ch\<lparr>run_number := run_number ch + 1\<rparr>)"
  obtain r :: "('x, 'e) chain_end" where r: "count_end ?ch0 (unat firstBudget) r" "end_chain r (forget_chain ch) = (Inr (v, st, cs, info), w', forget_chain ch')"
    by (rule run_chain_end [OF r assms(3,4)]) simp
  then obtain s where s: "r = Ended s" by (cases r) (auto simp: end_chain_def split: option.splits)
  have c: "counted_chain ?ch0 (chain_of s) (touched_nodes s)" "total (chain_of s) \<le> unat firstBudget" using r(1) s by simp_all
  obtain e where e: "entry_at (chain_of s) (current s) = Some e" "all_chained e s = of_nat (total (chain_of s))" using r(1) s by auto
  have i: "info = run_info e s" "forget_chain ch' = for_touched rest_entry s" using r(2) s e(1) by (auto simp: end_chain_def)
  have "total (chain_of s) < 2 ^ 64" using c(2) unsigned_less [of firstBudget, where 'a = nat] by simp
  then have info: "unat (info ! 1) = total (chain_of s)"
    by (simp add: i(1) run_info_def e(2) unat_of_nat take_bit_eq_mod)
  have idle: "idle ?ch0" using assms(3) by (simp add: forget_run_number idle_def forget_idle [unfolded idle_def])
  let ?ns = "map (\<lambda>entry. unat (executed (snd entry))) (entries (chain_of s))"
  have l: "list_all2 (\<lambda>x y. fst x = fst y \<and> counted_entry (snd x) (snd y)) (entries ?ch0) (entries (chain_of s))"
    using c(1) by (simp add: counted_chain_def)
  have "map (\<lambda>(pc, e). (pc, if touched e then rest_entry e else e)) (entries (chain_of s)) =
      map2 (\<lambda>(pc, e0) (pc', e). (pc, e0\<lparr>executions := executions e0 + executed e\<rparr>)) (entries ?ch0) (entries (chain_of s))"
  proof (rule counted_map [OF l, where g = "\<lambda>e0 n. e0\<lparr>executions := executions e0 + n\<rparr>"])
    fix pc e0 pc' e assume e: "(pc, e0) \<in> set (entries ?ch0)" "counted_entry e0 e"
    have "\<not> touched e0" "runs e0 = 0" "executed e0 = 0" using idle e(1) unfolding idle_def by blast+
    then show "(if touched e then rest_entry e else e) = e0\<lparr>executions := executions e0 + executed e\<rparr>" by (rule rest_counted [OF e(2)])
  qed
  also have "\<dots> = map2 (\<lambda>(pc, e) n. (pc, e\<lparr>executions := executions e + of_nat n\<rparr>)) (entries ?ch0) ?ns"
    by (simp add: zip_map2 case_prod_beta)
  finally have m: "map (\<lambda>(pc, e). (pc, if touched e then rest_entry e else e)) (entries (chain_of s)) =
      map2 (\<lambda>(pc, e) n. (pc, e\<lparr>executions := executions e + of_nat n\<rparr>)) (entries ?ch0) ?ns" .
  have kn: "keeps_node rest_entry" by (auto simp: rest_entry_def)
  have "forget_chain ch' = ?ch0\<lparr>entries := map2 (\<lambda>(pc, e) n. (pc, e\<lparr>executions := executions e + of_nat n\<rparr>)) (entries ?ch0) ?ns\<rparr>"
    unfolding i(2) for_touched_map [OF c(1) kn] m by (rule counted_update [OF c(1)])
  then have "forget_chain ch' = (forget_chain ch)\<lparr>run_number := run_number ch + 1,
      entries := map2 (\<lambda>(pc, e) n. (pc, e\<lparr>executions := executions e + of_nat n\<rparr>)) (entries (forget_chain ch)) ?ns\<rparr>"
    by (simp add: forget_chain_def)
  moreover have "length ?ns = length (entries ch)" using list_all2_lengthD [OF l] by (simp add: forget_chain_def)
  moreover have "sum_list ?ns = unat (info ! 1)" using info by (simp add: total_def)
  ultimately show ?thesis using c(2) info by (intro exI [of _ ?ns]) simp
qed

lemma plain_ends:
  assumes "count_inv ch0 b s" "b < 2 ^ 64" "\<forall>(pc, e) \<in> set (entries ch0). \<forall>c :: ('x, 'e) cells. run_compiled h hb (code e) c \<noteq> None"
  shows "iterate_opt (plain_step h hb) (s :: ('x, 'e) chain_run) \<noteq> None"
proof (rule iterate_opt_ends [where I = "count_inv ch0 b" and m = "\<lambda>s. unat (budget s)", OF assms(1)])
  fix s :: "('x, 'e) chain_run" assume i: "count_inv ch0 b s"
  then obtain e pc where e: "entry_at (chain_of s) (current s) = Some e" "(pc, e) \<in> set (entries (chain_of s))"
    using entry_at_in by (fastforce simp: count_inv_def)
  have l: "list_all2 (\<lambda>x y. fst x = fst y \<and> counted_entry (snd x) (snd y)) (entries ch0) (entries (chain_of s))"
    using i by (simp add: count_inv_def counted_chain_def)
  obtain x where x: "x \<in> set (entries ch0)" "counted_entry (snd x) e"
  proof -
    obtain i where "i < length (entries (chain_of s))" "entries (chain_of s) ! i = (pc, e)" using e(2) by (auto simp: in_set_conv_nth)
    then show thesis using that [of "entries ch0 ! i"] list_all2_nthD2 [OF l, of i] list_all2_lengthD [OF l] by simp
  qed
  then have "run_compiled h hb (code e) c \<noteq> None" for c :: "('x, 'e) cells"
    using assms(3) counted_entry_fields(4) [OF x(2)] by (cases x) auto
  then show "plain_step h hb s \<noteq> None" using e(1) by (auto simp: plain_step_def split: option.split outcome.split)
qed (use plain_step_count(1) [OF _ assms(2)] in blast)

text \<open>
  C20. A run of a chain ends if the runs of its ranges do: each range that it goes on to takes at least one of the budget.
\<close>

theorem run_chain_returns:
  fixes w :: "'x world" and obs :: "('x, 'e) memory_observer option"
  assumes "reached_chain ch" "run_number ch \<noteq> - 1" "idle ch"
    "\<forall>(pc, e) \<in> set (entries ch). \<forall>c :: ('x, 'e) cells. run_compiled h hb (code e) c \<noteq> None"
  shows "run_chain h hb object ser state flt quiet obs cobs firstId firstPc firstBudget vars vals vcount w ch \<noteq> None"
proof -
  have r: "rested ch" using settled_rested reached_settled assms(1,2) by blast
  have ok: "chain_ok (forget_chain ch)" "idle (forget_chain ch)" using r assms(3) forget_chain_ok by (simp_all add: rested_def forget_idle)
  have "iterate_opt (plain_step h hb) (first_run ser state quiet obs cobs w' vs (node e) firstBudget (forget_chain ch)) \<noteq> None"
    if "find_entry (forget_chain ch) firstPc = Some e" for w' vs e
  proof (rule plain_ends [OF first_run_count [OF ok(2,1) that]])
    show "unat firstBudget < 2 ^ 64" using unsigned_less [of firstBudget, where 'a = nat] by simp
    show "\<forall>(pc, e) \<in> set (entries ((forget_chain ch)\<lparr>run_number := run_number (forget_chain ch) + 1\<rparr>)).
        \<forall>c :: ('x, 'e) cells. run_compiled h hb (code e) c \<noteq> None"
      using assms(4) by (fastforce simp: forget_chain_def simp del: not_None_eq)
  qed
  then have "run_chain_with (plain_step h hb) object ser state flt quiet obs cobs firstId firstPc firstBudget vars vals vcount w (forget_chain ch) \<noteq> None"
    by (auto simp: run_chain_with_def split: option.split simp del: not_None_eq forget_chain_finds)
  then show ?thesis using run_chain_plain [OF r, of h hb object ser state flt quiet obs cobs firstId firstPc firstBudget vars vals vcount w] by auto
qed

text \<open>
  C22. Adding a range by the words of an entry makes an entry of the same fields, with the flags of its outputs and the program, at its pc,
  and leaves the fields of the others; a chain that holds another there holds this one now.
\<close>

theorem chain_add_words:
  assumes "plain_entry e" "entry_fits p e"
  shows "\<exists>ch' e'. chain_add pc eid object p (entry_words e) ch = Some ch' \<and> find_entry ch' pc = Some e' \<and> chain_holds ch' pc object \<and>
    e' = (flag_outputs (entry_read eid e))\<lparr>node := next_node ch, program_object := object, code := p, entry_direct := direct p\<rparr> \<and>
    (\<forall>pc' x. pc' \<noteq> pc \<longrightarrow> find_entry ch pc' = Some x \<longrightarrow> (\<exists>n. find_entry ch' pc' = Some (x\<lparr>lastTarget := n\<rparr>)))"
proof -
  have r: "run_state (read_entry eid) \<lparr>words_left = entry_words e, bad = False\<rparr> = (entry_read eid e, \<lparr>words_left = [], bad = False\<rparr>)"
    using reads_entry [OF assms(1), of eid] unfolding reads_def by (metis append_Nil2)
  have f: "entry_fits p (entry_read eid e)" using assms(2) by (simp add: entry_fits_def entry_read_def)
  let ?ch = "inc_ref object (erase_entry pc ch)"
  let ?e = "(flag_outputs (entry_read eid e))\<lparr>node := next_node ?ch, program_object := object, code := p, entry_direct := direct p\<rparr>"
  have n: "next_node ?ch = next_node ch" by (auto simp: inc_ref_def erase_entry_def dec_ref_def split: option.split)
  have a: "chain_add pc eid object p (entry_words e) ch = Some (?ch\<lparr>entries := (pc, ?e) # entries ?ch, next_node := next_node ?ch + 1\<rparr>)"
    using r f by (simp add: chain_add_def Let_def)
  have other: "\<exists>n. find_entry (?ch\<lparr>entries := (pc, ?e) # entries ?ch, next_node := next_node ?ch + 1\<rparr>) pc' = Some (x\<lparr>lastTarget := n\<rparr>)"
    if x: "pc' \<noteq> pc" "find_entry ch pc' = Some x" for pc' x
  proof (cases "find_entry ch pc")
    case None
    then show ?thesis using x by (intro exI [of _ "lastTarget x"]) (simp add: find_entry_def inc_ref_def erase_entry_def)
  next
    case (Some y)
    have "map_of (filter (\<lambda>entry. fst entry \<noteq> pc) es) pc' = map_of es pc'" for es :: "(u64 \<times> chain_entry) list"
      using x(1) by (induction es) auto
    then show ?thesis using x Some
      by (intro exI [of _ None]) (simp add: find_entry_def inc_ref_def erase_entry_def dec_ref_def map_of_map_snd)
  qed
  show ?thesis using a n other by (intro exI [of _ "?ch\<lparr>entries := (pc, ?e) # entries ?ch, next_node := next_node ?ch + 1\<rparr>"] exI [of _ ?e])
      (simp add: chain_holds_def find_entry_def)
qed

section \<open>A chain of two ranges\<close>

definition step_ops :: "jit_op list" where
  "step_ops = [Set 0 1, Jump 2]"

definition stop_ops :: "jit_op list" where
  "stop_ops = [Set 0 0, Code 0 7, Jump 9]"

definition range_program :: "jit_op list \<Rightarrow> compiled" where
  "range_program ops =
     (case compile ops of Inr p \<Rightarrow> unoptimized p | Inl e \<Rightarrow> unoptimized \<lparr>blocks = (\<lambda>_. []), dispatch = None, maxSlot = 0, memoryStores = 0\<rparr>)"

definition range_words :: "u64 list" where
  "range_words = [2, 0, 1, - 1, 0, - 1, 0, 0, 0, 0, 0, 0]"

definition two_ranges :: chain where
  "two_ranges = chain_do (Add 2 2 1 (range_program stop_ops) range_words) (chain_do (Add 1 1 0 (range_program step_ops) range_words) chain_create)"

definition range_entry :: "nat \<Rightarrow> nat \<Rightarrow> compiled \<Rightarrow> u64 \<Rightarrow> chain_entry" where
  "range_entry n object p eid = \<lparr>node = n, program_object = object, code = p, entry_id = eid, slotCount = 2, effectSlot = 0, budgetSlot = 1,
     observedSlot = - 1, executions = 0, optimizeAt = - 1, layout = [], required = [], zeroed = [], outputs = [], flagged = [], flags = [],
     checkpoints = [], lastNext = - 1, lastTarget = None, entry_direct = False, outputsSaid = 0, readyIn = 0, touched = False, runs = 0,
     executed = 0\<rparr>"

lemma range_programs:
  "\<exists>p. compile step_ops = Inr p \<and> maxSlot p = 1" "\<exists>p. compile stop_ops = Inr p \<and> maxSlot p = 1"
  by (simp_all add: compile_def compileOps_def step_ops_def stop_ops_def getSlot_def is_scalar_def add_op_def new_builder_def terminated_def
      noteSlot_def dispatch_error_def slot_count_def)

lemma range_program_run:
  "run_compiled h hb (range_program step_ops) c = run_ops h hb step_ops step_ops c" "maxSlot (function_of (range_program step_ops)) = 1"
  "run_compiled h hb (range_program stop_ops) c = run_ops h hb stop_ops stop_ops c" "maxSlot (function_of (range_program stop_ops)) = 1"
  "direct (range_program ops) = False"
proof -
  obtain p where p: "compile step_ops = Inr p" "maxSlot p = 1" using range_programs(1) by blast
  show "run_compiled h hb (range_program step_ops) c = run_ops h hb step_ops step_ops c" "maxSlot (function_of (range_program step_ops)) = 1"
    using compile_run_ops [OF p(1), of h hb c] p by (simp_all add: range_program_def)
  obtain q where q: "compile stop_ops = Inr q" "maxSlot q = 1" using range_programs(2) by blast
  show "run_compiled h hb (range_program stop_ops) c = run_ops h hb stop_ops stop_ops c" "maxSlot (function_of (range_program stop_ops)) = 1"
    using compile_run_ops [OF q(1), of h hb c] q by (simp_all add: range_program_def)
  show "direct (range_program ops) = False" by (simp add: range_program_def split: sum.split)
qed

lemma add_range:
  assumes "maxSlot (function_of p) \<le> 2" "find_entry ch pc = None" "direct p = False"
  shows "chain_add pc eid object p range_words ch =
    Some (ch\<lparr>entries := (pc, range_entry (next_node ch) object p eid) # entries ch, next_node := next_node ch + 1,
       references := (references ch)(object := references ch object + 1)\<rparr>)"
  using assms
  by (simp add: chain_add_def read_entry_def range_words_def read_counted_def read_outputs_def next_word_def State_Monad.bind_def Let_def
      entry_fits_def fits_def flag_outputs_def erase_entry_def inc_ref_def range_entry_def none_word_def)

lemma two_ranges_entries:
  "entries two_ranges = [(2, range_entry 1 1 (range_program stop_ops) 2), (1, range_entry 0 0 (range_program step_ops) 1)]"
  "run_number two_ranges = 0"
  by (simp_all add: two_ranges_def chain_do_def add_range range_program_run find_entry_def chain_create_def)

lemma two_ranges_reached: "reached_chain two_ranges" "idle two_ranges" "run_number two_ranges \<noteq> - 1"
proof -
  show "reached_chain two_ranges" unfolding two_ranges_def by (intro reached_chain.intros)
  show "idle two_ranges" by (simp add: idle_def two_ranges_entries range_entry_def)
  show "run_number two_ranges \<noteq> - 1" by (simp add: two_ranges_entries)
qed

text \<open>A run of both, whose second range asks a code observer, if there is one.\<close>

definition failing :: "(unit, unit) code_observer" where
  "failing = (\<lambda>pc s w. (Inl (), w))"

lemma step_runs:
  "length (slots c) = 2 \<Longrightarrow> run_ops h hb step_ops step_ops c = Some (Returned 2 (c\<lparr>slots := (slots c)[0 := 1]\<rparr>))"
  by (simp add: step_ops_def run_ops_Cons going_on_def store_slot_def)

lemma stop_runs:
  "length (slots c) = 2 \<Longrightarrow> codeObserver c = None \<Longrightarrow> error c = None \<Longrightarrow>
   run_ops h hb stop_ops stop_ops c = Some (Returned 9 (c\<lparr>slots := (slots c)[0 := 0]\<rparr>))"
  by (simp add: stop_ops_def run_ops_Cons going_on_def store_slot_def code_site_def)


definition two_start :: "(unit, unit) code_observer option \<Rightarrow> (unit, unit) chain_run" where
  "two_start cobs = first_run 1 [0, 5] False None cobs (no_memory\<lparr>quiet_filter := Some []\<rparr>) \<lparr>regs = [], bound = [], dirty = []\<rparr> 0 5 two_ranges"

lemma two_ranges_run:
  "run_chain granted False 0 1 [0, 5] [] False None cobs 1 1 5 [] [] 0 no_memory two_ranges =
    map_option (\<lambda>r. end_chain r two_ranges) (iterate_opt (chain_step granted False) (two_start cobs))"
  by (simp add: run_chain_def run_chain_with_def start_variables_def find_entry_def two_ranges_entries range_entry_def two_start_def)

lemma replicate_two: "replicate 2 x = [x, x]"
  by (simp add: numeral_2_eq_2)

lemmas chain_eval = chain_step_def two_start_def first_run_def entry_at_def two_ranges_entries range_entry_def range_program_run range_cells_def
  step_runs stop_runs after_range_def range_ran_def object_cells_def new_cells_def to_lean_def slot_value_def ran_chained_def none_word_def
  count_range_def go_on_def find_target_def find_entry_def put_entry_def count_entry_def to_optimize_def mark_written_def outputsAt_def ready_range_def
  enter_range_def start_slots_def put_layout_def put_slot_def resize_def replicate_two

lemma two_ends:
  "\<exists>s. iterate_opt (chain_step granted False) (two_start None) = Some (Ended s) \<and> entry_at (chain_of s) (current s) \<noteq> None"
  by (subst iterate_opt.simps, simp add: chain_eval Let_def, subst iterate_opt.simps, simp add: chain_eval Let_def)


theorem chains_well_formed_witness: "chain_ok two_ranges \<and> references (chain_clear two_ranges) 1 = 0"
  using chains_well_formed [OF two_ranges_reached(1)] by simp

theorem run_chain_remembers_witness:
  "map_option forget_result (run_chain granted False 0 1 [0, 5] [] False None None 1 1 5 [] [] 0 no_memory two_ranges :: ((unit chain_failure + _) \<times> _) option) =
    run_chain_with (plain_step granted False) 0 1 [0, 5] [] False None None 1 1 5 [] [] 0 no_memory (forget_chain two_ranges) \<and>
   (run_chain granted False 0 1 [0, 5] [] False None None 1 1 5 [] [] 0 no_memory two_ranges :: ((unit chain_failure + _) \<times> _) option) \<noteq> None"
proof
  show "map_option forget_result (run_chain granted False 0 1 [0, 5] [] False None None 1 1 5 [] [] 0 no_memory two_ranges :: ((unit chain_failure + _) \<times> _) option) =
      run_chain_with (plain_step granted False) 0 1 [0, 5] [] False None None 1 1 5 [] [] 0 no_memory (forget_chain two_ranges)"
    by (rule run_chain_remembers [OF two_ranges_reached(1,3)])
qed (use two_ranges_run [of None] two_ends in auto)


theorem run_chain_counts_witness:
  "\<exists>v st cs info w' ch' ns. run_chain granted False 0 1 [0, 5] [] False None (None :: (unit, unit) code_observer option) 1 1 5 [] [] 0 no_memory two_ranges =
       Some (Inr (v, st, cs, info), w', ch') \<and> length ns = 2 \<and> sum_list ns = unat (info ! 1) \<and> sum_list ns \<le> 5"
proof -
  obtain s e where s: "iterate_opt (chain_step granted False) (two_start None) = Some (Ended s)" "entry_at (chain_of s) (current s) = Some e"
    using two_ends by blast
  then have r: "run_chain granted False 0 1 [0, 5] [] False None (None :: (unit, unit) code_observer option) 1 1 5 [] [] 0 no_memory two_ranges =
      Some (Inr (went s, run_state_array s, run_cells (run_cells_of s), run_info e s), Some (note_world (run_cells_of s)), for_touched rest_entry s)"
    by (simp add: two_ranges_run end_chain_def)
  obtain ns where "length ns = length (entries two_ranges)" "sum_list ns = unat (run_info e s ! 1)" "sum_list ns \<le> unat (5 :: u64)"
    using run_chain_counts [OF two_ranges_reached(1,3,2) r] by blast
  then have "length ns = 2" "sum_list ns \<le> 5" by (simp_all add: two_ranges_entries)
  then show ?thesis using r \<open>sum_list ns = unat (run_info e s ! 1)\<close> by blast
qed

lemma two_ranges_end:
  "\<forall>(pc, e) \<in> set (entries two_ranges). \<forall>c :: (unit, unit) cells. run_compiled granted False (code e) c \<noteq> None"
proof -
  have "run_ops granted False step_ops step_ops c \<noteq> None" "run_ops granted False stop_ops stop_ops c \<noteq> None" for c :: "(unit, unit) cells"
    by (simp_all add: step_ops_def stop_ops_def run_ops_Cons going_on_def split: flow.split option.split)
  then show ?thesis unfolding two_ranges_entries by (simp add: range_entry_def range_program_run)
qed

theorem run_chain_returns_witness:
  "run_chain granted False 0 1 [0, 5] [] False None (Some failing) 1 1 5 [] [] 0 no_memory two_ranges \<noteq> None"
  by (rule run_chain_returns [OF two_ranges_reached(1,3,2) two_ranges_end])

theorem chain_add_words_witness:
  "\<exists>ch'. chain_add 3 4 5 (range_program step_ops) (entry_words (range_entry 0 0 (range_program step_ops) 1)) two_ranges = Some ch' \<and> chain_holds ch' 3 5"
proof -
  have "plain_entry (range_entry 0 0 (range_program step_ops) 1)" "entry_fits (range_program step_ops) (range_entry 0 0 (range_program step_ops) 1)"
    by (simp_all add: plain_entry_def entry_fits_def fits_def range_entry_def range_program_run none_word_def)
  from chain_add_words [OF this, of 3 4 5 two_ranges] show ?thesis by blast
qed

end
