(* ===== verification/JitCode.thy ===== *)
theory JitCode
  imports Prelude
begin

text \<open>
  Where the code of compiled programs is (\<open>native/bap_jit.cpp\<close>, \<open>SharedJit\<close> to \<open>initialize\<close>, and the end of \<open>compileOps\<close>): each
  thread has a JIT of LLVM for programs that are optimized and one for the others, a program keeps the JIT it was compiled with
  alive, and takes its code out of it when it is freed, on whatever thread that is. LLVM is a parameter by its answers to
  each call. What is shown (\<open>programs_stay_loaded\<close>): whatever is compiled and freed, by whichever threads, a program has the
  code that it was compiled to, and nothing else is loaded.
\<close>

section \<open>State\<close>

text \<open>The shared pointers of a program, its resource tracker, and the name that its function was looked up by.\<close>

record handle =
  shared :: nat
  resources :: nat
  functionName :: u64

text \<open>
  \<open>locals\<close> has \<open>full\<close> and \<open>fast\<close> of each thread, \<open>owners\<close> the counts of shared pointers to each JIT, \<open>loaded\<close> what code is in which JIT,
  by its tracker and its name, and \<open>programs\<close> those that Lean has.
\<close>

record 'c jits =
  init_done :: bool
  init_ok :: bool
  nextProgramId :: u64
  nextJit :: nat
  nextTracker :: nat
  nextObject :: nat
  locals :: "((nat \<times> bool) \<times> nat) list"
  owners :: "nat \<Rightarrow> nat"
  loaded :: "(nat \<times> nat \<times> u64 \<times> 'c) list"
  programs :: "(nat \<times> handle) list"

definition jits_start :: "'c jits" where
  "jits_start = \<lparr>init_done = False, init_ok = False, nextProgramId = 1, nextJit = 0, nextTracker = 0, nextObject = 0,
     locals = [], owners = (\<lambda>_. 0), loaded = [], programs = []\<rparr>"

text \<open>What LLVM answers: whether there is no target, printer or parser, and the errors of the other calls, if any.\<close>

record orc =
  noTarget :: bool
  noPrinter :: bool
  noParser :: bool
  detectHost :: "string option"
  createJit :: "string option"
  defineSymbols :: "string option"
  addModule :: "string option"
  lookupName :: "string option"
  removes :: bool

section \<open>Operations\<close>

definition initialize_jit :: "orc \<Rightarrow> 'c jits \<Rightarrow> bool \<times> string \<times> 'c jits" where
  "initialize_jit a s =
     (if init_done s then (init_ok s, [], s)
      else let s = s\<lparr>init_done := True\<rparr>
           in if noTarget a then (False, ''LLVM has no native JIT target'', s)
              else if noPrinter a then (False, ''LLVM has no native assembly printer'', s)
              else if noParser a then (False, ''LLVM has no native assembly parser'', s)
              else (True, [], s\<lparr>init_ok := True\<rparr>))"

text \<open>A shared pointer that goes. With the last one the JIT goes, with all that is in it.\<close>

definition release :: "nat \<Rightarrow> 'c jits \<Rightarrow> 'c jits" where
  "release j s =
     (let s = s\<lparr>owners := (owners s)(j := owners s j - 1)\<rparr>
      in if owners s j = 0 then s\<lparr>loaded := filter (\<lambda>e. fst e \<noteq> j) (loaded s)\<rparr> else s)"

definition sharedJit :: "orc \<Rightarrow> nat \<Rightarrow> bool \<Rightarrow> 'c jits \<Rightarrow> (string + nat) \<times> 'c jits" where
  "sharedJit a thread optimized s =
     (case map_of (locals s) (thread, optimized) of
        Some j \<Rightarrow> (Inr j, s)
      | None \<Rightarrow>
          (case detectHost a of
             Some e \<Rightarrow> (Inl (''LLVM ORC JIT host detection failed: '' @ e), s)
           | None \<Rightarrow>
               (case createJit a of
                  Some e \<Rightarrow> (Inl (''LLVM ORC JIT creation failed: '' @ e), s)
                | None \<Rightarrow>
                    (case defineSymbols a of
                       Some e \<Rightarrow> (Inl (''LLVM ORC symbol definition failed: '' @ e), s)
                     | None \<Rightarrow>
                         let j = nextJit s
                         in (Inr j, s\<lparr>nextJit := j + 1, locals := ((thread, optimized), j) # locals s,
                                      owners := (owners s)(j := 1)\<rparr>)))))"

definition remove_resources :: "orc \<Rightarrow> nat \<Rightarrow> 'c jits \<Rightarrow> 'c jits" where
  "remove_resources a t s = (if removes a then s\<lparr>loaded := filter (\<lambda>e. fst (snd e) \<noteq> t) (loaded s)\<rparr> else s)"

text \<open>The end of \<open>compileOps\<close>, with the code that it has made. The pointer that it has itself goes when it returns.\<close>

definition submit :: "orc \<Rightarrow> nat \<Rightarrow> bool \<Rightarrow> u64 \<Rightarrow> 'c \<Rightarrow> 'c jits \<Rightarrow> (string + nat) \<times> 'c jits" where
  "submit a thread optimized name code s =
     (case sharedJit a thread optimized s of
        (Inl e, s) \<Rightarrow> (Inl (''LLVM JIT compilation failed: '' @ e), s)
      | (Inr j, s) \<Rightarrow>
          let t = nextTracker s; s = s\<lparr>nextTracker := t + 1\<rparr>
          in case addModule a of
               Some e \<Rightarrow> (Inl (''LLVM ORC module submission failed: '' @ e), s)
             | None \<Rightarrow>
                 let s = s\<lparr>loaded := (j, t, name, code) # loaded s\<rparr>
                 in case lookupName a of
                      Some e \<Rightarrow> (Inl (''LLVM ORC lookup failed: '' @ e), remove_resources a t s)
                    | None \<Rightarrow>
                        let p = nextObject s
                        in (Inr p, s\<lparr>nextObject := p + 1, owners := (owners s)(j := owners s j + 1),
                                     programs := (p, \<lparr>shared = j, resources = t, functionName = name\<rparr>) # programs s\<rparr>))"

text \<open>\<open>made\<close> is what \<open>compileOps\<close> makes of its operations, an error or code.\<close>

definition compile_program :: "orc \<Rightarrow> nat \<Rightarrow> bool \<Rightarrow> string + 'c \<Rightarrow> 'c jits \<Rightarrow> (string + nat) \<times> 'c jits" where
  "compile_program a thread optimized made s =
     (case initialize_jit a s of
        (False, e, s) \<Rightarrow> (Inl e, s)
      | (True, _, s) \<Rightarrow>
          let programId = nextProgramId s; s = s\<lparr>nextProgramId := programId + 1\<rparr>
          in case made of
               Inl e \<Rightarrow> (Inl e, s)
             | Inr code \<Rightarrow> submit a thread optimized programId code s)"

definition finalizeProgram :: "orc \<Rightarrow> nat \<Rightarrow> 'c jits \<Rightarrow> 'c jits" where
  "finalizeProgram a p s =
     (case map_of (programs s) p of
        None \<Rightarrow> s
      | Some h \<Rightarrow>
          release (shared h) ((remove_resources a (resources h) s)\<lparr>programs := filter (\<lambda>e. fst e \<noteq> p) (programs s)\<rparr>))"

text \<open>The end of a thread, for one of its two pointers.\<close>

definition thread_end :: "nat \<Rightarrow> bool \<Rightarrow> 'c jits \<Rightarrow> 'c jits" where
  "thread_end thread optimized s =
     (case map_of (locals s) (thread, optimized) of
        None \<Rightarrow> s
      | Some j \<Rightarrow> release j (s\<lparr>locals := filter (\<lambda>e. fst e \<noteq> (thread, optimized)) (locals s)\<rparr>))"

text \<open>What the function of a program is, if it is there.\<close>

definition function_code :: "'c jits \<Rightarrow> handle \<Rightarrow> 'c option" where
  "function_code s h =
     map_option (\<lambda>e. snd (snd (snd e))) (find (\<lambda>e. fst e = shared h \<and> fst (snd (snd e)) = functionName h) (loaded s))"

section \<open>Invariant\<close>

definition owned :: "nat \<Rightarrow> 'c jits \<Rightarrow> nat" where
  "owned j s = length (filter (\<lambda>e. snd e = j) (locals s)) + length (filter (\<lambda>e. shared (snd e) = j) (programs s))"

text \<open>
  \<open>g\<close> is what each program was compiled to, \<open>left'\<close> whether code could not be taken out, and \<open>x\<close> the JIT that is about to lose a
  pointer that is not in any program or thread any more.
\<close>

definition counts_ok :: "nat option \<Rightarrow> 'c jits \<Rightarrow> bool" where
  "counts_ok x s \<longleftrightarrow> distinct (map fst (locals s)) \<and> distinct (map fst (programs s)) \<and>
     (\<forall>j. owners s j = owned j s + (if x = Some j then 1 else 0)) \<and> (\<forall>e \<in> set (locals s). snd e < nextJit s) \<and>
     (\<forall>(p, h) \<in> set (programs s). p < nextObject s \<and> shared h < nextJit s)"

definition code_ok :: "'c jits \<Rightarrow> (nat \<rightharpoonup> 'c) \<Rightarrow> bool" where
  "code_ok s g \<longleftrightarrow>
     (\<forall>(j, t, n, c) \<in> set (loaded s). t < nextTracker s \<and> n < nextProgramId s) \<and>
     (\<forall>(p, h) \<in> set (programs s). resources h < nextTracker s) \<and>
     distinct (map (fst \<circ> snd) (loaded s)) \<and> distinct (map (fst \<circ> snd \<circ> snd) (loaded s)) \<and>
     distinct (map (resources \<circ> snd) (programs s)) \<and>
     (\<forall>(p, h) \<in> set (programs s). \<exists>c. g p = Some c \<and> (shared h, resources h, functionName h, c) \<in> set (loaded s))"

definition none_left :: "'c jits \<Rightarrow> bool" where
  "none_left s \<longleftrightarrow> (\<forall>(j, t, n, c) \<in> set (loaded s). \<exists>p h. (p, h) \<in> set (programs s) \<and> shared h = j \<and> resources h = t)"

definition jits_ok :: "'c jits \<Rightarrow> (nat \<rightharpoonup> 'c) \<Rightarrow> bool \<Rightarrow> bool" where
  "jits_ok s g left' \<longleftrightarrow> counts_ok None s \<and> code_ok s g \<and> (left' \<or> none_left s)"

lemma owned_0: "owned j s = 0 \<longleftrightarrow> j \<notin> snd ` set (locals s) \<and> j \<notin> (shared \<circ> snd) ` set (programs s)"
  by (auto simp: owned_def filter_empty_conv)

lemma jits_start_ok: "jits_ok jits_start Map.empty False"
  by (simp add: jits_ok_def counts_ok_def code_ok_def none_left_def jits_start_def owned_def)

lemma jits_ok_flags [simp]:
  "jits_ok (s\<lparr>init_done := d\<rparr>) g left' \<longleftrightarrow> jits_ok s g left'" "jits_ok (s\<lparr>init_ok := d\<rparr>) g left' \<longleftrightarrow> jits_ok s g left'"
  by (simp_all add: jits_ok_def counts_ok_def code_ok_def none_left_def owned_def)

lemma initialize_keeps:
  assumes "initialize_jit a s = (b, e, s')" "jits_ok s g left'"
  shows "jits_ok s' g left' \<and> nextProgramId s' = nextProgramId s \<and> loaded s' = loaded s"
  using assms by (auto simp: initialize_jit_def Let_def split: if_splits)

lemma u64_next: "(x :: u64) \<noteq> - 1 \<Longrightarrow> unat (x + 1) = Suc (unat x)"
  using unatSuc [of x] by (metis add.commute eq_neg_iff_add_eq_0)

lemma jits_ok_name:
  assumes "jits_ok s g left'" "nextProgramId s \<noteq> - 1"
  shows "jits_ok (s\<lparr>nextProgramId := nextProgramId s + 1\<rparr>) g left'"
proof -
  have "n < nextProgramId s + 1" if "n < nextProgramId s" for n
    using that u64_next [OF assms(2)] by (simp add: word_less_nat_alt)
  then show ?thesis using assms(1) by (fastforce simp: jits_ok_def counts_ok_def code_ok_def none_left_def owned_def)
qed

lemma release_ok:
  assumes "counts_ok (Some j) s" "code_ok s g" "left' \<or> none_left s"
  shows "jits_ok (release j s) g left'"
proof -
  have o: "owners s j - 1 = owned j s" "\<And>k. k \<noteq> j \<Longrightarrow> owners s k = owned k s" using assms(1) by (simp_all add: counts_ok_def)
  have c: "counts_ok None (release j s)"
    using assms(1) o by (auto simp: counts_ok_def release_def Let_def owned_def)
  show ?thesis
  proof (cases "owned j s = 0")
    case True
    then have r: "release j s = s\<lparr>owners := (owners s)(j := 0), loaded := filter (\<lambda>e. fst e \<noteq> j) (loaded s)\<rparr>"
      using o(1) by (simp add: release_def Let_def)
    have n: "shared h \<noteq> j" if "(p, h) \<in> set (programs s)" for p h using True that by (force simp: owned_0)
    have "code_ok (release j s) g" using assms(2) n unfolding r code_ok_def by (auto simp: distinct_map_filter)
    moreover have "none_left (release j s)" if "none_left s" using that by (auto simp: none_left_def r)
    ultimately show ?thesis using c assms(3) by (auto simp: jits_ok_def)
  next
    case False
    then have "release j s = s\<lparr>owners := (owners s)(j := owners s j - 1)\<rparr>" using o(1) by (simp add: release_def Let_def)
    then show ?thesis using c assms(2,3) by (simp add: jits_ok_def code_ok_def none_left_def)
  qed
qed

section \<open>Operations keep it\<close>

lemma filter_key:
  "distinct (map fst xs) \<Longrightarrow> (k, v) \<in> set xs \<Longrightarrow>
   length (filter (\<lambda>e. P (snd e)) xs) = length (filter (\<lambda>e. P (snd e)) (filter (\<lambda>e. fst e \<noteq> k) xs)) + (if P v then 1 else 0)"
proof (induction xs)
  case (Cons x xs)
  show ?case
  proof (cases "fst x = k")
    case True
    have "k \<notin> fst ` set xs" using True Cons.prems(1) by simp
    then have "filter (\<lambda>e. fst e \<noteq> k) xs = xs" by (intro filter_True) force
    moreover have "x = (k, v)" using True Cons.prems eq_key_imp_eq_value [of "x # xs" k "snd x" v] by (cases x) auto
    ultimately show ?thesis by simp
  next
    case False
    then have "(k, v) \<in> set xs" using Cons.prems(2) by auto
    then show ?thesis using Cons False by simp
  qed
qed simp

lemma sharedJit_ok:
  assumes "sharedJit a thread optimized s = (r, s')" "jits_ok s g left'"
  shows "jits_ok s' g left' \<and> nextProgramId s' = nextProgramId s \<and> loaded s' = loaded s \<and> (\<forall>j. r = Inr j \<longrightarrow> j < nextJit s')"
proof (cases "map_of (locals s) (thread, optimized)")
  case (Some j)
  then show ?thesis using assms map_of_SomeD [OF Some] by (auto simp: sharedJit_def jits_ok_def counts_ok_def)
next
  case None
  show ?thesis
  proof (cases r)
    case (Inl e)
    then show ?thesis using assms None by (auto simp: sharedJit_def Let_def split: option.splits)
  next
    case (Inr j)
    then have s': "s' = s\<lparr>nextJit := j + 1, locals := ((thread, optimized), j) # locals s, owners := (owners s)(j := 1)\<rparr>" "j = nextJit s"
      using assms(1) None by (auto simp: sharedJit_def Let_def split: option.splits)
    have "owned j s = 0" using assms(2) s'(2) by (fastforce simp: owned_0 jits_ok_def counts_ok_def)
    then have "counts_ok None s'" using assms(2) s' None
      by (auto simp: jits_ok_def counts_ok_def owned_def map_of_eq_None_iff less_SucI)
    then show ?thesis using assms(2) s' Inr by (simp add: jits_ok_def code_ok_def none_left_def)
  qed
qed

lemma remove_resources_ok:
  assumes "counts_ok x s" "code_ok s g" "\<And>p h. (p, h) \<in> set (programs s) \<Longrightarrow> resources h \<noteq> t"
  shows "counts_ok x (remove_resources a t s)" "code_ok (remove_resources a t s) g"
  using assms by (auto simp: remove_resources_def counts_ok_def code_ok_def owned_def distinct_map_filter)

lemma finalizeProgram_ok:
  assumes "jits_ok s g left'"
  shows "jits_ok (finalizeProgram a p s) g (left' \<or> \<not> removes a)"
proof (cases "map_of (programs s) p")
  case None
  then show ?thesis using assms by (auto simp: finalizeProgram_def jits_ok_def)
next
  case (Some h)
  let ?s = "s\<lparr>programs := filter (\<lambda>e. fst e \<noteq> p) (programs s)\<rparr>"
  have m: "(p, h) \<in> set (programs s)" using map_of_SomeD [OF Some] .
  have d: "distinct (map fst (programs s))" "distinct (map (resources \<circ> snd) (programs s))"
    using assms by (simp_all add: jits_ok_def counts_ok_def code_ok_def)
  have "owned j s = owned j ?s + (if j = shared h then 1 else 0)" for j
    using filter_key [OF d(1) m, of "\<lambda>h. shared h = j"] by (simp add: owned_def)
  then have c: "counts_ok (Some (shared h)) ?s" using assms by (auto simp: jits_ok_def counts_ok_def distinct_map_filter)
  have k: "code_ok ?s g" using assms by (auto simp: jits_ok_def code_ok_def distinct_map_filter)
  have r: "resources h' \<noteq> resources h" if "(p', h') \<in> set (programs ?s)" for p' h'
    using that m d(2) inj_onD [of "resources \<circ> snd" "set (programs s)" "(p', h')" "(p, h)"] by (auto simp: distinct_map)
  have e: "(remove_resources a (resources h) s)\<lparr>programs := filter (\<lambda>e. fst e \<noteq> p) (programs s)\<rparr> = remove_resources a (resources h) ?s"
    by (simp add: remove_resources_def)
  have "none_left (remove_resources a (resources h) ?s)" if n: "none_left s" "removes a"
  proof -
    have "\<exists>p' h'. (p', h') \<in> set (programs ?s) \<and> shared h' = j \<and> resources h' = t"
      if e: "(j, t, n, c) \<in> set (loaded s)" "t \<noteq> resources h" for j t n c
    proof -
      obtain p' h' where p': "(p', h') \<in> set (programs s)" "shared h' = j" "resources h' = t"
        using n(1) e(1) by (fastforce simp: none_left_def)
      then have "p' \<noteq> p" using e(2) m d(1) by (metis eq_key_imp_eq_value)
      then show ?thesis using p' by auto
    qed
    then show ?thesis using n(2) by (auto simp: none_left_def remove_resources_def)
  qed
  moreover have "counts_ok (Some (shared h)) (remove_resources a (resources h) ?s)" "code_ok (remove_resources a (resources h) ?s) g"
    using remove_resources_ok [OF c k] r by blast+
  ultimately have "jits_ok (release (shared h) (remove_resources a (resources h) ?s)) g (left' \<or> \<not> removes a)"
    using assms by (intro release_ok) (auto simp: jits_ok_def)
  then show ?thesis using Some e by (simp add: finalizeProgram_def)
qed

lemma thread_end_ok:
  assumes "jits_ok s g left'"
  shows "jits_ok (thread_end thread optimized s) g left'"
proof (cases "map_of (locals s) (thread, optimized)")
  case (Some j)
  let ?s = "s\<lparr>locals := filter (\<lambda>e. fst e \<noteq> (thread, optimized)) (locals s)\<rparr>"
  have "distinct (map fst (locals s))" using assms by (simp add: jits_ok_def counts_ok_def)
  then have "owned k s = owned k ?s + (if k = j then 1 else 0)" for k
    using filter_key [OF _ map_of_SomeD [OF Some], of "\<lambda>i. i = k"] by (simp add: owned_def)
  then have "counts_ok (Some j) ?s" using assms by (auto simp: jits_ok_def counts_ok_def distinct_map_filter)
  moreover have "code_ok ?s g" "left' \<or> none_left ?s" using assms by (simp_all add: jits_ok_def code_ok_def none_left_def)
  ultimately show ?thesis using release_ok [of j ?s] Some by (simp add: thread_end_def)
qed (use assms in \<open>simp add: thread_end_def\<close>)

lemma tracker_ok: "jits_ok s g left' \<Longrightarrow> jits_ok (s\<lparr>nextTracker := nextTracker s + 1\<rparr>) g left'"
  by (fastforce simp: jits_ok_def counts_ok_def code_ok_def none_left_def owned_def)

text \<open>Code that is added, and then a program that has it.\<close>

lemma load_ok:
  fixes s :: "'c jits" and k :: nat and c :: 'c
  assumes "jits_ok s g left'" "name \<notin> (fst \<circ> snd \<circ> snd) ` set (loaded s)" "name < nextProgramId s"
  defines "s' \<equiv> s\<lparr>nextTracker := nextTracker s + 1, loaded := (k, nextTracker s, name, c) # loaded s\<rparr>"
  shows "counts_ok None s'" "code_ok s' g" "\<And>p h. (p, h) \<in> set (programs s) \<Longrightarrow> resources h < nextTracker s"
proof -
  have "nextTracker s \<notin> (fst \<circ> snd) ` set (loaded s)" using assms(1) by (fastforce simp: jits_ok_def code_ok_def)
  moreover have o: "code_ok s g" "counts_ok None s" using assms(1) by (simp_all add: jits_ok_def)
  ultimately show "code_ok s' g" using assms(2,3) unfolding s'_def code_ok_def by (auto simp: less_Suc_eq)
  show "counts_ok None s'" using o(2) by (simp add: s'_def counts_ok_def owned_def)
  show "resources h < nextTracker s" if "(p, h) \<in> set (programs s)" for p h using o(1) that by (fastforce simp: code_ok_def)
qed

lemma program_ok:
  assumes "counts_ok None s" "code_ok s g" "(k, t, name, c) \<in> set (loaded s)" "k < nextJit s" "t < nextTracker s"
    and "\<And>p h. (p, h) \<in> set (programs s) \<Longrightarrow> resources h \<noteq> t"
  defines "s' \<equiv> s\<lparr>nextObject := nextObject s + 1, owners := (owners s)(k := owners s k + 1),
     programs := (nextObject s, \<lparr>shared = k, resources = t, functionName = name\<rparr>) # programs s\<rparr>"
  shows "counts_ok None s'" "code_ok s' (g(nextObject s \<mapsto> c))"
proof -
  have p: "nextObject s \<notin> fst ` set (programs s)" using assms(1) by (fastforce simp: counts_ok_def)
  then show "counts_ok None s'" using assms(1,4) unfolding s'_def counts_ok_def owned_def by (auto simp: less_Suc_eq)
  have q: "t \<notin> (resources \<circ> snd) ` set (programs s)" using assms(6) by force
  have "\<exists>c'. (g(nextObject s \<mapsto> c)) p' = Some c' \<and> (shared h, resources h, functionName h, c') \<in> set (loaded s)"
    if h: "(p', h) \<in> set (programs s')" for p' h
  proof (cases "p' = nextObject s")
    case True
    then have "(p', h) \<notin> set (programs s)" using p by force
    then show ?thesis using h True assms(3) by (auto simp: s'_def)
  next
    case False
    then have "(p', h) \<in> set (programs s)" using h by (simp add: s'_def)
    then show ?thesis using False assms(2) by (auto simp: code_ok_def)
  qed
  then show "code_ok s' (g(nextObject s \<mapsto> c))" using assms(2,3,5) q unfolding code_ok_def by (auto simp: s'_def)
qed

lemma submit_ok:
  assumes "jits_ok s g left'" "submit a thread optimized name c s = (r, s')" "name \<notin> (fst \<circ> snd \<circ> snd) ` set (loaded s)"
    "name < nextProgramId s"
  shows "case r of Inl e \<Rightarrow> jits_ok s' g (left' \<or> \<not> removes a) | Inr p \<Rightarrow> jits_ok s' (g(p \<mapsto> c)) left'"
proof -
  obtain r1 s1 where j: "sharedJit a thread optimized s = (r1, s1)" by fastforce
  note s1 = sharedJit_ok [OF j assms(1)]
  show ?thesis
  proof (cases r1)
    case (Inl e)
    then show ?thesis using assms(2) j s1 by (auto simp: submit_def jits_ok_def)
  next
    case (Inr k)
    let ?t = "nextTracker s1"
    let ?s3 = "s1\<lparr>nextTracker := ?t + 1, loaded := (k, ?t, name, c) # loaded s1\<rparr>"
    have i: "jits_ok s1 g left'" "name \<notin> (fst \<circ> snd \<circ> snd) ` set (loaded s1)" "name < nextProgramId s1" "k < nextJit s1"
      using s1 assms(3,4) Inr by simp_all
    note s3 = load_ok(1,2) [OF i(1-3), where k = k and c = c] load_ok(3) [OF i(1-3)]
    have t: "resources h \<noteq> ?t" if "(p, h) \<in> set (programs ?s3)" for p h using s3(3) that by fastforce
    show ?thesis
    proof (cases "addModule a")
      case (Some e)
      then show ?thesis using assms(2) j Inr tracker_ok [OF i(1)] by (auto simp: submit_def Let_def jits_ok_def)
    next
      case None
      note add = None
      show ?thesis
      proof (cases "lookupName a")
        case (Some e)
        have "none_left (remove_resources a ?t ?s3)" if "none_left s1" "removes a"
          using that by (auto simp: none_left_def remove_resources_def)
        moreover have "r = Inl (''LLVM ORC lookup failed: '' @ e)" "s' = remove_resources a ?t ?s3"
          using assms(2) j Inr add Some by (simp_all add: submit_def Let_def)
        ultimately show ?thesis using i(1) remove_resources_ok [OF s3(1,2) t] by (auto simp: jits_ok_def)
      next
        case None
        have r: "r = Inr (nextObject ?s3)" "s' = ?s3\<lparr>nextObject := nextObject ?s3 + 1, owners := (owners ?s3)(k := owners ?s3 k + 1),
            programs := (nextObject ?s3, \<lparr>shared = k, resources = ?t, functionName = name\<rparr>) # programs ?s3\<rparr>"
          using assms(2) j Inr add None by (auto simp: submit_def Let_def)
        have "counts_ok None s'" "code_ok s' (g(nextObject ?s3 \<mapsto> c))"
          unfolding r(2) using program_ok [OF s3(1,2), of k ?t name c] i(4) t by auto
        moreover have "none_left s'" if "none_left s1" using that unfolding r(2) by (fastforce simp: none_left_def)
        ultimately show ?thesis using r(1) i(1) by (auto simp: jits_ok_def)
      qed
    qed
  qed
qed

lemma compile_program_ok:
  assumes "jits_ok s g left'" "compile_program a thread optimized made s = (r, s')" "nextProgramId s \<noteq> - 1"
  shows "case r of Inl e \<Rightarrow> jits_ok s' g (left' \<or> \<not> removes a) | Inr p \<Rightarrow> \<exists>c. made = Inr c \<and> jits_ok s' (g(p \<mapsto> c)) left'"
proof -
  obtain b m s1 where i: "initialize_jit a s = (b, m, s1)" by (metis prod_cases3)
  note s1 = initialize_keeps [OF i assms(1)]
  let ?s2 = "s1\<lparr>nextProgramId := nextProgramId s1 + 1\<rparr>"
  have s2: "jits_ok ?s2 g left'" using jits_ok_name [of s1 g left'] s1 assms(3) by simp
  show ?thesis
  proof (cases "b \<and> (\<exists>c. made = Inr c)")
    case False
    then show ?thesis using assms(2) i s1 s2 by (cases b; cases made) (auto simp: compile_program_def Let_def jits_ok_def)
  next
    case True
    then obtain c where c: "made = Inr c" "b" by auto
    have "nextProgramId s1 \<notin> (fst \<circ> snd \<circ> snd) ` set (loaded s1)" using s1 by (fastforce simp: jits_ok_def code_ok_def)
    moreover have "nextProgramId s1 < nextProgramId s1 + 1" using s1 u64_next [OF assms(3)] by (simp add: word_less_nat_alt)
    ultimately show ?thesis using submit_ok [OF s2, of a thread optimized "nextProgramId s1" c r s'] assms(2) i c
      by (auto simp: compile_program_def Let_def split: sum.splits)
  qed
qed

section \<open>What is reached\<close>

text \<open>Calls by any threads in any order; identifiers of programs do not come round.\<close>

inductive reached_jits :: "'c jits \<Rightarrow> (nat \<rightharpoonup> 'c) \<Rightarrow> bool \<Rightarrow> bool" where
  start: "reached_jits jits_start Map.empty False"
| failed: "reached_jits s g left' \<Longrightarrow> nextProgramId s \<noteq> - 1 \<Longrightarrow> compile_program a thread optimized made s = (Inl e, s') \<Longrightarrow>
    reached_jits s' g (left' \<or> \<not> removes a)"
| compiled: "reached_jits s g left' \<Longrightarrow> nextProgramId s \<noteq> - 1 \<Longrightarrow> compile_program a thread optimized (Inr c) s = (Inr p, s') \<Longrightarrow>
    reached_jits s' (g(p \<mapsto> c)) left'"
| freed: "reached_jits s g left' \<Longrightarrow> reached_jits (finalizeProgram a p s) g (left' \<or> \<not> removes a)"
| ended: "reached_jits s g left' \<Longrightarrow> reached_jits (thread_end thread optimized s) g left'"

lemma reached_jits_ok: "reached_jits s g left' \<Longrightarrow> jits_ok s g left'"
proof (induction rule: reached_jits.induct)
  case (failed s g left' a thread optimized made e s')
  then show ?case using compile_program_ok [OF failed(4,3,2)] by simp
next
  case (compiled s g left' a thread optimized c p s')
  then show ?case using compile_program_ok [OF compiled(4,3,2)] by (auto simp only: sum.case sum.inject)
qed (simp_all add: jits_start_ok finalizeProgram_ok thread_end_ok)

lemma find_unique:
  assumes "distinct (map f xs)" "x \<in> set xs" "P x" "\<forall>y \<in> set xs. P y \<longrightarrow> f y = f x"
  shows "find P xs = Some x"
proof -
  have "find P xs \<noteq> None" using assms(2,3) by (metis find_None_iff)
  then obtain y where y: "find P xs = Some y" by auto
  then have "y \<in> set xs" "P y" by (auto simp: find_Some_iff)
  then have "y = x" using assms by (auto simp: distinct_map dest: inj_onD)
  then show ?thesis using y by simp
qed

lemma function_code_loaded:
  assumes "code_ok s g" "(p, h) \<in> set (programs s)"
  shows "g p \<noteq> None \<and> function_code s h = g p"
proof -
  obtain c where c: "g p = Some c" "(shared h, resources h, functionName h, c) \<in> set (loaded s)"
    using assms by (fastforce simp: code_ok_def)
  have "find (\<lambda>e. fst e = shared h \<and> fst (snd (snd e)) = functionName h) (loaded s) = Some (shared h, resources h, functionName h, c)"
    by (rule find_unique [of "fst \<circ> snd \<circ> snd"]) (use assms(1) c(2) in \<open>auto simp: code_ok_def\<close>)
  then show ?thesis using c(1) by (simp add: function_code_def)
qed

section \<open>Properties\<close>

text \<open>
  C33. Whatever programs are compiled and freed, by whichever threads, with errors of LLVM at any call, and threads ending in
  between: a program that Lean has is still the code that it was compiled to, and its JIT has an owner. And unless LLVM could
  not take code out, all that is loaded is the code of programs, so that nothing is when there are none.
\<close>

theorem programs_stay_loaded:
  assumes "reached_jits s g left'"
  shows "(\<forall>p h. map_of (programs s) p = Some h \<longrightarrow> g p \<noteq> None \<and> function_code s h = g p \<and> owners s (shared h) > 0) \<and>
     (left' \<or> length (loaded s) = length (programs s))"
proof -
  have ok: "jits_ok s g left'" using reached_jits_ok [OF assms] .
  have "g p \<noteq> None \<and> function_code s h = g p \<and> owners s (shared h) > 0" if "map_of (programs s) p = Some h" for p h
  proof -
    have m: "(p, h) \<in> set (programs s)" using map_of_SomeD [OF that] .
    then have "owned (shared h) s \<noteq> 0" unfolding owned_0 by (auto intro!: image_eqI [of _ _ "(p, h)"])
    moreover have "owners s (shared h) = owned (shared h) s" "code_ok s g" using ok by (simp_all add: jits_ok_def counts_ok_def)
    ultimately show ?thesis using function_code_loaded [OF _ m] by simp
  qed
  moreover have "length (loaded s) = length (programs s)" if "\<not> left'"
  proof -
    have c: "code_ok s g" "none_left s" using ok that by (simp_all add: jits_ok_def)
    have "(fst \<circ> snd) ` set (loaded s) = (resources \<circ> snd) ` set (programs s)"
    proof (intro equalityI subsetI)
      fix t assume "t \<in> (fst \<circ> snd) ` set (loaded s)"
      then obtain j n c where "(j, t, n, c) \<in> set (loaded s)" by auto
      then obtain p h where "(p, h) \<in> set (programs s)" "resources h = t" using c(2) unfolding none_left_def by blast
      then show "t \<in> (resources \<circ> snd) ` set (programs s)" by (auto intro!: image_eqI [of _ _ "(p, h)"])
    next
      fix t assume "t \<in> (resources \<circ> snd) ` set (programs s)"
      then obtain p h where h: "(p, h) \<in> set (programs s)" "resources h = t" by auto
      then obtain d where "(shared h, resources h, functionName h, d) \<in> set (loaded s)" using c(1) unfolding code_ok_def by blast
      then show "t \<in> (fst \<circ> snd) ` set (loaded s)"
        using h(2) by (auto intro!: image_eqI [of _ _ "(shared h, resources h, functionName h, d)"])
    qed
    moreover have "card ((fst \<circ> snd) ` set (loaded s)) = length (loaded s)" "card ((resources \<circ> snd) ` set (programs s)) = length (programs s)"
      using c(1) distinct_card [of "map (fst \<circ> snd) (loaded s)"] distinct_card [of "map (resources \<circ> snd) (programs s)"]
      unfolding code_ok_def set_map length_map by blast+
    ultimately show ?thesis by simp
  qed
  ultimately show ?thesis by blast
qed

definition orc_fine :: orc where
  "orc_fine = \<lparr>noTarget = False, noPrinter = False, noParser = False, detectHost = None, createJit = None, defineSymbols = None,
     addModule = None, lookupName = None, removes = True\<rparr>"

definition one_program :: "string jits" where
  "one_program = snd (compile_program orc_fine 7 False (Inr ''a'') jits_start)"

definition two_programs :: "string jits" where
  "two_programs = snd (compile_program orc_fine 7 False (Inr ''b'') one_program)"

lemma two_programs_reached: "reached_jits two_programs [0 \<mapsto> ''a'', 1 \<mapsto> ''b''] False"
proof -
  have c: "fst (compile_program orc_fine 7 False (Inr ''a'') jits_start) = Inr 0"
    "fst (compile_program orc_fine 7 False (Inr ''b'') one_program) = Inr 1"
    "nextProgramId (jits_start :: string jits) \<noteq> - 1" "nextProgramId one_program \<noteq> - 1" by code_simp+
  have "reached_jits one_program [0 \<mapsto> ''a''] False"
    using reached_jits.compiled [OF reached_jits.start c(3), of orc_fine 7 False "''a''" 0 one_program] c(1)
    by (simp add: one_program_def prod_eq_iff)
  then show ?thesis
    using reached_jits.compiled [OF _ c(4), of _ False orc_fine 7 False "''b''" 1 two_programs] c(2)
    by (simp add: two_programs_def prod_eq_iff)
qed

theorem programs_stay_loaded_witness:
  "function_code (thread_end 7 False (finalizeProgram orc_fine 0 two_programs)) \<lparr>shared = 0, resources = 1, functionName = 2\<rparr> = Some ''b''"
proof -
  let ?s = "thread_end 7 False (finalizeProgram orc_fine 0 two_programs)"
  have "reached_jits ?s [0 \<mapsto> ''a'', 1 \<mapsto> ''b''] (False \<or> \<not> removes orc_fine)"
    by (intro reached_jits.ended reached_jits.freed two_programs_reached)
  moreover have "map_of (programs ?s) 1 = Some \<lparr>shared = 0, resources = 1, functionName = 2\<rparr>" by code_simp
  ultimately show ?thesis using programs_stay_loaded [of ?s] by fastforce
qed

end
