(* ===== verification/Llvm.thy ===== *)
theory Llvm
  imports Prelude
begin

unbundle bit_operations_syntax

text \<open>
  \<open>native/bap_llvm.cpp\<close>: the assembler and the disassembler of LLVM as Lean has them. LLVM is a parameter, a record of what is
  called of it, whose values are what the methods give: the registers by their names, the instructions by their names and
  descriptions, and functions to decode, to print and to parse. An exception is the error of a sum, with its message. The
  state is that of a thread: whether the targets are there, and what it remembers for each triple.

  What is shown (in \<open>LlvmProperties\<close>): that what is remembered of a triple changes nothing for others, nor for the same
  but for what its decoder remembers; that remembering opcodes does, for a triple that has no target; that the two ways to disassemble agree; and that names and numbers of opcodes
  and registers go there and back.
\<close>

section \<open>LLVM\<close>

datatype arch = Arch_arm | Arch_thumb | Arch_aarch64 | Arch_other

datatype mc_operand = Reg_operand nat | Imm_operand u64 | Other_operand

record mc_inst =
  inst_opcode :: nat
  inst_operands :: "mc_operand list"

record description =
  isReturn :: bool
  isCall :: bool
  isBarrier :: bool
  isBranch :: bool
  isIndirectBranch :: bool
  isConditionalBranch :: bool
  isUnconditionalBranch :: bool
  mayLoad :: bool
  mayStore :: bool
  isTerminator :: bool

text \<open>
  \<open>'t\<close> are triples, \<open>'g\<close> targets, \<open>'s\<close> subtargets and \<open>'d\<close> decoders, which decoding may change. \<open>lookupTarget\<close> is asked
  whether the targets are initialized. A register that has no name is None, as \<open>getName\<close> may be null.
\<close>

record ('t, 'g, 's, 'd) llvm =
  normalize :: "string \<Rightarrow> 't"
  isRISCV :: "'t \<Rightarrow> bool"
  getArch :: "'t \<Rightarrow> arch"
  isMIPS :: "'t \<Rightarrow> bool"
  isSubArch_r6 :: "'t \<Rightarrow> bool"
  isMIPS64 :: "'t \<Rightarrow> bool"
  isPPC64 :: "'t \<Rightarrow> bool"
  isX86 :: "'t \<Rightarrow> bool"
  lookupTarget :: "bool \<Rightarrow> 't \<Rightarrow> string + 'g"
  createMCRegInfo :: "'g \<Rightarrow> 't \<Rightarrow> string option list option"
  createMCAsmInfo :: "'g \<Rightarrow> 't \<Rightarrow> nat option"
  createMCSubtargetInfo :: "'g \<Rightarrow> 't \<Rightarrow> string \<Rightarrow> 's option"
  createMCInstrInfo :: "'g \<Rightarrow> (string \<times> description) list option"
  hasAsmParser :: "'g \<Rightarrow> 's \<Rightarrow> bool"
  runParser :: "'g \<Rightarrow> 't \<Rightarrow> 's \<Rightarrow> string \<Rightarrow> u8 list option"
  objectSections :: "u8 list \<Rightarrow> string + (bool \<times> (string + u8 list)) list"
  createMCDisassembler :: "'g \<Rightarrow> 's \<Rightarrow> 'd option"
  hasPrinter :: "'g \<Rightarrow> 't \<Rightarrow> nat \<Rightarrow> bool"
  getInstruction :: "'d \<Rightarrow> u8 list \<Rightarrow> u64 \<Rightarrow> (mc_inst \<times> nat) option \<times> 'd"
  printInst :: "'g \<Rightarrow> 't \<Rightarrow> nat \<Rightarrow> 's \<Rightarrow> mc_inst \<Rightarrow> u64 \<Rightarrow> string"

text \<open>A string as C has it, up to its first zero.\<close>

definition c_string :: "string \<Rightarrow> string" where
  "c_string s = takeWhile (\<lambda>c. c \<noteq> CHR 0x00) s"

section \<open>Contexts\<close>

definition targetFeatures :: "('t, 'g, 's, 'd) llvm \<Rightarrow> 't \<Rightarrow> bool \<Rightarrow> string" where
  "targetFeatures L triple assembling =
     (if isRISCV L triple then (if assembling then ''+a,+d,+f,+m,+zba,+zbb,+zbs'' else ''+a,+c,+d,+f,+m,+zba,+zbb,+zbs'')
      else if getArch L triple = Arch_arm then ''+hwdiv,+hwdiv-arm,+vfp4,+fp-armv8''
      else if getArch L triple = Arch_thumb then ''+thumb2,+hwdiv,+hwdiv-arm,+vfp4,+fp-armv8''
      else if getArch L triple = Arch_aarch64
      then ''+v8.1a,+v8.2a,+v8.3a,+fullfp16,+aes,+sha2,+sha3,+sm4,+crc,+lse,+rdm,+dotprod,+fp16fml,'' @
           ''+flagm,+rand,+pauth,+jsconv,+complxnum,+rcpc,+rcpc-immo,+fptoint,+sb,+predres,+ccdp,+sve''
      else if isMIPS L triple \<and> \<not> isSubArch_r6 L triple then (if isMIPS64 L triple then ''+mips64r2'' else ''+mips32r2'')
      else if isPPC64 L triple then ''+prefix-instrs,+pcrelative-memops,+paired-vector-memops,+isa-v31-instructions''
      else '''')"

record ('t, 'g, 's) target_context =
  tc_triple :: 't
  tc_target :: 'g
  tc_registers :: "string option list"
  tc_dialect :: nat
  tc_subtarget :: 's
  tc_instructions :: "(string \<times> description) list"

definition or_throw :: "string \<Rightarrow> 'a option \<Rightarrow> string + 'a" where
  "or_throw message r = (case r of None \<Rightarrow> Inl message | Some x \<Rightarrow> Inr x)"

definition new_target_context :: "('t, 'g, 's, 'd) llvm \<Rightarrow> bool \<Rightarrow> string \<Rightarrow> bool \<Rightarrow> string + ('t, 'g, 's) target_context" where
  "new_target_context L up name assembling =
     (let triple = normalize L name
      in case lookupTarget L up triple of
           Inl e \<Rightarrow> Inl e
         | Inr target \<Rightarrow>
             (case or_throw ''unable to create register information'' (createMCRegInfo L target triple) of
                Inl e \<Rightarrow> Inl e
              | Inr regs \<Rightarrow>
                  (case or_throw ''unable to create assembler information'' (createMCAsmInfo L target triple) of
                     Inl e \<Rightarrow> Inl e
                   | Inr dialect \<Rightarrow>
                       (case or_throw ''unable to create subtarget information''
                               (createMCSubtargetInfo L target triple (targetFeatures L triple assembling)) of
                          Inl e \<Rightarrow> Inl e
                        | Inr subtarget \<Rightarrow>
                            (case or_throw ''unable to create instruction information'' (createMCInstrInfo L target) of
                               Inl e \<Rightarrow> Inl e
                             | Inr instrs \<Rightarrow>
                                 Inr \<lparr>tc_triple = triple, tc_target = target, tc_registers = regs, tc_dialect = dialect,
                                      tc_subtarget = subtarget, tc_instructions = instrs\<rparr>)))))"

section \<open>Assembling\<close>

fun text_sections :: "(bool \<times> (string + u8 list)) list \<Rightarrow> string + u8 list" where
  "text_sections [] = Inr []"
| "text_sections ((isText, contents) # rest) =
     (if \<not> isText then text_sections rest
      else case contents of
             Inl e \<Rightarrow> Inl e
           | Inr bytes \<Rightarrow> (case text_sections rest of Inl e \<Rightarrow> Inl e | Inr more' \<Rightarrow> Inr (bytes @ more')))"

definition assemble :: "('t, 'g, 's, 'd) llvm \<Rightarrow> bool \<Rightarrow> string \<Rightarrow> string \<Rightarrow> string + u8 list" where
  "assemble L up triple source =
     (case new_target_context L up triple True of
        Inl e \<Rightarrow> Inl e
      | Inr tc \<Rightarrow>
          if \<not> hasAsmParser L (tc_target tc) (tc_subtarget tc) then Inl ''target does not support assembly parsing''
          else case runParser L (tc_target tc) (tc_triple tc) (tc_subtarget tc) source of
                 None \<Rightarrow> Inl ''assembly failed''
               | Some object \<Rightarrow>
                   (case objectSections L object of Inl e \<Rightarrow> Inl e | Inr sections \<Rightarrow> text_sections sections))"

section \<open>What a thread remembers\<close>

record ('t, 'g, 's, 'd) decoder_context =
  dc_context :: "('t, 'g, 's) target_context"
  dc_dialect :: nat
  dc_decoder :: 'd

text \<open>A triple whose decoder could not be made stays in \<open>contexts\<close> with none.\<close>

record ('t, 'g, 's, 'd) llvm_state =
  initialized :: bool
  contexts :: "string \<rightharpoonup> ('t, 'g, 's, 'd) decoder_context option"
  tables :: "string \<rightharpoonup> (string \<rightharpoonup> nat)"

definition initialize :: "('t, 'g, 's, 'd) llvm_state \<Rightarrow> ('t, 'g, 's, 'd) llvm_state" where
  "initialize st = st\<lparr>initialized := True\<rparr>"

definition new_decoder_context :: "('t, 'g, 's, 'd) llvm \<Rightarrow> bool \<Rightarrow> string \<Rightarrow> string + ('t, 'g, 's, 'd) decoder_context" where
  "new_decoder_context L up triple =
     (case new_target_context L up triple False of
        Inl e \<Rightarrow> Inl e
      | Inr tc \<Rightarrow>
          (case createMCDisassembler L (tc_target tc) (tc_subtarget tc) of
             None \<Rightarrow> Inl ''target does not support disassembly''
           | Some d \<Rightarrow>
               let dialect = (if isX86 L (tc_triple tc) then 1 else tc_dialect tc)
               in if \<not> hasPrinter L (tc_target tc) (tc_triple tc) dialect then Inl ''unable to create instruction printer''
                  else Inr \<lparr>dc_context = tc, dc_dialect = dialect, dc_decoder = d\<rparr>))"

definition decoderContext ::
  "('t, 'g, 's, 'd) llvm \<Rightarrow> string \<Rightarrow> ('t, 'g, 's, 'd) llvm_state \<Rightarrow> (string + ('t, 'g, 's, 'd) decoder_context) \<times> ('t, 'g, 's, 'd) llvm_state" where
  "decoderContext L triple st =
     (case contexts st triple of
        Some (Some dc) \<Rightarrow> (Inr dc, st)
      | _ \<Rightarrow>
          (case new_decoder_context L (initialized st) triple of
             Inl e \<Rightarrow> (Inl e, st\<lparr>contexts := (contexts st)(triple \<mapsto> None)\<rparr>)
           | Inr dc \<Rightarrow> (Inr dc, st\<lparr>contexts := (contexts st)(triple \<mapsto> Some dc)\<rparr>)))"

text \<open>\<open>emplace\<close> leaves a name that is there.\<close>

fun emplace_names :: "nat \<Rightarrow> (string \<times> description) list \<Rightarrow> (string \<rightharpoonup> nat) \<Rightarrow> string \<rightharpoonup> nat" where
  "emplace_names opcode [] table = table"
| "emplace_names opcode (instr # instrs) table =
     emplace_names (opcode + 1) instrs (if table (fst instr) = None then table(fst instr \<mapsto> opcode) else table)"

text \<open>The table is there, empty, before the context that it is filled from is made.\<close>

definition opcodeTable ::
  "('t, 'g, 's, 'd) llvm \<Rightarrow> string \<Rightarrow> ('t, 'g, 's, 'd) llvm_state \<Rightarrow> (string + (string \<rightharpoonup> nat)) \<times> ('t, 'g, 's, 'd) llvm_state" where
  "opcodeTable L triple st =
     (case tables st triple of
        Some table \<Rightarrow> (Inr table, st)
      | None \<Rightarrow>
          let st1 = st\<lparr>tables := (tables st)(triple \<mapsto> Map.empty)\<rparr>
          in case new_target_context L (initialized st1) triple False of
               Inl e \<Rightarrow> (Inl e, st1)
             | Inr tc \<Rightarrow>
                 let table = emplace_names 0 (tc_instructions tc) Map.empty
                 in (Inr table, st1\<lparr>tables := (tables st1)(triple \<mapsto> table)\<rparr>))"

section \<open>Disassembling\<close>

datatype operand = Register_operand string | Immediate_operand int

record disassembly =
  d_text :: string
  d_opcode :: string
  d_operands :: "operand list"
  d_instruction :: mc_inst
  d_size :: nat
  d_flags :: "32 word"

fun operand_of :: "string option list \<Rightarrow> mc_operand \<Rightarrow> string + operand" where
  "operand_of regs (Reg_operand r) =
     Inr (Register_operand (case regs ! r of Some name \<Rightarrow> if name \<noteq> [] then name else ''Nil'' | None \<Rightarrow> ''Nil''))"
| "operand_of regs (Imm_operand v) = Inr (Immediate_operand (sint v))"
| "operand_of regs Other_operand = Inl ''unsupported LLVM operand kind''"

fun operands_of :: "string option list \<Rightarrow> mc_operand list \<Rightarrow> string + operand list" where
  "operands_of regs [] = Inr []"
| "operands_of regs (x # xs) =
     (case operand_of regs x of
        Inl e \<Rightarrow> Inl e
      | Inr y \<Rightarrow> (case operands_of regs xs of Inl e \<Rightarrow> Inl e | Inr ys \<Rightarrow> Inr (y # ys)))"

definition flag_if :: "bool \<Rightarrow> nat \<Rightarrow> 32 word" where
  "flag_if b v = (if b then of_nat v else 0)"

definition description_flags :: "description \<Rightarrow> 32 word" where
  "description_flags d =
     flag_if (isReturn d) 1 OR flag_if (isCall d) 2 OR flag_if (isBarrier d) 4 OR flag_if (isBranch d) 8 OR
     flag_if (isIndirectBranch d) 16 OR flag_if (isConditionalBranch d) 32 OR flag_if (isUnconditionalBranch d) 64 OR
     flag_if (mayLoad d) 128 OR flag_if (mayStore d) 256 OR flag_if (isTerminator d) 512"

definition disassemble ::
  "('t, 'g, 's, 'd) llvm \<Rightarrow> string \<Rightarrow> u8 list \<Rightarrow> u64 \<Rightarrow> ('t, 'g, 's, 'd) llvm_state \<Rightarrow> (string + disassembly) \<times> ('t, 'g, 's, 'd) llvm_state" where
  "disassemble L triple bytes address st =
     (case decoderContext L triple st of
        (Inl e, st1) \<Rightarrow> (Inl e, st1)
      | (Inr dc, st1) \<Rightarrow>
          let tc = dc_context dc;
              (found, d) = getInstruction L (dc_decoder dc) bytes address;
              st2 = st1\<lparr>contexts := (contexts st1)(triple \<mapsto> Some (dc\<lparr>dc_decoder := d\<rparr>))\<rparr>
          in (case found of
                None \<Rightarrow> Inl ''instruction decoding failed''
              | Some (inst, n) \<Rightarrow>
                  (case operands_of (tc_registers tc) (inst_operands inst) of
                     Inl e \<Rightarrow> Inl e
                   | Inr os \<Rightarrow>
                       Inr \<lparr>d_text = printInst L (tc_target tc) (tc_triple tc) (dc_dialect dc) (tc_subtarget tc) inst address,
                            d_opcode = fst (tc_instructions tc ! inst_opcode inst), d_operands = os, d_instruction = inst,
                            d_size = n, d_flags = description_flags (snd (tc_instructions tc ! inst_opcode inst))\<rparr>), st2))"

section \<open>What Lean calls\<close>

definition bap_llvm_assemble ::
  "('t, 'g, 's, 'd) llvm \<Rightarrow> string \<Rightarrow> string \<Rightarrow> ('t, 'g, 's, 'd) llvm_state \<Rightarrow> (string + u8 list) \<times> ('t, 'g, 's, 'd) llvm_state" where
  "bap_llvm_assemble L triple source st =
     (let st = initialize st in (assemble L (initialized st) (c_string triple) (c_string source), st))"

type_synonym decoded = "string \<times> nat \<times> 32 word \<times> string \<times> operand list"

definition bap_llvm_disassemble ::
  "('t, 'g, 's, 'd) llvm \<Rightarrow> string \<Rightarrow> u8 list \<Rightarrow> u64 \<Rightarrow> ('t, 'g, 's, 'd) llvm_state \<Rightarrow> (string + decoded) \<times> ('t, 'g, 's, 'd) llvm_state" where
  "bap_llvm_disassemble L triple data address st =
     (let (r, st1) = disassemble L (c_string triple) data address (initialize st)
      in (map_sum (\<lambda>e. e) (\<lambda>d. (c_string (d_text d), d_size d, d_flags d, c_string (d_opcode d), foldr (#) (d_operands d) [])) r, st1))"

definition bap_llvm_disassemble_mc ::
  "('t, 'g, 's, 'd) llvm \<Rightarrow> string \<Rightarrow> u8 list \<Rightarrow> u64 \<Rightarrow> ('t, 'g, 's, 'd) llvm_state \<Rightarrow>
   (string + string \<times> nat \<times> 32 word \<times> mc_inst) \<times> ('t, 'g, 's, 'd) llvm_state" where
  "bap_llvm_disassemble_mc L triple data address st =
     (let (r, st1) = disassemble L (c_string triple) data address (initialize st)
      in (map_sum (\<lambda>e. e) (\<lambda>d. (c_string (d_text d), d_size d, d_flags d, d_instruction d)) r, st1))"

definition bap_llvm_mc_opcode :: "mc_inst \<Rightarrow> nat" where
  "bap_llvm_mc_opcode inst = inst_opcode inst"

datatype mc_value = Mc_register nat | Mc_immediate int

fun mc_value_of :: "mc_operand \<Rightarrow> mc_value" where
  "mc_value_of (Reg_operand r) = Mc_register r"
| "mc_value_of (Imm_operand v) = Mc_immediate (sint v)"
| "mc_value_of Other_operand = Mc_immediate 0"

definition bap_llvm_mc_operands :: "mc_inst \<Rightarrow> string + mc_value list" where
  "bap_llvm_mc_operands inst =
     (if list_ex (\<lambda>x. x = Other_operand) (inst_operands inst) then Inl ''unsupported LLVM operand kind''
      else Inr (foldr (#) (map mc_value_of (inst_operands inst)) []))"

definition bap_llvm_opcode_id ::
  "('t, 'g, 's, 'd) llvm \<Rightarrow> string \<Rightarrow> string \<Rightarrow> ('t, 'g, 's, 'd) llvm_state \<Rightarrow> (string + nat) \<times> ('t, 'g, 's, 'd) llvm_state" where
  "bap_llvm_opcode_id L triple name st =
     (case opcodeTable L (c_string triple) (initialize st) of
        (Inl e, st1) \<Rightarrow> (Inl e, st1)
      | (Inr table, st1) \<Rightarrow> (case table (c_string name) of Some n \<Rightarrow> Inr n | None \<Rightarrow> Inl ''unknown LLVM opcode'', st1))"

definition bap_llvm_opcode_id_opt ::
  "('t, 'g, 's, 'd) llvm \<Rightarrow> string \<Rightarrow> string \<Rightarrow> ('t, 'g, 's, 'd) llvm_state \<Rightarrow> (string + nat option) \<times> ('t, 'g, 's, 'd) llvm_state" where
  "bap_llvm_opcode_id_opt L triple name st =
     (case opcodeTable L (c_string triple) (initialize st) of
        (Inl e, st1) \<Rightarrow> (Inl e, st1)
      | (Inr table, st1) \<Rightarrow> (Inr (table (c_string name)), st1))"

text \<open>A name that is null is the empty one for the comparison.\<close>

fun find_register :: "nat \<Rightarrow> string option list \<Rightarrow> string \<Rightarrow> nat option" where
  "find_register r [] expected = None"
| "find_register r (x # xs) expected =
     (if (case x of None \<Rightarrow> [] | Some name \<Rightarrow> name) = expected then Some r else find_register (r + 1) xs expected)"

definition bap_llvm_register_id ::
  "('t, 'g, 's, 'd) llvm \<Rightarrow> string \<Rightarrow> string \<Rightarrow> ('t, 'g, 's, 'd) llvm_state \<Rightarrow> (string + nat) \<times> ('t, 'g, 's, 'd) llvm_state" where
  "bap_llvm_register_id L triple name st =
     (let st = initialize st
      in (case new_target_context L (initialized st) (c_string triple) False of
            Inl e \<Rightarrow> Inl e
          | Inr tc \<Rightarrow>
              (case find_register 0 (tc_registers tc) (c_string name) of
                 Some r \<Rightarrow> Inr r
               | None \<Rightarrow> Inl (''unknown LLVM register: '' @ c_string name)), st))"

text \<open>From the last to the first, each put before those that are there.\<close>

definition name_register :: "string option list \<Rightarrow> nat \<Rightarrow> (nat \<times> string) list \<Rightarrow> (nat \<times> string) list" where
  "name_register regs r rest = (case regs ! r of None \<Rightarrow> rest | Some name \<Rightarrow> if name = [] then rest else (r, name) # rest)"

definition bap_llvm_register_names ::
  "('t, 'g, 's, 'd) llvm \<Rightarrow> string \<Rightarrow> ('t, 'g, 's, 'd) llvm_state \<Rightarrow> (string + (nat \<times> string) list) \<times> ('t, 'g, 's, 'd) llvm_state" where
  "bap_llvm_register_names L triple st =
     (let st = initialize st
      in (case new_target_context L (initialized st) (c_string triple) False of
            Inl e \<Rightarrow> Inl e
          | Inr tc \<Rightarrow> Inr (foldl (\<lambda>rest r. name_register (tc_registers tc) r rest) [] (rev [0..<length (tc_registers tc)])), st))"

end
