(* ===== verification/LlvmProperties.thy ===== *)
theory LlvmProperties
  imports Llvm
begin

unbundle bit_operations_syntax

text \<open>
  What holds of the calls that Lean makes to \<open>native/bap_llvm.cpp\<close>, in whatever order: what a thread remembers for a triple
  changes no answer on another one, nor on the same but for what its decoder remembers of what it decoded, and but for
  opcodes of a triple whose first table could not be filled; and what is said of an instruction by names and by numbers
  is the same.
\<close>

section \<open>Sequences of calls\<close>

datatype llvm_call =
    Assemble string string
  | Disassemble string "u8 list" u64
  | Disassemble_mc string "u8 list" u64
  | Opcode_id string string
  | Opcode_id_opt string string
  | Register_id string string
  | Register_names string

datatype llvm_answer =
    Code "string + u8 list"
  | Named_instruction "string + decoded"
  | Instruction "string + string \<times> nat \<times> 32 word \<times> mc_inst"
  | Opcode "string + nat"
  | Opcode_opt "string + nat option"
  | Register "string + nat"
  | Registers "string + (nat \<times> string) list"

fun llvm_do ::
  "('t, 'g, 's, 'd) llvm \<Rightarrow> llvm_call \<Rightarrow> ('t, 'g, 's, 'd) llvm_state \<Rightarrow> llvm_answer \<times> ('t, 'g, 's, 'd) llvm_state" where
  "llvm_do L (Assemble t source) st = map_prod Code (\<lambda>s. s) (bap_llvm_assemble L t source st)"
| "llvm_do L (Disassemble t bytes a) st = map_prod Named_instruction (\<lambda>s. s) (bap_llvm_disassemble L t bytes a st)"
| "llvm_do L (Disassemble_mc t bytes a) st = map_prod Instruction (\<lambda>s. s) (bap_llvm_disassemble_mc L t bytes a st)"
| "llvm_do L (Opcode_id t name) st = map_prod Opcode (\<lambda>s. s) (bap_llvm_opcode_id L t name st)"
| "llvm_do L (Opcode_id_opt t name) st = map_prod Opcode_opt (\<lambda>s. s) (bap_llvm_opcode_id_opt L t name st)"
| "llvm_do L (Register_id t name) st = map_prod Register (\<lambda>s. s) (bap_llvm_register_id L t name st)"
| "llvm_do L (Register_names t) st = map_prod Registers (\<lambda>s. s) (bap_llvm_register_names L t st)"

definition llvm_start :: "('t, 'g, 's, 'd) llvm_state" where
  "llvm_start = \<lparr>initialized = False, contexts = Map.empty, tables = Map.empty\<rparr>"

definition llvm_calls :: "('t, 'g, 's, 'd) llvm \<Rightarrow> llvm_call list \<Rightarrow> ('t, 'g, 's, 'd) llvm_state" where
  "llvm_calls L cs = fold (\<lambda>c st. snd (llvm_do L c st)) cs llvm_start"

text \<open>What a call decodes, and the calls that decode for the same triple.\<close>

fun decodes :: "llvm_call \<Rightarrow> (string \<times> u8 list \<times> u64) option" where
  "decodes (Disassemble t bytes a) = Some (c_string t, bytes, a)"
| "decodes (Disassemble_mc t bytes a) = Some (c_string t, bytes, a)"
| "decodes c = None"

definition same_decoder :: "llvm_call \<Rightarrow> llvm_call \<Rightarrow> bool" where
  "same_decoder c c' \<longleftrightarrow> decodes c \<noteq> None \<and> map_option fst (decodes c') = map_option fst (decodes c)"

text \<open>
  That decoding leaves the decoder of a triple as it was made. \<open>getInstruction\<close> is a const method of \<open>MCDisassembler\<close>, but the
  decoder of ARM remembers the IT block that it is in even so: it is no such triple.
\<close>

definition keeps_nothing :: "('t, 'g, 's, 'd) llvm \<Rightarrow> string \<Rightarrow> bool" where
  "keeps_nothing L t \<longleftrightarrow>
     (\<forall>dc bytes a. new_decoder_context L True t = Inr dc \<longrightarrow> snd (getInstruction L (dc_decoder dc) bytes a) = dc_decoder dc)"

text \<open>The triples whose opcodes a call asks for.\<close>

fun opcode_triple :: "llvm_call \<Rightarrow> string option" where
  "opcode_triple (Opcode_id t name) = Some (c_string t)"
| "opcode_triple (Opcode_id_opt t name) = Some (c_string t)"
| "opcode_triple c = None"

section \<open>The state of a thread\<close>

definition names_of :: "('t, 'g, 's) target_context \<Rightarrow> string \<rightharpoonup> nat" where
  "names_of tc = emplace_names 0 (tc_instructions tc) Map.empty"

text \<open>
  What is remembered is what would be made, but for the state of decoders; a table whose context fails is empty.
\<close>

definition remembers :: "('t, 'g, 's, 'd) llvm \<Rightarrow> ('t, 'g, 's, 'd) llvm_state \<Rightarrow> bool" where
  "remembers L st \<longleftrightarrow>
     (\<forall>t dc. contexts st t = Some (Some dc) \<longrightarrow> (\<exists>d. new_decoder_context L True t = Inr (dc\<lparr>dc_decoder := d\<rparr>))) \<and>
     (\<forall>t table. tables st t = Some table \<longrightarrow>
        table = (case new_target_context L True t False of Inl e \<Rightarrow> Map.empty | Inr tc \<Rightarrow> names_of tc))"

lemma remembers_start [simp]: "remembers L llvm_start"
  by (simp add: remembers_def llvm_start_def)

lemma remembers_initialize [simp]: "remembers L (initialize st) \<longleftrightarrow> remembers L st"
  by (simp add: remembers_def initialize_def)

lemma initialized_initialize [simp]: "initialized (initialize st)"
  by (simp add: initialize_def)

text \<open>The decoder that a thread uses for a triple: the one it has, or the one it would make.\<close>

definition decoder_of :: "('t, 'g, 's, 'd) llvm \<Rightarrow> ('t, 'g, 's, 'd) llvm_state \<Rightarrow> string \<Rightarrow> string + ('t, 'g, 's, 'd) decoder_context" where
  "decoder_of L st t = (case contexts st t of Some (Some dc) \<Rightarrow> Inr dc | _ \<Rightarrow> new_decoder_context L True t)"

lemma decoder_of_simps [simp]:
  "decoder_of L (initialize st) = decoder_of L st" "decoder_of L llvm_start = new_decoder_context L True"
  "decoder_of L (st\<lparr>tables := x\<rparr>) = decoder_of L st"
  by (simp_all add: decoder_of_def fun_eq_iff initialize_def llvm_start_def)

lemma decoderContext_gives:
  assumes "remembers L st" "initialized st"
  shows "fst (decoderContext L t st) = decoder_of L st t" "remembers L (snd (decoderContext L t st))"
    "decoder_of L (snd (decoderContext L t st)) = decoder_of L st"
proof -
  show "fst (decoderContext L t st) = decoder_of L st t"
    using assms(2) by (auto simp: decoderContext_def decoder_of_def split: option.splits sum.splits)
  have "dc = dc\<lparr>dc_decoder := dc_decoder dc\<rparr>" for dc :: "('a, 'b, 'c, 'd) decoder_context" by simp
  then have "\<exists>d. dc = dc\<lparr>dc_decoder := d\<rparr>" for dc :: "('a, 'b, 'c, 'd) decoder_context" by blast
  then show "remembers L (snd (decoderContext L t st))"
    using assms by (auto simp: decoderContext_def remembers_def split: option.splits sum.splits)
  show "decoder_of L (snd (decoderContext L t st)) = decoder_of L st"
    using assms(2) by (auto simp: decoderContext_def decoder_of_def fun_eq_iff split: option.splits sum.splits)
qed

lemma opcodeTable_remembered:
  assumes "remembers L st" "initialized st"
  shows "remembers L (snd (opcodeTable L t st))" "decoder_of L (snd (opcodeTable L t st)) = decoder_of L st"
    and "new_target_context L True t False = Inr tc \<Longrightarrow> fst (opcodeTable L t st) = Inr (names_of tc)"
  using assms by (auto simp: opcodeTable_def remembers_def names_of_def Let_def split: option.splits sum.splits)

text \<open>What a decoder says of an instruction, and the decoder after that.\<close>

definition decoded_by :: "('t, 'g, 's, 'd) llvm \<Rightarrow> string + ('t, 'g, 's, 'd) decoder_context \<Rightarrow> u8 list \<Rightarrow> u64 \<Rightarrow> string + disassembly" where
  "decoded_by L r bytes a =
     (case r of Inl e \<Rightarrow> Inl e | Inr dc \<Rightarrow> fst (disassemble L [] bytes a (initialize llvm_start\<lparr>contexts := [[] \<mapsto> Some dc]\<rparr>)))"

definition decode_next :: "('t, 'g, 's, 'd) llvm \<Rightarrow> u8 list \<Rightarrow> u64 \<Rightarrow> string + ('t, 'g, 's, 'd) decoder_context \<Rightarrow> string + ('t, 'g, 's, 'd) decoder_context" where
  "decode_next L bytes a r = map_sum (\<lambda>e. e) (\<lambda>dc. dc\<lparr>dc_decoder := snd (getInstruction L (dc_decoder dc) bytes a)\<rparr>) r"

lemma disassemble_from_context:
  "disassemble L t bytes a st = (case decoderContext L t st of
     (Inl e, st1) \<Rightarrow> (Inl e, st1)
   | (Inr dc, st1) \<Rightarrow> (decoded_by L (Inr dc) bytes a,
       st1\<lparr>contexts := (contexts st1)(t \<mapsto> Some (dc\<lparr>dc_decoder := snd (getInstruction L (dc_decoder dc) bytes a)\<rparr>))\<rparr>))"
  by (simp add: disassemble_def decoded_by_def Let_def initialize_def decoderContext_def split: prod.split sum.split)

lemma disassemble_gives:
  assumes "remembers L st" "initialized st"
  shows "fst (disassemble L t bytes a st) = decoded_by L (decoder_of L st t) bytes a"
    "remembers L (snd (disassemble L t bytes a st))"
    "decoder_of L (snd (disassemble L t bytes a st)) = (decoder_of L st)(t := decode_next L bytes a (decoder_of L st t))"
proof -
  obtain r st1 where p: "decoderContext L t st = (r, st1)" by fastforce
  then have r: "r = decoder_of L st t" "remembers L st1" "decoder_of L st1 = decoder_of L st"
    using decoderContext_gives [OF assms, of t] by simp_all
  have made: "\<exists>d. new_decoder_context L True t = Inr (dc\<lparr>dc_decoder := d\<rparr>)" if "r = Inr dc" for dc
  proof (cases "contexts st t")
    case (Some o')
    then show ?thesis using assms(1) that r(1) by (cases o') (auto simp: decoder_of_def remembers_def intro: exI [of _ "dc_decoder dc"])
  qed (use that r(1) in \<open>auto simp: decoder_of_def intro: exI [of _ "dc_decoder dc"]\<close>)
  note d = disassemble_from_context [of L t bytes a st, unfolded p]
  show "fst (disassemble L t bytes a st) = decoded_by L (decoder_of L st t) bytes a"
    unfolding d using r(1) by (auto simp: decoded_by_def [of L "Inl _"] split: sum.split)
  show "remembers L (snd (disassemble L t bytes a st))"
    unfolding d using r(2) made by (auto simp: remembers_def split: sum.split)
  show "decoder_of L (snd (disassemble L t bytes a st)) = (decoder_of L st)(t := decode_next L bytes a (decoder_of L st t))"
  proof (cases r)
    case (Inl e)
    then show ?thesis unfolding d using r(1,3) by (auto simp: decode_next_def)
  next
    case (Inr dc)
    then show ?thesis unfolding d using r(1) fun_cong [OF r(3)] by (auto simp: decode_next_def decoder_of_def fun_eq_iff)
  qed
qed

text \<open>The decoder of a triple after a call.\<close>

definition decoder_after :: "('t, 'g, 's, 'd) llvm \<Rightarrow> llvm_call \<Rightarrow> string \<Rightarrow> string + ('t, 'g, 's, 'd) decoder_context \<Rightarrow> string + ('t, 'g, 's, 'd) decoder_context" where
  "decoder_after L c t r = (case decodes c of None \<Rightarrow> r | Some (t', bytes, a) \<Rightarrow> if t' = t then decode_next L bytes a r else r)"

lemma llvm_do_gives:
  assumes "remembers L st"
  shows "remembers L (snd (llvm_do L c st)) \<and> decoder_of L (snd (llvm_do L c st)) t = decoder_after L c t (decoder_of L st t)"
proof (cases c)
  case (Opcode_id t' name)
  then show ?thesis using opcodeTable_remembered(1,2) [of L "initialize st" "c_string t'"] assms
    by (auto simp: bap_llvm_opcode_id_def decoder_after_def split: prod.splits sum.splits)
next
  case (Opcode_id_opt t' name)
  then show ?thesis using opcodeTable_remembered(1,2) [of L "initialize st" "c_string t'"] assms
    by (auto simp: bap_llvm_opcode_id_opt_def decoder_after_def split: prod.splits sum.splits)
qed (use assms disassemble_gives(2,3) [of L "initialize st"] in
      \<open>simp_all add: bap_llvm_assemble_def bap_llvm_disassemble_def bap_llvm_disassemble_mc_def bap_llvm_register_id_def
         bap_llvm_register_names_def Let_def case_prod_beta decoder_after_def\<close>)

lemma llvm_calls_snoc: "llvm_calls L (cs @ [c]) = snd (llvm_do L c (llvm_calls L cs))"
  by (simp add: llvm_calls_def)

lemma llvm_calls_remember: "remembers L (llvm_calls L cs)"
proof (induction cs rule: rev_induct)
  case Nil
  then show ?case by (simp add: llvm_calls_def)
next
  case (snoc c cs)
  then show ?case unfolding llvm_calls_snoc using llvm_do_gives by blast
qed

lemma llvm_calls_decoder:
  "decoder_of L (llvm_calls L cs) t = decoder_of L (llvm_calls L (filter (\<lambda>c. map_option fst (decodes c) = Some t) cs)) t"
proof (induction cs rule: rev_induct)
  case (snoc c cs)
  then show ?case using llvm_do_gives [OF llvm_calls_remember, of L c _ t]
    by (auto simp: llvm_calls_snoc decoder_after_def split: option.splits)
qed simp

lemma llvm_calls_keep:
  assumes "keeps_nothing L t"
  shows "decoder_of L (llvm_calls L cs) t = new_decoder_context L True t"
proof (induction cs rule: rev_induct)
  case Nil
  then show ?case by (simp add: llvm_calls_def)
next
  case (snoc c cs)
  have "decode_next L bytes a (new_decoder_context L True t) = new_decoder_context L True t" for bytes a
    using assms by (cases "new_decoder_context L True t") (simp_all add: decode_next_def keeps_nothing_def)
  then show ?case using snoc llvm_do_gives [OF llvm_calls_remember, of L c cs t]
    by (simp add: llvm_calls_snoc decoder_after_def split: option.split)
qed

lemma llvm_do_answer:
  assumes "remembers L st" "remembers L st'"
    and "\<And>t. opcode_triple c = Some t \<Longrightarrow> \<exists>tc. new_target_context L True t False = Inr tc"
    and "\<And>t. map_option fst (decodes c) = Some t \<Longrightarrow> decoder_of L st t = decoder_of L st' t"
  shows "fst (llvm_do L c st) = fst (llvm_do L c st')"
proof (cases c)
  case (Opcode_id t name)
  then obtain tc where "new_target_context L True (c_string t) False = Inr tc" using assms(3) by auto
  then have "fst (opcodeTable L (c_string t) (initialize s)) = Inr (names_of tc)" if "remembers L s" for s
    using opcodeTable_remembered(3) [of L "initialize s"] that by simp
  from this [OF assms(1)] this [OF assms(2)] show ?thesis using Opcode_id
    by (auto simp: bap_llvm_opcode_id_def split: prod.split sum.split)
next
  case (Opcode_id_opt t name)
  then obtain tc where "new_target_context L True (c_string t) False = Inr tc" using assms(3) by auto
  then have "fst (opcodeTable L (c_string t) (initialize s)) = Inr (names_of tc)" if "remembers L s" for s
    using opcodeTable_remembered(3) [of L "initialize s"] that by simp
  from this [OF assms(1)] this [OF assms(2)] show ?thesis using Opcode_id_opt
    by (auto simp: bap_llvm_opcode_id_opt_def split: prod.split sum.split)
qed (use assms(1,2,4) disassemble_gives(1) [of L "initialize st"] disassemble_gives(1) [of L "initialize st'"] in
      \<open>simp_all add: bap_llvm_assemble_def bap_llvm_disassemble_def bap_llvm_disassemble_mc_def bap_llvm_register_id_def
         bap_llvm_register_names_def Let_def case_prod_beta\<close>)

section \<open>Names and numbers\<close>

lemma emplace_names_some: "table name = Some n \<Longrightarrow> emplace_names k instrs table name = Some n"
proof (induction k instrs table rule: emplace_names.induct)
  case (2 k instr instrs table)
  then have "(if table (fst instr) = None then table(fst instr \<mapsto> k) else table) name = Some n" by auto
  then show ?case using 2(1) by simp
qed simp

lemma emplace_names_other: "name \<notin> fst ` set instrs \<Longrightarrow> emplace_names k instrs table name = table name"
  by (induction k instrs table rule: emplace_names.induct) auto

lemma emplace_names_nth:
  assumes "distinct (map fst instrs)" "i < length instrs" "\<And>name. name \<in> fst ` set instrs \<Longrightarrow> table name = None"
  shows "emplace_names k instrs table (fst (instrs ! i)) = Some (k + i)"
  using assms
proof (induction k instrs table arbitrary: i rule: emplace_names.induct)
  case (2 k instr instrs table)
  show ?case
  proof (cases i)
    case 0
    then show ?thesis using 2(4) [of "fst instr"] by (simp add: emplace_names_some)
  next
    case (Suc j)
    have "(if table (fst instr) = None then table(fst instr \<mapsto> k) else table) name = None" if "name \<in> fst ` set instrs" for name
    proof -
      have "fst instr \<notin> fst ` set instrs" using 2(2) by simp
      then have "name \<noteq> fst instr" using that by metis
      then show ?thesis using 2(4) [of name] that by simp
    qed
    from 2(1) [OF _ _ this, of j] show ?thesis using 2(2,3) Suc by simp
  qed
qed simp

lemma c_string_clean: "CHR 0x00 \<notin> set s \<Longrightarrow> c_string s = s"
  by (simp add: c_string_def) (metis takeWhile_eq_all_conv)

lemma find_register_nth:
  assumes "i < length regs" "regs ! i = Some name" "name \<noteq> []" "\<And>j. j < i \<Longrightarrow> regs ! j \<noteq> Some name"
  shows "find_register k regs name = Some (k + i)"
  using assms
proof (induction k regs name arbitrary: i rule: find_register.induct)
  case (2 k x xs name)
  show ?case
  proof (cases i)
    case (Suc j)
    have "(case x of None \<Rightarrow> [] | Some n \<Rightarrow> n) \<noteq> name" using 2(4) 2(5) [of 0] Suc by (cases x) auto
    moreover have "xs ! m \<noteq> Some name" if "m < j" for m using 2(5) [of "Suc m"] Suc that by simp
    ultimately show ?thesis using 2(1) [of j] 2(2,3,4) Suc by simp
  qed (use 2 in simp)
qed simp

lemma find_register_some:
  assumes "find_register k regs name = Some r"
  shows "k \<le> r \<and> r < k + length regs \<and> (case regs ! (r - k) of None \<Rightarrow> [] | Some n \<Rightarrow> n) = name"
  using assms
proof (induction k regs name rule: find_register.induct)
  case (2 k x xs name)
  show ?case
  proof (cases "(case x of None \<Rightarrow> [] | Some n \<Rightarrow> n) = name")
    case False
    then have "k + 1 \<le> r \<and> r < k + 1 + length xs \<and> (case xs ! (r - (k + 1)) of None \<Rightarrow> [] | Some n \<Rightarrow> n) = name"
      using 2 by simp
    moreover from this have "(x # xs) ! (r - k) = xs ! (r - (k + 1))" by (simp add: nth_Cons')
    ultimately show ?thesis by simp
  qed (use 2(2) in auto)
qed simp

definition listed :: "string option list \<Rightarrow> nat \<Rightarrow> (nat \<times> string) list" where
  "listed regs r = (case regs ! r of None \<Rightarrow> [] | Some n \<Rightarrow> if n = [] then [] else [(r, n)])"

definition register_listing :: "string option list \<Rightarrow> (nat \<times> string) list" where
  "register_listing regs = concat (map (listed regs) [0..<length regs])"

lemma name_registers: "foldl (\<lambda>rest r. name_register regs r rest) [] (rev rs) = concat (map (listed regs) rs)"
  unfolding foldl_conv_fold fold_rev
  by (induction rs) (auto simp: name_register_def listed_def split: option.split)

lemma listed_in: "(r, n) \<in> set (listed regs x) \<longleftrightarrow> r = x \<and> regs ! x = Some n \<and> n \<noteq> []"
  by (cases "regs ! x") (auto simp: listed_def)

lemma register_listing_in:
  "(r, n) \<in> set (register_listing regs) \<longleftrightarrow> r < length regs \<and> regs ! r = Some n \<and> n \<noteq> []"
  by (auto simp: register_listing_def listed_in)

lemma sorted_concat_map:
  "(\<And>x p. p \<in> set (f x) \<Longrightarrow> fst p = x) \<Longrightarrow> (\<And>x. length (f x) \<le> 1) \<Longrightarrow> sorted_wrt (<) (xs :: nat list) \<Longrightarrow>
   sorted_wrt (<) (map fst (concat (map f xs)))"
proof (induction xs)
  case (Cons x xs)
  consider "f x = []" | p where "f x = [p]" using Cons.prems(2) [of x] by (cases "f x") auto
  then show ?case
  proof cases
    case 2
    then have p: "f x = [(x, snd p)]" using Cons.prems(1) [of p x] by (cases p) simp
    have "x < fst q" if "q \<in> set (f y)" "y \<in> set xs" for q y using Cons.prems(1) [OF that(1)] that(2) Cons.prems(3) by simp
    then show ?thesis using p Cons by auto
  qed (use Cons in simp)
qed simp

lemma register_listing_sorted: "sorted_wrt (<) (map fst (register_listing regs))"
  unfolding register_listing_def
  by (rule sorted_concat_map) (auto simp: listed_def split: option.splits if_splits)

section \<open>Instructions\<close>

fun named :: "string option list \<Rightarrow> mc_value \<Rightarrow> operand" where
  "named regs (Mc_register r) = Register_operand (case regs ! r of Some name \<Rightarrow> if name \<noteq> [] then name else ''Nil'' | None \<Rightarrow> ''Nil'')"
| "named regs (Mc_immediate v) = Immediate_operand v"

lemma operands_named:
  "operands_of regs xs = (if list_ex (\<lambda>x. x = Other_operand) xs then Inl ''unsupported LLVM operand kind''
                          else Inr (map (named regs \<circ> mc_value_of) xs))"
proof (induction xs)
  case (Cons x xs)
  then show ?case by (cases x) simp_all
qed simp

lemma foldr_Cons [simp]: "foldr (#) xs ys = xs @ ys"
  by (induction xs) simp_all

lemma made_context: "new_decoder_context L up t = Inr dc \<Longrightarrow> new_target_context L up t False = Inr (dc_context dc)"
  by (auto simp: new_decoder_context_def Let_def split: sum.splits option.splits if_splits)

lemma disassemble_said:
  assumes "fst (disassemble L t bytes a st) = Inr d" "remembers L st" "initialized st"
  shows "\<exists>tc. new_target_context L True t False = Inr tc \<and> operands_of (tc_registers tc) (inst_operands (d_instruction d)) = Inr (d_operands d) \<and>
     d_opcode d = fst (tc_instructions tc ! inst_opcode (d_instruction d)) \<and>
     d_flags d = description_flags (snd (tc_instructions tc ! inst_opcode (d_instruction d)))"
proof -
  obtain r st1 where c: "decoderContext L t st = (r, st1)" by (cases "decoderContext L t st")
  then obtain dc where dc: "r = Inr dc" using assms(1) by (cases r) (simp_all add: disassemble_def)
  have "\<exists>d. new_decoder_context L True t = Inr (dc\<lparr>dc_decoder := d\<rparr>)"
  proof (cases "contexts st t")
    case (Some o')
    then show ?thesis using decoderContext_gives(1) [OF assms(2,3), of t] c dc assms(2)
      by (cases o') (auto simp: decoder_of_def remembers_def intro: exI [of _ "dc_decoder dc"])
  qed (use decoderContext_gives(1) [OF assms(2,3), of t] c dc in \<open>auto simp: decoder_of_def intro: exI [of _ "dc_decoder dc"]\<close>)
  then obtain d0 where d0: "new_decoder_context L True t = Inr (dc\<lparr>dc_decoder := d0\<rparr>)" ..
  then have "new_target_context L True t False = Inr (dc_context dc)" using made_context [OF d0] by simp
  then show ?thesis using assms(1) c dc
    by (auto simp: disassemble_def Let_def split: prod.splits option.splits sum.splits)
qed

lemma flag_bit: "bit (flag_if b (2 ^ k)) n \<longleftrightarrow> b \<and> n = k \<and> k < 32"
  by (auto simp: flag_if_def bit_exp_iff possible_bit_word)

lemma flag_bits:
  "bit (flag_if b 1) n \<longleftrightarrow> b \<and> n = 0" "bit (flag_if b 2) n \<longleftrightarrow> b \<and> n = 1" "bit (flag_if b 4) n \<longleftrightarrow> b \<and> n = 2"
  "bit (flag_if b 8) n \<longleftrightarrow> b \<and> n = 3" "bit (flag_if b 16) n \<longleftrightarrow> b \<and> n = 4" "bit (flag_if b 32) n \<longleftrightarrow> b \<and> n = 5"
  "bit (flag_if b 64) n \<longleftrightarrow> b \<and> n = 6" "bit (flag_if b 128) n \<longleftrightarrow> b \<and> n = 7" "bit (flag_if b 256) n \<longleftrightarrow> b \<and> n = 8"
  "bit (flag_if b 512) n \<longleftrightarrow> b \<and> n = 9"
  using flag_bit [of b 0] flag_bit [of b 1] flag_bit [of b 2] flag_bit [of b 3] flag_bit [of b 4] flag_bit [of b 5]
    flag_bit [of b 6] flag_bit [of b 7] flag_bit [of b 8] flag_bit [of b 9] by simp_all

text \<open>The bits of the flags are the ten properties of the instruction, each in its own bit, and no other bit is set.\<close>

lemma flags_tell:
  "bit (description_flags d) i \<longleftrightarrow> i < 10 \<and>
     [isReturn d, isCall d, isBarrier d, isBranch d, isIndirectBranch d, isConditionalBranch d, isUnconditionalBranch d,
      mayLoad d, mayStore d, isTerminator d] ! i"
  unfolding description_flags_def bit_or_iff flag_bits by (auto simp: less_Suc_eq numeral_eq_Suc nth_Cons')

text \<open>For examples: one target, \<open>toy\<close>, of two registers after the one without a name and of two instructions of one byte.\<close>

definition toy_description :: description where
  "toy_description = \<lparr>isReturn = True, isCall = False, isBarrier = True, isBranch = False, isIndirectBranch = False,
     isConditionalBranch = False, isUnconditionalBranch = False, mayLoad = True, mayStore = False, isTerminator = True\<rparr>"

definition toy_decode :: "unit \<Rightarrow> u8 list \<Rightarrow> u64 \<Rightarrow> (mc_inst \<times> nat) option \<times> unit" where
  "toy_decode d bytes a =
     (case bytes of
        [] \<Rightarrow> None
      | b # _ \<Rightarrow> Some (\<lparr>inst_opcode = (if b = 0 then 0 else 1), inst_operands = [Reg_operand 1, Imm_operand a]\<rparr>, 1), d)"

definition toy_llvm :: "(string, unit, string, unit) llvm" where
  "toy_llvm = \<lparr>normalize = (\<lambda>s. s), isRISCV = (\<lambda>_. False), getArch = (\<lambda>_. Arch_other), isMIPS = (\<lambda>_. False),
     isSubArch_r6 = (\<lambda>_. False), isMIPS64 = (\<lambda>_. False), isPPC64 = (\<lambda>_. False), isX86 = (\<lambda>_. True),
     lookupTarget = (\<lambda>up t. if up \<and> t = ''toy'' then Inr () else Inl ''no target''),
     createMCRegInfo = (\<lambda>_ _. Some [Some [], Some ''A'', Some ''B'']), createMCAsmInfo = (\<lambda>_ _. Some 0),
     createMCSubtargetInfo = (\<lambda>_ _ features. Some features),
     createMCInstrInfo = (\<lambda>_. Some [(''RET'', toy_description), (''NOP'', toy_description)]),
     hasAsmParser = (\<lambda>_ _. False), runParser = (\<lambda>_ _ _ _. None), objectSections = (\<lambda>_. Inr []),
     createMCDisassembler = (\<lambda>_ _. Some ()), hasPrinter = (\<lambda>_ _ _. True), getInstruction = toy_decode,
     printInst = (\<lambda>_ _ _ _ _ _. ''op'')\<rparr>"

definition toy_context :: "(string, unit, string) target_context" where
  "toy_context = \<lparr>tc_triple = ''toy'', tc_target = (), tc_registers = [Some [], Some ''A'', Some ''B''], tc_dialect = 0,
     tc_subtarget = [], tc_instructions = [(''RET'', toy_description), (''NOP'', toy_description)]\<rparr>"

lemma toy_contexts:
  "new_target_context toy_llvm True ''toy'' False = Inr toy_context"
  "new_target_context toy_llvm True ''none'' False = Inl ''no target''"
  by (simp_all add: new_target_context_def toy_llvm_def toy_context_def or_throw_def targetFeatures_def)

lemma toy_strings: "c_string ''toy'' = ''toy''" "c_string ''none'' = ''none''" "c_string ''A'' = ''A''"
  by (simp_all add: c_string_def)

section \<open>Properties\<close>

text \<open>
  C25. What a thread remembers changes no answer, but for what a decoder remembers of what it decoded itself: after any calls, a
  call answers what it would answer with only those before it that decoded for its triple, if it decodes itself, and as the
  first of the thread, if it doesn't. It answers as the first also if it decodes for a triple whose decoder is left by
  decoding as it was made. A triple whose opcodes it asks for has a target.
\<close>

theorem llvm_calls_forget:
  assumes "\<And>t. opcode_triple c = Some t \<Longrightarrow> \<exists>tc. new_target_context L True t False = Inr tc"
  shows "fst (llvm_do L c (llvm_calls L cs)) = fst (llvm_do L c (llvm_calls L (filter (same_decoder c) cs))) \<and>
    ((\<forall>t. map_option fst (decodes c) = Some t \<longrightarrow> keeps_nothing L t) \<longrightarrow>
       fst (llvm_do L c (llvm_calls L cs)) = fst (llvm_do L c llvm_start))"
proof
  have "decoder_of L (llvm_calls L cs) t = decoder_of L (llvm_calls L (filter (same_decoder c) cs)) t"
    if t: "map_option fst (decodes c) = Some t" for t
  proof -
    have "same_decoder c = (\<lambda>c'. map_option fst (decodes c') = Some t)" using t by (auto simp: same_decoder_def fun_eq_iff)
    then show ?thesis using llvm_calls_decoder [of L cs t] by simp
  qed
  then show "fst (llvm_do L c (llvm_calls L cs)) = fst (llvm_do L c (llvm_calls L (filter (same_decoder c) cs)))"
    by (intro llvm_do_answer [OF llvm_calls_remember llvm_calls_remember assms])
  show "(\<forall>t. map_option fst (decodes c) = Some t \<longrightarrow> keeps_nothing L t) \<longrightarrow>
      fst (llvm_do L c (llvm_calls L cs)) = fst (llvm_do L c llvm_start)"
  proof
    assume k: "\<forall>t. map_option fst (decodes c) = Some t \<longrightarrow> keeps_nothing L t"
    have "decoder_of L (llvm_calls L cs) t = decoder_of L llvm_start t" if "map_option fst (decodes c) = Some t" for t
      using llvm_calls_keep [of L t cs] k that by simp
    then show "fst (llvm_do L c (llvm_calls L cs)) = fst (llvm_do L c llvm_start)"
      by (intro llvm_do_answer [OF llvm_calls_remember remembers_start assms])
  qed
qed

theorem llvm_calls_forget_witness:
  "fst (llvm_do toy_llvm (Disassemble ''toy'' [1] 7) (llvm_calls toy_llvm [Disassemble ''none'' [1] 0, Disassemble ''toy'' [0] 0])) =
     fst (llvm_do toy_llvm (Disassemble ''toy'' [1] 7) (llvm_calls toy_llvm [Disassemble ''toy'' [0] 0])) \<and>
   fst (llvm_do toy_llvm (Opcode_id ''toy'' ''NOP'') (llvm_calls toy_llvm [Disassemble ''toy'' [1] 0, Opcode_id ''toy'' ''RET''])) =
     fst (llvm_do toy_llvm (Opcode_id ''toy'' ''NOP'') llvm_start)"
  using llvm_calls_forget [of "Disassemble ''toy'' [1] 7" toy_llvm "[Disassemble ''none'' [1] 0, Disassemble ''toy'' [0] 0]"]
    llvm_calls_forget [of "Opcode_id ''toy'' ''NOP''" toy_llvm "[Disassemble ''toy'' [1] 0, Opcode_id ''toy'' ''RET'']"]
  by (simp add: same_decoder_def toy_strings toy_contexts llvm_calls_def [of toy_llvm "[]"])

lemma opcodeTable_failed:
  assumes "new_target_context L True t False = Inl e" "initialized st"
  shows "tables st t = None \<Longrightarrow> opcodeTable L t st = (Inl e, st\<lparr>tables := (tables st)(t \<mapsto> Map.empty)\<rparr>)"
    and "tables st t = Some table \<Longrightarrow> opcodeTable L t st = (Inr table, st)"
  using assms by (simp_all add: opcodeTable_def Let_def)

text \<open>
  C32. A triple that has no target is an error the first time its opcodes are asked for only: the table of the triple is there,
  empty, when the error is thrown, so that the next call says that the opcode is unknown, or that there is none.
\<close>

theorem opcodes_after_error:
  assumes "new_target_context L True (c_string t) False = Inl e" "tables st (c_string t) = None"
    and "bap_llvm_opcode_id L t name st = (answer, st')"
  shows "answer = Inl e \<and>
     fst (bap_llvm_opcode_id L t name' st') = Inl ''unknown LLVM opcode'' \<and>
     fst (bap_llvm_opcode_id_opt L t name' st') = Inr None"
proof -
  have "opcodeTable L (c_string t) (initialize st) = (Inl e, (initialize st)\<lparr>tables := (tables st)(c_string t \<mapsto> Map.empty)\<rparr>)"
    using opcodeTable_failed(1) [OF assms(1), of "initialize st"] assms(2) by (simp add: initialize_def)
  then have a: "answer = Inl e" and "tables (initialize st') (c_string t) = Some Map.empty"
    using assms(3) by (auto simp: bap_llvm_opcode_id_def initialize_def)
  then have "opcodeTable L (c_string t) (initialize st') = (Inr Map.empty, initialize st')"
    using opcodeTable_failed(2) [OF assms(1)] by simp
  then show ?thesis using a by (simp add: bap_llvm_opcode_id_def bap_llvm_opcode_id_opt_def)
qed

theorem opcodes_after_error_witness:
  "fst (bap_llvm_opcode_id_opt toy_llvm ''none'' ''NOP'' (snd (bap_llvm_opcode_id toy_llvm ''none'' ''NOP'' llvm_start))) = Inr None"
  using opcodes_after_error [of toy_llvm "''none''" "''no target''" llvm_start "''NOP''" _ _ "''NOP''",
      OF _ _ surjective_pairing] by (simp add: toy_strings toy_contexts llvm_start_def)

text \<open>
  C26. The two ways to disassemble say the same, of the same thread after any calls: text, size and flags are equal, the operands by
  name are those by number with the names of their registers, and the number of the opcode is the one that is found by its
  name. This is for a target whose opcodes have different names, without a zero in them, and for an opcode that is decoded to be
  one of the target's.
\<close>

theorem disassemble_agrees:
  assumes "st = llvm_calls L cs"
    and "fst (bap_llvm_disassemble L t bytes a st) = Inr (s, n, flags, opcode, operands)"
    and "new_target_context L True (c_string t) False = Inr tc"
    and "distinct (map fst (tc_instructions tc))" "\<And>name. name \<in> fst ` set (tc_instructions tc) \<Longrightarrow> CHR 0x00 \<notin> set name"
    and "\<And>s n flags inst. fst (bap_llvm_disassemble_mc L t bytes a st) = Inr (s, n, flags, inst) \<Longrightarrow>
      bap_llvm_mc_opcode inst < length (tc_instructions tc)"
  shows "\<exists>inst vs. fst (bap_llvm_disassemble_mc L t bytes a st) = Inr (s, n, flags, inst) \<and>
     bap_llvm_mc_operands inst = Inr vs \<and> operands = map (named (tc_registers tc)) vs \<and>
     fst (bap_llvm_opcode_id L t opcode st) = Inr (bap_llvm_mc_opcode inst)"
proof -
  have st: "remembers L (initialize st)" using llvm_calls_remember assms(1) by simp
  obtain d st1 where d: "disassemble L (c_string t) bytes a (initialize st) = (Inr d, st1)"
    using assms(2) by (cases "disassemble L (c_string t) bytes a (initialize st)"; cases "fst (disassemble L (c_string t) bytes a (initialize st))")
      (auto simp: bap_llvm_disassemble_def)
  let ?inst = "d_instruction d"
  have i: "operands_of (tc_registers tc) (inst_operands ?inst) = Inr (d_operands d)"
    "d_opcode d = fst (tc_instructions tc ! inst_opcode ?inst)"
    using disassemble_said [of L "c_string t" bytes a "initialize st" d] d st assms(3) by simp_all
  have "inst_opcode ?inst < length (tc_instructions tc)" using assms(6) d by (simp add: bap_llvm_disassemble_mc_def bap_llvm_mc_opcode_def)
  note o = this emplace_names_nth [OF assms(4) this, of Map.empty 0]
  have "d_opcode d \<in> fst ` set (tc_instructions tc)" using o(1) i(2) by simp
  then have c: "c_string (d_opcode d) = d_opcode d" using assms(5) c_string_clean by blast
  have "fst (opcodeTable L (c_string t) (initialize st)) = Inr (names_of tc)" using opcodeTable_remembered(3) [OF st _ assms(3)] by simp
  then have "fst (bap_llvm_opcode_id L t (d_opcode d) st) = Inr (inst_opcode ?inst)"
    using o(2) i(2) c by (auto simp: bap_llvm_opcode_id_def names_of_def split: prod.split sum.split)
  moreover have "bap_llvm_mc_operands ?inst = Inr (map mc_value_of (inst_operands ?inst))"
    "d_operands d = map (named (tc_registers tc)) (map mc_value_of (inst_operands ?inst))"
    using i(1) by (auto simp: bap_llvm_mc_operands_def operands_named split: if_splits)
  ultimately show ?thesis using assms(2) d c
    by (auto simp: bap_llvm_disassemble_def bap_llvm_disassemble_mc_def bap_llvm_mc_opcode_def)
qed

theorem disassemble_agrees_witness:
  "\<exists>inst vs. fst (bap_llvm_disassemble_mc toy_llvm ''toy'' [1] 7 (llvm_calls toy_llvm [])) = Inr (''op'', 1, 645, inst) \<and>
     bap_llvm_mc_operands inst = Inr vs \<and> [Register_operand ''A'', Immediate_operand 7] = map (named (tc_registers toy_context)) vs \<and>
     fst (bap_llvm_opcode_id toy_llvm ''toy'' ''NOP'' (llvm_calls toy_llvm [])) = Inr (bap_llvm_mc_opcode inst)"
proof (rule disassemble_agrees [OF refl])
  show "fst (bap_llvm_disassemble toy_llvm ''toy'' [1] 7 (llvm_calls toy_llvm [])) =
    Inr (''op'', 1, 645, ''NOP'', [Register_operand ''A'', Immediate_operand 7])" by code_simp
  show "new_target_context toy_llvm True (c_string ''toy'') False = Inr toy_context" by (simp add: toy_strings toy_contexts)
  have "fst (bap_llvm_disassemble_mc toy_llvm ''toy'' [1] 7 (llvm_calls toy_llvm [])) =
    Inr (''op'', 1, 645, \<lparr>inst_opcode = 1, inst_operands = [Reg_operand 1, Imm_operand 7]\<rparr>)" by code_simp
  then show "bap_llvm_mc_opcode inst < length (tc_instructions toy_context)"
    if "fst (bap_llvm_disassemble_mc toy_llvm ''toy'' [1] 7 (llvm_calls toy_llvm [])) = Inr (s, n, flags, inst)" for s n flags inst
    using that by (simp add: bap_llvm_mc_opcode_def toy_context_def)
qed (auto simp: toy_context_def)

text \<open>
  The registers are listed in the order of their numbers, and the number of a name in the list is the one it has
  there, where no two registers have the same name and no name holds a zero; a name that has a number is in the list.
\<close>

lemma register_roundtrip:
  assumes "fst (bap_llvm_register_names L t st) = Inr regs"
    and "distinct (map snd regs)" "\<And>r n. (r, n) \<in> set regs \<Longrightarrow> CHR 0x00 \<notin> set n"
  shows "sorted_wrt (<) (map fst regs) \<and>
     (\<forall>r n. (r, n) \<in> set regs \<longrightarrow> fst (bap_llvm_register_id L t n st) = Inr r) \<and>
     (\<forall>r n. c_string n \<noteq> [] \<longrightarrow> fst (bap_llvm_register_id L t n st) = Inr r \<longrightarrow> (r, c_string n) \<in> set regs)"
proof -
  obtain tc where tc: "new_target_context L True (c_string t) False = Inr tc" and regs: "regs = register_listing (tc_registers tc)"
    using assms(1) by (auto simp: bap_llvm_register_names_def Let_def name_registers register_listing_def split: sum.splits)
  have id: "fst (bap_llvm_register_id L t n st) = (case find_register 0 (tc_registers tc) (c_string n) of
       Some r \<Rightarrow> Inr r | None \<Rightarrow> Inl (''unknown LLVM register: '' @ c_string n))" for n
    using tc by (simp add: bap_llvm_register_id_def Let_def)
  have "fst (bap_llvm_register_id L t n st) = Inr r" if "(r, n) \<in> set regs" for r n
  proof -
    have "tc_registers tc ! j \<noteq> Some n" if "j < r" for j
    proof
      assume "tc_registers tc ! j = Some n"
      then have "(j, n) \<in> set regs" using \<open>(r, n) \<in> set regs\<close> that by (simp add: regs register_listing_in)
      then show False using \<open>(r, n) \<in> set regs\<close> that assms(2) inj_onD [of snd "set regs" "(j, n)" "(r, n)"] by (simp add: distinct_map)
    qed
    then have "find_register 0 (tc_registers tc) n = Some r"
      using find_register_nth [of r "tc_registers tc" n 0] that by (simp add: regs register_listing_in)
    then show ?thesis using id c_string_clean [OF assms(3) [OF that]] by simp
  qed
  moreover have "(r, c_string n) \<in> set regs" if "c_string n \<noteq> []" "fst (bap_llvm_register_id L t n st) = Inr r" for r n
    using find_register_some [of 0 "tc_registers tc" "c_string n" r] that id [of n]
    by (auto simp: regs register_listing_in split: option.splits)
  ultimately show ?thesis using register_listing_sorted regs by blast
qed

end
