(* ===== verification/Z3.thy ===== *)
theory Z3
  imports Main
begin

text \<open>
  \<open>native/bap_z3.cpp\<close>: a script is checked by a context and a solver of Z3 made for it. Z3 is a parameter, a record of what its
  functions answer; the model gives what Lean gets and the calls in their order, of which it is shown that on every path, errors
  included, each is allowed and nothing that was made is left.
\<close>

datatype z3_lbool = Z3_L_FALSE | Z3_L_UNDEF | Z3_L_TRUE

record z3 =
  mk_context_ok :: bool
  mk_solver_ok :: bool
  error_code :: "string \<Rightarrow> int"
  error_msg :: "int \<Rightarrow> string"
  check_result :: "string \<Rightarrow> z3_lbool"

datatype z3_call =
    Z3_mk_config | Z3_mk_context | Z3_del_config | Z3_set_error_handler | Z3_mk_solver | Z3_solver_inc_ref
  | Z3_solver_from_string string | Z3_get_error_code | Z3_get_error_msg int | Z3_solver_check | Z3_solver_dec_ref | Z3_del_context

definition Z3_OK :: int where
  "Z3_OK = 0"

definition script_of :: "string \<Rightarrow> string" where
  "script_of s = takeWhile (\<lambda>c. c \<noteq> CHR 0x00) s"

definition bap_z3_check_sat :: "z3 \<Rightarrow> string \<Rightarrow> (string + bool) \<times> z3_call list" where
  "bap_z3_check_sat Z script =
     (let calls = [Z3_mk_config, Z3_mk_context, Z3_del_config]
      in if \<not> mk_context_ok Z then (Inl ''unable to create Z3 context'', calls)
         else let calls = calls @ [Z3_set_error_handler, Z3_mk_solver]
              in if \<not> mk_solver_ok Z then (Inl ''unable to create Z3 solver'', calls @ [Z3_del_context])
                 else let calls = calls @ [Z3_solver_inc_ref, Z3_solver_from_string (script_of script), Z3_get_error_code];
                          code = error_code Z (script_of script)
                      in if code \<noteq> Z3_OK
                         then (Inl (''Z3 rejected script: '' @ error_msg Z code),
                               calls @ [Z3_get_error_msg code, Z3_solver_dec_ref, Z3_del_context])
                         else let calls = calls @ [Z3_solver_check]; r = check_result Z (script_of script)
                              in if r = Z3_L_UNDEF then (Inl ''Z3 returned unknown'', calls @ [Z3_solver_dec_ref, Z3_del_context])
                                 else (Inr (r = Z3_L_TRUE), calls @ [Z3_solver_dec_ref, Z3_del_context]))"

text \<open>
  \<open>pthread_cond_clockwait\<close>, which the program gives on Linux, waits by \<open>pthread_cond_timedwait\<close>, whose answer for a timeout is a
  parameter.
\<close>

definition EINVAL :: int where
  "EINVAL = 22"

definition CLOCK_MONOTONIC :: int where
  "CLOCK_MONOTONIC = 1"

definition pthread_cond_clockwait :: "('t \<Rightarrow> int) \<Rightarrow> int \<Rightarrow> 't \<Rightarrow> int" where
  "pthread_cond_clockwait timedwait clock timeout = (if clock \<noteq> CLOCK_MONOTONIC then EINVAL else timedwait timeout)"

section \<open>What the calls have made\<close>

text \<open>
  The configurations and contexts that are there, whether the context has its handler of errors off, whether there is a solver,
  and its references. A call on what is not there is not allowed, nor is a script with the handler that ends the process. The
  solver of a context goes with it, but for one that has references.
\<close>

record z3_things =
  configs :: nat
  z3_contexts :: nat
  quiet :: bool
  solver :: bool
  refs :: nat

definition no_things :: z3_things where
  "no_things = \<lparr>configs = 0, z3_contexts = 0, quiet = False, solver = False, refs = 0\<rparr>"

fun z3_allowed :: "z3 \<Rightarrow> z3_call \<Rightarrow> z3_things \<Rightarrow> bool" where
  "z3_allowed Z Z3_mk_config s = True"
| "z3_allowed Z Z3_mk_context s = (configs s > 0)"
| "z3_allowed Z Z3_del_config s = (configs s > 0)"
| "z3_allowed Z Z3_set_error_handler s = (z3_contexts s = 1)"
| "z3_allowed Z Z3_mk_solver s = (z3_contexts s = 1 \<and> \<not> solver s)"
| "z3_allowed Z Z3_solver_inc_ref s = (z3_contexts s = 1 \<and> solver s)"
| "z3_allowed Z (Z3_solver_from_string script) s = (z3_contexts s = 1 \<and> quiet s \<and> solver s \<and> refs s > 0)"
| "z3_allowed Z Z3_get_error_code s = (z3_contexts s = 1)"
| "z3_allowed Z (Z3_get_error_msg code) s = (z3_contexts s = 1 \<and> code \<noteq> Z3_OK)"
| "z3_allowed Z Z3_solver_check s = (z3_contexts s = 1 \<and> quiet s \<and> solver s \<and> refs s > 0)"
| "z3_allowed Z Z3_solver_dec_ref s = (z3_contexts s = 1 \<and> solver s \<and> refs s > 0)"
| "z3_allowed Z Z3_del_context s = (z3_contexts s = 1 \<and> refs s = 0)"

fun z3_effect :: "z3 \<Rightarrow> z3_call \<Rightarrow> z3_things \<Rightarrow> z3_things" where
  "z3_effect Z Z3_mk_config s = s\<lparr>configs := configs s + 1\<rparr>"
| "z3_effect Z Z3_mk_context s = (if mk_context_ok Z then s\<lparr>z3_contexts := z3_contexts s + 1, quiet := False\<rparr> else s)"
| "z3_effect Z Z3_del_config s = s\<lparr>configs := configs s - 1\<rparr>"
| "z3_effect Z Z3_set_error_handler s = s\<lparr>quiet := True\<rparr>"
| "z3_effect Z Z3_mk_solver s = s\<lparr>solver := mk_solver_ok Z\<rparr>"
| "z3_effect Z Z3_solver_inc_ref s = s\<lparr>refs := refs s + 1\<rparr>"
| "z3_effect Z Z3_solver_dec_ref s = s\<lparr>refs := refs s - 1, solver := refs s \<noteq> 1\<rparr>"
| "z3_effect Z Z3_del_context s = s\<lparr>z3_contexts := z3_contexts s - 1, quiet := False, solver := False\<rparr>"
| "z3_effect Z c s = s"

fun z3_run :: "z3 \<Rightarrow> z3_call list \<Rightarrow> z3_things \<Rightarrow> z3_things option" where
  "z3_run Z [] s = Some s"
| "z3_run Z (c # cs) s = (if z3_allowed Z c s then z3_run Z cs (z3_effect Z c s) else None)"

section \<open>Properties\<close>

text \<open>
  C27. On every path of a check, errors included, each call is on what is there, the script is parsed with the handler off that
  would end the process, and nothing is left: configurations, contexts and references of the solver all have gone. What
  Lean gets as satisfiable or not is what Z3 decided of a script that it accepted.
\<close>

theorem check_sat_leaves_nothing:
  "z3_run Z (snd (bap_z3_check_sat Z script)) no_things = Some no_things \<and>
   (fst (bap_z3_check_sat Z script) = Inr b \<longleftrightarrow>
      mk_context_ok Z \<and> mk_solver_ok Z \<and> error_code Z (script_of script) = Z3_OK \<and>
      check_result Z (script_of script) = (if b then Z3_L_TRUE else Z3_L_FALSE))"
  by (cases "check_result Z (script_of script)") (simp_all add: bap_z3_check_sat_def Let_def no_things_def)

end
