(* ===== verification/DiffStub.thy ===== *)
theory DiffStub
  imports Bytes
begin

unbundle bit_operations_syntax

text \<open>
  \<open>tools/difftest/stub.c\<close>: the program that runs instructions on hardware for the differential tests. It reads records of an
  instruction, the registers and a window of memory, runs each, and writes what it ends with. Here are the constants of its
  targets, where its assembly has each register in a state, and its C code. The answers of the kernel are arguments, lists of
  what each read gives and of what each write takes; the processor is a parameter, which gives for the bytes of an
  instruction, the registers and the window what the instruction ends with.

  What is shown (in \<open>StubProperties\<close>): that the answers to the records depend on the records only, not on how the kernel splits
  them nor on what was run before; that a failed write leaves a prefix; and that registers are loaded and saved
  in places of their own.
\<close>

section \<open>Targets\<close>

datatype target =
    X86_64 | I386 | Aarch64 | Arm | Riscv32 | Riscv64 | Mips32 | Mips64 | Mips32r6 | Mips64r6 | Powerpc | Powerpc64

definition SLOT :: nat where
  "SLOT = 32"

definition WINDOW :: nat where
  "WINDOW = 512"

fun word_bytes :: "target \<Rightarrow> nat" where
  "word_bytes X86_64 = 8"
| "word_bytes I386 = 4"
| "word_bytes Aarch64 = 8"
| "word_bytes Arm = 4"
| "word_bytes Riscv32 = 4"
| "word_bytes Riscv64 = 8"
| "word_bytes Mips32 = 4"
| "word_bytes Mips64 = 8"
| "word_bytes Mips32r6 = 4"
| "word_bytes Mips64r6 = 8"
| "word_bytes Powerpc = 4"
| "word_bytes Powerpc64 = 8"

definition mips :: "target \<Rightarrow> bool" where
  "mips T \<longleftrightarrow> T \<in> {Mips32, Mips64, Mips32r6, Mips64r6}"

definition powerpc :: "target \<Rightarrow> bool" where
  "powerpc T \<longleftrightarrow> T \<in> {Powerpc, Powerpc64}"

definition riscv :: "target \<Rightarrow> bool" where
  "riscv T \<longleftrightarrow> T \<in> {Riscv32, Riscv64}"

definition isa_rev6 :: "target \<Rightarrow> bool" where
  "isa_rev6 T \<longleftrightarrow> T \<in> {Mips32r6, Mips64r6}"

definition NGPR :: "target \<Rightarrow> nat" where
  "NGPR T = (if T = X86_64 then 16 else if T = I386 then 8 else if T = Arm then 16 else 32)"

definition NEXTRA :: "target \<Rightarrow> nat" where
  "NEXTRA T = (if T = X86_64 then 1 else if T = I386 then 1 else if T = Aarch64 then 2 else if T = Arm then 2
               else if riscv T then 0 else if mips T then 3 else 4)"

definition VECBYTES :: "target \<Rightarrow> nat" where
  "VECBYTES T =
     (if T = X86_64 then 16 * 32 + 8 * 8
      else if T = I386 then 8 * 32 + 8 * 8
      else if T = Aarch64 then 32 * 16 + 40
      else if T = Arm then 32 * 8
      else if riscv T then 32 * 8
      else if mips T then (if isa_rev6 T then 32 * 8 else 32 * word_bytes T)
      else if T = Powerpc64 then 32 * 8 + 32 * 16 + 32 * 8
      else 32 * 8 + 32 * 16)"

definition STATE :: "target \<Rightarrow> nat" where
  "STATE T = word_bytes T * (NGPR T + NEXTRA T) + VECBYTES T"

section \<open>Where registers are\<close>

text \<open>
  By the order in which the assembly loads and saves them: a register, its place in a state and its size. A register that the
  assembly has for itself until the end, as the one that holds the address of the state, is loaded last, and goes first, by
  a place that an instruction does not see, and comes back when the others are saved.
\<close>

datatype reg =
    Gpr nat | Stack_pointer | Flags | Vector nat | Mmx nat | Predicate nat | First_fault | Link | Hi | Lo | Control | Float nat
  | Condition | Exceptions | Counter | Vector_low nat

type_synonym place = "reg \<times> nat \<times> nat"

definition places :: "(nat \<Rightarrow> reg) \<Rightarrow> nat \<Rightarrow> nat \<Rightarrow> nat list \<Rightarrow> place list" where
  "places f base size' rs = map (\<lambda>r. (f r, base + size' * r, size')) rs"

definition x86_64_load :: "place list" where
  "x86_64_load = [(Flags, 128, 8)] @ places Vector 136 32 [0..<16] @ places Mmx 648 8 [0..<8] @ places Gpr 0 8 [0..<16]"

definition x86_64_save :: "place list" where
  "x86_64_save = places Gpr 0 8 [0..<16] @ [(Flags, 136 - 8, 8)] @ places Vector 136 32 [0..<16] @ places Mmx 648 8 [0..<8]"

definition i386_load :: "place list" where
  "i386_load = [(Flags, 32, 4)] @ places Vector 36 32 [0..<8] @ places Mmx 292 8 [0..<8] @ places Gpr 0 4 [0..<8]"

definition i386_save :: "place list" where
  "i386_save = places Gpr 0 4 [0..<8] @ [(Flags, 36 - 4, 4)] @ places Vector 36 32 [0..<8] @ places Mmx 292 8 [0..<8]"

definition aarch64_load :: "place list" where
  "aarch64_load =
     places Vector 272 16 [0..<32] @ [(First_fault, 272 + 512 + 32, 2)] @ places Predicate (272 + 512) 2 [0..<16] @
     [(Flags, 256, 8), (Stack_pointer, 248, 8)] @ places Gpr 0 8 [0..<30] @ [(Gpr 30, 240, 8)]"

definition aarch64_save :: "place list" where
  "aarch64_save =
     places Gpr 0 8 [0..<30] @ [(Gpr 30, 240, 8), (Stack_pointer, 248, 8), (Flags, 256, 8)] @ places Vector 272 16 [0..<32] @
     places Predicate (272 + 512) 2 [0..<16] @ [(First_fault, 272 + 512 + 32, 2)]"

definition arm_load :: "place list" where
  "arm_load =
     places Vector 72 8 [0..<32] @ [(Flags, 64, 4)] @ places Gpr 0 4 [0..<12] @
     [(Stack_pointer, 52, 4), (Link, 56, 4), (Gpr 12, 48, 4)]"

definition arm_save :: "place list" where
  "arm_save =
     places Gpr 0 4 [0..<12] @ [(Gpr 12, 48, 4), (Stack_pointer, 52, 4), (Link, 56, 4), (Flags, 64, 4)] @
     places Vector 72 8 [0..<32]"

definition riscv_load :: "nat \<Rightarrow> place list" where
  "riscv_load W = places Float (32 * W) 8 [0..<31] @ places Gpr 0 W [2..<32] @ [(Gpr 1, W, W)]"

definition riscv_save :: "nat \<Rightarrow> place list" where
  "riscv_save W = places Gpr 0 W [2..<32] @ [(Gpr 1, W, W)] @ places Float (32 * W) 8 [0..<31]"

definition mips_load :: "bool \<Rightarrow> nat \<Rightarrow> nat \<Rightarrow> place list" where
  "mips_load r6 W FW =
     (if r6 then [] else [(Hi, 32 * W, W), (Lo, 33 * W, W)]) @ places Float (35 * W) FW [0..<31] @ [(Control, 34 * W, W)] @
     places Gpr 0 W [2..<32] @ [(Gpr 1, W, W)]"

definition mips_save :: "bool \<Rightarrow> nat \<Rightarrow> nat \<Rightarrow> place list" where
  "mips_save r6 W FW =
     places Gpr 0 W [2..<32] @ [(Gpr 1, W, W)] @ (if r6 then [] else [(Hi, 32 * W, W), (Lo, 33 * W, W)]) @
     [(Control, 34 * W, W)] @ places Float (35 * W) FW [0..<31]"

definition powerpc_load :: "bool \<Rightarrow> nat \<Rightarrow> place list" where
  "powerpc_load is64 W =
     places Float (36 * W) 8 [0..<32] @ (if is64 then places Vector_low (36 * W + 256 + 512) 8 [0..<32] else []) @
     places Vector (36 * W + 256) 16 [0..<32] @
     [(Condition, 32 * W, W), (Exceptions, 33 * W, W), (Link, 34 * W, W), (Counter, 35 * W, W)] @
     [(Gpr 0, 0, W)] @ places Gpr 0 W [1, 2] @ places Gpr 0 W [4..<32] @ [(Gpr 3, 3 * W, W)]"

definition powerpc_save :: "bool \<Rightarrow> nat \<Rightarrow> place list" where
  "powerpc_save is64 W =
     places Gpr 0 W [0, 1, 2] @ places Gpr 0 W [4..<32] @ [(Gpr 3, 3 * W, W)] @
     [(Condition, 32 * W, W), (Exceptions, 33 * W, W), (Link, 34 * W, W), (Counter, 35 * W, W)] @
     places Float (36 * W) 8 [0..<32] @ places Vector (36 * W + 256) 16 [0..<32] @
     (if is64 then places Vector_low (36 * W + 256 + 512) 8 [0..<32] else [])"

fun loads :: "target \<Rightarrow> place list" where
  "loads X86_64 = x86_64_load"
| "loads I386 = i386_load"
| "loads Aarch64 = aarch64_load"
| "loads Arm = arm_load"
| "loads Riscv32 = riscv_load 4"
| "loads Riscv64 = riscv_load 8"
| "loads Mips32 = mips_load False 4 4"
| "loads Mips64 = mips_load False 8 8"
| "loads Mips32r6 = mips_load True 4 8"
| "loads Mips64r6 = mips_load True 8 8"
| "loads Powerpc = powerpc_load False 4"
| "loads Powerpc64 = powerpc_load True 8"

fun saves :: "target \<Rightarrow> place list" where
  "saves X86_64 = x86_64_save"
| "saves I386 = i386_save"
| "saves Aarch64 = aarch64_save"
| "saves Arm = arm_save"
| "saves Riscv32 = riscv_save 4"
| "saves Riscv64 = riscv_save 8"
| "saves Mips32 = mips_save False 4 4"
| "saves Mips64 = mips_save False 8 8"
| "saves Mips32r6 = mips_save True 4 8"
| "saves Mips64r6 = mips_save True 8 8"
| "saves Powerpc = powerpc_save False 4"
| "saves Powerpc64 = powerpc_save True 8"

section \<open>The kernel\<close>

text \<open>
  What comes from the standard input, by reads, and what writes to the standard output take, in their order; after
  these, the input ends and the output takes all. \<open>sys3\<close> gives what the register of the result holds: for an error, its number
  on MIPS and PowerPC, which tell it from a result by another register, and its negation on the others.
\<close>

datatype arrival = Arrived "u8 list" | Read_error nat

datatype acceptance = Takes nat | Write_error nat

definition sys_error :: "target \<Rightarrow> nat \<Rightarrow> int" where
  "sys_error T e = (if mips T \<or> powerpc T then int e else - int e)"

fun sys_read :: "target \<Rightarrow> nat \<Rightarrow> arrival list \<Rightarrow> int \<times> u8 list \<times> arrival list" where
  "sys_read T n [] = (0, [], [])"
| "sys_read T n (Read_error e # as) = (sys_error T e, [], as)"
| "sys_read T n (Arrived bs # as) =
     (if length bs \<le> n then (int (length bs), bs, as) else (int n, take n bs, Arrived (drop n bs) # as))"

fun sys_write :: "target \<Rightarrow> u8 list \<Rightarrow> acceptance list \<Rightarrow> int \<times> u8 list \<times> acceptance list" where
  "sys_write T bs [] = (int (length bs), bs, [])"
| "sys_write T bs (Write_error e # ks) = (sys_error T e, [], ks)"
| "sys_write T bs (Takes k # ks) = (int (min k (length bs)), take k bs, ks)"

section \<open>Bytes\<close>

definition copy :: "u8 list \<Rightarrow> nat \<Rightarrow> u8 list \<Rightarrow> nat \<Rightarrow> nat \<Rightarrow> u8 list" where
  "copy to t from f n = fold (\<lambda>i to. to[t + i := from ! (f + i)]) [0..<n] to"

function read_all :: "target \<Rightarrow> nat \<Rightarrow> nat \<Rightarrow> u8 list \<Rightarrow> arrival list \<Rightarrow> nat \<times> u8 list \<times> arrival list" where
  "read_all T got n to as =
     (if \<not> got < n then (got, to, as)
      else let (r, bs, as) = sys_read T (n - got) as; to = copy to got bs 0 (length bs)
           in if r \<le> 0 then (got, to, as) else read_all T (got + nat r) n to as)"
  by pat_completeness auto
termination by (relation "measure (\<lambda>(T, got, n, to, as). n - got)") auto

declare read_all.simps [simp del]

text \<open>None for the exit with 3.\<close>

function write_all :: "target \<Rightarrow> nat \<Rightarrow> u8 list \<Rightarrow> acceptance list \<Rightarrow> u8 list \<times> acceptance list option" where
  "write_all T sent from ks =
     (if \<not> sent < length from then ([], Some ks)
      else let (r, out, ks) = sys_write T (drop sent from) ks
           in if r \<le> 0 then (out, None)
              else let (out', res) = write_all T (sent + nat r) from ks in (out @ out', res))"
  by pat_completeness auto
termination by (relation "measure (\<lambda>(T, sent, from, ks). length from - sent)") auto

declare write_all.simps [simp del]

section \<open>Signals\<close>

definition signal_marker :: "nat \<Rightarrow> u64" where
  "signal_marker number = 2 OR push_bit 8 (of_nat number)"

definition SA_ONSTACK :: u32 where
  "SA_ONSTACK = 0x08000000"

definition SA_NODEFER :: u32 where
  "SA_NODEFER = 0x40000000"

text \<open>What \<open>sigaction\<close> is called with: the signal, the flags, whether there is a restorer, and the size of a mask.\<close>

definition install :: "target \<Rightarrow> nat \<Rightarrow> nat \<times> u32 \<times> bool \<times> nat" where
  "install T number =
     (if mips T then (number, 0x08000000 OR 0x40000000, False, 16)
      else let restorer = T \<in> {X86_64, I386, Arm}; extra = (if restorer then 0x04000000 else 0)
           in (number, SA_ONSTACK OR SA_NODEFER OR extra, restorer, 8))"

definition handled :: "target \<Rightarrow> (nat \<times> u32 \<times> bool \<times> nat) list" where
  "handled T = [install T 4, install T 5, install T 7, install T 8, install T 10, install T 11]"

section \<open>Running an instruction\<close>

text \<open>
  What the processor has: the bytes of the registers. An instruction falls through, is taken to \<open>taken\<close>, or gets a signal, with
  what the window then holds; None is an instruction that does not come back, as is a signal that has no handler. The handler has
  a stack of its own, so that the registers an instruction leaves do not matter to it. What else an instruction may see and leave,
  as registers that are not of the state, is \<open>'h\<close>.
\<close>

type_synonym registers = "reg \<Rightarrow> nat \<Rightarrow> u8"

datatype ending = Fell registers "nat \<Rightarrow> u8" | Taken registers "nat \<Rightarrow> u8" | Signal nat "nat \<Rightarrow> u8"

type_synonym 'h cpu = "u8 list \<Rightarrow> registers \<Rightarrow> u8 list \<Rightarrow> 'h \<Rightarrow> (ending \<times> 'h) option"

record 'h stub =
  slot :: "u8 list"
  st_in :: "u8 list"
  st_out :: "u8 list"
  window :: "u8 list"
  marker :: u64
  buffer :: "u8 list"
  hidden :: 'h

fun load_place :: "u8 list \<Rightarrow> place \<Rightarrow> registers \<Rightarrow> registers" where
  "load_place st (r, offset, n) regs = regs(r := (\<lambda>k. if k < n then st ! (offset + k) else 0))"

definition load_registers :: "target \<Rightarrow> u8 list \<Rightarrow> registers" where
  "load_registers T st = fold (load_place st) (loads T) (\<lambda>_ _. 0)"

fun save_place :: "registers \<Rightarrow> place \<Rightarrow> u8 list \<Rightarrow> u8 list" where
  "save_place regs (r, offset, n) st = copy st offset (map (regs r) [0..<n]) 0 n"

definition save_registers :: "target \<Rightarrow> registers \<Rightarrow> u8 list \<Rightarrow> u8 list" where
  "save_registers T regs st = fold (save_place regs) (saves T) st"

text \<open>ARM stores the low half of the marker only.\<close>

definition set_marker :: "target \<Rightarrow> u64 \<Rightarrow> u64 \<Rightarrow> u64" where
  "set_marker T k m = (if T = Arm then (m AND 0xFFFFFFFF00000000) OR k else k)"

definition enter :: "target \<Rightarrow> 'h cpu \<Rightarrow> 'h stub \<Rightarrow> 'h stub option" where
  "enter T cpu s =
     (case cpu (slot s) (load_registers T (st_in s)) (window s) (hidden s) of
        None \<Rightarrow> None
      | Some (Fell regs w, h) \<Rightarrow>
          Some (s\<lparr>st_out := save_registers T regs (st_out s), marker := set_marker T 0 (marker s),
                  window := map w [0..<WINDOW], hidden := h\<rparr>)
      | Some (Taken regs w, h) \<Rightarrow>
          Some (s\<lparr>st_out := save_registers T regs (st_out s), marker := set_marker T 1 (marker s),
                  window := map w [0..<WINDOW], hidden := h\<rparr>)
      | Some (Signal number w, h) \<Rightarrow>
          if number \<in> fst ` set (handled T)
          then Some (s\<lparr>marker := signal_marker number, window := map w [0..<WINDOW], hidden := h\<rparr>) else None)"

section \<open>The loop\<close>

text \<open>What a record that was read does, up to the answer that is in the buffer.\<close>

definition run_record :: "target \<Rightarrow> bool \<Rightarrow> 'h cpu \<Rightarrow> 'h stub \<Rightarrow> 'h stub option" where
  "run_record T big cpu s =
     (let s = (if list_ex (\<lambda>i. slot s ! i \<noteq> buffer s ! i) [0..<SLOT] then s\<lparr>slot := copy (slot s) 0 (buffer s) 0 SLOT\<rparr> else s);
          s = s\<lparr>st_in := copy (st_in s) 0 (buffer s) SLOT (STATE T)\<rparr>;
          s = s\<lparr>window := copy (window s) 0 (buffer s) (SLOT + STATE T) WINDOW\<rparr>;
          s = s\<lparr>st_out := fold (\<lambda>i out. out[i := 0]) [0..<STATE T] (st_out s)\<rparr>;
          s = s\<lparr>marker := 0\<rparr>
      in case enter T cpu s of
           None \<Rightarrow> None
         | Some s \<Rightarrow>
             let s = s\<lparr>buffer := copy (buffer s) 0 (value_bytes big 8 (marker s)) 0 8\<rparr>;
                 s = s\<lparr>buffer := copy (buffer s) 8 (st_out s) 0 (STATE T)\<rparr>
             in Some (s\<lparr>buffer := copy (buffer s) (8 + STATE T) (window s) 0 WINDOW\<rparr>))"

text \<open>The bytes that are still to come, whatever they belong to.\<close>

fun arriving :: "arrival list \<Rightarrow> nat" where
  "arriving [] = 0"
| "arriving (Arrived bs # as) = length bs + arriving as"
| "arriving (Read_error e # as) = 1 + e + arriving as"

lemma sys_read_arriving:
  assumes "sys_read T n as = (r, bs, as')" "n > 0"
  shows "arriving as' + nat r \<le> arriving as"
  using assms by (cases as rule: arriving.cases) (auto simp: sys_error_def split: if_splits)

lemma read_all_arriving:
  assumes "read_all T got n to as = (got', to', as')"
  shows "got \<le> got' \<and> arriving as' + (got' - got) \<le> arriving as"
  using assms
proof (induction T got n to as rule: read_all.induct)
  case (1 T got n to as)
  show ?case
  proof (cases "got < n")
    case True
    obtain r bs as1 where s: "sys_read T (n - got) as = (r, bs, as1)" by (metis prod_cases3)
    note a = sys_read_arriving [OF s]
    show ?thesis
    proof (cases "r \<le> 0")
      case False
      then show ?thesis using 1(1) [of "(r, bs, as1)" r "(bs, as1)" bs as1 "copy to got bs 0 (length bs)"] 1(2) True s a
        by (simp add: read_all.simps [of T got], linarith)
    qed (use 1(2) True s a in \<open>simp add: read_all.simps [of T got]\<close>)
  qed (use 1(2) in \<open>simp add: read_all.simps [of T got]\<close>)
qed

datatype stub_end = Exit nat | Lost

function stub_loop ::
  "target \<Rightarrow> bool \<Rightarrow> 'h cpu \<Rightarrow> 'h stub \<Rightarrow> arrival list \<Rightarrow> acceptance list \<Rightarrow> u8 list \<times> stub_end" where
  "stub_loop T big cpu s as ks =
     (let n = SLOT + STATE T + WINDOW; (got, buf, as') = read_all T 0 n (buffer s) as
      in if got \<noteq> n then ([], Exit 0)
         else case run_record T big cpu (s\<lparr>buffer := buf\<rparr>) of
                None \<Rightarrow> ([], Lost)
              | Some s' \<Rightarrow>
                  (case write_all T 0 (take (8 + STATE T + WINDOW) (buffer s')) ks of
                     (out, None) \<Rightarrow> (out, Exit 3)
                   | (out, Some ks') \<Rightarrow> let (out', e) = stub_loop T big cpu s' as' ks' in (out @ out', e)))"
  by pat_completeness auto
termination
  by (relation "measure (\<lambda>(T, big, cpu, s, as, ks). arriving as)") (auto simp: SLOT_def dest!: read_all_arriving [OF sym])

declare stub_loop.simps [simp del]

text \<open>With the addresses of \<open>slot\<close>, \<open>taken\<close> and \<open>window\<close>.\<close>

definition header :: "target \<Rightarrow> bool \<Rightarrow> u64 \<times> u64 \<times> u64 \<Rightarrow> u8 list" where
  "header T big addresses =
     (case addresses of (a_slot, a_taken, a_window) \<Rightarrow>
        concat (map (value_bytes big 8)
          [0xd1ff7e57, a_slot, a_taken, a_window, of_nat WINDOW, of_nat (STATE T), of_nat (word_bytes T), 0]))"

definition start_stub :: "target \<Rightarrow> u8 list \<Rightarrow> 'h \<Rightarrow> 'h stub" where
  "start_stub T nops h =
     \<lparr>slot = nops, st_in = replicate (STATE T + 64) 0, st_out = replicate (STATE T + 64) 0, window = replicate WINDOW 0,
      marker = 0, buffer = replicate (STATE T + WINDOW + SLOT + 8 + 64) 0, hidden = h\<rparr>"

definition cmain ::
  "target \<Rightarrow> bool \<Rightarrow> 'h cpu \<Rightarrow> u64 \<times> u64 \<times> u64 \<Rightarrow> 'h stub \<Rightarrow> arrival list \<Rightarrow> acceptance list \<Rightarrow> u8 list \<times> stub_end" where
  "cmain T big cpu addresses s as ks =
     (case write_all T 0 (header T big addresses) ks of
        (out, None) \<Rightarrow> (out, Exit 3)
      | (out, Some ks') \<Rightarrow> let (out', e) = stub_loop T big cpu s as ks' in (out @ out', e))"

end
