(* ===== verification/StubLayout.thy ===== *)
theory StubLayout
  imports DiffStub
begin

text \<open>
  The places of registers in a state of \<open>tools/difftest/stub.c\<close>: for each target they are within a state, none overlaps another,
  and the code that loads them and the code that saves them agree on them. So what is saved is what would be loaded.
\<close>

section \<open>Copies\<close>

lemma copy_Suc: "copy to t from f (Suc n) = (copy to t from f n)[t + n := from ! (f + n)]"
  by (simp add: copy_def)

lemma copy_0 [simp]: "copy to t from f 0 = to"
  by (simp add: copy_def)

lemma copy_length [simp]: "length (copy to t from f n) = length to"
  by (induction n) (simp_all add: copy_Suc)

lemma copy_nth: "i < length to \<Longrightarrow> copy to t from f n ! i = (if t \<le> i \<and> i < t + n then from ! (f + (i - t)) else to ! i)"
proof (induction n)
  case (Suc n)
  then show ?case by (cases "i = t + n") (auto simp: copy_Suc)
qed auto

lemma copy_is: "t + n \<le> length to \<Longrightarrow> f + n \<le> length from \<Longrightarrow>
   copy to t from f n = take t to @ take n (drop f from) @ drop (t + n) to"
  by (rule nth_equalityI) (auto simp: copy_nth nth_append)

lemma copy_whole: "length from = length to \<Longrightarrow> copy to 0 from 0 (length to) = from"
  by (simp add: copy_is)

section \<open>Places in order\<close>

text \<open>Places that follow one another from \<open>lo\<close> to \<open>hi\<close>.\<close>

fun packed :: "nat \<Rightarrow> place list \<Rightarrow> nat \<Rightarrow> bool" where
  "packed lo [] hi = (lo \<le> hi)"
| "packed lo ((r, offset, n) # ps) hi = (lo \<le> offset \<and> packed (offset + n) ps hi)"

lemma packed_bounds: "packed lo ps hi \<Longrightarrow> (r, offset, n) \<in> set ps \<Longrightarrow> lo \<le> offset \<and> offset + n \<le> hi"
proof (induction lo ps hi rule: packed.induct)
  case (2 lo r' offset' n' ps hi)
  have "offset' + n' \<le> hi" if "packed (offset' + n') ps hi" for ps
    using that by (induction "offset' + n'" ps hi arbitrary: offset' n' rule: packed.induct) (auto, force)
  then show ?case using 2 by fastforce
qed simp

lemma packed_apart:
  "packed lo ps hi \<Longrightarrow> (r, a, m) \<in> set ps \<Longrightarrow> (s, b, n) \<in> set ps \<Longrightarrow> (r, a, m) \<noteq> (s, b, n) \<Longrightarrow> a + m \<le> b \<or> b + n \<le> a"
proof (induction lo ps hi rule: packed.induct)
  case (2 lo r' a' m' ps hi)
  then show ?case using packed_bounds [of "a' + m'" ps hi] by auto
qed simp

lemma packed_places:
  "a < b \<Longrightarrow> packed lo (places f base n [a..<b] @ qs) hi \<longleftrightarrow> lo \<le> base + n * a \<and> packed (base + n * b) qs hi"
proof (induction "b - a" arbitrary: a lo)
  case (Suc d)
  then have u: "[a..<b] = a # [Suc a..<b]" by (simp add: upt_conv_Cons)
  show ?case
  proof (cases "Suc a < b")
    case True
    then show ?thesis using Suc(1) [of "Suc a" "base + n * a + n"] Suc(2,3) u by (simp add: places_def add.assoc)
  next
    case False
    then have "b = Suc a" using Suc(3) by simp
    then show ?thesis by (simp add: places_def add.commute add.left_commute)
  qed
qed simp

lemmas packed_places_last = packed_places [of _ _ _ _ _ _ "[]", simplified]

text \<open>The layout of a state, from its first byte on.\<close>

fun layout :: "target \<Rightarrow> place list" where
  "layout X86_64 = places Gpr 0 8 [0..<16] @ (Flags, 128, 8) # places Vector 136 32 [0..<16] @ places Mmx 648 8 [0..<8]"
| "layout I386 = places Gpr 0 4 [0..<8] @ (Flags, 32, 4) # places Vector 36 32 [0..<8] @ places Mmx 292 8 [0..<8]"
| "layout Aarch64 = places Gpr 0 8 [0..<31] @ (Stack_pointer, 248, 8) # (Flags, 256, 8) # places Vector 272 16 [0..<32] @
     places Predicate 784 2 [0..<16] @ [(First_fault, 816, 2)]"
| "layout Arm = places Gpr 0 4 [0..<13] @ (Stack_pointer, 52, 4) # (Link, 56, 4) # (Flags, 64, 4) # places Vector 72 8 [0..<32]"
| "layout Riscv32 = places Gpr 0 4 [1..<32] @ places Float 128 8 [0..<31]"
| "layout Riscv64 = places Gpr 0 8 [1..<32] @ places Float 256 8 [0..<31]"
| "layout Mips32 = places Gpr 0 4 [1..<32] @ (Hi, 128, 4) # (Lo, 132, 4) # (Control, 136, 4) # places Float 140 4 [0..<31]"
| "layout Mips64 = places Gpr 0 8 [1..<32] @ (Hi, 256, 8) # (Lo, 264, 8) # (Control, 272, 8) # places Float 280 8 [0..<31]"
| "layout Mips32r6 = places Gpr 0 4 [1..<32] @ (Control, 136, 4) # places Float 140 8 [0..<31]"
| "layout Mips64r6 = places Gpr 0 8 [1..<32] @ (Control, 272, 8) # places Float 280 8 [0..<31]"
| "layout Powerpc = places Gpr 0 4 [0..<32] @ (Condition, 128, 4) # (Exceptions, 132, 4) # (Link, 136, 4) # (Counter, 140, 4) #
     places Float 144 8 [0..<32] @ places Vector 400 16 [0..<32]"
| "layout Powerpc64 = places Gpr 0 8 [0..<32] @ (Condition, 256, 8) # (Exceptions, 264, 8) # (Link, 272, 8) # (Counter, 280, 8) #
     places Float 288 8 [0..<32] @ places Vector 544 16 [0..<32] @ places Vector_low 1056 8 [0..<32]"

lemmas state_simps = STATE_def NGPR_def NEXTRA_def VECBYTES_def riscv_def mips_def powerpc_def isa_rev6_def

lemmas load_simps = x86_64_load_def i386_load_def aarch64_load_def arm_load_def riscv_load_def mips_load_def powerpc_load_def

lemmas save_simps = x86_64_save_def i386_save_def aarch64_save_def arm_save_def riscv_save_def mips_save_def powerpc_save_def

lemma layout_packed: "packed 0 (layout T) (STATE T)"
  by (cases T) (simp_all add: state_simps packed_places packed_places_last)

lemma places_set: "set (places f base n rs) = (\<lambda>r. (f r, base + n * r, n)) ` set rs"
  by (simp add: places_def)

lemma places_regs: "map fst (places f base n rs) = map f rs"
  by (simp add: places_def)

lemma gpr_splits:
  "set (places Gpr 0 n [0..<31]) = set (places Gpr 0 n [0..<30]) \<union> {(Gpr 30, n * 30, n)}"
  "set (places Gpr 0 n [0..<13]) = set (places Gpr 0 n [0..<12]) \<union> {(Gpr 12, n * 12, n)}"
  "set (places Gpr 0 n [1..<32]) = set (places Gpr 0 n [2..<32]) \<union> {(Gpr 1, n, n)}"
  "set (places Gpr 0 n [0..<32]) = set (places Gpr 0 n [4..<32]) \<union> {(Gpr 0, 0, n), (Gpr 1, n, n), (Gpr 2, n * 2, n), (Gpr 3, n * 3, n)}"
proof -
  have "{0..<31 :: nat} = insert 30 {0..<30}" "{0..<13 :: nat} = insert 12 {0..<12}" "{1..<32 :: nat} = insert 1 {2..<32}"
    "{0..<32 :: nat} = insert 0 (insert 1 (insert 2 (insert 3 {4..<32})))" by auto
  then show
    "set (places Gpr 0 n [0..<31]) = set (places Gpr 0 n [0..<30]) \<union> {(Gpr 30, n * 30, n)}"
    "set (places Gpr 0 n [0..<13]) = set (places Gpr 0 n [0..<12]) \<union> {(Gpr 12, n * 12, n)}"
    "set (places Gpr 0 n [1..<32]) = set (places Gpr 0 n [2..<32]) \<union> {(Gpr 1, n, n)}"
    "set (places Gpr 0 n [0..<32]) = set (places Gpr 0 n [4..<32]) \<union> {(Gpr 0, 0, n), (Gpr 1, n, n), (Gpr 2, n * 2, n), (Gpr 3, n * 3, n)}"
    unfolding places_set set_upt by auto
qed

lemma places_few: "places f base n [] = []" "places f base n (r # rs) = (f r, base + n * r, n) # places f base n rs"
  by (simp_all add: places_def)

lemma layout_saved: "set (saves T) = set (layout T)"
  by (cases T; simp add: save_simps gpr_splits places_few del: upt_rec_numeral One_nat_def; blast?)

lemma layout_loaded: "set (loads T) = set (layout T)"
  by (cases T; simp add: load_simps gpr_splits places_few del: upt_rec_numeral One_nat_def; blast?)

lemma layout_regs: "distinct (map fst (layout T))"
  by (cases T) (auto simp: places_regs distinct_map inj_on_def)

section \<open>Loading and saving\<close>

lemma layout_bounds: "(r, offset, n) \<in> set (layout T) \<Longrightarrow> offset + n \<le> STATE T"
  using packed_bounds [OF layout_packed] by blast

lemma layout_apart:
  "(r, a, m) \<in> set (layout T) \<Longrightarrow> (s, b, n) \<in> set (layout T) \<Longrightarrow> (r, a, m) \<noteq> (s, b, n) \<Longrightarrow> a + m \<le> b \<or> b + n \<le> a"
  using packed_apart [OF layout_packed] by blast

lemma layout_one: "(r, a, m) \<in> set (layout T) \<Longrightarrow> (r, b, n) \<in> set (layout T) \<Longrightarrow> (a, m) = (b, n)"
  using layout_regs [of T] by (rule eq_key_imp_eq_value)

lemma load_fold:
  assumes "\<And>b m. (r, b, m) \<in> set ps \<Longrightarrow> (b, m) = (offset, n)"
  shows "fold (load_place st) ps regs r =
     (if (r, offset, n) \<in> set ps then (\<lambda>k. if k < n then st ! (offset + k) else 0) else regs r)"
  using assms
proof (induction ps arbitrary: regs)
  case (Cons p ps)
  obtain s b m where p: "p = (s, b, m)" by (cases p)
  have IH: "fold (load_place st) ps (load_place st p regs) r =
     (if (r, offset, n) \<in> set ps then (\<lambda>k. if k < n then st ! (offset + k) else 0) else load_place st p regs r)"
    by (rule Cons.IH, rule Cons.prems) simp
  show ?case
  proof (cases "s = r")
    case True
    then have "(b, m) = (offset, n)" by (intro Cons.prems) (simp add: p)
    then show ?thesis using IH p True by simp
  qed (use IH p in simp)
qed simp

lemma load_registers_in:
  assumes "(r, offset, n) \<in> set (layout T)"
  shows "load_registers T st r = (\<lambda>k. if k < n then st ! (offset + k) else 0)"
proof -
  have "(b, m) = (offset, n)" if "(r, b, m) \<in> set (loads T)" for b m
    using layout_one [OF _ assms] that by (simp only: layout_loaded)
  then have "fold (load_place st) (loads T) (\<lambda>_ _. 0) r =
     (if (r, offset, n) \<in> set (loads T) then (\<lambda>k. if k < n then st ! (offset + k) else 0) else (\<lambda>_. 0))" by (rule load_fold)
  then show ?thesis using assms by (simp add: load_registers_def layout_loaded)
qed

lemma load_registers_other: "r \<notin> fst ` set (layout T) \<Longrightarrow> load_registers T st r k = 0"
proof -
  assume "r \<notin> fst ` set (layout T)"
  then have "(r, b, m) \<notin> set (loads T)" for b m by (force simp: layout_loaded)
  then show ?thesis using load_fold [of r "loads T" 0 0 st "\<lambda>_ _. 0"] by (simp add: load_registers_def)
qed

text \<open>What is loaded depends on the bytes of the state only.\<close>

lemma load_registers_cong:
  assumes "take (STATE T) st = take (STATE T) st'" "STATE T \<le> length st" "STATE T \<le> length st'"
  shows "load_registers T st = load_registers T st'"
proof (intro ext)
  fix r k
  have e: "st ! i = st' ! i" if "i < STATE T" for i using assms that by (metis nth_take)
  show "load_registers T st r k = load_registers T st' r k"
  proof (cases "r \<in> fst ` set (layout T)")
    case True
    then obtain a m where p: "(r, a, m) \<in> set (layout T)" by auto
    show ?thesis unfolding load_registers_in [OF p] using e [of "a + k"] layout_bounds [OF p] by simp
  qed (simp add: load_registers_other)
qed

lemma save_place_length: "length (save_place regs p st) = length st"
  by (cases p) simp

lemma save_length [simp]: "length (save_registers T regs st) = length st"
proof -
  have "length (fold (save_place regs) ps st) = length st" for ps
    by (induction ps arbitrary: st) (auto simp del: save_place.simps simp: save_place_length)
  then show ?thesis by (simp add: save_registers_def)
qed

lemma save_fold_other:
  "i < length st \<Longrightarrow> (\<And>r offset n. (r, offset, n) \<in> set ps \<Longrightarrow> i < offset \<or> offset + n \<le> i) \<Longrightarrow>
   fold (save_place regs) ps st ! i = st ! i"
proof (induction ps arbitrary: st)
  case (Cons p ps)
  obtain s b m where p: "p = (s, b, m)" by (cases p)
  have "i < b \<or> b + m \<le> i" using Cons.prems(2) [of s b m] p by simp
  then have "save_place regs p st ! i = st ! i" using Cons.prems(1) p by (auto simp: copy_nth)
  moreover have "fold (save_place regs) ps (save_place regs p st) ! i = save_place regs p st ! i"
    by (rule Cons.IH) (use Cons.prems in \<open>auto simp: save_place_length\<close>)
  ultimately show ?case by simp
qed simp

lemma save_fold_at:
  assumes "\<And>p q. p \<in> set ps \<Longrightarrow> q \<in> set ps \<Longrightarrow> p \<noteq> q \<Longrightarrow> fst (snd p) + snd (snd p) \<le> fst (snd q) \<or> fst (snd q) + snd (snd q) \<le> fst (snd p)"
    and "i < length st" "(r, offset, n) \<in> set ps" "offset \<le> i" "i < offset + n"
  shows "fold (save_place regs) ps st ! i = regs r (i - offset)"
  using assms
proof (induction ps arbitrary: st)
  case (Cons p ps)
  show ?case
  proof (cases "(r, offset, n) \<in> set ps")
    case True
    have "fst (snd q) + snd (snd q) \<le> fst (snd q') \<or> fst (snd q') + snd (snd q') \<le> fst (snd q)"
      if "q \<in> set ps" "q' \<in> set ps" "q \<noteq> q'" for q q' using Cons.prems(1) that by simp
    then show ?thesis using Cons.IH True Cons.prems(2-) by (simp add: save_place_length)
  next
    case False
    then have p: "p = (r, offset, n)" using Cons.prems(3) by simp
    have "i < b \<or> b + m \<le> i" if "(s, b, m) \<in> set ps" for s b m
      using Cons.prems(1) [of p "(s, b, m)"] that False Cons.prems(4,5) p by fastforce
    then show ?thesis using save_fold_other [of i _ ps regs] Cons.prems(2-) p by (simp add: copy_nth)
  qed
qed simp

lemma save_registers_at:
  assumes "(r, offset, n) \<in> set (layout T)" "k < n" "STATE T \<le> length st"
  shows "save_registers T regs st ! (offset + k) = regs r k"
proof -
  have "save_registers T regs st ! (offset + k) = regs r (offset + k - offset)"
    unfolding save_registers_def
  proof (rule save_fold_at)
    show "offset + k < length st" using layout_bounds [OF assms(1)] assms(2,3) by simp
    show "fst (snd p) + snd (snd p) \<le> fst (snd q) \<or> fst (snd q) + snd (snd q) \<le> fst (snd p)"
      if "p \<in> set (saves T)" "q \<in> set (saves T)" "p \<noteq> q" for p q
      using layout_apart that unfolding layout_saved by (cases p; cases q) auto
  qed (use assms in \<open>simp_all add: layout_saved\<close>)
  then show ?thesis by simp
qed

lemma save_registers_other:
  assumes "i < length st" "\<And>r offset n. (r, offset, n) \<in> set (layout T) \<Longrightarrow> i < offset \<or> offset + n \<le> i"
  shows "save_registers T regs st ! i = st ! i"
  unfolding save_registers_def using assms by (intro save_fold_other) (simp_all add: layout_saved)

lemma save_take:
  assumes "STATE T \<le> length st"
  shows "take (STATE T) (save_registers T regs st) = save_registers T regs (take (STATE T) st)"
proof (rule nth_equalityI)
  fix i assume "i < length (take (STATE T) (save_registers T regs st))"
  then have i: "i < STATE T" by simp
  show "take (STATE T) (save_registers T regs st) ! i = save_registers T regs (take (STATE T) st) ! i"
  proof (cases "\<exists>r a n. (r, a, n) \<in> set (layout T) \<and> a \<le> i \<and> i < a + n")
    case True
    then obtain r a n where p: "(r, a, n) \<in> set (layout T)" "a \<le> i" "i - a < n" by fastforce
    then show ?thesis using save_registers_at [OF p(1,3)] i assms by simp
  next
    case False
    then have "i < a \<or> a + n \<le> i" if "(r, a, n) \<in> set (layout T)" for r a n using that by (meson not_le)
    note o = save_registers_other [OF _ this, where regs = regs]
    show ?thesis using o [of st] o [of "take (STATE T) st"] i assms by simp
  qed
qed (use assms in simp)

end
