(* ===== verification/StubProperties.thy ===== *)
theory StubProperties
  imports StubLayout "HOL-Library.Sublist"
begin

unbundle bit_operations_syntax

text \<open>
  What \<open>tools/difftest/stub.c\<close> answers to the records it reads, against a specification that has no state: the answer to a
  record as a function of it, and the answers to the bytes of an input, record by record.
\<close>

section \<open>The kernel\<close>












section \<open>Answers\<close>












lemma value_bytes_length [simp]: "length (value_bytes big n v) = n"
  by (simp add: value_bytes_def)









section \<open>Sessions\<close>








lemma vectors_aligned: "(r, a, m) \<in> set (layout T) \<Longrightarrow> powerpc T \<Longrightarrow> r = Vector j \<Longrightarrow> a mod 16 = 0"
  by (cases T) (auto simp: powerpc_def places_set simp del: upt_rec_numeral)

lemma save_loaded:
  assumes "STATE T \<le> length st"
  shows "save_registers T (load_registers T st) st = st"
proof (rule nth_equalityI)
  fix i assume "i < length (save_registers T (load_registers T st) st)"
  then have i: "i < length st" by simp
  show "save_registers T (load_registers T st) st ! i = st ! i"
  proof (cases "\<exists>r a n. (r, a, n) \<in> set (layout T) \<and> a \<le> i \<and> i < a + n")
    case True
    then obtain r a n where p: "(r, a, n) \<in> set (layout T)" "a \<le> i" "i - a < n" by fastforce
    then show ?thesis using save_registers_at [OF p(1,3) assms] load_registers_in [OF p(1)] by simp
  next
    case False
    then have "i < a \<or> a + n \<le> i" if "(r, a, n) \<in> set (layout T)" for r a n using that by (meson not_le)
    then show ?thesis by (rule save_registers_other [OF i])
  qed
qed simp

section \<open>Properties\<close>







text \<open>
  C28. Registers have places of their own in a state: each is within it, no two overlap, those of vectors on PowerPC are where its
  loads of vectors, which leave out the low bits of addresses, find them, and \<open>enter\<close> and \<open>SAVE\<close> have the same. So a
  register that is saved is the one that would be loaded, and registers that were loaded are saved as they were.
\<close>

theorem registers_apart:
  assumes "(r, a, m) \<in> set (saves T)" "STATE T \<le> length st"
  shows "(r, a, m) \<in> set (loads T) \<and> a + m \<le> STATE T \<and>
     (\<forall>s b n. (s, b, n) \<in> set (saves T) \<longrightarrow> (s, b, n) = (r, a, m) \<or> a + m \<le> b \<or> b + n \<le> a) \<and>
     (powerpc T \<longrightarrow> (\<exists>j. r = Vector j) \<longrightarrow> a mod 16 = 0) \<and>
     (\<forall>regs k. k < m \<longrightarrow> load_registers T (save_registers T regs st) r k = regs r k) \<and>
     save_registers T (load_registers T st) st = st"
proof -
  have p: "(r, a, m) \<in> set (layout T)" using assms(1) by (simp add: layout_saved)
  have "load_registers T (save_registers T regs st) r k = regs r k" if "k < m" for regs k
    using load_registers_in [OF p] save_registers_at [OF p that assms(2)] that by simp
  moreover have "a + m \<le> b \<or> b + n \<le> a" if "(s, b, n) \<in> set (saves T)" "(s, b, n) \<noteq> (r, a, m)" for s b n
    using layout_apart [OF p, of s b n] that by (auto simp: layout_saved)
  moreover have "(r, a, m) \<in> set (loads T)" using p by (simp add: layout_loaded)
  ultimately show ?thesis using layout_bounds [OF p] vectors_aligned [OF p] save_loaded [OF assms(2)] by blast
qed

theorem registers_apart_witness:
  "load_registers Aarch64 (save_registers Aarch64 (\<lambda>_ k. of_nat k) (replicate 1000 0)) First_fault 1 = 1"
proof -
  have "(First_fault, 816, 2) \<in> set (saves Aarch64)" by (simp add: aarch64_save_def)
  moreover have "STATE Aarch64 \<le> length (replicate 1000 (0 :: u8))" by (simp add: state_simps)
  ultimately have "load_registers Aarch64 (save_registers Aarch64 regs (replicate 1000 0)) First_fault 1 = regs First_fault 1" for regs
    using registers_apart [of First_fault 816 2 Aarch64 "replicate 1000 0"] by simp
  then show ?thesis by simp
qed

end
