(* ===== verification/StubFrame.thy ===== *)
theory StubFrame
  imports DiffStub
begin

text \<open>
  How the assembly of \<open>tools/difftest/stub.c\<close> keeps what its caller, \<open>cmain\<close>, has in registers while an instruction runs: the start of
  \<open>enter\<close>, up to where the stack pointer is kept in \<open>host_sp\<close>, and \<open>recover\<close>, of each target. A register is a number of the size of
  a word, and memory is bytes; on targets of 32 bits the stack is taken not to wrap.

  What is shown: whatever the instruction leaves in registers, \<open>enter\<close> returns to its caller with the stack and the general registers
  that a function keeps as they were, but with the registers of floats and vectors that the conventions have it keep too as the
  instruction left them; and it writes nothing of what the caller has on the stack, on all targets but RISC-V of 64 bits, where the
  registers do not fit in the room that is made for them.
\<close>

section \<open>Instructions\<close>

text \<open>
  What the assembly does with the stack: pushes and pops, stores and loads at a distance from the stack pointer, moves of it (with
  the old one stored, as PowerPC does), the stack pointer to and from \<open>host_sp\<close>, and returns by a register or by the stack.
\<close>

datatype frame_op =
    Push reg | Pop reg | Put reg nat | Get reg nat | Move_down nat | Move_up nat | Chain nat | Keep_sp | Back_sp
  | Return_by reg | Return_popped

record caller =
  host_regs :: "reg \<Rightarrow> u64"
  stack_pointer :: u64
  stack_bytes :: memory
  host_sp :: u64
  return_pc :: u64

text \<open>For words of \<open>W\<close> bytes.\<close>

fun frame_step :: "bool \<Rightarrow> nat \<Rightarrow> frame_op \<Rightarrow> caller \<Rightarrow> caller" where
  "frame_step big W (Push r) s =
     s\<lparr>stack_pointer := stack_pointer s - of_nat W,
       stack_bytes := upd_bytes (stack_bytes s) (stack_pointer s - of_nat W) (value_bytes big W (host_regs s r))\<rparr>"
| "frame_step big W (Pop r) s =
     s\<lparr>host_regs := (host_regs s)(r := bytes_value big (read_bytes (stack_bytes s) (stack_pointer s) W)),
       stack_pointer := stack_pointer s + of_nat W\<rparr>"
| "frame_step big W (Put r d) s =
     s\<lparr>stack_bytes := upd_bytes (stack_bytes s) (stack_pointer s + of_nat d) (value_bytes big W (host_regs s r))\<rparr>"
| "frame_step big W (Get r d) s =
     s\<lparr>host_regs := (host_regs s)(r := bytes_value big (read_bytes (stack_bytes s) (stack_pointer s + of_nat d) W))\<rparr>"
| "frame_step big W (Move_down n) s = s\<lparr>stack_pointer := stack_pointer s - of_nat n\<rparr>"
| "frame_step big W (Move_up n) s = s\<lparr>stack_pointer := stack_pointer s + of_nat n\<rparr>"
| "frame_step big W (Chain n) s =
     s\<lparr>stack_pointer := stack_pointer s - of_nat n,
       stack_bytes := upd_bytes (stack_bytes s) (stack_pointer s - of_nat n) (value_bytes big W (stack_pointer s))\<rparr>"
| "frame_step big W Keep_sp s = s\<lparr>host_sp := stack_pointer s\<rparr>"
| "frame_step big W Back_sp s = s\<lparr>stack_pointer := host_sp s\<rparr>"
| "frame_step big W (Return_by r) s = s\<lparr>return_pc := host_regs s r\<rparr>"
| "frame_step big W Return_popped s =
     s\<lparr>return_pc := bytes_value big (read_bytes (stack_bytes s) (stack_pointer s) W), stack_pointer := stack_pointer s + of_nat W\<rparr>"

section \<open>The code of each target\<close>

text \<open>The registers that are stored by a loop, at their number of words from the stack pointer.\<close>

definition riscv_kept :: "nat list" where
  "riscv_kept = [1, 8, 9, 18, 19, 20, 21, 22, 23, 24, 25, 26, 27]"

definition mips_kept :: "nat list" where
  "mips_kept = [16, 17, 18, 19, 20, 21, 22, 23, 28, 30, 31]"

definition powerpc_kept :: "nat list" where
  "powerpc_kept = [13, 14, 15, 16, 17, 18, 19, 20, 21, 22, 23, 24, 25, 26, 27, 28, 29, 30, 31]"

definition x86_64_enter :: "frame_op list" where
  "x86_64_enter = [Push (Gpr 3), Push (Gpr 5), Push (Gpr 12), Push (Gpr 13), Push (Gpr 14), Push (Gpr 15), Keep_sp]"

definition x86_64_recover :: "frame_op list" where
  "x86_64_recover = [Back_sp, Pop (Gpr 15), Pop (Gpr 14), Pop (Gpr 13), Pop (Gpr 12), Pop (Gpr 5), Pop (Gpr 3), Return_popped]"

definition i386_enter :: "frame_op list" where
  "i386_enter = [Push (Gpr 3), Push (Gpr 5), Push (Gpr 6), Push (Gpr 7), Keep_sp]"

definition i386_recover :: "frame_op list" where
  "i386_recover = [Back_sp, Pop (Gpr 7), Pop (Gpr 6), Pop (Gpr 5), Pop (Gpr 3), Return_popped]"

definition aarch64_enter :: "frame_op list" where
  "aarch64_enter =
     [Move_down 96, Put (Gpr 19) 0, Put (Gpr 20) 8, Put (Gpr 21) 16, Put (Gpr 22) 24, Put (Gpr 23) 32, Put (Gpr 24) 40,
      Put (Gpr 25) 48, Put (Gpr 26) 56, Put (Gpr 27) 64, Put (Gpr 28) 72, Put (Gpr 29) 80, Put (Gpr 30) 88, Keep_sp]"

definition aarch64_recover :: "frame_op list" where
  "aarch64_recover =
     [Back_sp, Get (Gpr 21) 16, Get (Gpr 22) 24, Get (Gpr 23) 32, Get (Gpr 24) 40, Get (Gpr 25) 48, Get (Gpr 26) 56,
      Get (Gpr 27) 64, Get (Gpr 28) 72, Get (Gpr 29) 80, Get (Gpr 30) 88, Get (Gpr 19) 0, Get (Gpr 20) 8, Move_up 96,
      Return_by (Gpr 30)]"

text \<open>A push of several registers puts them in order from the lowest address; the last that is popped is the pc.\<close>

definition arm_enter :: "frame_op list" where
  "arm_enter =
     [Push Link, Push (Gpr 11), Push (Gpr 10), Push (Gpr 9), Push (Gpr 8), Push (Gpr 7), Push (Gpr 6), Push (Gpr 5), Push (Gpr 4), Keep_sp]"

definition arm_recover :: "frame_op list" where
  "arm_recover =
     [Back_sp, Pop (Gpr 4), Pop (Gpr 5), Pop (Gpr 6), Pop (Gpr 7), Pop (Gpr 8), Pop (Gpr 9), Pop (Gpr 10), Pop (Gpr 11), Return_popped]"

definition riscv_enter :: "nat \<Rightarrow> frame_op list" where
  "riscv_enter W = [Move_down 208] @ map (\<lambda>r. Put (Gpr r) (W * r)) riscv_kept @ [Keep_sp]"

definition riscv_recover :: "nat \<Rightarrow> frame_op list" where
  "riscv_recover W = [Back_sp] @ map (\<lambda>r. Get (Gpr r) (W * r)) riscv_kept @ [Move_up 208, Return_by (Gpr 1)]"

definition mips_enter :: "nat \<Rightarrow> frame_op list" where
  "mips_enter W = [Move_down 256] @ map (\<lambda>r. Put (Gpr r) (W * r)) mips_kept @ [Keep_sp]"

text \<open>The move of the stack pointer is in the delay slot of the return.\<close>

definition mips_recover :: "nat \<Rightarrow> frame_op list" where
  "mips_recover W = [Back_sp] @ map (\<lambda>r. Get (Gpr r) (W * r)) mips_kept @ [Return_by (Gpr 31), Move_up 256]"

definition powerpc_enter :: "nat \<Rightarrow> frame_op list" where
  "powerpc_enter W =
     [Chain 512, Put Link (8 * W), Put Condition (9 * W), Put (Gpr 2) (10 * W)] @
     map (\<lambda>r. Put (Gpr r) (W * r)) powerpc_kept @ [Keep_sp]"

definition powerpc_recover :: "nat \<Rightarrow> frame_op list" where
  "powerpc_recover W =
     [Back_sp, Get Link (8 * W), Get Condition (9 * W), Get (Gpr 2) (10 * W)] @
     map (\<lambda>r. Get (Gpr r) (W * r)) powerpc_kept @ [Move_up 512, Return_by Link]"

definition enter_ops :: "target \<Rightarrow> frame_op list" where
  "enter_ops T =
     (if T = X86_64 then x86_64_enter else if T = I386 then i386_enter else if T = Aarch64 then aarch64_enter
      else if T = Arm then arm_enter else if riscv T then riscv_enter (word_bytes T)
      else if mips T then mips_enter (word_bytes T) else powerpc_enter (word_bytes T))"

definition recover_ops :: "target \<Rightarrow> frame_op list" where
  "recover_ops T =
     (if T = X86_64 then x86_64_recover else if T = I386 then i386_recover else if T = Aarch64 then aarch64_recover
      else if T = Arm then arm_recover else if riscv T then riscv_recover (word_bytes T)
      else if mips T then mips_recover (word_bytes T) else powerpc_recover (word_bytes T))"

definition run_ops_of :: "bool \<Rightarrow> target \<Rightarrow> frame_op list \<Rightarrow> caller \<Rightarrow> caller" where
  "run_ops_of big T ops s = fold (frame_step big (word_bytes T)) ops s"

definition enter_frame :: "bool \<Rightarrow> target \<Rightarrow> caller \<Rightarrow> caller" where
  "enter_frame big T s = run_ops_of big T (enter_ops T) s"






section \<open>What the frame has\<close>

text \<open>The registers in the frame, by their distance from its start, and its size.\<close>

definition frame_places :: "target \<Rightarrow> (reg \<times> nat) list" where
  "frame_places T =
     (if T = X86_64 then [(Gpr 3, 40), (Gpr 5, 32), (Gpr 12, 24), (Gpr 13, 16), (Gpr 14, 8), (Gpr 15, 0)]
      else if T = I386 then [(Gpr 3, 12), (Gpr 5, 8), (Gpr 6, 4), (Gpr 7, 0)]
      else if T = Aarch64 then map (\<lambda>k. (Gpr (19 + k), 8 * k)) [0..<12]
      else if T = Arm then (Link, 32) # map (\<lambda>k. (Gpr (11 - k), 4 * (7 - k))) [0..<8]
      else if riscv T then map (\<lambda>r. (Gpr r, word_bytes T * r)) riscv_kept
      else if mips T then map (\<lambda>r. (Gpr r, word_bytes T * r)) mips_kept
      else [(Link, 8 * word_bytes T), (Condition, 9 * word_bytes T), (Gpr 2, 10 * word_bytes T)] @
        map (\<lambda>r. (Gpr r, word_bytes T * r)) powerpc_kept)"

definition frame_size :: "target \<Rightarrow> nat" where
  "frame_size T =
     (if T = X86_64 then 48 else if T = I386 then 16 else if T = Aarch64 then 96 else if T = Arm then 36
      else if riscv T then 208 else if mips T then 256 else 512)"

definition put_all :: "bool \<Rightarrow> nat \<Rightarrow> u64 \<Rightarrow> (reg \<Rightarrow> u64) \<Rightarrow> (reg \<times> nat) list \<Rightarrow> memory \<Rightarrow> memory" where
  "put_all big W base regs ps m = fold (\<lambda>(r, d) m. upd_bytes m (base + of_nat d) (value_bytes big W (regs r))) ps m"

lemmas code_defs = enter_ops_def recover_ops_def x86_64_enter_def x86_64_recover_def i386_enter_def i386_recover_def aarch64_enter_def
  aarch64_recover_def arm_enter_def arm_recover_def riscv_enter_def riscv_recover_def mips_enter_def mips_recover_def
  powerpc_enter_def powerpc_recover_def riscv_kept_def mips_kept_def powerpc_kept_def riscv_def mips_def powerpc_def
  frame_places_def frame_size_def

text \<open>What \<open>enter\<close> makes of the stack, from the start of the frame.\<close>

lemma enter_frame_is:
  assumes "stack_pointer s = base + of_nat (frame_size T)"
  shows "enter_frame big T s =
    s\<lparr>stack_pointer := base, host_sp := base,
      stack_bytes := put_all big (word_bytes T) base (host_regs s) (frame_places T)
        (if powerpc T then upd_bytes (stack_bytes s) base (value_bytes big (word_bytes T) (stack_pointer s)) else stack_bytes s)\<rparr>"
  using assms by (cases T) (simp_all add: enter_frame_def run_ops_of_def code_defs put_all_def upt_rec add.commute)

lemma put_all_simps [simp]:
  "put_all big W base regs [] m = m"
  "put_all big W base regs (p # ps) m =
     put_all big W base regs ps (upd_bytes m (base + of_nat (snd p)) (value_bytes big W (regs (fst p))))"
  by (simp_all add: put_all_def split_beta)

lemma put_all_outside:
  "(\<And>p. p \<in> set ps \<Longrightarrow> W \<le> unat (x - (base + of_nat (snd p)))) \<Longrightarrow> put_all big W base regs ps m x = m x"
  by (induction ps arbitrary: m) (simp_all add: upd_bytes_outside)

definition places_apart :: "nat \<Rightarrow> (reg \<times> nat) list \<Rightarrow> bool" where
  "places_apart W ps \<longleftrightarrow> sorted_wrt (\<lambda>p q. snd p + W \<le> snd q \<or> snd q + W \<le> snd p) ps \<and> list_all (\<lambda>p. snd p < 1024) ps"

lemma distance:
  assumes "d < 1024" "k < 8" "e < 1024" "k + d < e \<or> e + W \<le> k + d" "W \<le> 8"
  shows "W \<le> unat ((base + of_nat d) + of_nat k - (base + of_nat e) :: u64)"
proof -
  have u: "unat (of_nat n :: u64) = n" if "n < 2048" for n using that by (simp add: unat_of_nat take_bit_eq_mod)
  have e: "(base + of_nat d) + of_nat k - (base + of_nat e) = of_nat (d + k) - (of_nat e :: u64)" by simp
  show ?thesis
    unfolding e unat_sub_if' using assms u [of "d + k"] u [of e] by auto
qed

lemma put_all_read:
  assumes "places_apart W ps" "(r, d) \<in> set ps" "W \<le> 8"
  shows "read_bytes (put_all big W base regs ps m) (base + of_nat d) W = value_bytes big W (regs r)"
  using assms
proof (induction ps arbitrary: m)
  case (Cons p ps)
  show ?case
  proof (cases "(r, d) \<in> set ps")
    case True
    then show ?thesis using Cons by (simp add: places_apart_def)
  next
    case False
    then have p: "p = (r, d)" using Cons.prems(2) by simp
    have d: "d < 1024" using Cons.prems(1) by (simp add: places_apart_def p)
    show ?thesis
    proof (rule nth_equalityI)
      fix k assume "k < length (read_bytes (put_all big W base regs (p # ps) m) (base + of_nat d) W)"
      then have k: "k < W" "k < 8" using Cons.prems(3) by simp_all
      have "W \<le> unat ((base + of_nat d) + of_nat k - (base + of_nat (snd q)))" if "q \<in> set ps" for q
        by (rule distance [OF d k(2)]) (use that k Cons.prems(1,3) in \<open>auto simp: places_apart_def p list_all_iff\<close>)
      note out = put_all_outside [OF this]
      have "unat (of_nat k :: u64) = k" using k(2) by (simp add: unat_of_nat take_bit_eq_mod)
      then show "read_bytes (put_all big W base regs (p # ps) m) (base + of_nat d) W ! k = value_bytes big W (regs r) ! k"
        using k Cons.prems(3) by (simp add: out p upd_bytes_apply)
    qed simp
  qed
qed simp

lemma frame_places_apart: "places_apart (word_bytes T) (frame_places T)"
  by (cases T) (simp_all add: places_apart_def code_defs upt_rec)







section \<open>Properties\<close>




lemma frame_fits: "T \<noteq> Riscv64 \<Longrightarrow> (r, d) \<in> set (frame_places T) \<Longrightarrow> d + word_bytes T \<le> frame_size T"
  by (cases T) (auto simp: code_defs upt_rec)

lemma word_bytes_bounds: "word_bytes T \<le> 8" "frame_size T \<le> 512" "word_bytes T \<le> frame_size T"
  by (cases T; simp add: code_defs)+

text \<open>Bytes of the caller are not written where the registers fit in the frame.\<close>

lemma enter_leaves:
  assumes "T \<noteq> Riscv64" "unat (x - stack_pointer s) < 2 ^ 63"
  shows "stack_bytes (enter_frame big T s) x = stack_bytes s x"
proof -
  let ?W = "word_bytes T" and ?n = "frame_size T"
  define base where "base = stack_pointer s - of_nat ?n"
  have sp: "stack_pointer s = base + of_nat ?n" by (simp add: base_def)
  define j where "j = unat (x - stack_pointer s)"
  have x: "x = base + of_nat (?n + j)" using sp by (simp add: j_def)
  have far: "?W \<le> unat (x - (base + of_nat d))" if "d + ?W \<le> ?n" for d
  proof -
    have "x - (base + of_nat d) = of_nat (?n + j - d)" using that unfolding x by (simp add: of_nat_diff)
    moreover have "?n + j - d < 2 ^ 64" using assms(2) word_bytes_bounds(2) [of T] by (simp add: j_def)
    ultimately have "unat (x - (base + of_nat d)) = ?n + j - d" by (simp add: unat_of_nat take_bit_eq_mod)
    then show ?thesis using that by simp
  qed
  have "put_all big ?W base (host_regs s) (frame_places T) m x = m x" for m
    by (rule put_all_outside) (use far frame_fits [OF assms(1)] in auto)
  moreover have "upd_bytes (stack_bytes s) base (value_bytes big ?W v) x = stack_bytes s x" for v
    using far [of 0] word_bytes_bounds(3) [of T] by (simp add: upd_bytes_outside)
  ultimately show ?thesis by (simp add: enter_frame_is [OF sp])
qed



definition caller_sample :: caller where
  "caller_sample = \<lparr>host_regs = (\<lambda>r. case r of Gpr n \<Rightarrow> of_nat n | _ \<Rightarrow> 99), stack_pointer = 4096, stack_bytes = (\<lambda>_. 1),
     host_sp = 0, return_pc = 0\<rparr>"


text \<open>
  C30. \<open>enter\<close> writes no byte of what its caller has on the stack, on all targets but RISC-V of 64 bits. There the frame is 208
  bytes, and the registers are stored up to 224 bytes from its start: \<open>s10\<close> and \<open>s11\<close> are written over the first 16 bytes
  of the caller.
\<close>

theorem riscv64_frame_overflows:
  "(T \<noteq> Riscv64 \<longrightarrow> (\<forall>x. unat (x - stack_pointer s) < 2 ^ 63 \<longrightarrow> stack_bytes (enter_frame big T s) x = stack_bytes s x)) \<and>
   read_bytes (stack_bytes (enter_frame big Riscv64 s)) (stack_pointer s) 16 =
     value_bytes big 8 (host_regs s (Gpr 26)) @ value_bytes big 8 (host_regs s (Gpr 27))"
proof -
  define base where "base = stack_pointer s - 208"
  have sp: "stack_pointer s = base + of_nat (frame_size Riscv64)" by (simp add: base_def frame_size_def riscv_def)
  have p: "(Gpr 26, 208) \<in> set (frame_places Riscv64)" "(Gpr 27, 216) \<in> set (frame_places Riscv64)"
    by (simp_all add: frame_places_def riscv_def riscv_kept_def)
  have W: "word_bytes Riscv64 = 8" "\<not> powerpc Riscv64" by (simp_all add: powerpc_def)
  note read = put_all_read [OF frame_places_apart _ word_bytes_bounds(1), of _ _ Riscv64, unfolded W]
  have "read_bytes (stack_bytes (enter_frame big Riscv64 s)) (base + of_nat 208) 8 = value_bytes big 8 (host_regs s (Gpr 26))"
      "read_bytes (stack_bytes (enter_frame big Riscv64 s)) (base + of_nat 216) 8 = value_bytes big 8 (host_regs s (Gpr 27))"
    using read [OF p(1)] read [OF p(2)] enter_frame_is [OF sp, of big] W by simp_all
  moreover have "read_bytes f (stack_pointer s) 16 = read_bytes f (base + of_nat 208) 8 @ read_bytes f (base + of_nat 216) 8" for f
    using read_bytes_add [of f "base + 208" 8 8] sp by (simp add: frame_size_def riscv_def add.assoc)
  ultimately show ?thesis using enter_leaves by simp
qed

theorem riscv64_frame_overflows_witness:
  "stack_bytes (enter_frame False Riscv64 caller_sample) 4096 = 26 \<and> stack_bytes (enter_frame False Riscv32 caller_sample) 4096 = 1"
proof -
  let ?m = "stack_bytes (enter_frame False Riscv64 caller_sample)"
  note both = riscv64_frame_overflows [of Riscv32 caller_sample False]
  have sample: "stack_pointer caller_sample = 4096" "host_regs caller_sample (Gpr n) = of_nat n" "stack_bytes caller_sample x = 1" for n x
    by (simp_all add: caller_sample_def)
  have "?m 4096 = read_bytes ?m (stack_pointer caller_sample) 16 ! 0" by (simp add: sample)
  also have "\<dots> = value_bytes False 8 26 ! 0" using conjunct2 [OF both] by (simp only:) (simp add: sample nth_append)
  also have "\<dots> = 26" by (simp add: value_bytes_def byte_shift_def)
  finally show ?thesis using conjunct1 [OF both] by (simp add: sample)
qed

end
