(* ===== verification/Stress.thy ===== *)
theory Stress
  imports MemoryProperties "HOL-Library.Monad_Syntax"
begin

text \<open>
  \<open>native/paged_memory_stress.cpp\<close>, the test of \<open>PagedMemory\<close>. Each block of its \<open>main\<close> is a function that gives the checks
  that it makes, with what they are called, or None if a \<open>bad_alloc\<close> leaves it. A block of threads is the accesses that
  they make, in no order; threads that note what a step wrote do so under a lock, in the order that a block is given. The
  blocks on the order of two stores (\<open>release\<close> and \<open>acquire\<close>) and on a store beside \<open>zeroRange\<close> are not modelled,
  nor which pages the system holds (\<open>mincore\<close>).

  What is shown: no check fails, however the threads go on, as long as the system has memory.
\<close>

section \<open>Blocks of one thread\<close>

type_synonym checks = "(string \<times> bool) list"

text \<open>How many checks failed: what \<open>main\<close> counts, and returns if there are any.\<close>

definition failures :: "checks \<Rightarrow> nat" where
  "failures cs = length (filter (\<lambda>c. \<not> snd c) cs)"

text \<open>What a call leaves, if it returns.\<close>

definition returned :: "bool \<times> paged \<Rightarrow> paged option" where
  "returned r = (if fst r then Some (snd r) else None)"

definition vector_of :: "nat \<Rightarrow> u8 \<Rightarrow> u8 list" where
  "vector_of n v = replicate n v"

definition copy_block :: "host \<Rightarrow> checks option" where
  "copy_block h = do {
     memory \<leftarrow> returned (store h 0x1000 [3] new_memory);
     copy \<leftarrow> returned (copyFrom h memory new_memory);
     copy' \<leftarrow> returned (store h 0x1000 [4] copy);
     Some [(''a read makes no page'', read_byte memory 0xFFFFFFFFFFFFF000 = 0 \<and> find_page memory 0xFFFFFFFFFFFFF000 = None),
           (''a copy is its own'', read_byte memory 0x1000 = 3 \<and> read_byte copy' 0x1000 = 4)]
   }"

text \<open>Notes one after another: of the loop that overflows, and of the four threads.\<close>

definition note_all :: "(u64 \<times> nat) list \<Rightarrow> paged \<Rightarrow> paged" where
  "note_all ns m = fold (\<lambda>(a, n). noteStep a n) ns m"

definition many_notes :: "(u64 \<times> nat) list" where
  "many_notes = map (\<lambda>index. (of_nat (index * 8), 8)) [0..<2 ^ 22 + 1]"

definition notes_of_thread :: "nat \<Rightarrow> (u64 \<times> nat) list" where
  "notes_of_thread thread = map (\<lambda>index. (of_nat (0x100000 * (thread + 1) + index), 1)) [0..<2000]"

definition step_block :: "host \<Rightarrow> (u64 \<times> nat) list \<Rightarrow> checks option" where
  "step_block h order = do {
     let none_known = stepAddresses new_memory [] = None;
     let memory = noteStep 0x2000 2 (beginStep new_memory);
     memory \<leftarrow> returned (writeAll h (zip [0x2001, 0x2002, 0x3000] [1, 2, 3]) memory);
     let written = stepAddresses memory [] = Some [0x2000, 0x2001, 0x2002, 0x3000];
     let memory = beginStep memory;
     let forgotten = stepAddresses memory [] = Some [];
     let memory = note_all many_notes memory;
     let overflowed = stepAddresses memory [] = None;
     let memory = endStep memory;
     let ended = stepAddresses memory [] = None;
     let memory = note_all order (beginStep memory);
     let threads_noted = (case stepAddresses memory [] of None \<Rightarrow> False | Some found \<Rightarrow> length found = 8000);
     Some [(''no step, nothing known'', none_known), (''the writes of a step'', written), (''a new step forgets'', forgotten),
           (''too many writes are not known'', overflowed), (''after the end nothing is known'', ended),
           (''notes of threads at once'', threads_noted)]
   }"

definition fill_block :: "host \<Rightarrow> checks option" where
  "fill_block h = do {
     m1 \<leftarrow> returned (fill h 0x7FF0 (vector_of 10000 5) new_memory);
     m2 \<leftarrow> returned (fill h 0x8000 (vector_of 100 0) m1);
     m3 \<leftarrow> returned (fill h 0x40000000 (vector_of 100 0) m2);
     m4 \<leftarrow> returned (fill h 0xFFFFFFFFFFFFFFF0 (take 100 (vector_of 10000 5)) m3);
     m5 \<leftarrow> returned (fill h 0x50000000 [9] m4);
     Some [(''a fill across pages'', read_byte m1 0x7FF0 = 5 \<and> read_byte m1 (0x7FF0 + 9999) = 5 \<and>
              read_byte m1 0x7FEF = 0 \<and> read_byte m1 (0x7FF0 + 10000) = 0),
           (''zeros over what is there'', read_byte m2 0x8000 = 0 \<and> read_byte m2 0x8064 = 5),
           (''zeros make no page'', find_page m3 0x40000000 = None),
           (''a fill stops at the end'', read_byte m4 0xFFFFFFFFFFFFFFFF = 5 \<and> read_byte m4 0 = 0),
           (''a fill of one'', read_byte m5 0x50000000 = 9)]
   }"

definition zero_block :: "host \<Rightarrow> checks option" where
  "zero_block h = do {
     m1 \<leftarrow> returned (fill h 0x10000 (vector_of 20000 6) new_memory);
     m2 \<leftarrow> returned (fill h 0xFFFFFFFFFFFFF000 (take 4096 (vector_of 20000 6)) m1);
     m3 \<leftarrow> zeroRange h 0x10003 0x12FFD (beginStep m2);
     m4 \<leftarrow> zeroRange h 0x10003 0x12FFD (beginStep m3);
     m5 \<leftarrow> zeroRange h 0xFFFFFFFFFFFFFFFE 0xFFFFFFFFFFFFFFFF (endStep m4);
     m6 \<leftarrow> zeroRange h 0 0xFFFFFFFFFFFFFFFF m5;
     m7 \<leftarrow> zeroRange h 5 4 m6;
     Some [(''the ends of a range'', read_byte m3 0x10002 = 6 \<and> read_byte m3 0x10003 = 0 \<and> read_byte m3 0x12FFD = 0 \<and>
              read_byte m3 0x12FFE = 6),
           (''a step knows what was zeroed'', (case stepAddresses m3 [] of None \<Rightarrow> False
              | Some found \<Rightarrow> length found = 0x12FFD - 0x10003 + 1 \<and> hd found = 0x10003 \<and> last found = 0x12FFD)),
           (''what is zero already isn't a write'', stepAddresses m4 [] = Some []),
           (''at the very top'', read_byte m5 0xFFFFFFFFFFFFFFFD = 6 \<and> read_byte m5 0xFFFFFFFFFFFFFFFE = 0 \<and>
              read_byte m5 0xFFFFFFFFFFFFFFFF = 0),
           (''all of it'', read_byte m6 0x12FFE = 0 \<and> read_byte m6 0xFFFFFFFFFFFFF000 = 0)]
   }"

text \<open>The word as the 8 bytes that it has in memory, in the order of the host.\<close>

definition top_block :: "host \<Rightarrow> bool \<Rightarrow> u8 list \<Rightarrow> checks option" where
  "top_block h samePages value = do {
     m1 \<leftarrow> returned (store h 0xFFFFFFFFFFFFFFF8 value new_memory);
     let m2 = trim samePages 0xFFFFFFFFFFFFF000 0xFFFFFFFFFFFFFFFF m1;
     Some [(''the last word of the address space'', load m1 0xFFFFFFFFFFFFFFF8 8 = value),
           (''trim leaves what isn't zero'', load m2 0xFFFFFFFFFFFFFFF8 8 = value)]
   }"

text \<open>Without the checks of what \<open>mincore\<close> says of the pages.\<close>

definition trim_block :: "host \<Rightarrow> bool \<Rightarrow> checks option" where
  "trim_block h samePages = do {
     m1 \<leftarrow> returned (store h 0x20000 (vector_of 4096 0xAB) new_memory);
     m2 \<leftarrow> returned (store h 0x21000 (vector_of 4096 0xAB) m1);
     m3 \<leftarrow> returned (store h 0x20000 (vector_of 4096 0) m2);
     let m4 = trim samePages 0x20000 0x21FFF m3;
     m5 \<leftarrow> returned (store h 0x20000 [9] m4);
     Some [(''a page with something in it stays'', read_byte m4 0x21000 = 0xAB),
           (''a trimmed page reads as it did'', read_byte m4 0x20000 = 0),
           (''a trimmed page can be written'', read_byte m5 0x20000 = 9)]
   }"

definition alone :: "host \<Rightarrow> (u64 \<times> nat) list \<Rightarrow> bool \<Rightarrow> u8 list \<Rightarrow> checks option" where
  "alone h order samePages value = do {
     copies \<leftarrow> copy_block h;
     steps \<leftarrow> step_block h order;
     fills \<leftarrow> fill_block h;
     zeros \<leftarrow> zero_block h;
     top \<leftarrow> top_block h samePages value;
     trims \<leftarrow> trim_block h samePages;
     Some (copies @ steps @ fills @ zeros @ top @ trims)
   }"

section \<open>Blocks of threads\<close>

text \<open>Each thread stores its number in a byte of its own on each of the pages.\<close>

definition shared_accesses :: "nat \<Rightarrow> nat \<Rightarrow> access list" where
  "shared_accesses n pages =
     concat (map (\<lambda>thread. map (\<lambda>page. Store (push_bit 30 (of_nat page) + of_nat thread) [of_nat (thread + 1)]) [0..<pages]) [0..<n])"

definition shared_check :: "nat \<Rightarrow> nat \<Rightarrow> paged \<Rightarrow> bool" where
  "shared_check n pages m \<longleftrightarrow>
     (\<forall>page < pages. \<forall>thread < n. unat (read_byte m (push_bit 30 (of_nat page) + of_nat thread)) = thread + 1)"

definition all_done :: "conc \<Rightarrow> bool" where
  "all_done s \<longleftrightarrow> list_all (\<lambda>q. case q of Done e \<Rightarrow> True | _ \<Rightarrow> False) (threads s)"

text \<open>
  A writer of ones and zeros within a word, a neighbour that stores to the first byte of the word if it isn't among them, and
  a reader, of any number of rounds each. A load is of the whole word; the reader takes its part.
\<close>

definition writer_accesses :: "u64 \<Rightarrow> nat \<Rightarrow> nat \<Rightarrow> access list" where
  "writer_accesses base sz rounds =
     concat (replicate rounds [Store base (replicate sz 0xFF), Store base (replicate sz 0)])"

definition neighbour_accesses :: "nat \<Rightarrow> nat \<Rightarrow> access list" where
  "neighbour_accesses offset rounds = (if offset \<noteq> 0 then replicate rounds (Store 0x5000 [0x5A]) else [])"

definition reader_accesses :: "u64 \<Rightarrow> nat \<Rightarrow> access list" where
  "reader_accesses base rounds = replicate rounds (Load base)"

definition whole_accesses :: "nat \<Rightarrow> nat \<Rightarrow> nat \<Rightarrow> nat \<Rightarrow> nat \<Rightarrow> access list" where
  "whole_accesses offset sz writes stores reads =
     writer_accesses (0x5000 + of_nat offset) sz writes @ neighbour_accesses offset stores @
     reader_accesses (0x5000 + of_nat offset) reads"

text \<open>Whether what a load found is torn.\<close>

fun torn :: "nat \<Rightarrow> nat \<Rightarrow> event \<Rightarrow> bool" where
  "torn offset sz (Loaded a w) \<longleftrightarrow> (\<exists>index \<in> set [1..<sz]. w ! (offset + index) \<noteq> w ! offset)"
| "torn offset sz (Stored a bs) \<longleftrightarrow> False"

text \<open>A word written byte by byte by \<open>writeAll\<close>, which is one store of it.\<close>

fun torn_word :: "event \<Rightarrow> bool" where
  "torn_word (Loaded a w) \<longleftrightarrow> w \<noteq> replicate 8 0 \<and> w \<noteq> replicate 8 0xFF"
| "torn_word (Stored a bs) \<longleftrightarrow> False"

definition word_accesses :: "nat \<Rightarrow> nat \<Rightarrow> access list" where
  "word_accesses writes reads =
     writer_accesses 0x7000 8 writes @ reader_accesses 0x7000 reads"

section \<open>Pages that are made\<close>

text \<open>A store or a fill makes no page but those that it has bytes for.\<close>

lemma fill_from_pages:
  assumes "paged_inv m" "fill_from h address d bs m = (ok, m')" "unat address + d \<le> 2 ^ 64" "d + length bs < 2 ^ 64"
    "\<And>i. d \<le> i \<Longrightarrow> i < d + length bs \<Longrightarrow> pageNumber (address + of_nat i) \<noteq> pageNumber b"
  shows "find_page m' b = find_page m b"
  using assms
proof (induction "length bs" arbitrary: d bs m rule: less_induct)
  case less
  define at where "at = address + of_nat d"
  show ?case
  proof (cases "bs = [] \<or> at < address")
    case True
    then have "m' = m"
      using less.prems(2) by (auto simp: fill_from.simps [of h address d bs m] Let_def at_def split: if_splits)
    then show ?thesis by simp
  next
    case False
    then have ne: "bs \<noteq> []" and ge: "\<not> at < address" by simp_all
    define count where "count = (if 4096 - pageOffset at < length bs then 4096 - pageOffset at else length bs)"
    note step = fill_step [OF ne at_def ge count_def, of h m]
    have c: "0 < count" "count \<le> length bs" "pageOffset at + count \<le> 4096"
      using part_count [OF count_def pageOffset_less] ne by simp_all
    have u: "unat at = unat address + d"
    proof (cases "unat address + d = 2 ^ 64")
      case True
      then have "at = 0" by (simp add: at_def flip: unat_eq_0) (simp add: unat_word_ariths unat_of_nat take_bit_eq_mod mod_add_right_eq)
      moreover have "address \<noteq> 0" using True less.prems(4) by auto
      ultimately show ?thesis using ge by (simp add: word_neq_0_conv)
    next
      case False
      then show ?thesis using less.prems(3) by (simp add: at_def unat_word_ariths unat_of_nat take_bit_eq_mod)
    qed
    have "pageNumber at < 2 ^ 52" by (rule pageNumber_less)
    then have "unat at + count \<le> 4096 * 2 ^ 52" using c(3) page_address [of at] by linarith
    then have end_le: "unat address + (d + count) \<le> 2 ^ 64" using u by simp
    have other: "pageNumber at \<noteq> pageNumber b" using less.prems(5) [of d] ne by (simp add: at_def)
    have rest: "find_page m' b = find_page m1 b"
      if inv: "paged_inv m1" and run: "fill_from h address (d + count) (drop count bs) m1 = (ok, m')" for m1
      by (rule less.hyps [OF _ inv run end_le]) (use c less.prems(4,5) in auto)
    show ?thesis
    proof (cases "is_zero (take count bs)")
      case True
      show ?thesis
      proof (cases "find_page m at")
        case None
        then show ?thesis using rest [OF less.prems(1)] less.prems(2) step True by simp
      next
        case (Some p)
        then show ?thesis
          using rest [OF put_bytes_inv [OF less.prems(1) Some]] less.prems(2) step True by simp
      qed
    next
      case False
      obtain r m1 where e: "ensure h at m = (r, m1)" by fastforce
      then have en: "paged_inv m1" "find_page m1 at = r" "find_page m1 b = find_page m b"
        using ensure_ok [OF less.prems(1) e] other by (auto simp: ensured_def)
      show ?thesis
      proof (cases r)
        case None
        then show ?thesis using less.prems(2) step False e en by simp
      next
        case (Some p)
        then have "find_page m1 at = Some p" using en(2) by simp
        then show ?thesis
          using rest [OF put_bytes_inv [OF en(1)]] less.prems(2) step False e Some en(3) by simp
      qed
    qed
  qed
qed

text \<open>What a fill with bytes that are all the same leaves, and which pages.\<close>

definition filled :: "u64 \<Rightarrow> nat \<Rightarrow> u8 \<Rightarrow> paged \<Rightarrow> paged \<Rightarrow> bool" where
  "filled a n v m m' \<longleftrightarrow> paged_inv m' \<and> same_step m m' \<and>
     (\<forall>x. view m' x = (if unat (x - a) < n \<and> unat (x - a) < 2 ^ 64 - unat a then v else view m x)) \<and>
     (\<forall>b. (\<forall>i < n. pageNumber (a + of_nat i) \<noteq> pageNumber b) \<longrightarrow> find_page m' b = find_page m b)"

lemma fill_vector:
  assumes "paged_inv m" "\<forall>i. h i" "n < 2 ^ 64"
  obtains m' where "returned (fill h a (vector_of n v) m) = Some m'" "filled a n v m m'"
proof -
  obtain ok m' where f: "fill h a (vector_of n v) m = (ok, m')" by fastforce
  have ok: ok and st: "stored a (take (min n (2 ^ 64 - unat a)) (vector_of n v)) m m'"
    using fill_ok [OF assms(1) f] assms(2,3) by (auto simp: vector_of_def)
  have "find_page m' b = find_page m b" if "\<forall>i < n. pageNumber (a + of_nat i) \<noteq> pageNumber b" for b
    using fill_from_pages [OF assms(1) f [unfolded fill_def]] that assms(3) unat64_less [of a]
    by (simp add: vector_of_def less_imp_le)
  moreover have "view m' x = (if unat (x - a) < n \<and> unat (x - a) < 2 ^ 64 - unat a then v else view m x)" for x
    using st assms(3) by (simp add: stored_def vector_of_def take_replicate upd_bytes_apply)
  ultimately have "filled a n v m m'" using st by (simp add: filled_def stored_def)
  then show ?thesis using f ok by (intro that [of m']) (simp_all add: returned_def)
qed

text \<open>Zeros within a page that isn't there.\<close>

lemma fill_zeros:
  assumes "find_page m a = None" "pageOffset a + n \<le> 4096"
  shows "fill h a (vector_of n 0) m = (True, m)"
proof (cases "n = 0")
  case False
  define bs where "bs = vector_of n 0"
  have bs: "bs \<noteq> []" "length bs = n" "\<forall>b \<in> set bs. b = 0" using False by (auto simp: bs_def vector_of_def)
  have "n = (if 4096 - pageOffset a < length bs then 4096 - pageOffset a else length bs)" using assms(2) bs(2) by simp
  from fill_step [OF bs(1) _ _ this, of a 0 h m] show ?thesis
    using assms(1) bs is_zero_iff [OF bs(1)] by (simp add: fill_def fill_from.simps bs_def)
qed (simp add: fill_def vector_of_def fill_from.simps)

lemma store_bytes:
  assumes "paged_inv m" "\<forall>i. h i"
  obtains m' where "returned (store h a bs m) = Some m'" "stored a bs m m'"
proof -
  obtain m' where "store h a bs m = (True, m')" "stored a bs m m'" using store_granted [of m h a bs] assms by blast
  then show ?thesis using that by (simp add: returned_def)
qed

lemma store_byte_pages:
  assumes "paged_inv m" "returned (store h a [v] m) = Some m'" "pageNumber b \<noteq> pageNumber a"
  shows "find_page m' b = find_page m b"
proof -
  have fc: "first_count a (Suc 0) = Suc 0" using first_count(2,3) [where a = a and n = "Suc 0"] by simp
  have "store h a [v] m = (case storeInWord h a [v] m of (False, m') \<Rightarrow> (False, m') | (True, m') \<Rightarrow> (True, m'))"
    by (subst store_step) (simp_all add: fc store.simps split: prod.split bool.split)
  then have w: "storeInWord h a [v] m = (True, m')"
    using assms(2) by (auto simp: returned_def split: prod.splits bool.splits if_splits)
  obtain r m1 where e: "ensure h a m = (r, m1)" by fastforce
  have s: "find_page (store_on_page p a [v] m'') b = find_page m'' b" for p m'' by (simp add: store_on_page_def)
  show ?thesis using w e s ensure_ok [OF assms(1) e] assms(3)
    by (auto simp: storeInWord_def ensured_def split: if_splits option.splits)
qed

section \<open>No check fails\<close>

lemma failures_simps [simp]:
  "failures [] = 0" "failures (c # cs) = (if snd c then failures cs else Suc (failures cs))"
  "failures (cs @ cs') = failures cs + failures cs'"
  by (simp_all add: failures_def)

declare new_memory_find [simp]

lemma copy_block_passes:
  assumes "\<forall>i. h i"
  shows "\<exists>cs. copy_block h = Some cs \<and> failures cs = 0"
proof -
  obtain m where m: "returned (store h 0x1000 [3] new_memory) = Some m" "stored 0x1000 [3] new_memory m"
    using store_bytes [OF paged_inv_new assms] by blast
  have find: "find_page m 0xFFFFFFFFFFFFF000 = None"
    using store_byte_pages [OF paged_inv_new m(1), of "0xFFFFFFFFFFFFF000"] by (simp add: pageNumber_def)
  obtain ok c where c: "copyFrom h m new_memory = (ok, c)" by fastforce
  then have ok: ok using copyFrom_ok [OF paged_inv_new c] assms by simp
  then have cv: "paged_inv c" "view c = view m" using copyFrom_new [of h m c] c by simp_all
  obtain c' where c': "returned (store h 0x1000 [4] c) = Some c'" "stored 0x1000 [4] c c'"
    using store_bytes [OF cv(1) assms] by blast
  have rc: "returned (copyFrom h m new_memory) = Some c" using c ok by (simp add: returned_def)
  have "view m 0x1000 = 3" "view m 0xFFFFFFFFFFFFF000 = 0" "view c' 0x1000 = 4"
    using m(2) c'(2) by (simp_all add: stored_def)
  then show ?thesis using find by (simp add: copy_block_def m(1) rc c'(1) read_byte_view)
qed

lemma fill_block_passes:
  assumes "\<forall>i. h i"
  shows "\<exists>cs. fill_block h = Some cs \<and> failures cs = 0"
proof -
  obtain m1 where m1: "returned (fill h 0x7FF0 (vector_of 10000 5) new_memory) = Some m1" "filled 0x7FF0 10000 5 new_memory m1"
    using fill_vector [OF paged_inv_new assms, of 10000 _ 5] by auto
  then have i1: "paged_inv m1" by (simp add: filled_def)
  obtain m2 where m2: "returned (fill h 0x8000 (vector_of 100 0) m1) = Some m2" "filled 0x8000 100 0 m1 m2"
    using fill_vector [OF i1 assms, of 100] by auto
  then have i2: "paged_inv m2" by (simp add: filled_def)
  obtain m3 where m3: "returned (fill h 0x40000000 (vector_of 100 0) m2) = Some m3" "filled 0x40000000 100 0 m2 m3"
    using fill_vector [OF i2 assms, of 100] by auto
  then have i3: "paged_inv m3" by (simp add: filled_def)
  have part: "take 100 (vector_of 10000 5) = vector_of 100 5" by (simp only: vector_of_def take_replicate) simp
  obtain m4 where m4: "returned (fill h 0xFFFFFFFFFFFFFFF0 (vector_of 100 5) m3) = Some m4" "filled 0xFFFFFFFFFFFFFFF0 100 5 m3 m4"
    using fill_vector [OF i3 assms, of 100] by auto
  then have i4: "paged_inv m4" by (simp add: filled_def)
  obtain m5 where m5: "returned (fill h 0x50000000 (vector_of 1 9) m4) = Some m5" "filled 0x50000000 1 9 m4 m5"
    using fill_vector [OF i4 assms, of 1] by auto
  have one: "[9] = vector_of 1 9" by (simp add: vector_of_def)
  have page: "pageNumber (0x7FF0 + of_nat i) \<noteq> pageNumber 0x40000000" if "i < 10000" for i
    using that by (simp add: pageNumber_def unat_word_ariths unat_of_nat take_bit_eq_mod)
  have page': "pageNumber (0x8000 + of_nat i) \<noteq> pageNumber 0x40000000" if "i < 100" for i
    using that by (simp add: pageNumber_def unat_word_ariths unat_of_nat take_bit_eq_mod)
  have "find_page m2 0x40000000 = None" using m1(2) m2(2) page page' by (simp add: filled_def)
  moreover from this have "fill h 0x40000000 (vector_of 100 0) m2 = (True, m2)"
    by (rule fill_zeros) (simp add: pageOffset_def)
  ultimately have none: "find_page m3 0x40000000 = None" using m3(1) by (simp add: returned_def)
  have top: "unat (- 1 :: u64) = 2 ^ 64 - 1" by (simp add: unsigned_minus_1_eq_mask mask_eq_exp_minus_1)
  have "view m1 0x7FF0 = 5" "view m1 (0x7FF0 + 9999) = 5" "view m1 0x7FEF = 0" "view m1 (0x7FF0 + 10000) = 0"
      "view m2 0x8000 = 0" "view m2 0x8064 = 5" "view m4 0xFFFFFFFFFFFFFFFF = 5" "view m4 0 = 0" "view m5 0x50000000 = 9"
    using m1(2) m2(2) m3(2) m4(2) m5(2) by (simp_all add: filled_def top)
  then show ?thesis
    using none unfolding fill_block_def part one by (simp add: m1(1) m2(1) m3(1) m4(1) m5(1) [simplified] read_byte_view)
qed

lemma top_block_passes:
  assumes "\<forall>i. h i" "length value = 8"
  shows "\<exists>cs. top_block h samePages value = Some cs \<and> failures cs = 0"
proof -
  obtain m where m: "store h 0xFFFFFFFFFFFFFFF8 value new_memory = (True, m)"
    using store_granted [OF paged_inv_new] assms(1) by blast
  then have "store_done 0xFFFFFFFFFFFFFFF8 value new_memory m" by (auto simp: store_done_def)
  then have "load m 0xFFFFFFFFFFFFFFF8 8 = value"
    using paged.read_after_write [OF paged_inv_new] assms(2) by fastforce
  then show ?thesis by (simp add: top_block_def m returned_def trim_same)
qed

lemma trim_block_passes:
  assumes "\<forall>i. h i"
  shows "\<exists>cs. trim_block h samePages = Some cs \<and> failures cs = 0"
proof -
  let ?full = "vector_of 4096 0xAB" and ?zeros = "vector_of 4096 0"
  obtain m1 where m1: "returned (store h 0x20000 ?full new_memory) = Some m1" "stored 0x20000 ?full new_memory m1"
    using store_bytes [OF paged_inv_new assms] by blast
  then have i1: "paged_inv m1" by (simp add: stored_def)
  obtain m2 where m2: "returned (store h 0x21000 ?full m1) = Some m2" "stored 0x21000 ?full m1 m2"
    using store_bytes [OF i1 assms] by blast
  then have i2: "paged_inv m2" by (simp add: stored_def)
  obtain m3 where m3: "returned (store h 0x20000 ?zeros m2) = Some m3" "stored 0x20000 ?zeros m2 m3"
    using store_bytes [OF i2 assms] by blast
  then have i3: "paged_inv m3" by (simp add: stored_def)
  obtain m5 where m5: "returned (store h 0x20000 [9] m3) = Some m5" "stored 0x20000 [9] m3 m5"
    using store_bytes [OF i3 assms] by blast
  have v: "length (vector_of n b) = n" "i < n \<Longrightarrow> vector_of n b ! i = b" for n b i by (simp_all add: vector_of_def)
  have "view m3 0x21000 = 0xAB" "view m3 0x20000 = 0" "view m5 0x20000 = 9"
    using m2(2) m3(2) m5(2) by (simp_all add: stored_def upd_bytes_apply v)
  then show ?thesis by (simp add: trim_block_def m1(1) m2(1) m3(1) m5(1) trim_same read_byte_view)
qed

section \<open>The journal\<close>

lemma note_all_simps [simp]:
  "note_all [] m = m" "note_all (n # ns) m = note_all ns (noteStep (fst n) (snd n) m)"
  by (simp_all add: note_all_def split_beta)

lemma note_all_overflow:
  assumes "stepOpen m" "stepOverflowed m \<or> stepLimit < length (stepWrites m) + length ns" "length (stepWrites m) \<le> stepLimit"
  shows "stepOverflowed (note_all ns m)"
  using assms
proof (induction ns arbitrary: m)
  case (Cons n ns)
  show ?case unfolding note_all_simps
    by (rule Cons.IH) (use Cons.prems in \<open>auto simp: noteStep_def stepActive_def\<close>)
qed simp

lemma note_all_room:
  assumes "stepOpen m" "step_room (length ns) m"
  shows "stepOpen (note_all ns m) \<and> \<not> stepOverflowed (note_all ns m) \<and>
    stepWrites (note_all ns m) = stepWrites m @ map (\<lambda>(a, n). (a, of_nat n)) ns"
  using assms
proof (induction ns arbitrary: m)
  case (Cons n ns)
  have room: "step_room (length ns) (noteStep (fst n) (snd n) m)" using Cons.prems step_room_note by simp
  have "stepWrites (noteStep (fst n) (snd n) m) = stepWrites m @ [(fst n, of_nat (snd n))]"
    using Cons.prems by (simp add: noteStep_def step_room_def stepActive_def)
  then show ?case
    using Cons.IH [OF _ room] Cons.prems(1) by (simp_all add: split_beta)
qed (simp_all add: step_room_def)

lemma step_known:
  assumes "stepAddresses m [] = Some xs" "sorted ys" "distinct ys" "journal m = Some (set ys)"
  shows "xs = ys"
  using stepAddresses_journal [OF assms(1)] assms(2-4) sorted_distinct_set_unique [of xs ys] by simp

lemma journal_known:
  assumes "journal m = Some (set ys)" "sorted ys" "distinct ys"
  shows "stepAddresses m [] = Some ys"
proof -
  obtain xs where "stepAddresses m [] = Some xs" using assms(1) stepAddresses_none [of m "[]"] by fastforce
  then show ?thesis using step_known [OF _ assms(2,3,1)] by simp
qed

text \<open>The four threads note different addresses, each one.\<close>

definition thread_notes :: "(u64 \<times> nat) list" where
  "thread_notes = concat (map notes_of_thread [0..<4])"

lemma thread_address:
  assumes "thread < 4" "index < (2000 :: nat)"
  shows "unat (of_nat (0x100000 * (thread + 1) + index) :: u64) = 0x100000 * (thread + 1) + index"
  using assms by (simp only: unat_of_nat) (simp add: take_bit_eq_mod)

lemma card_thread_notes: "card (fst ` set thread_notes) = 8000"
proof -
  let ?place = "\<lambda>(thread, index). of_nat (0x100000 * (thread + 1) + index) :: u64"
  have set: "fst ` set thread_notes = ?place ` ({0..<4} \<times> {0..<2000 :: nat})"
    by (force simp: thread_notes_def notes_of_thread_def image_iff simp del: upt_rec_numeral)
  have "inj_on ?place ({0..<4} \<times> {0..<2000})"
  proof (rule inj_onI, clarify)
    fix t i t' i' :: nat
    assume b: "t \<in> {0..<4}" "i \<in> {0..<2000}" "t' \<in> {0..<4}" "i' \<in> {0..<2000}"
      and e: "(of_nat (0x100000 * (t + 1) + i) :: u64) = of_nat (0x100000 * (t' + 1) + i')"
    then have "0x100000 * (t + 1) + i = 0x100000 * (t' + 1) + i'"
      using thread_address [of t i] thread_address [of t' i'] by (metis atLeastLessThan_iff)
    then have e: "0x100000 * t + i = 0x100000 * t' + i'" by simp
    then have "t = t'" using part_div(1) [of i "0x100000" t] part_div(1) [of i' "0x100000" t'] b by simp
    then show "t = t' \<and> i = i'" using e by simp
  qed
  then show ?thesis unfolding set by (simp add: card_image)
qed

lemma thread_notes_size: "length thread_notes = 8000" "n \<in> set thread_notes \<Longrightarrow> snd n = 1"
proof -
  have len: "length (notes_of_thread t) = 2000" for t by (simp add: notes_of_thread_def)
  show "length thread_notes = 8000" by (simp add: thread_notes_def length_concat comp_def len sum_list_triv)
  show "n \<in> set thread_notes \<Longrightarrow> snd n = 1" by (auto simp: thread_notes_def notes_of_thread_def)
qed

lemma threads_note:
  assumes "mset order = mset thread_notes"
  shows "\<exists>found. stepAddresses (note_all order (beginStep m)) [] = Some found \<and> length found = 8000"
proof -
  let ?m = "note_all order (beginStep m)"
  have order: "set order = set thread_notes" "length order = 8000"
    using mset_eq_setD [OF assms] mset_eq_length [OF assms] thread_notes_size(1) by simp_all
  have "step_room (length order) (beginStep m)" by (simp add: order step_room_def beginStep_def stepLimit_def)
  then have n: "stepOpen ?m" "\<not> stepOverflowed ?m" "stepWrites ?m = map (\<lambda>(a, n). (a, of_nat n)) order"
    using note_all_room [of "beginStep m" order] by (simp_all add: beginStep_def)
  have "set (write_addresses (a, of_nat k)) = {a}" if "(a, k) \<in> set thread_notes" for a k
    using thread_notes_size(2) [OF that] by (simp add: write_addresses_def)
  then have "(\<Union>w \<in> set (stepWrites ?m). set (write_addresses w)) = fst ` set thread_notes"
    unfolding n(3) by (force simp: order)
  then have "journal ?m = Some (fst ` set thread_notes)" using n by (simp add: journal_def)
  moreover from this obtain found where found: "stepAddresses ?m [] = Some found"
    using stepAddresses_none [of ?m "[]"] by fastforce
  ultimately have "distinct found" "set found = fst ` set thread_notes" using stepAddresses_journal [OF found] by simp_all
  then have "length found = 8000" using card_thread_notes distinct_card [of found] by simp
  then show ?thesis using found by blast
qed

lemma many_notes_overflow: "stepAddresses (note_all many_notes (beginStep m)) [] = None"
proof -
  have "length many_notes = stepLimit + 1" by (simp add: many_notes_def stepLimit_def del: upt_Suc)
  then have "stepOverflowed (note_all many_notes (beginStep m))" by (intro note_all_overflow) (simp_all add: beginStep_def)
  then show ?thesis by (simp add: stepAddresses_def)
qed

lemma step_block_passes:
  assumes "\<forall>i. h i" "mset order = mset thread_notes"
  shows "\<exists>cs. step_block h order = Some cs \<and> failures cs = 0"
proof -
  let ?m = "noteStep 0x2000 2 (beginStep new_memory)" and ?ps = "zip [0x2001, 0x2002, 0x3000] [1, 2, 3] :: (u64 \<times> u8) list"
  have ps: "length ?ps = 3" "fst ` set ?ps = {0x2001, 0x2002, 0x3000}" by simp_all
  have inv: "paged_inv ?m" by (simp add: paged_inv_new)
  obtain ok m where w: "writeAll h ?ps ?m = (ok, m)" by fastforce
  then have ok: ok and wr: "wrote ?ps ?m m" using writeAll_ok [OF inv w] assms(1) by auto
  have r: "returned (writeAll h ?ps ?m) = Some m" using w ok by (simp add: returned_def)
  have "write_addresses (0x2000, 2) = [0x2000, 0x2001]" by (simp add: write_addresses_def upt_rec)
  then have j: "journal ?m = Some {0x2000, 0x2001}"
    by (simp add: journal_def noteStep_def beginStep_def stepActive_def stepLimit_def)
  have "step_room 0 m" using wr unfolding wrote_def ps
    by (auto simp: step_room_def noteStep_def beginStep_def stepActive_def stepLimit_def dest!: spec [of _ 0])
  then have "\<not> stepOverflowed m" by (simp add: step_room_def)
  then have "journal m = Some ({0x2000, 0x2001} \<union> {0x2001, 0x2002, 0x3000})"
    using wr unfolding wrote_def noted_def ps j by simp
  also have "{0x2000, 0x2001} \<union> {0x2001, 0x2002, 0x3000} = set [0x2000, 0x2001, 0x2002, 0x3000 :: u64]" by auto
  finally have "stepAddresses m [] = Some [0x2000, 0x2001, 0x2002, 0x3000]" by (rule journal_known) simp_all
  moreover have "stepAddresses new_memory [] = None" "stepAddresses (beginStep m) [] = Some []" "stepAddresses (endStep m') [] = None" for m'
    by (simp_all add: stepAddresses_def new_memory_def beginStep_def endStep_def)
  ultimately show ?thesis
    using threads_note [OF assms(2), of "endStep (note_all many_notes (beginStep m))"]
    unfolding step_block_def Let_def r by (auto simp: many_notes_overflow)
qed

section \<open>Zeros in a range\<close>

lemma zero_words_step:
  assumes "e = (if at OR 7 < upper then at OR 7 else upper)" "n = unat (e - at) + 1"
    "m' = (if take n (drop (word_offset at) (load_word m page (wordAt at))) \<noteq> replicate n 0
       then noteStep at n (snd (storeInWord h at (replicate n 0) m)) else m)"
  shows "zero_words h page upper at m = (if e = upper then m' else zero_words h page upper (e + 1) m')"
  unfolding assms by (subst zero_words.simps) (simp add: Let_def)

lemma zero_block_range:
  assumes "paged_inv m"
  obtains m' where "zeroRange h 0x10003 0x12FFD (beginStep m) = Some m'" "zeroed {0x10003..0x12FFD} (beginStep m) m'"
    "stepOpen m'" "\<not> stepOverflowed m'"
proof -
  have inv: "paged_inv (beginStep m)" using assms by simp
  obtain m' where m': "zeroRange h 0x10003 0x12FFD (beginStep m) = Some m'" "zeroed {0x10003..0x12FFD} (beginStep m) m'"
    using zeroRange_ok [OF inv] by blast
  have "step_room (card {0x10003..0x12FFD :: u64} + 0) (beginStep m)"
    using card_range [of "0x10003" "0x12FFD"] by (simp add: step_room_def beginStep_def stepLimit_def)
  then have "step_room 0 m'" using m'(2) by (simp add: zeroed_def)
  moreover have "stepOpen m'" using m'(2) by (auto simp: zeroed_def noted_def beginStep_def)
  ultimately show ?thesis using that m' by (simp add: step_room_def)
qed

text \<open>What is zero already is left alone.\<close>

lemma zero_words_same:
  assumes "find_page m at = Some page" "at \<le> upper" "pageNumber upper = pageNumber at"
    "\<And>x. x \<in> {at..upper} \<Longrightarrow> view m x = 0"
  shows "zero_words h page upper at m = m"
  using assms
proof (induction "unat upper - unat at" arbitrary: at rule: less_induct)
  case less
  define e where "e = (if at OR 7 < upper then at OR 7 else upper)"
  define count where "count = unat (e - at) + 1"
  have ae: "at \<le> e" "e \<le> at OR 7" "e \<le> upper" using less.prems(2) le_word_or2 [of at 7] by (auto simp: e_def)
  have in_word: "word_offset at + (7 - word_offset at) < 8" using word_offset_less [of at] by linarith
  have we: "unat (at OR 7) = unat at + (7 - word_offset at)" unfolding word_end by (rule in_word_add [OF in_word])
  have d: "unat (e - at) = unat e - unat at" using ae(1) by (simp add: unat_sub)
  then have "unat (e - at) \<le> 7 - word_offset at" using ae we by (simp add: word_le_nat_alt)
  then have fits: "word_offset at + count \<le> 8" using word_offset_less [of at] unfolding count_def by linarith
  have "view m (at + of_nat i) = 0" if "i < count" for i
  proof (rule less.prems(4))
    have "unat (at + of_nat i - at) < count" using that fits by (simp add: unat_of_nat take_bit_eq_mod)
    then have "at \<le> at + of_nat i \<and> at + of_nat i \<le> e"
      using range_count [OF ae(1), of "at + of_nat i"] unfolding count_def by simp
    then show "at + of_nat i \<in> {at..upper}" using ae(3) by auto
  qed
  then have "read_bytes (view m) at count = replicate count 0" by (intro nth_equalityI) simp_all
  then have zeros: "take count (drop (word_offset at) (load_word m page (wordAt at))) = replicate count 0"
    using word_part [OF fits, of m] less.prems(1) by (simp add: loadWord_def)
  have step: "zero_words h page upper at m = (if e = upper then m else zero_words h page upper (e + 1) m)"
    by (rule zero_words_step [OF e_def count_def]) (simp add: zeros)
  show ?case
  proof (cases "e = upper")
    case False
    then have e: "e < upper" using ae(3) by simp
    note nx = word_next [OF ae(1) e]
    have up: "unat (e + 1) \<le> unat upper" using e nx(1) by (simp add: word_less_nat_alt)
    have "pageNumber at \<le> pageNumber (e + 1)" "pageNumber (e + 1) \<le> pageNumber upper"
      using up nx(1) ae(1) by (auto simp: pageNumber_def word_le_nat_alt intro!: div_le_mono)
    then have pn: "pageNumber (e + 1) = pageNumber at" using less.prems(3) by simp
    have "zero_words h page upper (e + 1) m = m"
    proof (rule less.hyps [OF nx(2)])
      show "find_page m (e + 1) = Some page" using less.prems(1) find_page_same_page [OF pn, of m] by simp
      show "view m x = 0" if "x \<in> {e + 1..upper}" for x
        using that less.prems(4) [of x] nx(1) ae(1) by (simp add: word_le_nat_alt)
    qed (use up pn less.prems(3) in \<open>simp_all add: word_le_nat_alt\<close>)
    then show ?thesis using step by simp
  qed (use step in simp)
qed

lemma zeroInPage_same:
  assumes "find_page m base = Some page" "pageOffset base = 0" "first \<le> last'" "\<And>x. x \<in> {first..last'} \<Longrightarrow> view m x = 0"
  shows "zeroInPage h first last' base page m = m"
proof (cases "last' < base \<or> base + 4095 < first")
  case False
  note pl = page_last [OF assms(2)]
  define lower where "lower = (if base < first then first else base)"
  define upper where "upper = (if last' < base + 4095 then last' else base + 4095)"
  have le: "lower \<le> upper" using False assms(3) pl(1)
    unfolding lower_def upper_def if_less_max if_less_min
    by (simp add: not_less word_le_nat_alt [of base "base + 4095"])
  have b: "base \<le> lower" "first \<le> lower" "upper \<le> base + 4095" "upper \<le> last'" by (auto simp: lower_def upper_def)
  have pn: "pageNumber lower = pageNumber base" "pageNumber upper = pageNumber base"
    using pl(2) [of lower] pl(2) [of upper] b le by (auto simp: page_set_def)
  have "view m x = 0" if "x \<in> {lower..upper}" for x
    using that b order_trans [of first lower x] order_trans [of x upper last'] by (intro assms(4)) simp
  then have "zero_words h page upper lower m = m"
    using find_page_same_page [OF pn(1), of m] assms(1) pn by (intro zero_words_same [OF _ le]) simp_all
  moreover have "zeroInPage h first last' base page m = zero_words h page upper lower m"
    using False by (simp add: zeroInPage_def Let_def lower_def upper_def)
  ultimately show ?thesis by simp
qed (simp add: zeroInPage_def Let_def)

lemma zero_pages_same:
  assumes "zero_pages h first last' fuel base m = Some m'" "pageOffset base = 0" "first \<le> last'"
    "\<And>x. x \<in> {first..last'} \<Longrightarrow> view m x = 0"
  shows "m' = m"
  using assms
proof (induction fuel arbitrary: base)
  case (Suc fuel)
  have "(case find_page m base of None \<Rightarrow> m | Some page \<Rightarrow> zeroInPage h first last' base page m) = m"
    using zeroInPage_same [OF _ Suc.prems(2-4)] by (simp split: option.split)
  moreover have "pageOffset (base + 4096) = 0" using Suc.prems(2) by (simp add: pageOffset_def unat_word_ariths mod_mod_cancel)
  ultimately show ?case using Suc.IH [of "base + 4096"] Suc.prems by (auto simp: Let_def split: if_splits)
qed simp

lemma near_range:
  assumes "zeroRange h first last' m = Some m'" "first \<le> last'" "pageNumber last' - pageNumber first < 2 ^ 16"
  shows "zero_pages h first last' (2 ^ 16) (page_base first) m = Some m'"
proof -
  have "drop_bit pageBits last' - drop_bit pageBits first < (2 ^ 16 :: u64)"
    using page_number_diff [OF assms(2)] assms(3) by (simp add: word_less_nat_alt)
  then show ?thesis using assms(1,2) by (simp add: zeroRange_def not_less [symmetric] del: power_numeral)
qed

lemma card_of_range: "a \<le> b \<Longrightarrow> card {a..b :: u64} = unat b - unat a + 1"
proof -
  assume le: "a \<le> b"
  have "unat ` {a..b} = {unat a..unat b}"
  proof
    show "{unat a..unat b} \<subseteq> unat ` {a..b}"
    proof
      fix n assume n: "n \<in> {unat a..unat b}"
      then have "n < 2 ^ 64" using unat64_less [of b] by simp
      then have "unat (of_nat n :: u64) = n" by (simp add: unat_of_nat take_bit_eq_mod)
      then show "n \<in> unat ` {a..b}" using n by (intro image_eqI [of _ _ "of_nat n"]) (simp_all add: word_le_nat_alt)
    qed
  qed (auto simp: word_le_nat_alt)
  moreover have "inj_on unat {a..b}" by (auto intro!: inj_onI simp: word_unat_eq_iff)
  ultimately show ?thesis using card_image [of unat "{a..b}"] le by (simp add: word_le_nat_alt Suc_diff_le)
qed

lemma range_found:
  assumes "stepAddresses m [] = Some found" "journal m = Some {a..b}" "a \<le> b"
  shows "length found = unat b - unat a + 1" "hd found = a" "last found = b"
proof -
  note f = stepAddresses_journal [OF assms(1)]
  then have set: "set found = {a..b}" using assms(2) by simp
  then show "length found = unat b - unat a + 1" using card_of_range [OF assms(3)] distinct_card [OF f(2)] by simp
  have ne: "found \<noteq> []" "a \<in> set found" "b \<in> set found" using set assms(3) by auto
  then have "hd found \<in> {a..b}" "last found \<in> {a..b}" using set by auto
  moreover have "hd found \<le> a" using sorted_wrt_hd [OF f(1) ne(2)] by auto
  moreover have "b \<le> last found" using sorted_wrt_last [OF f(1) ne(3)] by auto
  ultimately show "hd found = a" "last found = b" by auto
qed

lemma zero_block_passes:
  assumes "\<forall>i. h i"
  shows "\<exists>cs. zero_block h = Some cs \<and> failures cs = 0"
proof -
  let ?R = "{0x10003..0x12FFD :: u64}"
  obtain m1 where m1: "returned (fill h 0x10000 (vector_of 20000 6) new_memory) = Some m1" "filled 0x10000 20000 6 new_memory m1"
    using fill_vector [OF paged_inv_new assms, of 20000 _ 6] by auto
  then have i1: "paged_inv m1" by (simp add: filled_def)
  have part: "take 4096 (vector_of 20000 6) = vector_of 4096 6" by (simp only: vector_of_def take_replicate) simp
  obtain m2 where m2: "returned (fill h 0xFFFFFFFFFFFFF000 (vector_of 4096 6) m1) = Some m2" "filled 0xFFFFFFFFFFFFF000 4096 6 m1 m2"
    using fill_vector [OF i1 assms, of 4096] by auto
  then have i2: "paged_inv m2" by (simp add: filled_def)
  have v2: "view m2 x = (if unat (x - 0xFFFFFFFFFFFFF000) < 4096 then 6 else if unat (x - 0x10000) < 20000 then 6 else 0)" for x
    using m1(2) m2(2) by (auto simp: filled_def)
  obtain m3 where m3: "zeroRange h 0x10003 0x12FFD (beginStep m2) = Some m3" "zeroed ?R (beginStep m2) m3"
      "stepOpen m3" "\<not> stepOverflowed m3"
    using zero_block_range [OF i2] by blast
  then have i3: "paged_inv m3" and v3: "\<And>x. view m3 x = (if x \<in> ?R then 0 else view m2 x)" by (simp_all add: zeroed_def)
  have "view m2 x \<noteq> 0" if "x \<in> ?R" for x
  proof -
    have "unat (x - 0x10000) = unat x - 0x10000" using that unat_sub [of "0x10000" x] by (simp add: word_le_nat_alt)
    moreover have "0x10003 \<le> unat x" "unat x \<le> 0x12FFD" using that by (simp_all add: word_le_nat_alt)
    ultimately have "unat (x - 0x10000) < 20000" by simp
    then show ?thesis by (simp add: v2)
  qed
  moreover obtain A where "A \<subseteq> ?R" "\<forall>x \<in> ?R - A. view m2 x = 0" "noted A (beginStep m2) m3" using m3(2) by (auto simp: zeroed_def)
  ultimately have "noted ?R (beginStep m2) m3" using subset_antisym [of A ?R] by blast
  moreover have "journal (beginStep m2) = Some {}" by (simp add: journal_def beginStep_def)
  ultimately have "journal m3 = Some ?R" using m3(4) by (simp add: noted_def)
  moreover from this obtain found where found: "stepAddresses m3 [] = Some found"
    using stepAddresses_none [of m3 "[]"] by fastforce
  ultimately have f: "length found = 0x12FFD - 0x10003 + 1" "hd found = 0x10003" "last found = 0x12FFD"
    using range_found [OF found] by simp_all
  obtain m4 where m4: "zeroRange h 0x10003 0x12FFD (beginStep m3) = Some m4" using zero_block_range [OF i3] by blast
  have "m4 = beginStep m3"
    by (rule zero_pages_same [OF near_range [OF m4]]) (simp_all add: pageNumber_def v3)
  then have i4: "paged_inv (endStep m4)" and s4: "stepAddresses m4 [] = Some []" and v4: "view m4 = view m3"
    using i3 by (simp_all add: stepAddresses_def) (simp_all add: beginStep_def)
  obtain m5 where m5: "zeroRange h 0xFFFFFFFFFFFFFFFE 0xFFFFFFFFFFFFFFFF (endStep m4) = Some m5"
      "zeroed {0xFFFFFFFFFFFFFFFE..0xFFFFFFFFFFFFFFFF} (endStep m4) m5"
    using zeroRange_ok [OF i4] by blast
  then have i5: "paged_inv m5" by (simp add: zeroed_def)
  obtain m6 where m6: "zeroRange h 0 0xFFFFFFFFFFFFFFFF m5 = Some m6" "zeroed {0..0xFFFFFFFFFFFFFFFF} m5 m6"
    using zeroRange_ok [OF i5] by blast
  have m7: "zeroRange h 5 4 m6 = Some m6" by (simp add: zeroRange_def)
  have "view m3 0x10002 = 6" "view m3 0x10003 = 0" "view m3 0x12FFD = 0" "view m3 0x12FFE = 6"
    by (simp_all add: v3 v2)
  moreover have "view m5 0xFFFFFFFFFFFFFFFD = 6" "view m5 0xFFFFFFFFFFFFFFFE = 0" "view m5 0xFFFFFFFFFFFFFFFF = 0"
    using m5(2) by (simp_all add: zeroed_def v4 v3 v2)
  moreover have "view m6 0x12FFE = 0" "view m6 0xFFFFFFFFFFFFF000 = 0"
    using m6(2) by (simp_all add: zeroed_def)
  ultimately show ?thesis
    unfolding zero_block_def part by (simp add: m1(1) m2(1) m3(1) m4 m5(1) m6(1) m7 found f s4 read_byte_view)
qed

section \<open>Threads\<close>

text \<open>What holds of a memory and what each store keeps, each load finds.\<close>

lemma legal_keeps:
  assumes "legal f evs" "Q f" "\<And>a bs g. Stored a bs \<in> set evs \<Longrightarrow> Q g \<Longrightarrow> Q (upd_bytes g a bs)"
  shows "Q (replay f evs) \<and> (\<forall>a w. Loaded a w \<in> set evs \<longrightarrow> (\<exists>g. Q g \<and> w = read_bytes g (a - of_nat (word_offset a)) 8))"
  using assms
proof (induction f evs rule: legal.induct)
  case (2 f a bs evs)
  have q: "Q (upd_bytes f a bs)" using 2(3) 2(4) [of a bs f] by simp
  have "Q (replay (upd_bytes f a bs) evs) \<and>
      (\<forall>a w. Loaded a w \<in> set evs \<longrightarrow> (\<exists>g. Q g \<and> w = read_bytes g (a - of_nat (word_offset a)) 8))"
    by (rule 2(1)) (use 2(2,4) q in auto)
  then show ?case by simp
next
  case (3 f a w evs)
  have "Q (replay f evs) \<and> (\<forall>a w. Loaded a w \<in> set evs \<longrightarrow> (\<exists>g. Q g \<and> w = read_bytes g (a - of_nat (word_offset a)) 8))"
    by (rule 3(1)) (use 3(2-4) in auto)
  then show ?case using 3(2,3) by auto
qed simp

text \<open>A thread that is done did the access that it began.\<close>

fun event_of :: "access \<Rightarrow> event \<Rightarrow> bool" where
  "event_of (Store a bs) e \<longleftrightarrow> e = Stored a bs"
| "event_of (Load a) e \<longleftrightarrow> (\<exists>w. e = Loaded a w)"

fun doing :: "access \<Rightarrow> pc \<Rightarrow> bool" where
  "doing acc (Walking acc' k n) \<longleftrightarrow> acc' = acc"
| "doing acc (NodeMade acc' k n c) \<longleftrightarrow> acc' = acc"
| "doing acc (PageMade a bs n p) \<longleftrightarrow> acc = Store a bs"
| "doing acc (PageLost a bs p q) \<longleftrightarrow> acc = Store a bs"
| "doing acc (OnPage acc' p) \<longleftrightarrow> acc' = acc"
| "doing acc (Exchanging a bs p w) \<longleftrightarrow> acc = Store a bs"
| "doing acc (Done e) \<longleftrightarrow> event_of acc e"
| "doing acc Failed \<longleftrightarrow> True"

lemma no_page_event [simp]: "event_of acc (no_page acc)"
  by (cases acc) simp_all

lemma advance_doing: "doing acc q \<Longrightarrow> advance h q m = (q', m', ev) \<Longrightarrow> doing acc q'"
  by (cases "(h, q, m)" rule: advance.cases)
    (auto split: void_ptr.splits access.splits if_splits option.splits prod.splits bool.splits simp: Let_def)

lemma spurious_doing: "doing acc q \<Longrightarrow> spurious q m = Some q' \<Longrightarrow> doing acc q'"
  by (cases "(q, m)" rule: spurious.cases) auto

lemma run_doing:
  assumes "conc_run h s evs s'" "list_all2 doing accs (threads s)"
  shows "list_all2 doing accs (threads s')"
  using assms
proof (induction rule: conc_run.induct)
  case (run_step s evs s1 ev s2)
  then have IH: "list_all2 doing accs (threads s1)" by simp
  from run_step.hyps(2) show ?case
  proof (cases rule: conc_step.cases)
    case (advance t q m')
    then show ?thesis using IH advance_doing by (auto simp: list_all2_conv_all_nth nth_list_update)
  next
    case (spurious t q)
    then show ?thesis using IH spurious_doing by (auto simp: list_all2_conv_all_nth nth_list_update)
  qed
qed simp

lemma start_doing: "list_all2 doing accs (map start accs)"
  by (simp add: list_all2_conv_all_nth start_def)

lemma run_events:
  assumes "conc_run h \<lparr>mem = m, threads = map start accs\<rparr> evs s" "paged_inv m" "list_all access_ok accs" "e \<in> set evs"
  obtains acc where "acc \<in> set accs" "event_of acc e"
proof -
  have "e \<in># finished s" using linearize [OF assms(1) conc_inv_start [OF assms(2,3)]] assms(4) by simp
  then obtain q where q: "q \<in> set (threads s)" "e \<in> set (done_event q)" by (auto simp: finished_def)
  from q(2) have "q = Done e" by (cases q) simp_all
  then obtain i where i: "i < length (threads s)" "threads s ! i = Done e" using q(1) by (auto simp: in_set_conv_nth)
  have "list_all2 doing accs (threads s)" using run_doing [OF assms(1)] start_doing by simp
  then have "i < length accs" "doing (accs ! i) (Done e)" using i by (auto simp: list_all2_conv_all_nth)
  then show ?thesis using that [of "accs ! i"] by simp
qed

lemma done_events:
  assumes "conc_run h \<lparr>mem = m, threads = map start accs\<rparr> evs s" "paged_inv m" "list_all access_ok accs" "all_done s"
    "Store a bs \<in> set accs"
  shows "Stored a bs \<in> set evs"
proof -
  have all: "list_all2 doing accs (threads s)" using run_doing [OF assms(1)] start_doing by simp
  obtain i where i: "i < length accs" "accs ! i = Store a bs" using assms(5) by (auto simp: in_set_conv_nth)
  then have len: "i < length (threads s)" and d: "doing (Store a bs) (threads s ! i)" using all by (auto simp: list_all2_conv_all_nth)
  moreover obtain e where "threads s ! i = Done e"
    using assms(4) len by (cases "threads s ! i") (auto simp: all_done_def list_all_length dest!: spec [of _ i])
  ultimately have "Done (Stored a bs) \<in> set (threads s)" by (metis doing.simps(7) event_of.simps(1) nth_mem)
  then have "Stored a bs \<in># finished s" by (force simp: finished_def)
  then show ?thesis using linearize [OF assms(1) conc_inv_start [OF assms(2,3)]] by simp
qed

lemma replay_bytes:
  assumes "\<And>e. e \<in> set evs \<Longrightarrow> \<exists>a v. e = Stored a [v] \<and> (a = x \<longrightarrow> v = u)"
  shows "replay f evs x = (if Stored x [u] \<in> set evs then u else f x)"
  using assms
proof (induction evs arbitrary: f)
  case (Cons e evs)
  have "\<exists>a v. e = Stored a [v] \<and> (a = x \<longrightarrow> v = u)" by (rule Cons.prems) simp
  then obtain a v where e: "e = Stored a [v]" "a = x \<longrightarrow> v = u" by blast
  have "replay (f(a := v)) evs x = (if Stored x [u] \<in> set evs then u else (f(a := v)) x)"
    by (rule Cons.IH) (rule Cons.prems, simp)
  moreover have "replay f (e # evs) x = replay (f(a := v)) evs x" by (simp add: e(1))
  moreover have "Stored x [u] \<in> set (e # evs) \<longleftrightarrow> a = x \<or> Stored x [u] \<in> set evs" using e by auto
  ultimately show ?case using e(2) by (simp only: fun_upd_apply) auto
next
  case Nil
  show ?case by simp
qed

lemma unat_of_nat64: "k < 2 ^ 64 \<Longrightarrow> unat (of_nat k :: u64) = k"
  by (simp add: unat_of_nat take_bit_eq_mod)

lemma shared_place:
  assumes "page < 2 ^ 34" "thread < 256"
  shows "unat (push_bit 30 (of_nat page) + of_nat thread :: u64) = 2 ^ 30 * page + thread"
proof -
  have "2 ^ 30 * page + thread < 2 ^ 30 * (page + 1)" using assms by simp
  also have "\<dots> \<le> 2 ^ 30 * 2 ^ 34" using assms(1) by (intro mult_le_mono2) simp
  finally have "2 ^ 30 * page + thread < 2 ^ 64" by simp
  moreover have "(push_bit 30 (of_nat page) + of_nat thread :: u64) = of_nat (2 ^ 30 * page + thread)"
    by (simp add: push_bit_eq_mult ac_simps)
  ultimately show ?thesis by (simp only: unat_of_nat64)
qed

lemma shared_passes:
  assumes "conc_run h \<lparr>mem = new_memory, threads = map start (shared_accesses n pages)\<rparr> evs s" "all_done s"
    "n < 256" "pages \<le> 2 ^ 34"
  shows "shared_check n pages (mem s)"
  unfolding shared_check_def
proof (intro allI impI)
  fix page thread assume p: "page < pages" "thread < n"
  let ?accs = "shared_accesses n pages" and ?x = "push_bit 30 (of_nat page) + of_nat thread :: u64"
  have acc: "\<exists>p t. acc = Store (push_bit 30 (of_nat p) + of_nat t) [of_nat (t + 1)] \<and> p < pages \<and> t < n" if "acc \<in> set ?accs" for acc
  proof -
    from that obtain p t where "t < n" "p < pages" "acc = Store (push_bit 30 (of_nat p) + of_nat t) [of_nat (t + 1)]"
      by (auto simp: shared_accesses_def)
    then show ?thesis by blast
  qed
  have ok: "list_all access_ok ?accs"
  proof (unfold list_all_iff, intro ballI)
    fix acc assume "acc \<in> set ?accs"
    then obtain a v where "acc = Store a [v]" using acc by blast
    then show "access_ok acc" using word_offset_less [of a] by (simp del: word_offset_less)
  qed
  have "Store ?x [of_nat (thread + 1)] \<in> set ?accs" using p unfolding shared_accesses_def by fastforce
  then have stored: "Stored ?x [of_nat (thread + 1)] \<in> set evs" by (rule done_events [OF assms(1) paged_inv_new ok assms(2)])
  have "\<exists>a v. e = Stored a [v] \<and> (a = ?x \<longrightarrow> v = of_nat (thread + 1))" if e: "e \<in> set evs" for e
  proof -
    obtain acc' where "acc' \<in> set ?accs" "event_of acc' e" by (rule run_events [OF assms(1) paged_inv_new ok e])
    then obtain p' t where t: "e = Stored (push_bit 30 (of_nat p') + of_nat t) [of_nat (t + 1)]" "p' < pages" "t < n"
      using acc [of acc'] by auto
    have "t = thread" if "push_bit 30 (of_nat p') + of_nat t = ?x"
    proof -
      have "2 ^ 30 * p' + t = 2 ^ 30 * page + thread"
        using arg_cong [OF that, of unat] shared_place [of p' t] shared_place [of page thread] t p assms(3,4) by simp
      then have "(2 ^ 30 * p' + t) mod 2 ^ 30 = (2 ^ 30 * page + thread) mod 2 ^ 30" by simp
      then show ?thesis using t(3) p(2) assms(3) part_div(2) [of t "2 ^ 30" p'] part_div(2) [of thread "2 ^ 30" page] by simp
    qed
    then show ?thesis using t(1) by blast
  qed
  from replay_bytes [of evs ?x, OF this] stored have "replay (view new_memory) evs ?x = of_nat (thread + 1)" by simp
  then have "read_byte (mem s) ?x = of_nat (thread + 1)"
    using linearize [OF assms(1) conc_inv_start [OF paged_inv_new ok]] by (simp add: read_byte_view)
  then show "unat (read_byte (mem s) ?x) = thread + 1"
    using p(2) assms(3) by (simp add: unat_of_nat take_bit_eq_mod flip: of_nat_Suc)
qed

lemma word_offset_at: "offset < 8 \<Longrightarrow> word_offset (0x5000 + of_nat offset) = offset"
proof -
  assume "offset < 8"
  then have "offset = 0 \<or> offset = 1 \<or> offset = 2 \<or> offset = 3 \<or> offset = 4 \<or> offset = 5 \<or> offset = 6 \<or> offset = 7" by linarith
  then show ?thesis by (elim disjE) (simp_all add: word_offset_def)
qed

text \<open>The bytes of the writer are all the same, and the byte of the neighbour is the one it stores or none.\<close>

definition whole :: "nat \<Rightarrow> nat \<Rightarrow> memory \<Rightarrow> bool" where
  "whole offset sz f \<longleftrightarrow> (\<forall>i < sz. f (0x5000 + of_nat (offset + i)) = f (0x5000 + of_nat offset)) \<and>
     (offset \<noteq> 0 \<longrightarrow> f 0x5000 = 0 \<or> f 0x5000 = 0x5A)"

lemma whole_accesses_cases:
  assumes "acc \<in> set (whole_accesses offset sz writes stores reads)"
  obtains v where "acc = Store (0x5000 + of_nat offset) (replicate sz v)"
  | "offset \<noteq> 0" "acc = Store 0x5000 [0x5A]"
  | "acc = Load (0x5000 + of_nat offset)"
  using assms by (auto simp: whole_accesses_def writer_accesses_def neighbour_accesses_def reader_accesses_def split: if_splits)

lemma whole_writer:
  assumes "whole offset sz f" "offset + sz \<le> 8"
  shows "whole offset sz (upd_bytes f (0x5000 + of_nat offset) (replicate sz v))"
proof -
  have "unat (of_nat i :: u64) = i" if "i < 8" for i :: nat using that by (simp add: unat_of_nat take_bit_eq_mod)
  moreover have "\<not> unat (0x5000 - (0x5000 + of_nat offset) :: u64) < sz" if "offset \<noteq> 0"
  proof (cases "offset < 8")
    case True
    then have "unat (0x5000 + of_nat offset :: u64) = 0x5000 + offset" by (simp add: unat_word_ariths unat_of_nat take_bit_eq_mod)
    then have "unat (0x5000 - (0x5000 + of_nat offset) :: u64) = 2 ^ 64 - offset"
      unfolding unat_sub_if' using that by simp
    then show ?thesis using assms(2) by simp
  qed (use assms(2) in simp)
  ultimately show ?thesis using assms by (simp add: whole_def upd_bytes_apply)
qed

lemma whole_neighbour:
  assumes "whole offset sz f" "offset + sz \<le> 8" "offset \<noteq> 0"
  shows "whole offset sz (upd_bytes f 0x5000 [0x5A])"
proof -
  have "(0x5000 + of_nat (offset + i) :: u64) \<noteq> 0x5000" if "i < sz" for i
    using that assms(2,3) by (simp add: unat_of_nat take_bit_eq_mod flip: unat_eq_0 of_nat_add)
  from this [of 0] this show ?thesis using assms(1,3) by (cases "sz = 0") (auto simp: whole_def)
qed

lemma whole_passes:
  assumes "conc_run h \<lparr>mem = new_memory, threads = map start (whole_accesses offset sz writes stores reads)\<rparr> evs s"
    "offset < 8" "offset + sz \<le> 8"
  shows "(\<forall>e \<in> set evs. \<not> torn offset sz e) \<and> (offset \<noteq> 0 \<longrightarrow> read_byte (mem s) 0x5000 = 0x5A \<or> read_byte (mem s) 0x5000 = 0)"
proof -
  let ?accs = "whole_accesses offset sz writes stores reads"
  note at = word_offset_at [OF assms(2)]
  have "access_ok acc" if "acc \<in> set ?accs" for acc
    by (rule whole_accesses_cases [OF that]) (use assms(3) at in \<open>simp_all add: word_offset_def [of "0x5000"]\<close>)
  then have ok: "list_all access_ok ?accs" by (simp add: list_all_iff)
  note lin = linearize [OF assms(1) conc_inv_start [OF paged_inv_new ok]]
  have keep: "whole offset sz (upd_bytes g a bs)" if e: "Stored a bs \<in> set evs" and g: "whole offset sz g" for a bs g
  proof -
    obtain acc where "acc \<in> set ?accs" "event_of acc (Stored a bs)" by (rule run_events [OF assms(1) paged_inv_new ok e])
    then show ?thesis using whole_writer [OF g assms(3)] whole_neighbour [OF g assms(3)] by (auto elim: whole_accesses_cases)
  qed
  have "whole offset sz (view new_memory)" by (simp add: whole_def)
  from legal_keeps [of "view new_memory" evs, OF _ this keep] lin
  have q: "whole offset sz (view (mem s))"
    and l: "\<And>a w. Loaded a w \<in> set evs \<Longrightarrow> \<exists>g. whole offset sz g \<and> w = read_bytes g (a - of_nat (word_offset a)) 8"
    by simp_all
  have "\<not> torn offset sz e" if e: "e \<in> set evs" for e
  proof (cases e)
    case (Loaded a w)
    obtain acc where "acc \<in> set ?accs" "event_of acc e" by (rule run_events [OF assms(1) paged_inv_new ok e])
    then have "a = 0x5000 + of_nat offset" using Loaded by (auto elim: whole_accesses_cases)
    then obtain g where g: "whole offset sz g" "w = read_bytes g 0x5000 8" using l [of a w] e at by (auto simp: Loaded)
    have "w ! (offset + index) = w ! offset" if "index < sz" for index
      using that g(1) assms(2,3) by (auto simp: g(2) whole_def)
    then show ?thesis by (simp add: Loaded)
  qed simp
  then show ?thesis using q by (auto simp: whole_def read_byte_view)
qed

lemma word_accesses_cases:
  assumes "acc \<in> set (word_accesses writes reads)"
  obtains v where "v = 0 \<or> v = 0xFF" "acc = Store 0x7000 (replicate 8 v)" | "acc = Load 0x7000"
  using assms by (auto simp: word_accesses_def writer_accesses_def reader_accesses_def split: if_splits)

lemma word_passes:
  assumes "conc_run h \<lparr>mem = new_memory, threads = map start (word_accesses writes reads)\<rparr> evs s"
  shows "\<forall>e \<in> set evs. \<not> torn_word e"
proof -
  let ?accs = "word_accesses writes reads"
  define Q where "Q f \<longleftrightarrow> (\<exists>v. (v = 0 \<or> v = 0xFF) \<and> read_bytes f 0x7000 8 = replicate 8 v)" for f :: memory
  have at: "word_offset 0x7000 = 0" by (simp add: word_offset_def)
  have "access_ok acc" if "acc \<in> set ?accs" for acc
    by (rule word_accesses_cases [OF that]) (simp_all add: at)
  then have ok: "list_all access_ok ?accs" by (simp add: list_all_iff)
  note lin = linearize [OF assms conc_inv_start [OF paged_inv_new ok]]
  have keep: "Q (upd_bytes g a bs)" if e: "Stored a bs \<in> set evs" and g: "Q g" for a bs g
  proof -
    obtain acc where "acc \<in> set ?accs" "event_of acc (Stored a bs)" by (rule run_events [OF assms paged_inv_new ok e])
    then obtain v where v: "v = 0 \<or> v = 0xFF" "a = 0x7000" "bs = replicate 8 v" by (auto elim: word_accesses_cases)
    have "read_bytes (upd_bytes g a bs) 0x7000 8 = replicate 8 v"
      unfolding v(2,3) by (rule nth_equalityI) (simp_all add: upd_bytes_apply unat_of_nat take_bit_eq_mod del: upd_bytes.simps)
    then show ?thesis using v(1) by (auto simp: Q_def)
  qed
  have "Q (view new_memory)" unfolding Q_def by (intro exI [of _ 0] conjI nth_equalityI) simp_all
  from legal_keeps [of "view new_memory" evs Q, OF _ this keep] lin
  have l: "\<And>a w. Loaded a w \<in> set evs \<Longrightarrow> \<exists>g. Q g \<and> w = read_bytes g (a - of_nat (word_offset a)) 8" by simp
  show ?thesis
  proof
    fix e assume e: "e \<in> set evs"
    show "\<not> torn_word e"
    proof (cases e)
      case (Loaded a w)
      obtain acc where "acc \<in> set ?accs" "event_of acc e" by (rule run_events [OF assms paged_inv_new ok e])
      then have "a = 0x7000" using Loaded by (auto elim: word_accesses_cases)
      then show ?thesis using l [of a w] e at unfolding Loaded Q_def by auto
    qed simp
  qed
qed

text \<open>\<open>writeAll\<close> of the bytes of a word in order is one store of the word.\<close>

lemma writeAll_word:
  assumes "length bs = 8"
  shows "writeAll h (zip (map (\<lambda>i. 0x7000 + of_nat i) [0..<8]) bs) m =
    (case storeInWord h 0x7000 bs m of (False, m') \<Rightarrow> (False, m') | (True, m') \<Rightarrow> (True, noteStep 0x7000 8 m'))"
proof -
  obtain b0 b1 b2 b3 b4 b5 b6 b7 where bs: "bs = [b0, b1, b2, b3, b4, b5, b6, b7]"
    using assms by (auto simp: length_Suc_conv numeral_eq_Suc)
  have "zip (map (\<lambda>i. 0x7000 + of_nat i) [0..<8]) bs =
      [(0x7000 :: u64, b0), (0x7001, b1), (0x7002, b2), (0x7003, b3), (0x7004, b4), (0x7005, b5), (0x7006, b6), (0x7007, b7)]"
    unfolding bs by (simp add: upt_rec)
  moreover have "word_offset 0x7000 = 0" by (simp add: word_offset_def)
  ultimately show ?thesis by (simp add: writeAll.simps Let_def bs eval_nat_numeral split: prod.split bool.split)
qed

section \<open>Properties\<close>

text \<open>
  C37. The blocks of the test that one thread runs, and the one where four note what they wrote, in whichever order they get to, return
  and none of their checks fails, on a system that has memory, with pages of the size of the system's or not, and for any word.
\<close>

theorem stress_alone_passes:
  assumes "\<forall>i. h i" "mset order = mset (concat (map notes_of_thread [0..<4]))" "length value = 8"
  shows "\<exists>cs. alone h order samePages value = Some cs \<and> failures cs = 0"
proof -
  have order: "mset order = mset thread_notes" using assms(2) by (simp add: thread_notes_def)
  obtain copies steps fills zeros top trims where b:
      "copy_block h = Some copies" "failures copies = 0" "step_block h order = Some steps" "failures steps = 0"
      "fill_block h = Some fills" "failures fills = 0" "zero_block h = Some zeros" "failures zeros = 0"
      "top_block h samePages value = Some top" "failures top = 0" "trim_block h samePages = Some trims" "failures trims = 0"
    using copy_block_passes [OF assms(1)] step_block_passes [OF assms(1) order] fill_block_passes [OF assms(1)]
      zero_block_passes [OF assms(1)] top_block_passes [OF assms(1,3)] trim_block_passes [OF assms(1)]
    by blast
  then show ?thesis by (simp add: alone_def)
qed

theorem stress_alone_passes_witness:
  "\<exists>cs. alone granted (concat (map notes_of_thread [0..<4])) True [0x88, 0x77, 0x66, 0x55, 0x44, 0x33, 0x22, 0x11] = Some cs \<and>
     failures cs = 0"
  by (rule stress_alone_passes) simp_all

text \<open>
  C38. The blocks of threads, interleaved in any way: once all of them are done, every byte that a thread stored on a page that they
  made at once is there; no load within a word finds part of a store, whatever its size and place, and the byte beside
  it is what its own thread stored; and no load finds part of a word that was written by bytes at once.
\<close>

theorem stress_threads_pass:
  "(n < 256 \<and> pages \<le> 2 ^ 34 \<and> conc_run h \<lparr>mem = new_memory, threads = map start (shared_accesses n pages)\<rparr> evs s \<and> all_done s \<longrightarrow>
      shared_check n pages (mem s)) \<and>
   (offset < 8 \<and> offset + sz \<le> 8 \<and>
      conc_run h \<lparr>mem = new_memory, threads = map start (whole_accesses offset sz writes stores reads)\<rparr> evs s \<longrightarrow>
      (\<forall>e \<in> set evs. \<not> torn offset sz e) \<and>
      (offset \<noteq> 0 \<longrightarrow> read_byte (mem s) 0x5000 = 0x5A \<or> read_byte (mem s) 0x5000 = 0)) \<and>
   (conc_run h \<lparr>mem = new_memory, threads = map start (word_accesses writes reads)\<rparr> evs s \<longrightarrow> (\<forall>e \<in> set evs. \<not> torn_word e))"
  using shared_passes whole_passes word_passes by blast

text \<open>A thread alone, as many steps as it is given.\<close>

fun run_alone :: "nat \<Rightarrow> host \<Rightarrow> pc \<Rightarrow> paged \<Rightarrow> pc \<times> paged \<times> event list" where
  "run_alone 0 h q m = (q, m, [])"
| "run_alone (Suc k) h q m =
     (case run_alone k h q m of (q', m', evs) \<Rightarrow>
        (case advance h q' m' of (q'', m'', ev) \<Rightarrow> (q'', m'', evs @ (case ev of None \<Rightarrow> [] | Some e \<Rightarrow> [e]))))"

lemma run_alone_run:
  "run_alone k h q m = (q', m', evs) \<Longrightarrow> conc_run h \<lparr>mem = m, threads = [q]\<rparr> evs \<lparr>mem = m', threads = [q']\<rparr>"
proof (induction k arbitrary: q' m' evs)
  case 0
  then show ?case by (auto intro: conc_run.run_nil)
next
  case (Suc k)
  obtain q1 m1 evs1 q2 m2 ev where r: "run_alone k h q m = (q1, m1, evs1)" "advance h q1 m1 = (q2, m2, ev)"
    by (metis prod_cases3)
  have "conc_step h \<lparr>mem = m1, threads = [q1]\<rparr> ev \<lparr>mem = m2, threads = [q2]\<rparr>"
    using conc_step.advance [of 0 "\<lparr>mem = m1, threads = [q1]\<rparr>" h q2 m2 ev] r(2) by simp
  from conc_run.run_step [OF Suc.IH [OF r(1)] this] show ?case using Suc.prems r by simp
qed

theorem stress_threads_pass_witness:
  "\<exists>evs s. conc_run granted \<lparr>mem = new_memory, threads = map start (shared_accesses 1 1)\<rparr> evs s \<and> all_done s \<and> shared_check 1 1 (mem s)"
proof -
  have accs: "map start (shared_accesses 1 1) = [Walking (Store 0 [1]) 3 0]"
    by (simp add: shared_accesses_def start_def)
  obtain q m evs where run: "run_alone 10 granted (Walking (Store 0 [1]) 3 0) new_memory = (q, m, evs)" by (metis prod_cases3)
  then have "q = Done (Stored 0 [1])"
    by (simp add: eval_nat_numeral newNode_def newPage_def newChunk_def new_memory_def exchange_entry_def set_entry_def indexAt_def Let_def)
  then have "all_done \<lparr>mem = m, threads = [q]\<rparr>" by (simp add: all_done_def)
  moreover note r = run_alone_run [OF run]
  moreover have "shared_check 1 1 (mem \<lparr>mem = m, threads = [q]\<rparr>)"
    using stress_threads_pass [of 1 1 granted evs "\<lparr>mem = m, threads = [q]\<rparr>"] r calculation(1) unfolding accs by simp
  ultimately show ?thesis unfolding accs by blast
qed

end
