(* ===== verification/Builtins.thy ===== *)
theory Builtins
  imports Prelude "HOL-Library.Signed_Division"
begin

unbundle bit_operations_syntax

text \<open>
  \<open>testsuite/musl/builtins.c\<close>: what the programs under test have from no library, functions on memory and strings and the division
  of 64-bit numbers for targets of 32 bits. Loops over a count are recursion on it; those that look for a zero, and the one
  that scales a divisor, are partial functions into option, None where they would go on for ever. A signed negation that
  overflows wraps, as it does in what compilers make of it.

  What is shown: that a move between places that overlap moves the bytes that were there, that the loops over strings return where
  there is a zero, and that the divisions are those of integers, with the results for 0 and for the least number.
\<close>

section \<open>Memory\<close>

text \<open>The pointer that a copy, a move or a fill returns is the one it was given; what it makes of memory is the value here.\<close>

fun copy_up :: "memory \<Rightarrow> u64 \<Rightarrow> u64 \<Rightarrow> nat \<Rightarrow> memory" where
  "copy_up m a b 0 = m"
| "copy_up m a b (Suc n) = copy_up (m(a := m b)) (a + 1) (b + 1) n"

fun copy_down :: "memory \<Rightarrow> u64 \<Rightarrow> u64 \<Rightarrow> nat \<Rightarrow> memory" where
  "copy_down m a b 0 = m"
| "copy_down m a b (Suc n) = copy_down (m(a + of_nat n := m (b + of_nat n))) a b n"

definition memcpy :: "memory \<Rightarrow> u64 \<Rightarrow> u64 \<Rightarrow> nat \<Rightarrow> memory" where
  "memcpy m d s n = copy_up m d s n"

definition memmove :: "memory \<Rightarrow> u64 \<Rightarrow> u64 \<Rightarrow> nat \<Rightarrow> memory" where
  "memmove m d s n = (if d < s then copy_up m d s n else copy_down m d s n)"

fun memset_loop :: "memory \<Rightarrow> u64 \<Rightarrow> u8 \<Rightarrow> nat \<Rightarrow> memory" where
  "memset_loop m a v 0 = m"
| "memset_loop m a v (Suc n) = memset_loop (m(a := v)) (a + 1) v n"

definition memset :: "memory \<Rightarrow> u64 \<Rightarrow> u32 \<Rightarrow> nat \<Rightarrow> memory" where
  "memset m d v n = memset_loop m d (ucast v) n"

fun memcmp :: "memory \<Rightarrow> u64 \<Rightarrow> u64 \<Rightarrow> nat \<Rightarrow> int" where
  "memcmp m a b 0 = 0"
| "memcmp m a b (Suc n) = (if m a \<noteq> m b then uint (m a) - uint (m b) else memcmp m (a + 1) (b + 1) n)"

section \<open>Strings\<close>

partial_function (option) strlen_loop :: "memory \<Rightarrow> u64 \<Rightarrow> u64 \<Rightarrow> u64 option" where
  "strlen_loop m s n = (if m (s + n) \<noteq> 0 then strlen_loop m s (n + 1) else Some n)"

definition strlen :: "memory \<Rightarrow> u64 \<Rightarrow> u64 option" where
  "strlen m s = strlen_loop m s 0"

partial_function (option) strcmp :: "memory \<Rightarrow> u64 \<Rightarrow> u64 \<Rightarrow> int option" where
  "strcmp m a b = (if m a \<noteq> 0 \<and> m a = m b then strcmp m (a + 1) (b + 1) else Some (uint (m a) - uint (m b)))"

fun strncmp_loop :: "memory \<Rightarrow> u64 \<Rightarrow> u64 \<Rightarrow> nat \<Rightarrow> int" where
  "strncmp_loop m a b 0 = uint (m a) - uint (m b)"
| "strncmp_loop m a b (Suc n) =
     (if m a \<noteq> 0 \<and> m b \<noteq> 0 \<and> m a = m b then strncmp_loop m (a + 1) (b + 1) n else uint (m a) - uint (m b))"

fun strncmp :: "memory \<Rightarrow> u64 \<Rightarrow> u64 \<Rightarrow> nat \<Rightarrow> int" where
  "strncmp m a b 0 = 0"
| "strncmp m a b (Suc n) = strncmp_loop m a b n"

text \<open>The null pointer where there is none.\<close>

partial_function (option) strchr_loop :: "memory \<Rightarrow> u64 \<Rightarrow> u8 \<Rightarrow> u64 option" where
  "strchr_loop m s c = (if m s = c then Some s else if m s = 0 then Some 0 else strchr_loop m (s + 1) c)"

definition strchr :: "memory \<Rightarrow> u64 \<Rightarrow> u32 \<Rightarrow> u64 option" where
  "strchr m s c = strchr_loop m s (ucast c)"

section \<open>Division\<close>

partial_function (option) udiv_scale :: "u64 \<Rightarrow> u64 \<Rightarrow> u64 \<Rightarrow> (u64 \<times> u64) option" where
  "udiv_scale n d b = (if d < n \<and> drop_bit 63 d = 0 then udiv_scale n (push_bit 1 d) (push_bit 1 b) else Some (d, b))"

lemma drop_bit_less: "b \<noteq> 0 \<Longrightarrow> unat (drop_bit 1 b) < unat (b :: u64)"
  by (simp add: drop_bit_eq_div unat_div unat_gt_0)

function udiv_subtract :: "u64 \<Rightarrow> u64 \<Rightarrow> u64 \<Rightarrow> u64 \<Rightarrow> u64 \<times> u64" where
  "udiv_subtract n d b q =
     (if b = 0 then (n, q)
      else if n \<ge> d then udiv_subtract (n - d) (drop_bit 1 d) (drop_bit 1 b) (q OR b)
      else udiv_subtract n (drop_bit 1 d) (drop_bit 1 b) q)"
  by pat_completeness auto
termination
  by (relation "measure (\<lambda>(n, d, b, q). unat b)") (use drop_bit_less in auto)

declare udiv_subtract.simps [simp del]

text \<open>The quotient, and what is left if it is written.\<close>

definition udivmoddi4 :: "u64 \<Rightarrow> u64 \<Rightarrow> (u64 \<times> u64 option) option" where
  "udivmoddi4 n d =
     (if d = 0 then Some (0, None)
      else case udiv_scale n d 1 of
             None \<Rightarrow> None
           | Some (d, b) \<Rightarrow> let (n, q) = udiv_subtract n d b 0 in Some (q, Some n))"

definition udivdi3 :: "u64 \<Rightarrow> u64 \<Rightarrow> u64 option" where
  "udivdi3 n d = map_option fst (udivmoddi4 n d)"

definition umoddi3 :: "u64 \<Rightarrow> u64 \<Rightarrow> u64 option" where
  "umoddi3 n d = map_option (\<lambda>(q, r). case r of None \<Rightarrow> 0 | Some r \<Rightarrow> r) (udivmoddi4 n d)"

definition negative :: "u64 \<Rightarrow> bool" where
  "negative x \<longleftrightarrow> sint x < 0"

definition divdi3 :: "u64 \<Rightarrow> u64 \<Rightarrow> u64 option" where
  "divdi3 n d =
     map_option (\<lambda>q. if negative n \<noteq> negative d then - q else q)
       (udivdi3 (if negative n then - n else n) (if negative d then - d else d))"

definition moddi3 :: "u64 \<Rightarrow> u64 \<Rightarrow> u64 option" where
  "moddi3 n d =
     map_option (\<lambda>r. if negative n then - r else r)
       (umoddi3 (if negative n then - n else n) (if negative d then - d else d))"

section \<open>Moves\<close>

lemma read_bytes_Suc: "read_bytes m a (Suc n) = m a # read_bytes m (a + 1) n"
  using read_bytes_add [of m a 1 n] by (simp add: read_bytes_def)

lemma read_bytes_snoc: "read_bytes m a (Suc n) = read_bytes m a n @ [m (a + of_nat n)]"
  by (simp add: read_bytes_def)

lemma read_bytes_upd: "(\<And>i. i < n \<Longrightarrow> a + of_nat i \<noteq> c) \<Longrightarrow> read_bytes (m(c := v)) a n = read_bytes m a n"
  by (auto simp: read_bytes_def)

lemma upd_bytes_swap:
  "(\<And>i. i < length bs \<Longrightarrow> a + of_nat i \<noteq> c) \<Longrightarrow> upd_bytes (m(c := v)) a bs = (upd_bytes m a bs)(c := v)"
proof (induction bs arbitrary: m a)
  case (Cons b bs)
  have "a \<noteq> c" using Cons.prems [of 0] by simp
  have "a + 1 + of_nat i \<noteq> c" if "i < length bs" for i using Cons.prems [of "Suc i"] that by (simp add: add.assoc)
  then have "upd_bytes (m(a := b, c := v)) (a + 1) bs = (upd_bytes (m(a := b)) (a + 1) bs)(c := v)" by (intro Cons.IH)
  then show ?case using fun_upd_twist [OF \<open>a \<noteq> c\<close>, of m b v] by (simp only: upd_bytes.simps)
qed simp

text \<open>A copy upwards reads nothing that it has written, if no byte to read is where an earlier one was put, and one downwards alike.\<close>

lemma copy_up_moves:
  "(\<And>i j. i < j \<Longrightarrow> j < n \<Longrightarrow> b + of_nat j \<noteq> a + of_nat i) \<Longrightarrow> copy_up m a b n = upd_bytes m a (read_bytes m b n)"
proof (induction n arbitrary: m a b)
  case (Suc n)
  have "b + 1 + of_nat j \<noteq> a" if "j < n" for j using Suc.prems [of 0 "Suc j"] that by (simp add: add.assoc)
  then have r: "read_bytes (m(a := m b)) (b + 1) n = read_bytes m (b + 1) n" by (rule read_bytes_upd)
  have "copy_up (m(a := m b)) (a + 1) (b + 1) n = upd_bytes (m(a := m b)) (a + 1) (read_bytes (m(a := m b)) (b + 1) n)"
  proof (rule Suc.IH)
    fix i j :: nat assume "i < j" "j < n"
    then show "b + 1 + of_nat j \<noteq> a + 1 + of_nat i" using Suc.prems [of i j] by simp
  qed
  then show ?case using r by (simp add: read_bytes_Suc)
qed simp

lemma of_nat_u64_eq: "i < 2 ^ 64 \<Longrightarrow> j < 2 ^ 64 \<Longrightarrow> (of_nat i :: u64) = of_nat j \<longleftrightarrow> i = j"
  by (simp add: word_of_nat_eq_iff take_bit_nat_eq_self)

lemma copy_down_moves:
  "n \<le> 2 ^ 64 \<Longrightarrow> (\<And>i j. j < i \<Longrightarrow> i < n \<Longrightarrow> b + of_nat j \<noteq> a + of_nat i) \<Longrightarrow> copy_down m a b n = upd_bytes m a (read_bytes m b n)"
proof (induction n arbitrary: m)
  case (Suc n)
  let ?m = "m(a + of_nat n := m (b + of_nat n))"
  have r: "read_bytes ?m b n = read_bytes m b n" using Suc.prems(2) [of _ n] by (intro read_bytes_upd) simp
  have "a + of_nat i \<noteq> a + of_nat n" if "i < n" for i using that Suc.prems(1) by (simp add: of_nat_u64_eq)
  then have "upd_bytes ?m a (read_bytes m b n) = (upd_bytes m a (read_bytes m b n))(a + of_nat n := m (b + of_nat n))"
    by (intro upd_bytes_swap) simp
  moreover have "copy_down ?m a b n = upd_bytes ?m a (read_bytes ?m b n)" using Suc.prems by (intro Suc.IH) simp_all
  ultimately show ?case using r by (simp only: copy_down.simps read_bytes_snoc upd_bytes_append upd_bytes.simps read_bytes_length)
qed simp

lemma unat_add_of_nat: "unat (a :: u64) + i < 2 ^ 64 \<Longrightarrow> unat (a + of_nat i) = unat a + i"
  by (simp add: unat_word_ariths unat_of_nat)

lemma memmove_is:
  assumes "unat d + n \<le> 2 ^ 64" "unat s + n \<le> 2 ^ 64"
  shows "memmove m d s n = upd_bytes m d (read_bytes m s n)"
proof (cases "d < s")
  case True
  have "s + of_nat j \<noteq> d + of_nat i" if "i < j" "j < n" for i j
  proof -
    have "unat (s + of_nat j) = unat s + j" "unat (d + of_nat i) = unat d + i" using that assms by (simp_all add: unat_add_of_nat)
    then show ?thesis using True that by (auto simp: word_less_nat_alt dest!: arg_cong [of _ _ unat])
  qed
  then show ?thesis using True by (simp add: memmove_def copy_up_moves)
next
  case False
  have "s + of_nat j \<noteq> d + of_nat i" if "j < i" "i < n" for i j
  proof -
    have "unat (s + of_nat j) = unat s + j" "unat (d + of_nat i) = unat d + i" using that assms by (simp_all add: unat_add_of_nat)
    then show ?thesis using False that by (auto simp: word_less_nat_alt dest!: arg_cong [of _ _ unat])
  qed
  then show ?thesis using False assms(1) by (simp add: memmove_def copy_down_moves)
qed

lemma memcpy_is:
  assumes "\<And>i j. i < n \<Longrightarrow> j < n \<Longrightarrow> s + of_nat j \<noteq> d + of_nat i"
  shows "memcpy m d s n = upd_bytes m d (read_bytes m s n)"
  unfolding memcpy_def by (rule copy_up_moves) (use assms in auto)

lemma memset_loop_is: "memset_loop m a v n = upd_bytes m a (replicate n v)"
  by (induction n arbitrary: m a) simp_all

lemma memcmp_same: "memcmp m a b n = 0 \<longleftrightarrow> read_bytes m a n = read_bytes m b n"
  by (induction n arbitrary: a b) (auto simp: read_bytes_Suc word_uint_eq_iff)

section \<open>Strings\<close>

lemma strlen_loop_ends:
  "(\<And>i. i < k \<Longrightarrow> m (s + n + of_nat i) \<noteq> 0) \<Longrightarrow> m (s + n + of_nat k) = 0 \<Longrightarrow> strlen_loop m s n = Some (n + of_nat k)"
proof (induction k arbitrary: n)
  case 0
  then show ?case by (simp add: strlen_loop.simps [of m s n])
next
  case (Suc k)
  have "m (s + n) \<noteq> 0" using Suc.prems(1) [of 0] by simp
  moreover have "strlen_loop m s (n + 1) = Some (n + 1 + of_nat k)"
  proof (rule Suc.IH)
    show "m (s + (n + 1) + of_nat i) \<noteq> 0" if "i < k" for i using Suc.prems(1) [of "Suc i"] that by (simp add: add.assoc)
    show "m (s + (n + 1) + of_nat k) = 0" using Suc.prems(2) by (simp add: add.assoc)
  qed
  ultimately show ?case by (simp add: strlen_loop.simps [of m s n] add.assoc)
qed

lemma strlen_ends:
  "(\<And>i. i < k \<Longrightarrow> m (s + of_nat i) \<noteq> 0) \<Longrightarrow> m (s + of_nat k) = 0 \<Longrightarrow> strlen m s = Some (of_nat k)"
  using strlen_loop_ends [of k m s 0] by (simp add: strlen_def)

text \<open>Strings that are equal up to place \<open>k\<close>, where they end or differ.\<close>

lemma strcmp_ends:
  "(\<And>i. i < k \<Longrightarrow> m (a + of_nat i) \<noteq> 0 \<and> m (a + of_nat i) = m (b + of_nat i)) \<Longrightarrow>
   m (a + of_nat k) = 0 \<or> m (a + of_nat k) \<noteq> m (b + of_nat k) \<Longrightarrow>
   strcmp m a b = Some (uint (m (a + of_nat k)) - uint (m (b + of_nat k)))"
proof (induction k arbitrary: a b)
  case 0
  then show ?case by (auto simp: strcmp.simps [of m a b])
next
  case (Suc k)
  have "m a \<noteq> 0 \<and> m a = m b" using Suc.prems(1) [of 0] by auto
  moreover have "strcmp m (a + 1) (b + 1) = Some (uint (m (a + 1 + of_nat k)) - uint (m (b + 1 + of_nat k)))"
  proof (rule Suc.IH)
    show "m (a + 1 + of_nat i) \<noteq> 0 \<and> m (a + 1 + of_nat i) = m (b + 1 + of_nat i)" if "i < k" for i
      using Suc.prems(1) [of "Suc i"] that by (auto simp: add.assoc)
    show "m (a + 1 + of_nat k) = 0 \<or> m (a + 1 + of_nat k) \<noteq> m (b + 1 + of_nat k)" using Suc.prems(2) by (simp add: add.assoc)
  qed
  ultimately show ?case by (auto simp: strcmp.simps [of m a b] add.assoc)
qed

lemma strchr_loop_ends:
  "(\<And>i. i < k \<Longrightarrow> m (s + of_nat i) \<noteq> 0 \<and> m (s + of_nat i) \<noteq> c) \<Longrightarrow> m (s + of_nat k) = 0 \<or> m (s + of_nat k) = c \<Longrightarrow>
   strchr_loop m s c = Some (if m (s + of_nat k) = c then s + of_nat k else 0)"
proof (induction k arbitrary: s)
  case 0
  then show ?case by (auto simp: strchr_loop.simps [of m s c])
next
  case (Suc k)
  have "m s \<noteq> 0 \<and> m s \<noteq> c" using Suc.prems(1) [of 0] by simp
  moreover have "strchr_loop m (s + 1) c = Some (if m (s + 1 + of_nat k) = c then s + 1 + of_nat k else 0)"
  proof (rule Suc.IH)
    show "m (s + 1 + of_nat i) \<noteq> 0 \<and> m (s + 1 + of_nat i) \<noteq> c" if "i < k" for i
      using Suc.prems(1) [of "Suc i"] that by (simp add: add.assoc)
    show "m (s + 1 + of_nat k) = 0 \<or> m (s + 1 + of_nat k) = c" using Suc.prems(2) by (simp add: add.assoc)
  qed
  ultimately show ?case by (simp add: strchr_loop.simps [of m s c] add.assoc)
qed

section \<open>Divisions\<close>

lemma drop_bit_63: "drop_bit 63 (d :: u64) = 0 \<longleftrightarrow> unat d < 2 ^ 63"
  by (simp add: word_unat_eq_iff drop_bit_eq_div unat_div div_eq_0_iff)

lemma unat_push_bit_1: "unat (d :: u64) < 2 ^ 63 \<Longrightarrow> unat (push_bit 1 d) = 2 * unat d"
  by (simp add: push_bit_eq_mult unat_word_ariths)

text \<open>The divisor is scaled until it is at least the dividend, or twice it would be too big for a word.\<close>

lemma udiv_scale_ends:
  assumes "unat d = d0 * 2 ^ k" "unat b = 2 ^ k" "d0 > 0"
  shows "\<exists>d' b' k'. udiv_scale n d b = Some (d', b') \<and> unat d' = d0 * 2 ^ k' \<and> unat b' = 2 ^ k' \<and> unat n < 2 * unat d'"
  using assms
proof (induction "2 ^ 64 - unat d" arbitrary: d b k rule: less_induct)
  case less
  show ?case
  proof (cases "d < n \<and> drop_bit 63 d = 0")
    case True
    then have l: "unat d < 2 ^ 63" using drop_bit_63 by blast
    then have d: "unat (push_bit 1 d) = 2 * unat d" by (rule unat_push_bit_1)
    have "2 ^ k \<le> d0 * 2 ^ k" using less.prems(3) by simp
    then have b: "unat (push_bit 1 b) = 2 * unat b" using l less.prems(1,2) by (intro unat_push_bit_1) linarith
    have "unat d > 0" using less.prems by simp
    then have "2 ^ 64 - 2 * unat d < 2 ^ 64 - unat d" using l by (intro diff_less_mono2) simp_all
    then have "2 ^ 64 - unat (push_bit 1 d) < 2 ^ 64 - unat d" unfolding d .
    then have "\<exists>d' b' k'. udiv_scale n (push_bit 1 d) (push_bit 1 b) = Some (d', b') \<and> unat d' = d0 * 2 ^ k' \<and>
        unat b' = 2 ^ k' \<and> unat n < 2 * unat d'"
      using less.prems d b by (intro less.hyps [of _ "Suc k"]) simp_all
    then show ?thesis using True by (simp add: udiv_scale.simps [of n d b])
  next
    case False
    have "unat n < 2 ^ 64" using unsigned_less [of n, where 'a = nat] by simp
    moreover have "unat d > 0" using less.prems by simp
    ultimately have "unat n < 2 * unat d" using False by (auto simp only: drop_bit_63 not_less word_le_nat_alt de_Morgan_conj) simp
    moreover have "udiv_scale n d b = Some (d, b)" using False by (subst udiv_scale.simps) auto
    ultimately show ?thesis using less.prems by blast
  qed
qed

lemma or_is_add:
  assumes "2 ^ Suc k dvd unat (q :: u64)" "unat b = 2 ^ k"
  shows "unat (q OR b) = unat q + 2 ^ k"
proof -
  obtain c where "unat q = 2 ^ Suc k * c" using assms(1) ..
  then have "unat q = 2 ^ k * (2 * c)" by simp
  then have "\<not> bit (unat q) k" by (simp add: bit_iff_odd)
  then have "unat q AND 2 ^ k = 0" by (intro bit_eqI) (auto simp: bit_and_iff bit_exp_iff)
  then show ?thesis by (simp add: unsigned_or_eq assms(2) disjunctive_add_eq_or)
qed

text \<open>A turn takes the scaled divisor off, if it is there, and notes it.\<close>

lemma udiv_subtract_turn:
  assumes "unat d = d0 * 2 ^ k" "unat b = 2 ^ k" "unat n < 2 * unat d" "2 ^ Suc k dvd unat q"
  shows "\<exists>n1 q1 c. udiv_subtract n d b q = udiv_subtract n1 (drop_bit 1 d) (drop_bit 1 b) q1 \<and>
     unat n1 < unat d \<and> unat n = unat n1 + c * d0 * 2 ^ k \<and> unat q1 = unat q + c * 2 ^ k"
proof -
  have "b \<noteq> 0" using assms(2) by auto
  show ?thesis
  proof (cases "d \<le> n")
    case True
    then have "unat (n - d) = unat n - unat d" "unat d \<le> unat n" by (simp_all add: unat_sub word_le_nat_alt)
    note e = this
    show ?thesis
    proof (rule exI [of _ "n - d"], rule exI [of _ "q OR b"], rule exI [of _ "1 :: nat"], intro conjI)
      show "udiv_subtract n d b q = udiv_subtract (n - d) (drop_bit 1 d) (drop_bit 1 b) (q OR b)"
        using \<open>b \<noteq> 0\<close> True by (simp add: udiv_subtract.simps [of n d b q])
    qed (use e assms or_is_add [OF assms(4,2)] in simp_all)
  next
    case False
    show ?thesis
    proof (rule exI [of _ n], rule exI [of _ q], rule exI [of _ "0 :: nat"], intro conjI)
      show "udiv_subtract n d b q = udiv_subtract n (drop_bit 1 d) (drop_bit 1 b) q"
        using \<open>b \<noteq> 0\<close> False by (simp add: udiv_subtract.simps [of n d b q])
    qed (use False in \<open>simp_all add: not_le word_less_nat_alt\<close>)
  qed
qed

lemma udiv_subtract_divides:
  assumes "unat d = d0 * 2 ^ k" "unat b = 2 ^ k" "d0 > 0" "unat n < 2 * unat d" "2 ^ Suc k dvd unat q"
    "udiv_subtract n d b q = (n', q')"
  shows "unat n' = unat n mod d0 \<and> unat q' = unat q + unat n div d0"
  using assms
proof (induction k arbitrary: n d b q)
  case 0
  obtain n1 q1 c where t: "udiv_subtract n d b q = udiv_subtract n1 (drop_bit 1 d) (drop_bit 1 b) q1"
    "unat n1 < unat d" "unat n = unat n1 + c * d0" "unat q1 = unat q + c"
    using udiv_subtract_turn [OF 0(1,2,4,5)] by auto
  have "b = 1" using 0(2) by (simp add: word_unat_eq_iff)
  then have "n' = n1" "q' = q1" using 0(6) t(1) by (simp_all add: udiv_subtract.simps [of n1] drop_bit_eq_div)
  then show ?case using t 0(1,3) by simp
next
  case (Suc k)
  obtain n1 q1 c where t: "udiv_subtract n d b q = udiv_subtract n1 (drop_bit 1 d) (drop_bit 1 b) q1"
    "unat n1 < unat d" "unat n = unat n1 + c * d0 * 2 ^ Suc k" "unat q1 = unat q + c * 2 ^ Suc k"
    using udiv_subtract_turn [OF Suc.prems(1,2,4,5)] by blast
  have h: "unat (drop_bit 1 d) = d0 * 2 ^ k" "unat (drop_bit 1 b) = 2 ^ k"
    using Suc.prems(1,2) by (simp_all add: drop_bit_eq_div unat_div)
  have "2 ^ Suc k dvd unat q1" using dvd_trans [OF le_imp_power_dvd Suc.prems(5), of "Suc k"] unfolding t(4) by (intro dvd_add) simp_all
  then have "unat n' = unat n1 mod d0 \<and> unat q' = unat q1 + unat n1 div d0"
    using Suc.IH [OF h Suc.prems(3), of n1 q1] t(1,2) Suc.prems(1,6) h(1) by simp
  moreover have "unat n mod d0 = unat n1 mod d0" "unat n div d0 = unat n1 div d0 + c * 2 ^ Suc k"
    using t(3) Suc.prems(3) by (simp_all add: mult.assoc mult.left_commute [of c d0])
  ultimately show ?case using t(4) by simp
qed

lemma udivmoddi4_divides:
  assumes "d \<noteq> 0"
  shows "udivmoddi4 n d = Some (n div d, Some (n mod d))"
proof -
  have "unat d > 0" using assms by (simp add: unat_gt_0)
  then obtain d' b k where s: "udiv_scale n d 1 = Some (d', b)" "unat d' = unat d * 2 ^ k" "unat b = 2 ^ k" "unat n < 2 * unat d'"
    using udiv_scale_ends [of d "unat d" 0 1 n] by auto
  obtain n' q where r: "udiv_subtract n d' b 0 = (n', q)" by fastforce
  have "unat n' = unat n mod unat d \<and> unat q = unat n div unat d"
    using udiv_subtract_divides [OF s(2,3) \<open>unat d > 0\<close> s(4) _ r] by simp
  then have "n' = n mod d" "q = n div d" by (simp_all add: word_unat_eq_iff unat_div unat_mod)
  then show ?thesis using assms s(1) r by (simp add: udivmoddi4_def)
qed

lemma udivmoddi4_zero: "udivmoddi4 n 0 = Some (0, None)"
  by (simp add: udivmoddi4_def)

text \<open>What is divided is the absolute value, of the least number too.\<close>

lemma negated_abs: "(if negative n then - n else n) = of_int \<bar>sint n\<bar>"
  by (simp add: negative_def)

lemma uint_abs: "uint (of_int \<bar>sint (n :: u64)\<bar> :: u64) = \<bar>sint n\<bar>"
proof -
  have "\<bar>sint n\<bar> < 2 ^ 64" using sint_greater_eq [of n] sint_less [of n] by (simp add: abs_less_iff)
  then show ?thesis by (simp add: unsigned_of_int take_bit_int_eq_self)
qed

lemma word_div_abs:
  fixes n d :: u64
  defines "a \<equiv> of_int \<bar>sint n\<bar> :: u64" and "b \<equiv> of_int \<bar>sint d\<bar> :: u64"
  shows "a div b = of_int (\<bar>sint n\<bar> div \<bar>sint d\<bar>)" "a mod b = of_int (\<bar>sint n\<bar> mod \<bar>sint d\<bar>)"
proof -
  have u: "uint a = \<bar>sint n\<bar>" "uint b = \<bar>sint d\<bar>" by (simp_all add: a_def b_def uint_abs)
  have "uint (a div b) = \<bar>sint n\<bar> div \<bar>sint d\<bar>" "uint (a mod b) = \<bar>sint n\<bar> mod \<bar>sint d\<bar>" by (simp_all add: uint_div uint_mod u)
  then show "a div b = of_int (\<bar>sint n\<bar> div \<bar>sint d\<bar>)" "a mod b = of_int (\<bar>sint n\<bar> mod \<bar>sint d\<bar>)"
    using word_of_int_uint [of "a div b"] word_of_int_uint [of "a mod b"] by simp_all
qed

lemma abs_zero: "(of_int \<bar>sint (d :: u64)\<bar> :: u64) = 0 \<longleftrightarrow> d = 0"
proof
  assume "(of_int \<bar>sint d\<bar> :: u64) = 0"
  then have "sint d = 0" using uint_abs [of d] by simp
  then show "d = 0" by (simp add: word_uint_eq_iff uint_sint)
qed simp

section \<open>Properties\<close>

text \<open>
  A move puts the bytes that were at its source at its destination, and changes no other, also where the two overlap,
  and a copy does where they do not.
\<close>

lemma memmove_moves:
  assumes "unat d + n \<le> 2 ^ 64" "unat s + n \<le> 2 ^ 64"
  shows "read_bytes (memmove m d s n) d n = read_bytes m s n \<and>
     (\<forall>x. n \<le> unat (x - d) \<longrightarrow> memmove m d s n x = m x) \<and>
     ((\<forall>i j. i < n \<longrightarrow> j < n \<longrightarrow> s + of_nat j \<noteq> d + of_nat i) \<longrightarrow> memcpy m d s n = memmove m d s n)"
proof -
  have "read_bytes (upd_bytes m d (read_bytes m s n)) d n = read_bytes m s n"
  proof (rule nth_equalityI)
    fix i assume "i < length (read_bytes (upd_bytes m d (read_bytes m s n)) d n)"
    then have i: "i < n" "unat (of_nat i :: u64) = i" using assms(1) by (simp_all add: unat_of_nat)
    then show "read_bytes (upd_bytes m d (read_bytes m s n)) d n ! i = read_bytes m s n ! i"
      using assms(1) by (simp add: upd_bytes_inside)
  qed simp
  moreover have "upd_bytes m d (read_bytes m s n) x = m x" if "n \<le> unat (x - d)" for x
    using that by (simp add: upd_bytes_outside)
  ultimately show ?thesis using memmove_is [OF assms] memcpy_is [of n s d m] by auto
qed

text \<open>
  C39. The divisions return for all numbers. Those without a sign are the quotient and what is left; those with one are the division
  of integers that rounds to zero, taken modulo \<open>2 ^ 64\<close>, so that the least number divided by \<open>- 1\<close> is itself; and dividing
  by 0 gives 0, with nothing left.
\<close>

theorem divisions_divide:
  "udivdi3 n d = Some (if d = 0 then 0 else n div d) \<and> umoddi3 n d = Some (if d = 0 then 0 else n mod d) \<and>
   divdi3 n d = Some (of_int (sint n sdiv sint d)) \<and>
   moddi3 n d = Some (if d = 0 then 0 else of_int (sint n smod sint d))"
proof -
  have u: "udivdi3 a b = Some (if b = 0 then 0 else a div b)" "umoddi3 a b = Some (if b = 0 then 0 else a mod b)" for a b
    by (simp_all add: udivdi3_def umoddi3_def udivmoddi4_divides udivmoddi4_zero)
  have "divdi3 n d = Some (of_int (sint n sdiv sint d))"
    unfolding divdi3_def negated_abs u abs_zero word_div_abs
    by (auto simp: signed_divide_int_def negative_def sgn_if)
  moreover have "moddi3 n d = Some (if d = 0 then 0 else of_int (sint n smod sint d))"
    unfolding moddi3_def negated_abs u abs_zero word_div_abs
    by (auto simp: signed_modulo_int_def negative_def sgn_if)
  ultimately show ?thesis using u by simp
qed

end
