(* ===== verification/Spec2Isabelle.thy ===== *)
theory Spec2Isabelle
  imports MemoryProperties JitProperties StepProperties LiveSites OptimizeProperties ChainProperties JitCode LlvmProperties Z3 StubProperties StubFrame Stress Builtins
begin

text \<open>
  A verification of the native code of BAP in Lean: \<open>src/native\<close>, which Lean code calls to run lifted programs, to assemble and
  disassemble and to ask Z3, the stub of the differential tests, \<open>src/tools/difftest/stub.c\<close>, the test of the paged memory and
  the functions that programs under test are built with. The Lean sources
  state what they rely on as the numbered obligations of \<open>src/Bap/Jit.lean\<close>; many of the properties here are these.

  \<^bold>\<open>The parts and how they interact.\<close> A guest memory is a \<open>PagedMemory\<close> (\<open>paged_memory.h\<close>), a table of four levels of pages that
  threads read and write without locks. \<open>bap_jit.cpp\<close> exports it to Lean, compiles lists of operations to functions by LLVM, and
  runs these on a memory: what a run has is a \<open>BapCells\<close>, with a log of its stores, a filter of the addresses that no
  observer asks for, and the observers, which are Lean closures. Optimized programs have their slots on the stack and count
  their blocks once for many. Chains are programs that native code goes on to from one to the next without Lean in between.
  \<open>bap_llvm.cpp\<close> and \<open>bap_z3.cpp\<close> wrap libraries. The stub runs one instruction at a time on hardware for comparison.

  \<^bold>\<open>Shared theories.\<close> \<open>Prelude\<close> has the machine types, memories as functions from addresses to bytes, and facts on
  masks, words and lists; \<open>Bytes\<close> values as bytes in either order; \<open>Loops\<close> loops as partial functions, where None is a loop
  that goes on for ever, with rules of simulation and of termination; \<open>Interfaces\<close> the locales of what clients rely on: a memory
  of bytes and a log of stores, interpreted on the paged memory and on the store log.

  \<^bold>\<open>Paged memory\<close> (\<open>paged_memory.h\<close>). \<open>PagedMemory\<close> has the state, a record of nodes, chunks and the log of a step, with the
  operations on the table, where each allocation of a page, a node or a chunk asks a parameter \<open>host\<close> whether there is memory, so that
  failures are paths of the model, while the vectors of a memory (of its chunks, of pages it has left and of the addresses of a step) are taken to
  grow; \<open>PagedTable\<close> their invariant; \<open>PagedAccess\<close>, \<open>PagedBulk\<close>, \<open>PagedPages\<close> and \<open>PagedZero\<close> the
  operations on bytes, ranges and pages against the bytes that a memory has. \<open>PagedConc\<close> has threads: accesses within a word by
  their atomic steps, in any interleaving of them, allocations that race included; \<open>threads_linearizable\<close> is by an
  invariant over reachable states. Orders of memory weaker than sequential consistency are not modelled.

  \<^bold>\<open>Memories for Lean\<close> (\<open>bap_jit.cpp\<close> from line 1483). \<open>MemoryApi\<close> has the exported operations and \<open>ByteArrays\<close> those on byte
  arrays; \<open>MemoryProperties\<close> what is shown of them: writes fold over maps, loads give what was stored, a memory made from a dump has its
  bytes, ranges are zeroed to their very bytes, and all is freed once. \<open>StepProperties\<close> has what a step reports, over writes, zeros and runs of
  programs in any order.

  \<^bold>\<open>Runs\<close> (\<open>bap_jit.cpp\<close> up to line 1480, and 1703 to 1812). \<open>StoreLog\<close>, \<open>MemoryFilter\<close> and \<open>Cells\<close> have what a run has, and
  \<open>CellsAccess\<close> what a load or a store of compiled code does on each of its ways. \<open>JitOps\<close> has the operations, and what the code
  for each does, with the cases that LLVM leaves undefined as values of their own; \<open>JitCompile\<close> the checks, blocks
  and dispatch that \<open>compileOps\<close> makes; \<open>JitRun\<close> the exported runners; \<open>JitTrace\<close> the states that a run goes through; \<open>JitSound\<close> and \<open>JitProperties\<close> that blocks run as the
  list of operations says, that nothing undefined is reached, that a run gives what the operations denote, what it changed, and
  nothing once an observer has thrown in the middle of it, and that a run on an image of cells gives back no more cells than it has room for. \<open>LiveSites\<close> is what code at a site is told of a run. \<open>JitCode\<close> is where the code of programs is: the
  JITs of threads, and that a program is loaded for as long as Lean has it, by rule induction over calls of any threads.

  \<^bold>\<open>Optimization.\<close> \<open>JitOptimize\<close> has the copy without checks of its budget and the slots on the stack, as code for LLVM; \<open>BackEdges\<close>
  the search that finds jumps back, \<open>JitBudget\<close> and \<open>JitPromote\<close> the two simulations, and \<open>OptimizeProperties\<close> that an
  optimized program that runs on its own does what the same operations do otherwise. That is for code observers that don't look at the slots, and for
  programs that count blocks out of their budget as \<open>enterBlock\<close> of \<open>src/Bap/Primus/Lifted.lean\<close> does, with and without a guard
  around a code site (\<open>budgeted\<close>).

  \<^bold>\<open>Chains\<close> (\<open>bap_jit.cpp\<close>, 1813 to 2164). \<open>ChainEntries\<close> has chains, their pointers and references, \<open>ChainRun\<close> a run of one by
  its turns, \<open>ChainRegisters\<close>, \<open>ChainPlain\<close> and \<open>ChainCounts\<close> its invariants, and \<open>ChainProperties\<close> that what entries remember
  changes nothing, that counts add up, that a failed run is taken back, and that a run returns if its ranges do.

  \<^bold>\<open>LLVM and Z3.\<close> \<open>Llvm\<close> models \<open>bap_llvm.cpp\<close> and \<open>Z3\<close> models \<open>bap_z3.cpp\<close>; the libraries are records of functions, as
  parameters. \<open>LlvmProperties\<close> shows that a call answers what it would without the earlier calls, but for what the decoder of its own triple
  remembers of what it decoded (as that of ARM does) and for the opcodes of a triple without a target, that the two ways to disassemble agree, and that
  names and numbers go there and back; \<open>Z3\<close> that every path leaves nothing behind.

  \<^bold>\<open>The stub.\<close> \<open>DiffStub\<close> has its C code and where each register is in the assembly of the twelve targets; \<open>StubLayout\<close> that
  these places do not overlap; \<open>StubProperties\<close> that it implements a specification without state. The instruction that is run is a parameter
  \<open>cpu\<close> that changes registers, the window and a state of its own that isn't in registers of the record, and nothing else of the stub; that its
  answers don't depend on that state is the hypothesis \<open>blind\<close>, which stands for the resets that the assembly does (\<open>ldmxcsr\<close>). \<open>StubFrame\<close> has what \<open>enter\<close> and
  \<open>recover\<close> do with the stack of their caller: the caller has its stack and general registers back, though not the registers of floats and vectors, and
  its stack is written on one target.

  \<^bold>\<open>Tests.\<close> \<open>Stress\<close> models \<open>paged_memory_stress.cpp\<close> on the paged memory, block by block, and shows that no check of it fails,
  the blocks of threads for every interleaving. \<open>Builtins\<close> models \<open>testsuite/musl/builtins.c\<close>: moves between places that
  overlap, strings, and 64-bit division by shifts and subtractions, which is shown to be division.

  \<^bold>\<open>Bounds.\<close> Fuel is used once, for the pages that \<open>zeroRange\<close> goes through one by one, \<open>2 ^ 16\<close>, which \<open>zeroRange_ok\<close> shows to be
  enough. Other loops that end have proofs of it, and those that may not are partial functions into option, about
  which returning is stated as such (\<open>forward_program_returns\<close>, \<open>run_chain_returns\<close>, \<open>divisions_divide\<close>). Words are of their width, and sizes of
  containers are natural numbers.

  \<^bold>\<open>Not modelled.\<close> What LLVM does with the code it is given: the passes (\<open>bap_jit.cpp\<close>, 1297 to 1321) and linking. The objects of Lean and their reference counts, but for those that chains have. In chains, vectors are
  taken to grow, and observers to leave the chain that runs alone. In the stub, which registers system calls pass
  arguments in. Of the test of the paged memory, the blocks on release and acquire and on a store beside
  \<open>zeroRange\<close>, as threads here are accesses within words in no order of their own, and what the system holds (\<open>mincore\<close>). The system
  calls of \<open>builtins.c\<close>. The programs under \<open>src/testsuite/src\<close> are inputs of tests, the sources under \<open>src/Bap\<close> are Lean with proofs of their own, and those under \<open>src/semantics\<close> are data.
\<close>

end
